(* ===== verification/Pke_Prelude.thy ===== *)
theory Pke_Prelude
  imports Main "HOL-Library.Word"
begin

unbundle bit_operations_syntax

text \<open>
  Shared material of the development: the integer types of \<^verbatim>\<open>util/types.h\<close>, the ways in
  which kernel code can fail to return (as values of a sum type), the sequencing operator the
  models are written with, and the generic lemmas on words and lists that several components use.
\<close>

section \<open>Machine integers\<close>

type_synonym uint8 = "8 word"
type_synonym uint16 = "16 word"
type_synonym uint32 = "32 word"
type_synonym uint64 = "64 word"

text \<open>The C expression \<^verbatim>\<open>1ULL << n\<close>.\<close>

definition shl1 :: "nat \<Rightarrow> uint64" where
  "shl1 n = push_bit n 1"

section \<open>Results of kernel code\<close>

text \<open>
  A kernel function either returns or ends in one of these ways.
  \<open>Panic\<close> is \<^verbatim>\<open>panic(msg)\<close> (\<^verbatim>\<open>do_panic\<close>, which shuts the machine down and never returns),
  \<open>AssertFail\<close> a failing \<^verbatim>\<open>kassert\<close> or \<^verbatim>\<open>assert\<close>, \<open>Shutdown\<close> a call of \<^verbatim>\<open>shutdown(code)\<close>,
  \<open>Spin\<close> a busy-waiting loop that never ends, \<open>OutOfBounds\<close> an access outside the array it
  indexes, \<open>NullDeref\<close> an access through a null pointer and \<open>Undefined\<close> a call of a compiler
  builtin outside its domain.
\<close>

datatype kerror =
    Panic string
  | AssertFail string
  | Shutdown int
  | Spin
  | OutOfBounds
  | NullDeref
  | Undefined

type_synonym 'a res = "kerror + 'a"

text \<open>Sequencing: the rest of the code runs on the value of the first part, if it returned.\<close>

fun bindE :: "'a res \<Rightarrow> ('a \<Rightarrow> 'b res) \<Rightarrow> 'b res" where
  "bindE (Inl e) f = Inl e"
| "bindE (Inr x) f = f x"

definition guardE :: "bool \<Rightarrow> kerror \<Rightarrow> unit res" where
  "guardE b e = (if b then Inr () else Inl e)"

named_theorems res_simps \<open>rewriting of sequenced results\<close>

lemma bindE_Inr_iff [res_simps]: "bindE m f = Inr y \<longleftrightarrow> (\<exists>x. m = Inr x \<and> f x = Inr y)"
  by (cases m) auto

lemma bindE_Inl_iff:
  "bindE m f = Inl e \<longleftrightarrow> m = Inl e \<or> (\<exists>x. m = Inr x \<and> f x = Inl e)"
  by (cases m) auto

lemma guardE_Inr_iff [res_simps]: "guardE b e = Inr u \<longleftrightarrow> b"
  by (simp add: guardE_def)

lemma guardE_True [simp]: "guardE True e = Inr ()"
  by (simp add: guardE_def)

lemma guardE_False [simp]: "guardE False e = Inl e"
  by (simp add: guardE_def)

lemma bindE_cong [fundef_cong]:
  "m = m' \<Longrightarrow> (\<And>x. m' = Inr x \<Longrightarrow> f x = g x) \<Longrightarrow> bindE m f = bindE m' g"
  by (cases m') auto

lemma bindE_assoc: "bindE (bindE m f) g = bindE m (\<lambda>x. bindE (f x) g)"
  by (cases m) auto

section \<open>Words as numbers\<close>

lemma unat_push_bit_1:
  assumes "n < LENGTH('a)"
  shows "unat (push_bit n (1 :: 'a::len word)) = 2 ^ n"
proof -
  have "unat (push_bit n (1 :: 'a word)) = take_bit LENGTH('a) (push_bit n (unat (1 :: 'a word)))"
    by (rule unsigned_push_bit_eq)
  also have "\<dots> = take_bit LENGTH('a) (2 ^ n)"
    by (simp add: push_bit_eq_mult)
  also have "\<dots> = 2 ^ n"
    using assms by (simp add: take_bit_nat_eq_self_iff)
  finally show ?thesis .
qed

lemma unat_shl1: "n < 64 \<Longrightarrow> unat (shl1 n) = 2 ^ n"
  unfolding shl1_def by (rule unat_push_bit_1) simp

lemma bit_shl1: "bit (shl1 n) m \<longleftrightarrow> m = n \<and> n < 64"
  by (auto simp: shl1_def bit_exp_iff)

lemma unat_add_noof:
  "unat (a :: 'a::len word) + unat b < 2 ^ LENGTH('a) \<Longrightarrow> unat (a + b) = unat a + unat b"
  by (simp add: unat_word_ariths)

lemma unat_sub_le:
  "b \<le> a \<Longrightarrow> unat (a - b) = unat a - unat (b :: 'a::len word)"
  by (simp add: unat_sub)

lemma unat_mult_noof:
  "unat (a :: 'a::len word) * unat b < 2 ^ LENGTH('a) \<Longrightarrow> unat (a * b) = unat a * unat b"
  by (simp add: unat_word_ariths)

lemma push_drop_bit_eq: "push_bit n (drop_bit n (a :: 'a::len word)) = a AND NOT (mask n)"
  by (auto simp: bit_eq_iff bit_simps)

lemma unat_and_not_mask: "unat ((a :: 'a::len word) AND NOT (mask n)) = unat a div 2 ^ n * 2 ^ n"
proof -
  have "unat (a AND NOT (mask n)) = take_bit LENGTH('a) (push_bit n (drop_bit n (unat a)))"
    by (simp flip: push_drop_bit_eq add: unsigned_push_bit_eq unat_drop_bit_eq)
  also have "push_bit n (drop_bit n (unat a)) = unat a div 2 ^ n * 2 ^ n"
    by (simp add: push_bit_eq_mult drop_bit_eq_div)
  also have "take_bit LENGTH('a) \<dots> = unat a div 2 ^ n * 2 ^ n"
    by (simp add: take_bit_nat_eq_self_iff)
      (metis div_times_less_eq_dividend le_less_trans unsigned_less)
  finally show ?thesis .
qed

lemma word_less_iff_unat: "(a :: 'a::len word) < b \<longleftrightarrow> unat a < unat b"
  by (rule word_less_nat_alt)

lemma word_le_iff_unat: "(a :: 'a::len word) \<le> b \<longleftrightarrow> unat a \<le> unat b"
  by (rule word_le_nat_alt)

section \<open>Counting zero bits\<close>

text \<open>\<^verbatim>\<open>__builtin_ctzll\<close> and \<^verbatim>\<open>__builtin_clzll\<close>, which are defined for non-zero arguments.\<close>

definition ctzll :: "uint64 \<Rightarrow> nat" where
  "ctzll w = length (takeWhile (\<lambda>i. \<not> bit w i) [0..<64])"

definition clzll :: "uint64 \<Rightarrow> nat" where
  "clzll w = length (takeWhile (\<lambda>i. \<not> bit w (63 - i)) [0..<64])"

lemma takeWhile_upt_stop:
  assumes "i < n" "\<not> P i"
  shows "length (takeWhile P [0..<n]) < n \<and> \<not> P (length (takeWhile P [0..<n])) \<and>
    (\<forall>j < length (takeWhile P [0..<n]). P j)"
proof -
  let ?k = "length (takeWhile P [0..<n])"
  have all: "P j" if "j < ?k" for j
  proof -
    have "takeWhile P [0..<n] ! j \<in> set (takeWhile P [0..<n])" using that by simp
    moreover have "takeWhile P [0..<n] ! j = [0..<n] ! j" using that by (rule takeWhile_nth)
    moreover have "?k \<le> n" using length_takeWhile_le [of P "[0..<n]"] by simp
    ultimately show ?thesis using that by (metis (no_types) add_0 nth_upt less_le_trans set_takeWhileD)
  qed
  have "?k \<le> i" using all assms(2) by (meson not_le)
  with assms(1) have k: "?k < n" by simp
  then have "\<not> P ([0..<n] ! ?k)" using nth_length_takeWhile [of P "[0..<n]"] by simp
  with k all show ?thesis by simp
qed

lemma word_nonzero_bit: "(w :: uint64) \<noteq> 0 \<Longrightarrow> \<exists>i<64. bit w i"
  by (auto simp: bit_eq_iff)

lemma ctzll_dvd:
  assumes "w \<noteq> 0"
  shows "ctzll w < 64" "bit w (ctzll w)" "2 ^ ctzll w dvd unat w"
proof -
  from word_nonzero_bit [OF assms] obtain i where "i < 64" "bit w i" by blast
  then have a: "ctzll w < 64 \<and> \<not> \<not> bit w (ctzll w) \<and> (\<forall>j<ctzll w. \<not> bit w j)"
    unfolding ctzll_def using takeWhile_upt_stop [of i 64 "\<lambda>i. \<not> bit w i"] by simp
  then show "ctzll w < 64" "bit w (ctzll w)" by auto
  have "take_bit (ctzll w) (unat w) = 0"
    using a by (auto simp: bit_eq_iff bit_take_bit_iff bit_unsigned_iff)
  then show "2 ^ ctzll w dvd unat w" by (simp add: take_bit_eq_0_iff)
qed

lemma bit_nat_le: "bit (n :: nat) i \<Longrightarrow> 2 ^ i \<le> n"
  by (metis bit_iff_odd div_less even_zero not_le)

lemma clzll_log:
  assumes "w \<noteq> 0"
  shows "clzll w < 64" "2 ^ (63 - clzll w) \<le> unat w" "unat w < 2 ^ (64 - clzll w)"
proof -
  from word_nonzero_bit [OF assms] obtain i where i: "i < 64" "bit w i" by blast
  then have "bit w (63 - (63 - i))" by simp
  with i have a: "clzll w < 64 \<and> \<not> \<not> bit w (63 - clzll w) \<and> (\<forall>j<clzll w. \<not> bit w (63 - j))"
    unfolding clzll_def using takeWhile_upt_stop [of "63 - i" 64 "\<lambda>i. \<not> bit w (63 - i)"] by simp
  then show "clzll w < 64" by simp
  from a have "bit (unat w) (63 - clzll w)" by (simp add: bit_unsigned_iff)
  then show "2 ^ (63 - clzll w) \<le> unat w" by (rule bit_nat_le)
  have hi: "\<not> bit w j" if "64 - clzll w \<le> j" for j
  proof (cases "j < 64")
    case True
    then have "63 - (63 - j) = j" "63 - j < clzll w" using that by auto
    with a show ?thesis by metis
  next
    case False
    then show ?thesis using bit_imp_le_length [of w j] by auto
  qed
  have "bit (take_bit (64 - clzll w) (unat w)) j = bit (unat w) j" for j
    using hi [of j] by (cases "j < 64 - clzll w") (auto simp: bit_take_bit_iff bit_unsigned_iff)
  then have "take_bit (64 - clzll w) (unat w) = unat w" by (simp add: bit_eq_iff)
  then show "unat w < 2 ^ (64 - clzll w)" by (metis take_bit_nat_less_exp)
qed

section \<open>List update\<close>

lemma nth_update_cases: "xs[i := x] ! j = (if i = j \<and> i < length xs then x else xs ! j)"
  by (cases "i = j"; cases "i < length xs") (auto simp: list_update_beyond)

end
