(* ===== verification/Pke_Outcome.thy ===== *)
theory Pke_Outcome
  imports Pke_Prelude
begin

text \<open>
  Results of code that may fail or may never end: an option over the results of the prelude,
  with its sequencing operator and the monotonicity rule that lets partial functions use it.
\<close>

section \<open>Code that may not end\<close>

type_synonym 'a outcome = "'a res option"

definition bindO :: "'a outcome \<Rightarrow> ('a \<Rightarrow> 'b outcome) \<Rightarrow> 'b outcome" where
  "bindO r f = Option.bind r (\<lambda>e. case e of Inl err \<Rightarrow> Some (Inl err) | Inr x \<Rightarrow> f x)"

abbreviation returnO :: "'a \<Rightarrow> 'a outcome" where
  "returnO x \<equiv> Some (Inr x)"

lemma bindO_simps [simp]:
  "bindO None f = None"
  "bindO (Some (Inl e)) f = Some (Inl e)"
  "bindO (returnO x) g = g x"
  by (simp_all add: bindO_def)

lemma bindO_assoc: "bindO (bindO r f) g = bindO r (\<lambda>x. bindO (f x) g)"
  by (cases r) (auto simp: bindO_def split: sum.split)

lemma bindO_cong [fundef_cong]:
  "r = s \<Longrightarrow> (\<And>x. s = returnO x \<Longrightarrow> f x = g x) \<Longrightarrow> bindO r f = bindO s g"
  by (cases s) (auto simp: bindO_def split: sum.split)

lemma bindO_mono [partial_function_mono]:
  assumes "mono_option B" "\<And>y. mono_option (\<lambda>f. C y f)"
  shows "mono_option (\<lambda>f. bindO (B f) (\<lambda>y. C y f))"
  unfolding bindO_def
proof (rule bind_mono [OF assms(1)])
  fix e :: "kerror + 'c"
  show "mono_option (\<lambda>f. case e of Inl err \<Rightarrow> Some (Inl err) | Inr x \<Rightarrow> C x f)"
    using assms(2) by (cases e) (auto simp: monotone_def option.leq_refl)
qed

end
