(* ===== verification/Pke_Riscv.thy ===== *)
theory Pke_Riscv
  imports Pke_Prelude
begin

text \<open>
  The constants and address macros of \<^verbatim>\<open>kernel/riscv.h\<close>, \<^verbatim>\<open>kernel/memlayout.h\<close>,
  \<^verbatim>\<open>kernel/config.h\<close> and \<^verbatim>\<open>util/functions.h\<close>: page size and rounding, the Sv39 page table
  indices and entries, the interrupt-enable bit of \<^verbatim>\<open>sstatus\<close>, and the register file saved
  in a trap frame.
\<close>

named_theorems riscv_consts \<open>the values of the address-space constants\<close>

section \<open>Layout and configuration\<close>

definition DRAM_BASE :: uint64 where [riscv_consts]: "DRAM_BASE = 0x80000000"
definition KERN_BASE :: uint64 where [riscv_consts]: "KERN_BASE = 0x80000000"
definition USER_STACK_TOP :: uint64 where [riscv_consts]: "USER_STACK_TOP = 0x7ffff000"
definition PGSIZE :: uint64 where [riscv_consts]: "PGSIZE = 4096"
definition PGSHIFT :: nat where [riscv_consts]: "PGSHIFT = 12"
definition USER_FREE_ADDRESS_START :: uint64 where
  [riscv_consts]: "USER_FREE_ADDRESS_START = 0x00000000 + PGSIZE * 1024"
definition NCPU :: nat where [riscv_consts]: "NCPU = 1"
definition PKE_MAX_ALLOWABLE_RAM :: uint64 where
  [riscv_consts]: "PKE_MAX_ALLOWABLE_RAM = 128 * 1024 * 1024"
definition PHYS_TOP :: uint64 where
  [riscv_consts]: "PHYS_TOP = DRAM_BASE + PKE_MAX_ALLOWABLE_RAM"

section \<open>Rounding and minimum\<close>

definition ROUNDUP :: "uint64 \<Rightarrow> uint64 \<Rightarrow> uint64" where
  "ROUNDUP a b = (a + b - 1) AND NOT (b - 1)"

definition ROUNDDOWN :: "uint64 \<Rightarrow> uint64 \<Rightarrow> uint64" where
  "ROUNDDOWN a b = a AND NOT (b - 1)"

definition MIN2 :: "uint64 \<Rightarrow> uint64 \<Rightarrow> uint64" where
  "MIN2 a b = (if a < b then a else b)"

lemma PGSIZE_mask: "PGSIZE - 1 = mask 12"
  by (simp add: PGSIZE_def mask_eq_decr_exp)

lemma unat_PGSIZE [simp]: "unat PGSIZE = 4096"
  by (simp add: PGSIZE_def)

lemma unat_DRAM_BASE [simp]: "unat DRAM_BASE = 0x80000000"
  by (simp add: DRAM_BASE_def)

lemma unat_ROUNDDOWN_page: "unat (ROUNDDOWN a PGSIZE) = unat a div 4096 * 4096"
  using unat_and_not_mask [of a 12] by (simp add: ROUNDDOWN_def PGSIZE_mask)

lemma unat_ROUNDUP_pow2:
  assumes "b = 2 ^ n" and "n < 64" and "unat a + 2 ^ n - 1 < 2 ^ 64"
  shows "unat (ROUNDUP a b) = (unat a + 2 ^ n - 1) div 2 ^ n * 2 ^ n"
proof -
  have m: "b - 1 = mask n" using assms(1) by (simp add: mask_eq_decr_exp)
  have b: "unat b = 2 ^ n"
    using unat_push_bit_1 [of n, where ?'a = 64] assms by (simp add: push_bit_eq_mult)
  have "unat (a + (b - 1)) = unat a + unat (b - 1)"
    using assms b by (intro unat_add_noof) (simp add: unat_sub_if_size word_le_nat_alt)
  moreover have "unat (b - 1) = 2 ^ n - 1"
    using b by (subst unat_sub_le) (simp_all add: word_le_nat_alt)
  ultimately have "unat (a + b - 1) = unat a + 2 ^ n - 1" by (simp add: algebra_simps)
  then show ?thesis using unat_and_not_mask [of "a + b - 1" n] by (simp add: ROUNDUP_def m)
qed


section \<open>Sv39 page tables\<close>

type_synonym pte_t = uint64

definition PTE_V :: pte_t where "PTE_V = push_bit 0 1"
definition PTE_R :: pte_t where "PTE_R = push_bit 1 1"
definition PTE_W :: pte_t where "PTE_W = push_bit 2 1"
definition PTE_X :: pte_t where "PTE_X = push_bit 3 1"
definition PTE_U :: pte_t where "PTE_U = push_bit 4 1"
definition PTE_G :: pte_t where "PTE_G = push_bit 5 1"
definition PTE_A :: pte_t where "PTE_A = push_bit 6 1"
definition PTE_D :: pte_t where "PTE_D = push_bit 7 1"
definition PTE_COW :: pte_t where "PTE_COW = push_bit 8 1"

lemmas pte_flag_defs = PTE_V_def PTE_R_def PTE_W_def PTE_X_def PTE_U_def PTE_G_def
  PTE_A_def PTE_D_def PTE_COW_def

definition PA2PTE :: "uint64 \<Rightarrow> pte_t" where
  "PA2PTE pa = push_bit 10 (drop_bit 12 pa)"

definition PTE2PA :: "pte_t \<Rightarrow> uint64" where
  "PTE2PA pte = push_bit 12 (drop_bit 10 pte)"

definition PTE_FLAGS :: "pte_t \<Rightarrow> uint64" where
  "PTE_FLAGS pte = pte AND 0x3FF"

definition PXMASK :: uint64 where "PXMASK = 0x1FF"

definition PXSHIFT :: "nat \<Rightarrow> nat" where
  "PXSHIFT level = PGSHIFT + 9 * level"

definition PX :: "nat \<Rightarrow> uint64 \<Rightarrow> uint64" where
  "PX level va = drop_bit (PXSHIFT level) va AND PXMASK"

definition MAXVA :: uint64 where [riscv_consts]: "MAXVA = push_bit (9 + 9 + 9 + 12 - 1) 1"

definition SATP_SV39 :: uint64 where "SATP_SV39 = push_bit 60 8"

definition MAKE_SATP :: "uint64 \<Rightarrow> uint64" where
  "MAKE_SATP pagetable = SATP_SV39 OR drop_bit 12 pagetable"

text \<open>Page-aligned addresses, and what the entry macros keep of them.\<close>

definition page_aligned :: "uint64 \<Rightarrow> bool" where
  "page_aligned a \<longleftrightarrow> a AND mask 12 = 0"

lemma page_aligned_bit: "page_aligned a \<longleftrightarrow> (\<forall>i<12. \<not> bit a i)"
proof -
  have "page_aligned a \<longleftrightarrow> (\<forall>i<64. bit a i \<longrightarrow> \<not> i < 12)"
    by (auto simp: page_aligned_def bit_eq_iff bit_simps)
  moreover have "i < 64" if "i < 12" for i :: nat using that by simp
  ultimately show ?thesis by blast
qed

lemma page_aligned_unat: "page_aligned a \<longleftrightarrow> 4096 dvd unat a"
proof -
  have "unat (a AND mask 12) = unat (take_bit 12 a)" by (simp add: take_bit_eq_mask)
  also have "\<dots> = unat a mod 4096"
    by (simp only: unsigned_take_bit_eq) (simp add: take_bit_eq_mod)
  finally show ?thesis by (auto simp: page_aligned_def simp flip: unat_eq_0)
qed

lemma take_bit_eq_self_bit: "take_bit n w = w \<Longrightarrow> bit (w :: 'a::len word) m \<Longrightarrow> m < n"
  by (metis bit_take_bit_iff)

lemma PTE2PA_PA2PTE:
  assumes "page_aligned pa" and "take_bit 10 perm = perm"
  shows "PTE2PA (PA2PTE pa OR perm) = pa"
proof (rule bit_eqI)
  fix n assume "possible_bit TYPE(uint64) n"
  then have "n < 64" by simp
  then show "bit (PTE2PA (PA2PTE pa OR perm)) n = bit pa n"
    using assms(1) take_bit_eq_self_bit [OF assms(2), of "n - 2"]
    by (cases "n < 12") (auto simp: PTE2PA_def PA2PTE_def page_aligned_bit bit_simps)
qed

lemma page_aligned_PTE2PA: "page_aligned (PTE2PA pte)"
  by (auto simp: page_aligned_bit PTE2PA_def bit_simps)

lemma PX_bit: "bit (PX level va) n \<longleftrightarrow> n < 9 \<and> bit va (PXSHIFT level + n)"
proof -
  have m: "PXMASK = mask 9" by (simp add: PXMASK_def mask_eq_exp_minus_1)
  have "bit PXMASK n \<longleftrightarrow> n < 9" unfolding m by (auto simp: bit_mask_iff)
  then show ?thesis by (auto simp: PX_def bit_simps)
qed

lemma PX_less: "PX level va < 512"
proof -
  have "PX level va = take_bit 9 (PX level va)"
    by (rule bit_eqI) (auto simp: bit_simps PX_bit)
  then have "unat (PX level va) = take_bit 9 (unat (PX level va))"
    by (metis unsigned_take_bit_eq)
  then have "unat (PX level va) < 2 ^ 9"
    by (metis take_bit_nat_less_exp)
  then show ?thesis by (simp add: word_less_nat_alt)
qed


section \<open>Interrupt enable\<close>

text \<open>
  \<^verbatim>\<open>csrrc old, sstatus, 2\<close> reads \<^verbatim>\<open>sstatus\<close> and clears its bit 1 (\<^verbatim>\<open>SSTATUS_SIE\<close>);
  the old bit is the flag that \<^verbatim>\<open>enable_irqrestore\<close> uses to set it again.
\<close>

definition SSTATUS_SIE :: uint64 where "SSTATUS_SIE = push_bit 1 1"
definition SSTATUS_SPIE :: uint64 where "SSTATUS_SPIE = push_bit 5 1"
definition SSTATUS_SPP :: uint64 where "SSTATUS_SPP = push_bit 8 1"

definition intr_on :: "uint64 \<Rightarrow> uint64" where
  "intr_on sstatus = sstatus OR SSTATUS_SIE"

definition intr_off :: "uint64 \<Rightarrow> uint64" where
  "intr_off sstatus = sstatus AND NOT SSTATUS_SIE"

definition is_intr_enable :: "uint64 \<Rightarrow> bool" where
  "is_intr_enable sstatus \<longleftrightarrow> sstatus AND SSTATUS_SIE \<noteq> 0"

definition disable_irqsave :: "uint64 \<Rightarrow> uint64 \<times> uint64" where
  "disable_irqsave sstatus = (sstatus AND 2, sstatus AND NOT 2)"

definition enable_irqrestore :: "uint64 \<Rightarrow> uint64 \<Rightarrow> uint64" where
  "enable_irqrestore flags sstatus = (if flags \<noteq> 0 then sstatus OR 2 else sstatus)"

lemma single_bit_clear_restore:
  fixes w m :: "'a::len word"
  assumes m: "\<And>n. bit m n \<longleftrightarrow> n = k"
  shows "(if w AND m \<noteq> 0 then (w AND NOT m) OR m else w AND NOT m) = w"
proof (cases "bit w k")
  case True
  then have "bit (w AND m) k" using m by (simp add: bit_and_iff)
  then have "w AND m \<noteq> 0" by (metis bit_0_eq bot_apply bot_bool_def)
  moreover have "(w AND NOT m) OR m = w"
    by (rule bit_eqI) (use True in \<open>auto simp: bit_and_iff bit_or_iff bit_not_iff m\<close>)
  ultimately show ?thesis by simp
next
  case False
  have "w AND m = 0"
    by (rule bit_eqI) (use False in \<open>auto simp: bit_and_iff m\<close>)
  moreover have "w AND NOT m = w"
    by (rule bit_eqI) (use False in \<open>auto simp: bit_and_iff bit_not_iff m\<close>)
  ultimately show ?thesis by simp
qed

lemma irq_save_restore:
  "case disable_irqsave sstatus of (flags, masked) \<Rightarrow>
     \<not> is_intr_enable masked \<and> enable_irqrestore flags masked = sstatus"
proof -
  have two: "(2 :: uint64) = push_bit 1 1" by (simp add: push_bit_eq_mult)
  have b2: "bit (2 :: uint64) n \<longleftrightarrow> n = 1" for n
    unfolding two by (auto simp: bit_simps)
  have "\<not> is_intr_enable (sstatus AND NOT 2)"
    unfolding is_intr_enable_def SSTATUS_SIE_def two [symmetric]
    by (simp add: and.assoc)
  then show ?thesis
    using single_bit_clear_restore [OF b2, of sstatus]
    by (simp only: disable_irqsave_def enable_irqrestore_def case_prod_conv simp_thms)
qed

section \<open>Causes of traps\<close>

definition CAUSE_MISALIGNED_FETCH :: uint64 where "CAUSE_MISALIGNED_FETCH = 0x0"
definition CAUSE_FETCH_ACCESS :: uint64 where "CAUSE_FETCH_ACCESS = 0x1"
definition CAUSE_ILLEGAL_INSTRUCTION :: uint64 where "CAUSE_ILLEGAL_INSTRUCTION = 0x2"
definition CAUSE_BREAKPOINT :: uint64 where "CAUSE_BREAKPOINT = 0x3"
definition CAUSE_MISALIGNED_LOAD :: uint64 where "CAUSE_MISALIGNED_LOAD = 0x4"
definition CAUSE_LOAD_ACCESS :: uint64 where "CAUSE_LOAD_ACCESS = 0x5"
definition CAUSE_MISALIGNED_STORE :: uint64 where "CAUSE_MISALIGNED_STORE = 0x6"
definition CAUSE_STORE_ACCESS :: uint64 where "CAUSE_STORE_ACCESS = 0x7"
definition CAUSE_USER_ECALL :: uint64 where "CAUSE_USER_ECALL = 0x8"
definition CAUSE_FETCH_PAGE_FAULT :: uint64 where "CAUSE_FETCH_PAGE_FAULT = 0xc"
definition CAUSE_LOAD_PAGE_FAULT :: uint64 where "CAUSE_LOAD_PAGE_FAULT = 0xd"
definition CAUSE_STORE_PAGE_FAULT :: uint64 where "CAUSE_STORE_PAGE_FAULT = 0xf"
definition CAUSE_MTIMER :: uint64 where "CAUSE_MTIMER = 0x8000000000000007"
definition CAUSE_MTIMER_S_TRAP :: uint64 where "CAUSE_MTIMER_S_TRAP = 0x8000000000000001"

lemmas cause_defs = CAUSE_USER_ECALL_def CAUSE_LOAD_PAGE_FAULT_def CAUSE_STORE_PAGE_FAULT_def
  CAUSE_MTIMER_S_TRAP_def

lemmas cause_numbers = cause_defs CAUSE_MISALIGNED_FETCH_def CAUSE_FETCH_ACCESS_def CAUSE_ILLEGAL_INSTRUCTION_def
  CAUSE_BREAKPOINT_def CAUSE_MISALIGNED_LOAD_def CAUSE_LOAD_ACCESS_def CAUSE_MISALIGNED_STORE_def
  CAUSE_STORE_ACCESS_def CAUSE_FETCH_PAGE_FAULT_def CAUSE_MTIMER_def

section \<open>The saved register file\<close>

record riscv_regs =
  r_ra :: uint64  r_sp :: uint64  r_gp :: uint64  r_tp :: uint64
  r_t0 :: uint64  r_t1 :: uint64  r_t2 :: uint64  r_s0 :: uint64
  r_s1 :: uint64  r_a0 :: uint64  r_a1 :: uint64  r_a2 :: uint64
  r_a3 :: uint64  r_a4 :: uint64  r_a5 :: uint64  r_a6 :: uint64
  r_a7 :: uint64  r_s2 :: uint64  r_s3 :: uint64  r_s4 :: uint64
  r_s5 :: uint64  r_s6 :: uint64  r_s7 :: uint64  r_s8 :: uint64
  r_s9 :: uint64  r_s10 :: uint64  r_s11 :: uint64  r_t3 :: uint64
  r_t4 :: uint64  r_t5 :: uint64  r_t6 :: uint64

end
