(* ===== verification/Pke_Htif.thy ===== *)
theory Pke_Htif
  imports Pke_Outcome Pke_Riscv Pke_Strings
begin

text \<open>
  The host interface: the spinlock of \<^verbatim>\<open>spike_interface/atomic.h\<close>, the \<^verbatim>\<open>tohost\<close>/\<^verbatim>\<open>fromhost\<close> protocol
  of \<^verbatim>\<open>spike_interface/spike_htif.c\<close> and the system calls proxied to the host by
  \<^verbatim>\<open>frontend_syscall\<close> of \<^verbatim>\<open>spike_interface/spike_utils.c\<close>. The emulator on the other side is a
  parameter: a function on the shared state that acts before each poll of a shared word.
\<close>

section \<open>Atomic operations\<close>

text \<open>
  \<^verbatim>\<open>atomic_binop\<close>, \<^verbatim>\<open>atomic_read\<close> and \<^verbatim>\<open>atomic_set\<close> have no definition in the repository. They are
  parameters, on 32-bit cells; \<open>atomics_ok\<close> is their documented behaviour: \<^verbatim>\<open>atomic_binop(ptr, inc, op)\<close>
  stores \<^verbatim>\<open>op\<close>, in which \<^verbatim>\<open>res\<close> is the old value, and returns the old value.
\<close>

record atomics =
  at_read :: "uint32 \<Rightarrow> uint32"
  at_set :: "uint32 \<Rightarrow> uint32 \<Rightarrow> uint32"
  at_binop :: "(uint32 \<Rightarrow> uint32) \<Rightarrow> uint32 \<Rightarrow> uint32 \<times> uint32"

definition atomics_ok :: "atomics \<Rightarrow> bool" where
  "atomics_ok at \<longleftrightarrow> (\<forall>c. at_read at c = c) \<and> (\<forall>v c. at_set at v c = v) \<and> (\<forall>op c. at_binop at op c = (c, op c))"

definition atomic_binop_d :: "uint64 \<Rightarrow> uint64 \<Rightarrow> uint64 \<Rightarrow> uint64 \<times> uint64" where
  "atomic_binop_d cell inc op = (cell, cell + op)"

definition atomic_binop_w :: "uint32 \<Rightarrow> uint32 \<Rightarrow> uint32 \<Rightarrow> uint32 \<times> uint32" where
  "atomic_binop_w cell inc op = (cell, cell + op)"

definition binop_add :: "atomics \<Rightarrow> uint32 \<Rightarrow> uint32 \<Rightarrow> uint32 \<times> uint32" where
  "binop_add at inc cell = at_binop at (\<lambda>res. res + inc) cell"

definition binop_or :: "atomics \<Rightarrow> uint32 \<Rightarrow> uint32 \<Rightarrow> uint32 \<times> uint32" where
  "binop_or at inc cell = at_binop at (\<lambda>res. res OR inc) cell"

definition binop_swap :: "atomics \<Rightarrow> uint32 \<Rightarrow> uint32 \<Rightarrow> uint32 \<times> uint32" where
  "binop_swap at inc cell = at_binop at (\<lambda>res. inc) cell"

text \<open>The macro \<^verbatim>\<open>atomic_cas\<close>, on \<^verbatim>\<open>sstatus\<close> and a cell of any type.\<close>

definition macro_cas :: "'v \<Rightarrow> 'v \<Rightarrow> uint64 \<Rightarrow> 'v \<Rightarrow> 'v \<times> uint64 \<times> 'v" where
  "macro_cas cmp swp sstatus cell =
     (let (flags, sstatus) = disable_irqsave sstatus;
          res = cell;
          cell = (if res = cmp then swp else cell);
          sstatus = enable_irqrestore flags sstatus
      in (res, sstatus, cell))"

section \<open>The spinlock\<close>

definition spinlock_trylock :: "atomics \<Rightarrow> uint32 \<Rightarrow> uint32 \<times> uint32" where
  "spinlock_trylock at lock = binop_swap at (-1) lock"

partial_function (option) spinlock_lock :: "atomics \<Rightarrow> uint32 \<Rightarrow> uint32 option" where
  "spinlock_lock at lock =
     (if at_read at lock \<noteq> 0 then spinlock_lock at lock
      else case spinlock_trylock at lock of (res, lock) \<Rightarrow> if res \<noteq> 0 then spinlock_lock at lock else Some lock)"

definition spinlock_unlock :: "atomics \<Rightarrow> uint32 \<Rightarrow> uint32" where
  "spinlock_unlock at lock = at_set at 0 lock"

definition spinlock_lock_irqsave :: "atomics \<Rightarrow> uint64 \<Rightarrow> uint32 \<Rightarrow> (uint64 \<times> uint64 \<times> uint32) option" where
  "spinlock_lock_irqsave at sstatus lock =
     (let (flags, sstatus) = disable_irqsave sstatus in
      Option.bind (spinlock_lock at lock) (\<lambda>lock. Some (flags, sstatus, lock)))"

definition spinlock_unlock_irqrestore :: "atomics \<Rightarrow> uint64 \<Rightarrow> uint64 \<Rightarrow> uint32 \<Rightarrow> uint64 \<times> uint32" where
  "spinlock_unlock_irqrestore at flags sstatus lock =
     (let lock = spinlock_unlock at lock in (enable_irqrestore flags sstatus, lock))"

section \<open>Messages\<close>

definition TOHOST_CMD :: "uint64 \<Rightarrow> uint64 \<Rightarrow> uint64 \<Rightarrow> uint64" where
  "TOHOST_CMD dev cmd payload = push_bit 56 dev OR push_bit 48 cmd OR payload"

definition FROMHOST_DEV :: "uint64 \<Rightarrow> uint64" where "FROMHOST_DEV v = drop_bit 56 v"
definition FROMHOST_CMD :: "uint64 \<Rightarrow> uint64" where "FROMHOST_CMD v = drop_bit 56 (push_bit 8 v)"
definition FROMHOST_DATA :: "uint64 \<Rightarrow> uint64" where "FROMHOST_DATA v = drop_bit 16 (push_bit 16 v)"

section \<open>The protocol\<close>

text \<open>
  The state shared with the host and the private state of the interface: the two mailbox words,
  the console buffer, the lock of the mailbox, the argument block and the lock of
  \<^verbatim>\<open>frontend_syscall\<close>, the memory, and what the host keeps.
\<close>

record 'd hstate =
  tohost :: uint64
  fromhost :: uint64
  htif_console_buf :: int
  htif_lock :: uint32
  magic_mem :: "uint64 list"
  fe_lock :: uint32
  hmem :: bytes
  hdev :: 'd

record 'd henv =
  he_at :: atomics
  he_host :: "'d hstate \<Rightarrow> 'd hstate"
  he_magic :: uint64

definition check_fromhost :: "'d henv \<Rightarrow> 'd hstate \<Rightarrow> 'd hstate res" where
  "check_fromhost E s =
     (let s = he_host E s;
          fh = fromhost s in
      if fh = 0 then Inr s
      else
        let s = s\<lparr>fromhost := 0\<rparr> in
        if FROMHOST_DEV fh \<noteq> 1 then Inl (AssertFail ''FROMHOST_DEV(fh) == 1'')
        else if FROMHOST_CMD fh = 0 then Inr (s\<lparr>htif_console_buf := 1 + uint (ucast (FROMHOST_DATA fh) :: uint8)\<rparr>)
        else if FROMHOST_CMD fh = 1 then Inr s
        else Inl (AssertFail ''0''))"

partial_function (option) tohost_loop :: "'d henv \<Rightarrow> 'd hstate \<Rightarrow> 'd hstate outcome" where
  "tohost_loop E s =
     (let s = he_host E s in
      if tohost s \<noteq> 0 then bindO (Some (check_fromhost E s)) (\<lambda>s. tohost_loop E s) else returnO s)"

definition set_tohost :: "'d henv \<Rightarrow> uint64 \<Rightarrow> uint64 \<Rightarrow> uint64 \<Rightarrow> 'd hstate \<Rightarrow> 'd hstate outcome" where
  "set_tohost E dev cmd data s = bindO (tohost_loop E s) (\<lambda>s. returnO (s\<lparr>tohost := TOHOST_CMD dev cmd data\<rparr>))"

partial_function (option) fromhost_loop :: "'d henv \<Rightarrow> uint64 \<Rightarrow> uint64 \<Rightarrow> 'd hstate \<Rightarrow> 'd hstate outcome" where
  "fromhost_loop E dev cmd s =
     (let s = he_host E s;
          fh = fromhost s in
      if fh \<noteq> 0 then
        if FROMHOST_DEV fh = dev \<and> FROMHOST_CMD fh = cmd then returnO (s\<lparr>fromhost := 0\<rparr>)
        else bindO (Some (check_fromhost E s)) (\<lambda>s. fromhost_loop E dev cmd s)
      else fromhost_loop E dev cmd s)"

definition do_tohost_fromhost :: "'d henv \<Rightarrow> uint64 \<Rightarrow> uint64 \<Rightarrow> uint64 \<Rightarrow> 'd hstate \<Rightarrow> 'd hstate outcome" where
  "do_tohost_fromhost E dev cmd data s =
     Option.bind (spinlock_lock (he_at E) (htif_lock s)) (\<lambda>l.
     bindO (set_tohost E dev cmd data (s\<lparr>htif_lock := l\<rparr>)) (\<lambda>s.
     bindO (fromhost_loop E dev cmd s) (\<lambda>s.
     returnO (s\<lparr>htif_lock := spinlock_unlock (he_at E) (htif_lock s)\<rparr>))))"

definition htif_syscall :: "'d henv \<Rightarrow> uint64 \<Rightarrow> 'd hstate \<Rightarrow> 'd hstate outcome" where
  "htif_syscall E arg s = do_tohost_fromhost E 0 0 arg s"

definition htif_console_putchar :: "'d henv \<Rightarrow> uint8 \<Rightarrow> 'd hstate \<Rightarrow> 'd hstate outcome" where
  "htif_console_putchar E ch s =
     Option.bind (spinlock_lock (he_at E) (htif_lock s)) (\<lambda>l.
     bindO (set_tohost E 1 1 (ucast ch) (s\<lparr>htif_lock := l\<rparr>)) (\<lambda>s.
     returnO (s\<lparr>htif_lock := spinlock_unlock (he_at E) (htif_lock s)\<rparr>)))"

definition htif_console_getchar :: "'d henv \<Rightarrow> 'd hstate \<Rightarrow> (int \<times> 'd hstate) outcome" where
  "htif_console_getchar E s =
     Option.bind (spinlock_lock (he_at E) (htif_lock s)) (\<lambda>l.
     bindO (Some (check_fromhost E (s\<lparr>htif_lock := l\<rparr>))) (\<lambda>s.
     let ch = htif_console_buf s in
     bindO (if ch \<ge> 0 then set_tohost E 1 0 0 (s\<lparr>htif_console_buf := -1\<rparr>) else returnO s) (\<lambda>s.
     returnO (ch - 1, s\<lparr>htif_lock := spinlock_unlock (he_at E) (htif_lock s)\<rparr>))))"

text \<open>\<^verbatim>\<open>htif_poweroff\<close> asks for the end of the simulation for ever.\<close>

partial_function (option) htif_poweroff :: "'d hstate \<Rightarrow> 'd hstate outcome" where
  "htif_poweroff s = htif_poweroff (s\<lparr>fromhost := 0, tohost := 1\<rparr>)"

section \<open>System calls of the host\<close>

text \<open>\<^verbatim>\<open>frontend_syscall\<close>, with its arguments \<^verbatim>\<open>n\<close> and \<^verbatim>\<open>a0\<close> to \<^verbatim>\<open>a6\<close> as they are stored in \<^verbatim>\<open>magic_mem\<close>.\<close>

definition frontend_syscall :: "'d henv \<Rightarrow> uint64 \<Rightarrow> uint64 list \<Rightarrow> 'd hstate \<Rightarrow> (uint64 \<times> 'd hstate) outcome" where
  "frontend_syscall E n args s =
     Option.bind (spinlock_lock (he_at E) (fe_lock s)) (\<lambda>l.
     bindO (htif_syscall E (he_magic E) (s\<lparr>fe_lock := l, magic_mem := n # args\<rparr>)) (\<lambda>s.
     let ret = hd (magic_mem s) in
     returnO (ret, s\<lparr>fe_lock := spinlock_unlock (he_at E) (fe_lock s)\<rparr>)))"

end
