(* ===== verification/Pke_Strings_Thms.thy ===== *)
theory Pke_Strings_Thms
  imports Pke_Strings
begin

text \<open>
  Correctness of the string functions: copying and filling blocks in closed form, with the loops
  proved to end, and the C strings as lists of bytes.
\<close>

section \<open>Blocks\<close>

text \<open>Memory after \<open>n\<close> bytes from \<open>s\<close> are copied to \<open>d\<close>, and after \<open>n\<close> bytes at \<open>d\<close> are set.\<close>

definition copied :: "uint64 \<Rightarrow> uint64 \<Rightarrow> nat \<Rightarrow> bytes \<Rightarrow> bytes" where
  "copied d s n m = (\<lambda>a. if unat (a - d) < n then m (s + (a - d)) else m a)"

definition filled :: "uint64 \<Rightarrow> nat \<Rightarrow> uint8 \<Rightarrow> bytes \<Rightarrow> bytes" where
  "filled d n c m = (\<lambda>a. if unat (a - d) < n then c else m a)"

text \<open>Copying upwards, or downwards, does not overwrite a byte that is still to be read.\<close>

definition up_safe :: "uint64 \<Rightarrow> uint64 \<Rightarrow> nat \<Rightarrow> bool" where
  "up_safe d s n \<longleftrightarrow> (\<forall>i<n. \<forall>j<i. s + word_of_nat i \<noteq> d + word_of_nat j)"

definition down_safe :: "uint64 \<Rightarrow> uint64 \<Rightarrow> nat \<Rightarrow> bool" where
  "down_safe d s n \<longleftrightarrow> (\<forall>j<n. \<forall>i<j. s + word_of_nat i \<noteq> d + word_of_nat j)"

lemma unat_diff_shift:
  assumes "j < 2 ^ 64"
  shows "unat (a - (d + word_of_nat j) :: uint64) =
    (if j \<le> unat (a - d) then unat (a - d) - j else unat (a - d) + 2 ^ 64 - j)"
proof -
  let ?x = "a - d"
  have e: "a - (d + word_of_nat j) = ?x - word_of_nat j" by simp
  have j: "unat (word_of_nat j :: uint64) = j" using assms by (simp add: unat_of_nat)
  show ?thesis
  proof (cases "j \<le> unat ?x")
    case True
    then have "unat (?x - word_of_nat j) = unat ?x - j" using j by (subst unat_sub_le) (simp_all add: word_le_iff_unat)
    then show ?thesis using True unfolding e by simp
  next
    case False
    then have "\<not> (word_of_nat j :: uint64) \<le> ?x" using j by (simp add: word_le_iff_unat)
    then have "unat (?x - word_of_nat j) = unat ?x + 2 ^ 64 - j" using j unat_sub_if' [of ?x "word_of_nat j :: uint64"]
      by (simp add: word_le_iff_unat)
    then show ?thesis using False unfolding e by simp
  qed
qed

lemma copied_0 [simp]: "copied d s 0 m = m"
  by (simp add: copied_def)

lemma copied_1: "copied d s 1 m = m(d := m s)"
  by (auto simp: copied_def fun_eq_iff unat_eq_0)

lemma copied_up:
  assumes n: "j + k < 2 ^ 64" and safe: "up_safe d s (j + k)"
  shows "copied (d + word_of_nat j) (s + word_of_nat j) k (copied d s j m) = copied d s (j + k) m"
proof
  fix a
  let ?o = "unat (a - d)"
  have sh: "unat (a - (d + word_of_nat j)) = (if j \<le> ?o then ?o - j else ?o + 2 ^ 64 - j)"
    using unat_diff_shift [of j a d] n by simp
  have src: "s + word_of_nat j + (a - (d + word_of_nat j)) = s + (a - d)" by simp
  show "copied (d + word_of_nat j) (s + word_of_nat j) k (copied d s j m) a = copied d s (j + k) m a"
  proof (cases "j \<le> ?o \<and> ?o < j + k")
    case True
    have "\<not> unat (s + (a - d) - d) < j"
    proof
      assume lt: "unat (s + (a - d) - d) < j"
      have "s + word_of_nat ?o = d + word_of_nat (unat (s + (a - d) - d))" by simp
      moreover have "unat (s + (a - d) - d) < ?o" using lt True by simp
      ultimately show False using safe True unfolding up_safe_def by blast
    qed
    moreover have "?o - j < k" using True by auto
    ultimately show ?thesis using True sh unfolding copied_def src by simp
  next
    case False
    then have "\<not> unat (a - (d + word_of_nat j)) < k" using sh n unsigned_less [of "a - d"] by auto
    moreover have "?o < j \<longleftrightarrow> ?o < j + k" using False by auto
    ultimately show ?thesis by (simp add: copied_def)
  qed
qed

lemma up_safe_shift: "up_safe d s (j + k) \<Longrightarrow> up_safe (d + word_of_nat j) (s + word_of_nat j) k"
  unfolding up_safe_def
proof (intro allI impI)
  fix i l assume a: "\<forall>i<j + k. \<forall>l<i. s + word_of_nat i \<noteq> d + word_of_nat l" and "i < k" "l < i"
  then have "s + word_of_nat (j + i) \<noteq> d + word_of_nat (j + l)" by simp
  then show "s + word_of_nat j + word_of_nat i \<noteq> d + word_of_nat j + word_of_nat l" by (simp add: add.assoc)
qed

section \<open>Words\<close>

lemma bit_high: "8 \<le> n \<Longrightarrow> \<not> bit (c :: uint8) n"
  by (auto dest: bit_imp_possible_bit)

lemma load_word_byte:
  assumes "i < 8"
  shows "(ucast (drop_bit (8 * i) (load_word s m)) :: uint8) = m (s + word_of_nat i)"
proof (rule bit_eqI)
  fix n assume "possible_bit TYPE(uint8) n"
  then have n: "n < 8" by simp
  consider "i = 0" | "i = 1" | "i = 2" | "i = 3" | "i = 4" | "i = 5" | "i = 6" | "i = 7" using assms by linarith
  then show "bit (ucast (drop_bit (8 * i) (load_word s m)) :: uint8) n = bit (m (s + word_of_nat i)) n"
    using n by cases (simp_all add: load_word_def bit_or_iff bit_push_bit_iff bit_drop_bit_eq bit_ucast_iff bit_high)
qed

lemma store_loaded: "store_word d (load_word s m) m = copied d s 8 m"
proof
  fix a
  show "store_word d (load_word s m) m a = copied d s 8 m a"
    using load_word_byte [of "unat (a - d)" s m] by (simp add: store_word_def copied_def word_less_iff_unat)
qed

lemma bit_ones: "bit (0xFF :: uint32) n \<longleftrightarrow> n < 8"
proof -
  have e: "(0xFF :: uint32) = mask 8" by (simp add: mask_eq_exp_minus_1)
  show ?thesis unfolding e bit_mask_iff by (auto simp: possible_bit_word)
qed

lemma spread_byte_byte:
  assumes "i < 8"
  shows "(ucast (drop_bit (8 * i) (spread_byte c)) :: uint8) = ucast c"
proof (rule bit_eqI)
  fix n assume "possible_bit TYPE(uint8) n"
  then have n: "n < 8" by simp
  have w: "bit (scast (c AND 0xFF) :: uint64) k \<longleftrightarrow> k < 8 \<and> bit c k" for k
    unfolding bit_signed_iff bit_and_iff bit_ones by (auto simp: min_def)
  consider "i = 0" | "i = 1" | "i = 2" | "i = 3" | "i = 4" | "i = 5" | "i = 6" | "i = 7" using assms by linarith
  then show "bit (ucast (drop_bit (8 * i) (spread_byte c)) :: uint8) n = bit (ucast c :: uint8) n"
    using n by cases (simp_all add: spread_byte_def Let_def bit_or_iff bit_push_bit_iff bit_drop_bit_eq bit_ucast_iff w)
qed

section \<open>The loops\<close>

lemma memcpy_bytes_ok:
  "unat d + n < 2 ^ 64 \<Longrightarrow> up_safe d s n \<Longrightarrow> memcpy_bytes d s (d + word_of_nat n) m = Some (copied d s n m)"
proof (induction n arbitrary: d s m)
  case 0
  then show ?case by (subst memcpy_bytes.simps) simp
next
  case (Suc n)
  have u: "unat (word_of_nat (Suc n) :: uint64) = Suc n" using Suc.prems(1) by (simp add: unat_of_nat del: of_nat_Suc)
  have "unat (d + word_of_nat (Suc n)) = unat d + Suc n" using Suc.prems(1) u by (subst unat_add_noof) (simp_all del: of_nat_Suc)
  then have lt: "d < d + word_of_nat (Suc n)" by (simp add: word_less_iff_unat del: of_nat_Suc)
  have "unat (d + 1) = unat d + 1" using Suc.prems(1) by (subst unat_add_noof) simp_all
  moreover have "up_safe (d + 1) (s + 1) n" using up_safe_shift [of d s 1 n] Suc.prems(2) by simp
  ultimately have "memcpy_bytes (d + 1) (s + 1) (d + word_of_nat (Suc n)) m' = Some (copied (d + 1) (s + 1) n m')" for m'
    using Suc.IH [of "d + 1" "s + 1" m'] Suc.prems(1) by (simp add: add.assoc)
  moreover have "copied (d + 1) (s + 1) n (m(d := m s)) = copied d s (Suc n) m"
    using copied_up [of 1 n d s m] copied_1 [of d s m] Suc.prems by simp
  ultimately show ?case using lt by (subst memcpy_bytes.simps) (simp del: of_nat_Suc fun_upd_apply)
qed

lemma memcpy_words_ok:
  "unat d + 8 * q + r < 2 ^ 64 \<Longrightarrow> r < 8 \<Longrightarrow> unat lim + 7 = unat d + 8 * q + r \<Longrightarrow> up_safe d s (8 * q) \<Longrightarrow>
   memcpy_words d s lim m = Some (d + word_of_nat (8 * q), s + word_of_nat (8 * q), copied d s (8 * q) m)"
proof (induction q arbitrary: d s m)
  case 0
  then show ?case by (subst memcpy_words.simps) (simp add: word_less_iff_unat)
next
  case (Suc q)
  have lt: "d < lim" using Suc.prems by (simp add: word_less_iff_unat)
  have d8: "unat (d + 8) = unat d + 8" using Suc.prems(1) by (subst unat_add_noof) simp_all
  have "up_safe (d + 8) (s + 8) (8 * q)" using up_safe_shift [of d s 8 "8 * q"] Suc.prems(4) by simp
  from Suc.IH [OF _ Suc.prems(2) _ this] have
    "memcpy_words (d + 8) (s + 8) lim m' = Some (d + 8 + word_of_nat (8 * q), s + 8 + word_of_nat (8 * q), copied (d + 8) (s + 8) (8 * q) m')" for m'
    using Suc.prems d8 by simp
  moreover have "copied (d + 8) (s + 8) (8 * q) (copied d s 8 m) = copied d s (8 * Suc q) m"
    using copied_up [of 8 "8 * q" d s m] Suc.prems by simp
  moreover have "d + 8 + word_of_nat (8 * q) = d + word_of_nat (8 * Suc q)" "s + 8 + word_of_nat (8 * q) = s + word_of_nat (8 * Suc q)"
    by simp_all
  moreover have "memcpy_words d s lim m = memcpy_words (d + 8) (s + 8) lim (copied d s 8 m)"
    using lt by (subst memcpy_words.simps) (simp only: store_loaded if_True)
  ultimately show ?case by (simp only:)
qed

lemma aligned_or: "((a :: uint64) OR b) AND 7 = 0 \<longleftrightarrow> 8 dvd unat a \<and> 8 dvd unat b"
proof -
  have m: "(7 :: uint64) = mask 3" by (simp add: mask_eq_exp_minus_1)
  have d: "a AND 7 = 0 \<longleftrightarrow> 8 dvd unat a" for a :: uint64
  proof -
    have "unat (a AND mask 3) = unat a mod 8"
      by (simp only: flip: take_bit_eq_mask) (simp only: unsigned_take_bit_eq, simp add: take_bit_eq_mod)
    then show ?thesis unfolding m by (auto simp: dvd_eq_mod_eq_0 simp flip: unat_eq_0)
  qed
  have "(a OR b) AND 7 = 0 \<longleftrightarrow> a AND 7 = 0 \<and> b AND 7 = 0" by (auto simp: bit.conj_disj_distrib2 or_eq_0_iff)
  then show ?thesis using d by simp
qed

text \<open>Two blocks without a common address.\<close>

definition apart :: "uint64 \<Rightarrow> uint64 \<Rightarrow> nat \<Rightarrow> bool" where
  "apart d s n \<longleftrightarrow> (\<forall>i<n. \<forall>j<n. s + word_of_nat i \<noteq> d + word_of_nat j)"

lemma apart_up: "apart d s n \<Longrightarrow> up_safe d s n"
  unfolding apart_def up_safe_def by (meson less_trans)

lemma up_safe_mono: "up_safe d s n \<Longrightarrow> k \<le> n \<Longrightarrow> up_safe d s k"
  by (simp add: up_safe_def)

section \<open>Theorems on blocks\<close>

text \<open>C30: \<^verbatim>\<open>memcpy\<close> returns, for every block that does not wrap around and is not at the null pointer: it copies exactly the \<open>len\<close> bytes, word by word when both pointers are aligned and byte by byte
  for the rest, and changes nothing else.\<close>

theorem memcpy_correct:
  assumes "unat dest + unat len < 2 ^ 64" and "dest \<noteq> 0" and "apart dest src (unat len)"
  shows "memcpy dest src len m = Some (dest, copied dest src (unat len) m)"
proof (cases "(dest OR src) AND 7 = 0")
  case True
  let ?q = "unat len div 8" and ?r = "unat len mod 8"
  have n: "unat len = 8 * ?q + ?r" by simp
  have "8 dvd unat dest" "unat dest \<noteq> 0" using True assms(2) aligned_or by (auto simp: unat_eq_0)
  then have d7: "7 \<le> unat dest" by (auto dest: dvd_imp_le)
  have safe: "up_safe dest src (unat len)" by (rule apart_up [OF assms(3)])
  have lim: "unat (dest + len) = unat dest + unat len" by (rule unat_add_noof) (use assms(1) in simp)
  have "unat (dest + len - 7) = unat dest + unat len - 7"
    using lim d7 by (subst unat_sub_le) (simp_all add: word_le_iff_unat)
  then have "unat (dest + len - 7) + 7 = unat dest + 8 * ?q + ?r" using d7 by simp
  then have w: "memcpy_words dest src (dest + len - 7) m =
      Some (dest + word_of_nat (8 * ?q), src + word_of_nat (8 * ?q), copied dest src (8 * ?q) m)"
    using memcpy_words_ok [of dest ?q ?r "dest + len - 7" src m] assms(1) up_safe_mono [OF safe, of "8 * ?q"] by simp
  let ?d = "dest + word_of_nat (8 * ?q)" and ?s = "src + word_of_nat (8 * ?q)"
  have q: "unat (word_of_nat (8 * ?q) :: uint64) = 8 * ?q" using n assms(1) by (subst unat_of_nat) (simp del: of_nat_mult)
  have d: "unat ?d = unat dest + 8 * ?q" using q n assms(1) by (subst unat_add_noof) (simp_all del: of_nat_mult)
  have e: "?d + word_of_nat ?r = dest + len"
  proof -
    have "?d + word_of_nat ?r = dest + word_of_nat (8 * ?q + ?r)" by (simp only: of_nat_add add.assoc)
    also have "\<dots> = dest + len" unfolding n [symmetric] by simp
    finally show ?thesis .
  qed
  have "up_safe ?d ?s ?r" using up_safe_shift [of dest src "8 * ?q" ?r] safe n by simp
  then have "memcpy_bytes ?d ?s (dest + len) m' = Some (copied ?d ?s ?r m')" for m'
    using memcpy_bytes_ok [of ?d ?r ?s m', unfolded e] d n assms(1) by simp
  moreover have "copied ?d ?s ?r (copied dest src (8 * ?q) m) = copied dest src (unat len) m"
    using copied_up [of "8 * ?q" ?r dest src m] safe n assms(1) by simp
  ultimately show ?thesis using True w unfolding memcpy_def by (simp del: of_nat_mult)
next
  case False
  then show ?thesis using memcpy_bytes_ok [of dest "unat len" src m] assms(1) apart_up [OF assms(3)] by (simp add: memcpy_def)
qed

lemma filled_step:
  assumes "j + k < 2 ^ 64"
  shows "filled (d + word_of_nat j) k c (filled d j c m) = filled d (j + k) c m"
  using unat_diff_shift [of j _ d] assms unsigned_less by (fastforce simp: filled_def fun_eq_iff)

lemma filled_words:
  "unat d + 8 * q < 2 ^ 64 \<Longrightarrow> memset_words d (d + word_of_nat (8 * q)) (spread_byte c) m = Some (filled d (8 * q) (ucast c) m)"
proof (induction q arbitrary: d m)
  case 0
  then show ?case by (subst memset_words.simps) (simp add: filled_def)
next
  case (Suc q)
  let ?lim = "d + word_of_nat (8 * Suc q)"
  have u: "unat (word_of_nat (8 * Suc q) :: uint64) = 8 * Suc q" using Suc.prems by (subst unat_of_nat) (simp del: of_nat_mult of_nat_Suc)
  have "unat ?lim = unat d + 8 * Suc q" using Suc.prems u by (subst unat_add_noof) (simp_all del: of_nat_mult of_nat_Suc)
  then have lt: "d < ?lim" by (simp add: word_less_iff_unat del: of_nat_mult of_nat_Suc)
  have st: "store_word d (spread_byte c) m = filled d 8 (ucast c) m"
    using spread_byte_byte by (auto simp: store_word_def filled_def fun_eq_iff word_less_iff_unat)
  have e: "d + 8 + word_of_nat (8 * q) = ?lim" by simp
  have "unat (d + 8) = unat d + 8" using Suc.prems by (subst unat_add_noof) simp_all
  then have "memset_words (d + 8) ?lim (spread_byte c) m' = Some (filled (d + 8) (8 * q) (ucast c) m')" for m'
    using Suc.IH [of "d + 8" m', unfolded e] Suc.prems by simp
  moreover have "filled (d + 8) (8 * q) (ucast c) (filled d 8 (ucast c) m) = filled d (8 * Suc q) (ucast c) m"
    using filled_step [of 8 "8 * q" d "ucast c" m] Suc.prems by simp
  moreover have "memset_words d ?lim (spread_byte c) m = memset_words (d + 8) ?lim (spread_byte c) (filled d 8 (ucast c) m)"
    using lt by (subst memset_words.simps) (simp only: st if_True)
  ultimately show ?case by (simp only:)
qed

lemma filled_bytes:
  "unat d + n < 2 ^ 64 \<Longrightarrow> memset_bytes d (d + word_of_nat n) c m = Some (filled d n (ucast c) m)"
proof (induction n arbitrary: d m)
  case 0
  then show ?case by (subst memset_bytes.simps) (simp add: filled_def)
next
  case (Suc n)
  let ?lim = "d + word_of_nat (Suc n)"
  have u: "unat (word_of_nat (Suc n) :: uint64) = Suc n" using Suc.prems by (subst unat_of_nat) (simp del: of_nat_Suc)
  have "unat ?lim = unat d + Suc n" using Suc.prems u by (subst unat_add_noof) (simp_all del: of_nat_Suc)
  then have lt: "d < ?lim" by (simp add: word_less_iff_unat del: of_nat_Suc)
  have st: "m(d := ucast c) = filled d 1 (ucast c) m" by (auto simp: filled_def fun_eq_iff unat_eq_0)
  have e: "d + 1 + word_of_nat n = ?lim" by simp
  have "unat (d + 1) = unat d + 1" using Suc.prems by (subst unat_add_noof) simp_all
  then have "memset_bytes (d + 1) ?lim c m' = Some (filled (d + 1) n (ucast c) m')" for m'
    using Suc.IH [of "d + 1" m', unfolded e] Suc.prems by simp
  moreover have "filled (d + 1) n (ucast c) (filled d 1 (ucast c) m) = filled d (Suc n) (ucast c) m"
    using filled_step [of 1 n d "ucast c" m] Suc.prems by simp
  moreover have "memset_bytes d ?lim c m = memset_bytes (d + 1) ?lim c (filled d 1 (ucast c) m)"
    using lt by (subst memset_bytes.simps) (simp only: st if_True)
  ultimately show ?case by (simp only:)
qed

text \<open>\<^verbatim>\<open>memset\<close> sets exactly the \<open>len\<close> bytes of a block that does not wrap around to the low byte of its
  argument, also where it stores words that repeat the byte eight times.\<close>

lemma memset_correct:
  assumes "unat dest + unat len < 2 ^ 64"
  shows "memset dest c len m = Some (dest, filled dest (unat len) (ucast c) m)"
proof (cases "(dest OR len) AND 7 = 0")
  case True
  then have "8 dvd unat len" using aligned_or by blast
  then have n: "8 * (unat len div 8) = unat len" by simp
  then have "memset_words dest (dest + len) (spread_byte c) m = Some (filled dest (unat len) (ucast c) m)"
    using filled_words [of dest "unat len div 8" c m, unfolded n] assms by simp
  then show ?thesis using True by (simp add: memset_def)
next
  case False
  then show ?thesis using filled_bytes [of dest "unat len" c m] assms by (simp add: memset_def)
qed

lemma copied_down:
  assumes n: "Suc j < 2 ^ 64" and safe: "down_safe d s (Suc j)"
  shows "copied d s j (m(d + word_of_nat j := m (s + word_of_nat j))) = copied d s (Suc j) m"
proof
  fix a
  let ?o = "unat (a - d)"
  have j: "unat (word_of_nat j :: uint64) = j" using n by (simp add: unat_of_nat)
  have o: "a = d + word_of_nat j \<longleftrightarrow> ?o = j"
  proof
    assume "?o = j"
    then have "d + word_of_nat j = d + (a - d)" by (simp flip: \<open>?o = j\<close>)
    then show "a = d + word_of_nat j" by simp
  qed (use j in simp)
  show "copied d s j (m(d + word_of_nat j := m (s + word_of_nat j))) a = copied d s (Suc j) m a"
  proof (cases "?o < j")
    case True
    have "s + word_of_nat ?o \<noteq> d + word_of_nat j" using safe True unfolding down_safe_def by blast
    then show ?thesis using True by (simp add: copied_def)
  next
    case False
    then show ?thesis using o by (auto simp: copied_def less_Suc_eq)
  qed
qed

lemma move_up_ok: "n < 2 ^ 64 \<Longrightarrow> up_safe d s n \<Longrightarrow> move_up n d s m = copied d s n m"
proof (induction n arbitrary: d s m)
  case (Suc n)
  have "up_safe (d + 1) (s + 1) n" using up_safe_shift [of d s 1 n] Suc.prems(2) by simp
  then have "move_up n (d + 1) (s + 1) m' = copied (d + 1) (s + 1) n m'" for m' using Suc by simp
  then show ?case using copied_up [of 1 n d s m] copied_1 [of d s m] Suc.prems by simp
qed simp

lemma move_down_ok: "n < 2 ^ 64 \<Longrightarrow> down_safe d s n \<Longrightarrow> move_down n (d + word_of_nat n) (s + word_of_nat n) m = copied d s n m"
proof (induction n arbitrary: m)
  case (Suc n)
  have "down_safe d s n" using Suc.prems(2) by (simp add: down_safe_def)
  then have "move_down n (d + word_of_nat n) (s + word_of_nat n) m' = copied d s n m'" for m' using Suc by simp
  moreover have e: "d + word_of_nat (Suc n) - 1 = d + word_of_nat n" "s + word_of_nat (Suc n) - 1 = s + word_of_nat n" by simp_all
  ultimately show ?case using copied_down [of n d s m] Suc.prems unfolding move_down.simps e by simp
qed simp

text \<open>\<^verbatim>\<open>memmove\<close> copies a block correctly however source and destination overlap, as long as neither
  block wraps around.\<close>

lemma memmove_correct:
  assumes "unat dst + unat n < 2 ^ 64" and "unat src + unat n < 2 ^ 64"
  shows "memmove dst src n m = (dst, copied dst src (unat n) m)"
proof -
  have at: "unat (b + word_of_nat i) = unat b + i" if "unat b + unat n < 2 ^ 64" "i < unat n" for b :: uint64 and i
    using that by (subst unat_add_noof) (simp_all add: unat_of_nat)
  have n: "unat n < 2 ^ 64" using unsigned_less [of n] by simp
  have over: "src < dst \<and> src + n > dst \<longleftrightarrow> unat src < unat dst \<and> unat dst < unat src + unat n"
    using unat_add_noof [of src n] assms(2) by (simp add: word_less_iff_unat)
  show ?thesis
  proof (cases "src < dst \<and> src + n > dst")
    case True
    have "down_safe dst src (unat n)"
      unfolding down_safe_def
    proof (intro allI impI notI)
      fix i j assume ij: "j < unat n" "i < j" and eq: "src + word_of_nat i = dst + word_of_nat j"
      then have "unat src + i = unat dst + j" using at [OF assms(1) ij(1)] at [OF assms(2), of i] by simp
      then show False using True over ij by linarith
    qed
    then show ?thesis using True move_down_ok [OF n, of dst src m] by (simp add: memmove_def)
  next
    case False
    have "up_safe dst src (unat n)"
      unfolding up_safe_def
    proof (intro allI impI notI)
      fix i j assume ij: "i < unat n" "j < i" and eq: "src + word_of_nat i = dst + word_of_nat j"
      then have "unat src + i = unat dst + j" using at [OF assms(2) ij(1)] at [OF assms(1), of j] by simp
      then show False using False over ij by linarith
    qed
    then show ?thesis using False move_up_ok [OF n, of dst src m] by (auto simp: memmove_def)
  qed
qed

section \<open>C strings\<close>

fun cstr :: "bytes \<Rightarrow> uint64 \<Rightarrow> uint8 list \<Rightarrow> bool" where
  "cstr m a [] \<longleftrightarrow> m a = 0"
| "cstr m a (c # cs) \<longleftrightarrow> m a = c \<and> c \<noteq> 0 \<and> cstr m (a + 1) cs"

lemma strlen_loop_ok: "cstr m a cs \<Longrightarrow> strlen_loop a m = Some (a + word_of_nat (length cs))"
proof (induction cs arbitrary: a)
  case Nil
  then show ?case by (subst strlen_loop.simps) simp
next
  case (Cons c cs)
  then have "strlen_loop (a + 1) m = Some (a + 1 + word_of_nat (length cs))" by simp
  then show ?case using Cons.prems by (subst strlen_loop.simps) (simp add: add.assoc)
qed

lemma strlen_ok: "cstr m a cs \<Longrightarrow> strlen a m = Some (word_of_nat (length cs))"
  by (simp add: strlen_def strlen_loop_ok)

fun str_diff :: "uint8 list \<Rightarrow> uint8 list \<Rightarrow> int" where
  "str_diff [] [] = 0"
| "str_diff [] (d # ds) = - uint d"
| "str_diff (c # cs) [] = uint c"
| "str_diff (c # cs) (d # ds) = (if c = d then str_diff cs ds else uint c - uint d)"

lemma strcmp_diff: "cstr m a cs \<Longrightarrow> cstr m b ds \<Longrightarrow> strcmp a b m = Some (str_diff cs ds)"
proof (induction cs ds arbitrary: a b rule: str_diff.induct)
  case (4 c cs d ds)
  then show ?case by (subst strcmp.simps) (auto simp: Let_def)
qed (subst strcmp.simps; auto simp: Let_def)+

lemma str_diff_sign:
  assumes "0 \<notin> set cs" "0 \<notin> set ds"
  shows "str_diff cs ds = 0 \<longleftrightarrow> cs = ds" "str_diff cs ds < 0 \<longleftrightarrow> (cs, ds) \<in> lexord {(c, d). c < d}"
  using assms
proof (induction cs ds rule: str_diff.induct)
  case (2 d ds)
  case 1 then show ?case by (simp add: uint_0_iff)
next
  case (2 d ds)
  case 2 then have "uint d \<noteq> 0" by (simp add: uint_0_iff)
  then have "0 < uint d" using uint_ge_0 [of d] by linarith
  then show ?case by simp
next
  case (3 c cs)
  case 1 then show ?case by (simp add: uint_0_iff)
next
  case (3 c cs)
  case 2 show ?case by (simp add: not_less)
next
  case (4 c cs d ds)
  case 1 then show ?case using 4 by (auto simp: word_uint_eq_iff)
next
  case (4 c cs d ds)
  case 2 then show ?case using 4 by (auto simp: word_less_def)
qed simp_all

lemma cstr_nonzero: "cstr m a cs \<Longrightarrow> 0 \<notin> set cs"
  by (induction cs arbitrary: a) auto

text \<open>\<^verbatim>\<open>strcmp\<close> of two C strings returns, with 0 exactly when they are equal and a negative result exactly when the
  first is smaller in lexicographic order of the unsigned bytes.\<close>

lemma strcmp_correct:
  assumes "cstr m a cs" and "cstr m b ds"
  shows "\<exists>r. strcmp a b m = Some r \<and> (r = 0 \<longleftrightarrow> cs = ds) \<and> (r < 0 \<longleftrightarrow> (cs, ds) \<in> lexord {(c, d). c < d})"
  using strcmp_diff [OF assms] str_diff_sign [OF cstr_nonzero [OF assms(1)] cstr_nonzero [OF assms(2)]] by simp

lemma cstr_update: "(\<And>i. i \<le> length cs \<Longrightarrow> a + word_of_nat i \<noteq> b) \<Longrightarrow> cstr (m(b := v)) a cs = cstr m a cs"
proof (induction cs arbitrary: a)
  case (Cons c cs)
  have "a \<noteq> b" using Cons.prems [of 0] by simp
  moreover have "a + 1 + word_of_nat i \<noteq> b" if "i \<le> length cs" for i using Cons.prems [of "Suc i"] that by (simp add: add.assoc)
  ultimately show ?case using Cons.IH [of "a + 1"] by simp
qed (use in \<open>force dest: meta_spec [of _ 0]\<close>)

lemma unat_before: "unat (s - (s + 1) :: uint64) = 2 ^ 64 - 1"
  using unat_diff_shift [of 1 s s] by simp

lemma safestrcpy_loop_ok:
  assumes "Suc k < 2 ^ 64" "cstr m t cs" "\<And>i j. i \<le> length cs \<Longrightarrow> j \<le> k \<Longrightarrow> t + word_of_nat i \<noteq> s + word_of_nat j"
  shows "cstr (safestrcpy_loop k s t m) s (take k cs) \<and> (\<forall>a. k < unat (a - s) \<longrightarrow> safestrcpy_loop k s t m a = m a)"
  using assms
proof (induction k arbitrary: s t m cs)
  case 0
  then show ?case by auto
next
  case (Suc k)
  have k: "unat (a - (s + 1)) = unat (a - s) - 1" if "0 < unat (a - s)" for a
    using unat_diff_shift [of 1 a s] that by simp
  show ?case
  proof (cases cs)
    case Nil
    then show ?thesis using Suc.prems(2) k by (auto simp: Let_def)
  next
    case (Cons c cs')
    let ?m = "m(s := c)" let ?r = "safestrcpy_loop k (s + 1) (t + 1) ?m"
    have c: "m t = c" "c \<noteq> 0" "cstr m (t + 1) cs'" using Suc.prems(2) Cons by simp_all
    have off: "t + 1 + word_of_nat i \<noteq> s + word_of_nat j" if "i \<le> length cs'" "j \<le> Suc k" for i j
      using Suc.prems(3) [of "Suc i" j] that Cons by (simp add: add.assoc)
    have "cstr ?m (t + 1) cs'" using c(3) off [of _ 0] by (subst cstr_update) simp_all
    moreover have "t + 1 + word_of_nat i \<noteq> s + 1 + word_of_nat j" if "i \<le> length cs'" "j \<le> k" for i j
      using off [of i "Suc j"] that by (simp add: add.assoc)
    ultimately have "cstr ?r (s + 1) (take k cs') \<and> (\<forall>a. k < unat (a - (s + 1)) \<longrightarrow> ?r a = ?m a)"
      using Suc.prems(1) by (intro Suc.IH) (simp_all del: fun_upd_apply)
    then have ih: "cstr ?r (s + 1) (take k cs')" "\<And>a. k < unat (a - (s + 1)) \<Longrightarrow> ?r a = ?m a" by blast+
    have "?r s = c" using ih(2) [of s] Suc.prems(1) unat_before [of s] by simp
    moreover have "?r a = m a" if "Suc k < unat (a - s)" for a
    proof -
      have "a \<noteq> s" using that by auto
      then show ?thesis using ih(2) [of a] k [of a] that by simp
    qed
    ultimately show ?thesis using c ih(1) Cons by (simp add: Let_def)
  qed
qed

text \<open>\<^verbatim>\<open>safestrcpy\<close> with a buffer of \<open>n\<close> bytes leaves a terminated string there, the source cut to \<open>n - 1\<close>
  bytes, and writes nothing outside the buffer; with \<open>n \<le> 0\<close> it writes nothing.\<close>

lemma safestrcpy_correct:
  assumes "cstr m t cs" and "n < 2 ^ 31"
    and "\<forall>i j. i \<le> length cs \<and> int j < n \<longrightarrow> t + word_of_nat i \<noteq> s + word_of_nat j"
  shows "(n \<le> 0 \<longrightarrow> safestrcpy s t n m = (s, m)) \<and>
    (0 < n \<longrightarrow> (\<exists>m'. safestrcpy s t n m = (s, m') \<and> cstr m' s (take (nat (n - 1)) cs) \<and>
       (\<forall>a. nat n \<le> unat (a - s) \<longrightarrow> m' a = m a)))"
proof (intro conjI impI)
  assume n: "0 < n"
  have "t + word_of_nat i \<noteq> s + word_of_nat j" if "i \<le> length cs" "j \<le> nat (n - 1)" for i j
    using assms(3) that n by simp
  then have "cstr (safestrcpy_loop (nat (n - 1)) s t m) s (take (nat (n - 1)) cs)"
    "\<forall>a. nat (n - 1) < unat (a - s) \<longrightarrow> safestrcpy_loop (nat (n - 1)) s t m a = m a"
    using safestrcpy_loop_ok [of "nat (n - 1)" m t cs s] assms(1,2) n by auto
  then show "\<exists>m'. safestrcpy s t n m = (s, m') \<and> cstr m' s (take (nat (n - 1)) cs) \<and> (\<forall>a. nat n \<le> unat (a - s) \<longrightarrow> m' a = m a)"
    using n by (auto simp: safestrcpy_def nat_diff_distrib)
qed (simp add: safestrcpy_def)

section \<open>Examples\<close>

text \<open>Memory with the string \<open>''abc''\<close> at address 16.\<close>

definition abc_memory :: bytes where
  "abc_memory = (\<lambda>_. 0)(16 := 0x61, 17 := 0x62, 18 := 0x63)"

lemma abc_string: "cstr abc_memory 16 [0x61, 0x62, 0x63]"
  by (simp add: abc_memory_def)

theorem memcpy_correct_witness: "\<exists>m. memcpy 32 16 3 abc_memory = Some (32, m) \<and> m 34 = 0x63"
proof -
  have lt3: "i < 3 \<longleftrightarrow> i = 0 \<or> i = 1 \<or> i = (2 :: nat)" for i by auto
  have "apart 32 16 (unat (3 :: uint64))" by (simp add: apart_def lt3 imp_disjL all_conj_distrib)
  then show ?thesis using memcpy_correct [of 32 3 16 abc_memory] by (simp add: copied_def abc_memory_def)
qed

lemma memmove_correct_witness: "\<exists>m. memmove 17 16 3 abc_memory = (17, m) \<and> m 17 = 0x61 \<and> m 19 = 0x63"
  using memmove_correct [of 17 3 16 abc_memory] by (simp add: copied_def abc_memory_def)

lemma strcmp_correct_witness: "\<exists>r. strcmp 16 17 abc_memory = Some r \<and> r < 0"
proof -
  have "cstr abc_memory 17 [0x62, 0x63]" using abc_string by simp
  from strcmp_correct [OF abc_string this] show ?thesis by auto
qed

lemma safestrcpy_correct_witness: "\<exists>m. safestrcpy 32 16 3 abc_memory = (32, m) \<and> cstr m 32 [0x61, 0x62]"
proof -
  have "(16 :: uint64) + word_of_nat i \<noteq> 32 + word_of_nat j" if "i \<le> 3" "j < 3" for i j
  proof
    assume "(16 :: uint64) + word_of_nat i = 32 + word_of_nat j"
    then have "unat ((16 :: uint64) + word_of_nat i) = unat ((32 :: uint64) + word_of_nat j)" by simp
    then have "16 + i = 32 + j" using that by (simp add: unat_word_ariths unat_of_nat)
    then show False using that by simp
  qed
  then show ?thesis using safestrcpy_correct [OF abc_string, of 3 32] by (auto simp: numeral_2_eq_2)
qed

end
