(* ===== verification/Pke_Snprintf.thy ===== *)
theory Pke_Snprintf
  imports Pke_Strings_Thms "HOL-Library.Signed_Division"
begin

text \<open>
  \<^verbatim>\<open>vsnprintf\<close> of \<^verbatim>\<open>util/snprintf.c\<close>, on the byte memory of the string functions. A \<^verbatim>\<open>va_list\<close> is the
  sequence of 64-bit argument slots with the index of the next one.
\<close>

section \<open>The code\<close>

record vstate =
  v_format :: bool
  v_long :: bool
  v_pos :: uint64
  v_mem :: bytes
  v_next :: nat

text \<open>\<^verbatim>\<open>if (++pos < n) out[pos - 1] = c\<close>.\<close>

definition put_char :: "uint64 \<Rightarrow> uint64 \<Rightarrow> uint8 \<Rightarrow> vstate \<Rightarrow> vstate" where
  "put_char out n c st =
     (let pos = v_pos st + 1 in
      st\<lparr>v_pos := pos, v_mem := (if pos < n then (v_mem st)(out + (pos - 1) := c) else v_mem st)\<rparr>)"

definition hex_digit :: "uint64 \<Rightarrow> uint8" where
  "hex_digit d = (if d < 10 then 0x30 + ucast d else 0x61 + ucast d - 10)"

text \<open>The loop over the hexadecimal digits, from digit \<open>i - 1\<close> down to 0.\<close>

fun hex_loop :: "uint64 \<Rightarrow> uint64 \<Rightarrow> uint64 \<Rightarrow> nat \<Rightarrow> vstate \<Rightarrow> vstate" where
  "hex_loop out n num 0 st = st"
| "hex_loop out n num (Suc i) st =
     hex_loop out n num i (put_char out n (hex_digit (signed_drop_bit (4 * i) num AND 0xF)) st)"

text \<open>\<^verbatim>\<open>longarg ? va_arg(vl, long) : va_arg(vl, int)\<close> as a \<^verbatim>\<open>long\<close>.\<close>

definition va_num :: "bool \<Rightarrow> uint64 \<Rightarrow> uint64" where
  "va_num longarg slot = (if longarg then slot else scast (ucast slot :: uint32))"

definition put_hex :: "uint64 \<Rightarrow> uint64 \<Rightarrow> (nat \<Rightarrow> uint64) \<Rightarrow> vstate \<Rightarrow> vstate" where
  "put_hex out n vl st =
     (let num = va_num (v_long st) (vl (v_next st));
          st = st\<lparr>v_next := v_next st + 1\<rparr>;
          st = hex_loop out n num (2 * (if v_long st then 8 else 4)) st
      in st\<lparr>v_long := False, v_format := False\<rparr>)"

text \<open>The loop that counts the decimal digits of a \<^verbatim>\<open>long\<close>, with the division of C.\<close>

function count_digits :: "int \<Rightarrow> nat" where
  "count_digits nn = (let nn = nn sdiv 10 in if nn \<noteq> 0 then count_digits nn + 1 else 1)"
  by pat_completeness auto
termination
proof (relation "measure (\<lambda>nn. nat \<bar>nn\<bar>)")
  fix nn x :: int
  assume x: "x = nn sdiv 10" "x \<noteq> 0"
  have "\<bar>nn sdiv 10\<bar> = \<bar>nn\<bar> div 10" by (simp add: signed_divide_int_def abs_mult sgn_if)
  moreover from x this have "\<bar>nn\<bar> div 10 \<noteq> 0" by auto
  ultimately show "(x, nn) \<in> measure (\<lambda>nn. nat \<bar>nn\<bar>)" using x(1) by (auto simp: nat_less_iff)
qed simp

declare count_digits.simps [simp del]

text \<open>The loop that stores them, from digit \<open>i - 1\<close> of the number down to 0.\<close>

fun dec_loop :: "uint64 \<Rightarrow> uint64 \<Rightarrow> uint64 \<Rightarrow> nat \<Rightarrow> int \<Rightarrow> bytes \<Rightarrow> bytes" where
  "dec_loop out n pos 0 num m = m"
| "dec_loop out n pos (Suc i) num m =
     dec_loop out n pos i (num sdiv 10)
       (if pos + word_of_nat i + 1 < n then m(out + (pos + word_of_nat i) := word_of_int (0x30 + num smod 10)) else m)"

definition put_dec :: "uint64 \<Rightarrow> uint64 \<Rightarrow> (nat \<Rightarrow> uint64) \<Rightarrow> vstate \<Rightarrow> vstate" where
  "put_dec out n vl st =
     (let num = va_num (v_long st) (vl (v_next st));
          st = st\<lparr>v_next := v_next st + 1\<rparr>;
          (num, st) = (if num <s 0 then (- num, put_char out n 0x2d st) else (num, st));
          digits = count_digits (sint num);
          st = st\<lparr>v_mem := dec_loop out n (v_pos st) digits (sint num) (v_mem st)\<rparr>;
          st = st\<lparr>v_pos := v_pos st + word_of_nat digits\<rparr>
      in st\<lparr>v_long := False, v_format := False\<rparr>)"

partial_function (option) put_str :: "uint64 \<Rightarrow> uint64 \<Rightarrow> uint64 \<Rightarrow> vstate \<Rightarrow> vstate option" where
  "put_str out n s2 st =
     (if v_mem st s2 \<noteq> 0 then put_str out n (s2 + 1) (put_char out n (v_mem st s2) st) else Some st)"

text \<open>One character of the format. An unknown conversion character leaves \<^verbatim>\<open>format\<close> set, and a \<^verbatim>\<open>%c\<close> that does
  not fit into the buffer does not evaluate \<^verbatim>\<open>va_arg\<close>, so that its argument is left for the next conversion.\<close>

definition vs_char :: "uint64 \<Rightarrow> uint64 \<Rightarrow> (nat \<Rightarrow> uint64) \<Rightarrow> uint8 \<Rightarrow> vstate \<Rightarrow> vstate option" where
  "vs_char out n vl c st =
     (if v_format st then
        if c = 0x6c then Some (st\<lparr>v_long := True\<rparr>)
        else if c = 0x70 then Some (put_hex out n vl (put_char out n 0x78 (put_char out n 0x30 (st\<lparr>v_long := True\<rparr>))))
        else if c = 0x78 then Some (put_hex out n vl st)
        else if c = 0x64 then Some (put_dec out n vl st)
        else if c = 0x73 then
          (case put_str out n (vl (v_next st)) (st\<lparr>v_next := v_next st + 1\<rparr>) of None \<Rightarrow> None
           | Some st \<Rightarrow> Some (st\<lparr>v_long := False, v_format := False\<rparr>))
        else if c = 0x63 then
          let pos = v_pos st + 1;
              st = (if pos < n
                    then st\<lparr>v_pos := pos, v_mem := (v_mem st)(out + (pos - 1) := ucast (vl (v_next st))), v_next := v_next st + 1\<rparr>
                    else st\<lparr>v_pos := pos\<rparr>)
          in Some (st\<lparr>v_long := False, v_format := False\<rparr>)
        else Some st
      else if c = 0x25 then Some (st\<lparr>v_format := True\<rparr>)
      else Some (put_char out n c st))"

partial_function (option) vs_loop :: "uint64 \<Rightarrow> uint64 \<Rightarrow> (nat \<Rightarrow> uint64) \<Rightarrow> uint64 \<Rightarrow> vstate \<Rightarrow> vstate option" where
  "vs_loop out n vl s st =
     (if v_mem st s \<noteq> 0
      then (case vs_char out n vl (v_mem st s) st of None \<Rightarrow> None | Some st \<Rightarrow> vs_loop out n vl (s + 1) st)
      else Some st)"

definition vsnprintf :: "uint64 \<Rightarrow> uint64 \<Rightarrow> uint64 \<Rightarrow> (nat \<Rightarrow> uint64) \<Rightarrow> bytes \<Rightarrow> (uint32 \<times> bytes) option" where
  "vsnprintf out n s vl m =
     (case vs_loop out n vl s \<lparr>v_format = False, v_long = False, v_pos = 0, v_mem = m, v_next = 0\<rparr> of None \<Rightarrow> None
      | Some st \<Rightarrow>
          let pos = v_pos st; m = v_mem st in
          Some (ucast pos, if pos < n then m(out + pos := 0) else if n \<noteq> 0 then m(out + (n - 1) := 0) else m))"

end
