(* ===== verification/Pke_File.thy ===== *)
theory Pke_File
  imports Pke_Htif Pke_Snprintf
begin

text \<open>
  Files of the host, \<^verbatim>\<open>spike_interface/spike_file.c\<close>, and the services that
  \<^verbatim>\<open>spike_interface/spike_utils.c\<close> builds on them: printing, shutting down and panicking.
\<close>

section \<open>Numbers of the interface\<close>

definition HTIFSYS_exit :: uint64 where "HTIFSYS_exit = 93"
definition HTIFSYS_read :: uint64 where "HTIFSYS_read = 63"
definition HTIFSYS_write :: uint64 where "HTIFSYS_write = 64"
definition HTIFSYS_openat :: uint64 where "HTIFSYS_openat = 56"
definition HTIFSYS_close :: uint64 where "HTIFSYS_close = 57"
definition HTIFSYS_lseek :: uint64 where "HTIFSYS_lseek = 62"
definition HTIFSYS_fstat :: uint64 where "HTIFSYS_fstat = 80"
definition HTIFSYS_pread :: uint64 where "HTIFSYS_pread = 67"

definition AT_FDCWD :: int where "AT_FDCWD = -100"
definition ENOMEM :: int where "ENOMEM = 12"
definition INIT_FILE_REF :: uint32 where "INIT_FILE_REF = 3"
definition MAX_FILES :: nat where "MAX_FILES = 128"
definition MAX_FDS :: nat where "MAX_FDS = 128"

section \<open>The file table\<close>

record spike_file =
  kfd :: int
  refcnt :: uint32

text \<open>
  The tables \<^verbatim>\<open>spike_files\<close> and \<^verbatim>\<open>spike_fds\<close>, with \<^verbatim>\<open>sstatus\<close> and the host interface. A
  \<^verbatim>\<open>spike_file_t *\<close> is an index into \<^verbatim>\<open>spike_files\<close>.
\<close>

record 'd ftable =
  spike_files :: "spike_file list"
  spike_fds :: "nat option list"
  ft_sstatus :: uint64
  ft_io :: "'d hstate"

definition spike_files_init :: "spike_file list" where
  "spike_files_init = replicate MAX_FILES \<lparr>kfd = -1, refcnt = 0\<rparr>"

text \<open>A pointer that is a file, or an error number as a pointer.\<close>

datatype fptr = File nat | ERR_PTR int

definition set_refcnt :: "nat \<Rightarrow> uint32 \<Rightarrow> 'd ftable \<Rightarrow> 'd ftable" where
  "set_refcnt f c t = t\<lparr>spike_files := (spike_files t)[f := (spike_files t ! f)\<lparr>refcnt := c\<rparr>]\<rparr>"

definition set_kfd :: "nat \<Rightarrow> int \<Rightarrow> 'd ftable \<Rightarrow> 'd ftable" where
  "set_kfd f k t = t\<lparr>spike_files := (spike_files t)[f := (spike_files t ! f)\<lparr>kfd := k\<rparr>]\<rparr>"

definition file_syscall :: "'d henv \<Rightarrow> uint64 \<Rightarrow> uint64 list \<Rightarrow> 'd ftable \<Rightarrow> (uint64 \<times> 'd ftable) outcome" where
  "file_syscall E n args t =
     bindO (frontend_syscall E n args (ft_io t)) (\<lambda>(ret, io). returnO (ret, t\<lparr>ft_io := io\<rparr>))"

definition spike_file_decref :: "'d henv \<Rightarrow> nat \<Rightarrow> 'd ftable \<Rightarrow> 'd ftable outcome" where
  "spike_file_decref E f t =
     (if f \<ge> MAX_FILES then Some (Inl OutOfBounds)
      else
        let (old, c) = binop_add (he_at E) (-1) (refcnt (spike_files t ! f));
            t = set_refcnt f c t in
        if old = 2 then
          let fd = kfd (spike_files t ! f);
              t = set_refcnt f (at_set (he_at E) 0 (refcnt (spike_files t ! f))) t in
          bindO (file_syscall E HTIFSYS_close [word_of_int fd, 0, 0, 0, 0, 0, 0] t) (\<lambda>(_, t). returnO t)
        else returnO t)"

definition spike_file_incref :: "'d henv \<Rightarrow> nat \<Rightarrow> 'd ftable \<Rightarrow> 'd ftable res" where
  "spike_file_incref E f t =
     (if f \<ge> MAX_FILES then Inl OutOfBounds
      else
        let (prev, c) = binop_add (he_at E) 1 (refcnt (spike_files t ! f));
            t = set_refcnt f c t in
        if prev > 0 then Inr t else Inl (AssertFail ''prev > 0''))"

text \<open>\<^verbatim>\<open>spike_file_close\<close>; \<open>None\<close> is the null pointer.\<close>

definition spike_file_close :: "'d henv \<Rightarrow> nat option \<Rightarrow> 'd ftable \<Rightarrow> (int \<times> 'd ftable) outcome" where
  "spike_file_close E fp t =
     (case fp of None \<Rightarrow> returnO (-1, t)
      | Some f \<Rightarrow>
          if f \<ge> MAX_FILES then Some (Inl OutOfBounds)
          else
            let k = kfd (spike_files t ! f) in
            if k < 0 \<or> nat k \<ge> MAX_FDS then Some (Inl OutOfBounds)
            else
              let (old, st, entry) = macro_cas (Some f) None (ft_sstatus t) (spike_fds t ! nat k);
                  t = t\<lparr>ft_sstatus := st, spike_fds := (spike_fds t)[nat k := entry]\<rparr> in
              bindO (spike_file_decref E f t) (\<lambda>t.
                if old \<noteq> Some f then returnO (-1, t)
                else bindO (spike_file_decref E f t) (\<lambda>t. returnO (0, t))))"

text \<open>The loop of \<^verbatim>\<open>spike_file_get_free\<close>, over the entries still to be tried.\<close>

fun get_free_loop :: "'d henv \<Rightarrow> nat list \<Rightarrow> 'd ftable \<Rightarrow> nat option \<times> 'd ftable" where
  "get_free_loop E [] t = (None, t)"
| "get_free_loop E (f # fs) t =
     (if at_read (he_at E) (refcnt (spike_files t ! f)) = 0 then
        let (old, st, c) = macro_cas 0 INIT_FILE_REF (ft_sstatus t) (refcnt (spike_files t ! f));
            t = set_refcnt f c (t\<lparr>ft_sstatus := st\<rparr>) in
        if old = 0 then (Some f, t) else get_free_loop E fs t
      else get_free_loop E fs t)"

definition spike_file_get_free :: "'d henv \<Rightarrow> 'd ftable \<Rightarrow> nat option \<times> 'd ftable" where
  "spike_file_get_free E t = get_free_loop E [0..<MAX_FILES] t"

fun dup_loop :: "'d henv \<Rightarrow> nat \<Rightarrow> nat list \<Rightarrow> 'd ftable \<Rightarrow> (int \<times> 'd ftable) res" where
  "dup_loop E f [] t = Inr (-1, t)"
| "dup_loop E f (i # is) t =
     (let (old, st, entry) = macro_cas None (Some f) (ft_sstatus t) (spike_fds t ! i);
          t = t\<lparr>ft_sstatus := st, spike_fds := (spike_fds t)[i := entry]\<rparr> in
      if old = None then bindE (spike_file_incref E f t) (\<lambda>t. Inr (int i, t))
      else dup_loop E f is t)"

definition spike_file_dup :: "'d henv \<Rightarrow> nat \<Rightarrow> 'd ftable \<Rightarrow> (int \<times> 'd ftable) res" where
  "spike_file_dup E f t = dup_loop E f [0..<MAX_FDS] t"

text \<open>\<^verbatim>\<open>spike_file_init\<close>, over the standard descriptors still to be created.\<close>

fun file_init_loop :: "'d henv \<Rightarrow> nat list \<Rightarrow> 'd ftable \<Rightarrow> 'd ftable res" where
  "file_init_loop E [] t = Inr t"
| "file_init_loop E (i # is) t =
     (case spike_file_get_free E t of
        (None, t) \<Rightarrow> Inl NullDeref
      | (Some f, t) \<Rightarrow> bindE (spike_file_dup E f (set_kfd f (int i) t)) (\<lambda>(_, t). file_init_loop E is t))"

definition spike_file_init :: "'d henv \<Rightarrow> 'd ftable \<Rightarrow> 'd ftable res" where
  "spike_file_init E t = file_init_loop E [0..<3] t"

definition spike_file_openat :: "'d henv \<Rightarrow> int \<Rightarrow> uint64 \<Rightarrow> int \<Rightarrow> int \<Rightarrow> 'd ftable \<Rightarrow> (fptr \<times> 'd ftable) outcome" where
  "spike_file_openat E dirfd fn flags mode t =
     (case spike_file_get_free E t of
        (None, t) \<Rightarrow> returnO (ERR_PTR (- ENOMEM), t)
      | (Some f, t) \<Rightarrow>
          Option.bind (strlen fn (hmem (ft_io t))) (\<lambda>n.
          let fn_size = n + 1 in
          bindO (file_syscall E HTIFSYS_openat [word_of_int dirfd, fn, fn_size, word_of_int flags, word_of_int mode, 0, 0] t)
            (\<lambda>(ret, t).
              if sint ret \<ge> 0 then returnO (File f, set_kfd f (sint (ucast ret :: uint32)) t)
              else bindO (spike_file_decref E f t) (\<lambda>t. returnO (ERR_PTR (sint ret), t)))))"

definition spike_file_open :: "'d henv \<Rightarrow> uint64 \<Rightarrow> int \<Rightarrow> int \<Rightarrow> 'd ftable \<Rightarrow> (fptr \<times> 'd ftable) outcome" where
  "spike_file_open E fn flags mode t = spike_file_openat E AT_FDCWD fn flags mode t"

section \<open>Reading and writing\<close>

definition file_call :: "'d henv \<Rightarrow> uint64 \<Rightarrow> nat \<Rightarrow> uint64 list \<Rightarrow> 'd ftable \<Rightarrow> (int \<times> 'd ftable) outcome" where
  "file_call E n f args t =
     (if f \<ge> MAX_FILES then Some (Inl OutOfBounds)
      else bindO (file_syscall E n (word_of_int (kfd (spike_files t ! f)) # args) t) (\<lambda>(ret, t). returnO (sint ret, t)))"

definition spike_file_write :: "'d henv \<Rightarrow> nat \<Rightarrow> uint64 \<Rightarrow> uint64 \<Rightarrow> 'd ftable \<Rightarrow> (int \<times> 'd ftable) outcome" where
  "spike_file_write E f buf sz t = file_call E HTIFSYS_write f [buf, sz, 0, 0, 0, 0] t"

definition spike_file_pread :: "'d henv \<Rightarrow> nat \<Rightarrow> uint64 \<Rightarrow> uint64 \<Rightarrow> uint64 \<Rightarrow> 'd ftable \<Rightarrow> (int \<times> 'd ftable) outcome" where
  "spike_file_pread E f buf sz offset t = file_call E HTIFSYS_pread f [buf, sz, offset, 0, 0, 0] t"

definition spike_file_read :: "'d henv \<Rightarrow> nat \<Rightarrow> uint64 \<Rightarrow> uint64 \<Rightarrow> 'd ftable \<Rightarrow> (int \<times> 'd ftable) outcome" where
  "spike_file_read E f buf sz t = file_call E HTIFSYS_read f [buf, sz, 0, 0, 0, 0] t"

definition spike_file_lseek :: "'d henv \<Rightarrow> nat \<Rightarrow> uint64 \<Rightarrow> int \<Rightarrow> 'd ftable \<Rightarrow> (int \<times> 'd ftable) outcome" where
  "spike_file_lseek E f ptr dir t = file_call E HTIFSYS_lseek f [ptr, word_of_int dir, 0, 0, 0, 0] t"

section \<open>Printing and stopping\<close>

definition set_hmem :: "bytes \<Rightarrow> 'd ftable \<Rightarrow> 'd ftable" where
  "set_hmem m t = t\<lparr>ft_io := (ft_io t)\<lparr>hmem := m\<rparr>\<rparr>"

definition mcall_console_putchar :: "'d henv \<Rightarrow> uint64 \<Rightarrow> uint8 \<Rightarrow> 'd ftable \<Rightarrow> 'd ftable outcome" where
  "mcall_console_putchar E htif ch t =
     (if htif \<noteq> 0 then bindO (htif_console_putchar E ch (ft_io t)) (\<lambda>io. returnO (t\<lparr>ft_io := io\<rparr>)) else returnO t)"

text \<open>\<^verbatim>\<open>vprintk\<close>, with the address of its buffer \<^verbatim>\<open>out\<close> and \<^verbatim>\<open>stderr\<close> as file 2; the length is an \<^verbatim>\<open>int\<close> compared as \<^verbatim>\<open>size_t\<close>.\<close>

definition vprintk :: "'d henv \<Rightarrow> uint64 \<Rightarrow> uint64 \<Rightarrow> (nat \<Rightarrow> uint64) \<Rightarrow> 'd ftable \<Rightarrow> 'd ftable outcome" where
  "vprintk E out s vl t =
     Option.bind (vsnprintf out 256 s vl (hmem (ft_io t))) (\<lambda>(res, m).
     let t = set_hmem m t;
         len = (scast res :: uint64) in
     bindO (spike_file_write E 2 out (if len < 256 then len else 256) t) (\<lambda>(_, t). returnO t))"

definition printk :: "'d henv \<Rightarrow> uint64 \<Rightarrow> uint64 \<Rightarrow> (nat \<Rightarrow> uint64) \<Rightarrow> 'd ftable \<Rightarrow> 'd ftable outcome" where
  "printk E out s vl t = vprintk E out s vl t"

definition sprint :: "'d henv \<Rightarrow> uint64 \<Rightarrow> uint64 \<Rightarrow> (nat \<Rightarrow> uint64) \<Rightarrow> 'd ftable \<Rightarrow> 'd ftable outcome" where
  "sprint E out s vl t = vprintk E out s vl t"

partial_function (option) putstring :: "'d henv \<Rightarrow> uint64 \<Rightarrow> uint64 \<Rightarrow> 'd ftable \<Rightarrow> 'd ftable outcome" where
  "putstring E htif s t =
     (let c = hmem (ft_io t) s in
      if c \<noteq> 0 then bindO (mcall_console_putchar E htif c t) (\<lambda>t. putstring E htif (s + 1) t) else returnO t)"

definition vprintm :: "'d henv \<Rightarrow> uint64 \<Rightarrow> uint64 \<Rightarrow> uint64 \<Rightarrow> (nat \<Rightarrow> uint64) \<Rightarrow> 'd ftable \<Rightarrow> 'd ftable outcome" where
  "vprintm E htif buf s vl t =
     Option.bind (vsnprintf buf 256 s vl (hmem (ft_io t))) (\<lambda>(_, m). putstring E htif buf (set_hmem m t))"

text \<open>The address of a format string of the kernel and of the stack buffer it is rendered in.\<close>

record messages =
  msg_buf :: uint64
  msg_poweroff :: uint64
  msg_shutdown :: uint64
  msg_assert :: uint64

text \<open>The empty loop at the end of \<^verbatim>\<open>shutdown\<close>.\<close>

partial_function (option) hang :: "'d ftable \<Rightarrow> 'd ftable outcome" where
  "hang t = hang t"

definition shutdown :: "'d henv \<Rightarrow> messages \<Rightarrow> int \<Rightarrow> 'd ftable \<Rightarrow> 'd ftable outcome" where
  "shutdown E M code t =
     bindO (sprint E (msg_buf M) (msg_shutdown M) (\<lambda>_. word_of_int code) t) (\<lambda>t.
     bindO (file_syscall E HTIFSYS_exit [word_of_int code, 0, 0, 0, 0, 0, 0] t) (\<lambda>(_, t). hang t))"

definition poweroff :: "'d henv \<Rightarrow> messages \<Rightarrow> uint64 \<Rightarrow> uint16 \<Rightarrow> 'd ftable \<Rightarrow> 'd ftable outcome" where
  "poweroff E M htif code t =
     (if htif = 0 then Some (Inl (AssertFail ''htif''))
      else bindO (sprint E (msg_buf M) (msg_poweroff M) (\<lambda>_. 0) t) (\<lambda>t.
        bindO (htif_poweroff (ft_io t)) (\<lambda>io. returnO (t\<lparr>ft_io := io\<rparr>))))"

text \<open>
  \<^verbatim>\<open>do_panic\<close> passes its \<^verbatim>\<open>va_list\<close> on as an argument of the variadic \<^verbatim>\<open>sprint\<close>: the first argument
  slot of the format is the \<^verbatim>\<open>va_list\<close> \<open>vl\<close> itself and the other slots \<open>rest\<close> are indeterminate.
\<close>

definition do_panic :: "'d henv \<Rightarrow> messages \<Rightarrow> uint64 \<Rightarrow> uint64 \<Rightarrow> (nat \<Rightarrow> uint64) \<Rightarrow> 'd ftable \<Rightarrow> 'd ftable outcome" where
  "do_panic E M s vl rest t = bindO (sprint E (msg_buf M) s (rest(0 := vl)) t) (\<lambda>t. shutdown E M (-1) t)"

definition kassert_fail :: "'d henv \<Rightarrow> messages \<Rightarrow> uint64 \<Rightarrow> (nat \<Rightarrow> uint64) \<Rightarrow> 'd ftable \<Rightarrow> 'd ftable outcome" where
  "kassert_fail E M vl rest t = bindO (do_panic E M (msg_assert M) vl rest t) (\<lambda>t. shutdown E M (-1) t)"

end
