(* ===== verification/Pke_Ring.thy ===== *)
theory Pke_Ring
  imports Pke_Prelude
begin

text \<open>
  The intrusive circular doubly linked lists of \<^verbatim>\<open>kernel/pmm.c\<close> (\<^verbatim>\<open>list_node\<close>,
  \<^verbatim>\<open>__list_del\<close>, \<^verbatim>\<open>__list_add\<close>, \<^verbatim>\<open>__list_pop\<close>) over an explicit store of nodes, the
  abstraction of a ring to the list of its nodes, the interface the allocator relies on as a
  locale, and its interpretation on the code's operations.
\<close>

section \<open>Nodes and the pointer operations\<close>

text \<open>
  A \<^verbatim>\<open>list_node *\<close> is null, a list head \<^verbatim>\<open>&main_buddy.free_area[i]\<close> or the node of the
  page descriptor with the given index, \<^verbatim>\<open>&pages[pfn].node\<close>.
\<close>

datatype nref = NullN | HeadN nat | PageN uint64

record nodes =
  nd_prev :: "nref \<Rightarrow> nref"
  nd_next :: "nref \<Rightarrow> nref"

definition get_prev :: "nref \<Rightarrow> nodes \<Rightarrow> nref res" where
  "get_prev p h = (if p = NullN then Inl NullDeref else Inr (nd_prev h p))"

definition get_next :: "nref \<Rightarrow> nodes \<Rightarrow> nref res" where
  "get_next p h = (if p = NullN then Inl NullDeref else Inr (nd_next h p))"

definition set_prev :: "nref \<Rightarrow> nref \<Rightarrow> nodes \<Rightarrow> nodes res" where
  "set_prev p v h =
     (if p = NullN then Inl NullDeref else Inr (h\<lparr>nd_prev := (nd_prev h)(p := v)\<rparr>))"

definition set_next :: "nref \<Rightarrow> nref \<Rightarrow> nodes \<Rightarrow> nodes res" where
  "set_next p v h =
     (if p = NullN then Inl NullDeref else Inr (h\<lparr>nd_next := (nd_next h)(p := v)\<rparr>))"

definition list_del :: "nref \<Rightarrow> nodes \<Rightarrow> nodes res" where
  "list_del node h =
     bindE (get_prev node h) (\<lambda>p.
     bindE (get_next node h) (\<lambda>n.
     bindE (set_next p n h) (\<lambda>h.
     bindE (get_next node h) (\<lambda>n.
     bindE (get_prev node h) (\<lambda>p.
     set_prev n p h)))))"

definition list_add :: "nref \<Rightarrow> nref \<Rightarrow> nref \<Rightarrow> nodes \<Rightarrow> nodes res" where
  "list_add prev new_head new_tail h =
     bindE (set_prev new_head prev h) (\<lambda>h.
     bindE (get_next prev h) (\<lambda>n.
     bindE (set_next new_tail n h) (\<lambda>h.
     bindE (get_next prev h) (\<lambda>n.
     bindE (set_prev n new_tail h) (\<lambda>h.
     set_next prev new_head h)))))"

definition list_pop :: "nref \<Rightarrow> nodes \<Rightarrow> (nref \<times> nodes) res" where
  "list_pop head h =
     bindE (get_next head h) (\<lambda>node.
     bindE (list_del node h) (\<lambda>h.
     Inr (node, h)))"

text \<open>Inserting one node, the only way the allocator calls \<^verbatim>\<open>__list_add\<close>.\<close>

definition list_add1 :: "nref \<Rightarrow> nref \<Rightarrow> nodes \<Rightarrow> nodes res" where
  "list_add1 head n h = list_add head n n h"

text \<open>The emptiness test \<^verbatim>\<open>head->next == head\<close> of \<^verbatim>\<open>buddy_alloc\<close>.\<close>

definition list_empty :: "nref \<Rightarrow> nodes \<Rightarrow> bool" where
  "list_empty head h \<longleftrightarrow> nd_next h head = head"

section \<open>Rings as lists\<close>

text \<open>\<open>dseg h a xs b\<close>: following \<open>next\<close> from \<open>a\<close> visits \<open>xs\<close> and then \<open>b\<close>, and every
  \<open>prev\<close> on the way points back.\<close>

fun dseg :: "nodes \<Rightarrow> nref \<Rightarrow> nref list \<Rightarrow> nref \<Rightarrow> bool" where
  "dseg h a [] b \<longleftrightarrow> nd_next h a = b \<and> nd_prev h b = a"
| "dseg h a (x # xs) b \<longleftrightarrow> nd_next h a = x \<and> nd_prev h x = a \<and> dseg h x xs b"

definition ring :: "nodes \<Rightarrow> nref \<Rightarrow> nref list \<Rightarrow> bool" where
  "ring h q xs \<longleftrightarrow> dseg h q xs q \<and> distinct (q # xs) \<and> NullN \<notin> set (q # xs)"

lemma dseg_append:
  "dseg h a (xs @ y # ys) b \<longleftrightarrow> dseg h a xs y \<and> dseg h y ys b"
  by (induction xs arbitrary: a) auto

lemma dseg_cong:
  assumes "dseg h a xs b"
    and "\<And>p. p \<in> set (a # xs) \<Longrightarrow> nd_next h' p = nd_next h p"
    and "\<And>p. p \<in> set (xs @ [b]) \<Longrightarrow> nd_prev h' p = nd_prev h p"
  shows "dseg h' a xs b"
  using assms by (induction xs arbitrary: a) auto

lemma ring_cong:
  assumes "ring h q xs"
    and "\<And>p. p \<in> set (q # xs) \<Longrightarrow> nd_next h' p = nd_next h p \<and> nd_prev h' p = nd_prev h p"
  shows "ring h' q xs"
  using assms unfolding ring_def by (auto intro: dseg_cong)

lemma ring_next: "ring h q xs \<Longrightarrow> nd_next h q = (case xs of [] \<Rightarrow> q | x # _ \<Rightarrow> x)"
  by (cases xs) (auto simp: ring_def)

lemma ring_empty_iff: "ring h q xs \<Longrightarrow> list_empty q h \<longleftrightarrow> xs = []"
  by (cases xs) (auto simp: ring_def list_empty_def)


section \<open>What the pointer operations do to rings\<close>

lemma list_add1_eq:
  assumes "ring h q xs" and "n \<notin> set (q # xs)" and "n \<noteq> NullN"
  shows "list_add1 q n h =
    Inr (h\<lparr>nd_prev := (nd_prev h)(n := q, nd_next h q := n),
           nd_next := (nd_next h)(n := nd_next h q, q := n)\<rparr>)"
proof -
  have "nd_next h q \<noteq> NullN" "q \<noteq> NullN"
    using assms by (auto simp: ring_def ring_next [OF assms(1)] split: list.splits)
  with assms show ?thesis
    by (auto simp: list_add1_def list_add_def set_prev_def set_next_def get_next_def)
qed

lemma ring_add1:
  assumes r: "ring h q xs" and n: "n \<notin> set (q # xs)" "n \<noteq> NullN"
  shows "\<exists>h'. list_add1 q n h = Inr h' \<and> ring h' q (n # xs)"
proof -
  let ?h = "h\<lparr>nd_prev := (nd_prev h)(n := q, nd_next h q := n),
               nd_next := (nd_next h)(n := nd_next h q, q := n)\<rparr>"
  have "ring ?h q (n # xs)"
  proof (cases xs)
    case Nil
    with r n show ?thesis by (auto simp: ring_def)
  next
    case (Cons x ys)
    have "dseg h x ys q" using r Cons by (simp add: ring_def)
    then have "dseg ?h x ys q"
      by (rule dseg_cong) (use r n Cons in \<open>auto simp: ring_def\<close>)
    with r n Cons show ?thesis by (auto simp: ring_def)
  qed
  with list_add1_eq [OF assms] show ?thesis by blast
qed

lemma list_del_eq:
  assumes "ring h q (xs @ n # ys)"
  shows "list_del n h =
    Inr (h\<lparr>nd_next := (nd_next h)(nd_prev h n := nd_next h n),
           nd_prev := (nd_prev h)(nd_next h n := nd_prev h n)\<rparr>)
    \<and> nd_prev h n = last (q # xs) \<and> nd_next h n = hd (ys @ [q])"
proof -
  have d: "dseg h q xs n" "dseg h n ys q"
    using assms by (auto simp: ring_def dseg_append)
  have prev: "nd_prev h n = last (q # xs)"
    using d(1) by (induction h q xs n rule: dseg.induct) auto
  have "next": "nd_next h n = hd (ys @ [q])"
    using d(2) by (cases ys) auto
  have neq: "last (q # xs) \<noteq> n" "last (q # xs) \<noteq> NullN" "hd (ys @ [q]) \<noteq> NullN" "n \<noteq> NullN"
    "hd (ys @ [q]) \<noteq> n"
    using assms by (cases xs rule: rev_cases; cases ys; auto simp: ring_def)+
  show ?thesis
    using neq by (auto simp: list_del_def get_prev_def get_next_def set_prev_def set_next_def
      prev "next")
qed

lemma ring_del:
  assumes r: "ring h q (xs @ n # ys)"
  shows "\<exists>h'. list_del n h = Inr h' \<and> ring h' q (xs @ ys)"
proof -
  let ?a = "last (q # xs)" and ?b = "hd (ys @ [q])"
  let ?h = "h\<lparr>nd_next := (nd_next h)(?a := ?b), nd_prev := (nd_prev h)(?b := ?a)\<rparr>"
  have d: "dseg h q xs n" "dseg h n ys q"
    using r by (auto simp: ring_def dseg_append)
  have "dseg ?h q (xs @ ys) q"
  proof (cases xs rule: rev_cases; cases ys)
    assume "xs = []" "ys = []"
    then show ?thesis by simp
  next
    fix y ys' assume e: "xs = []" "ys = y # ys'"
    have "dseg h y ys' q" using d e by simp
    then have "dseg ?h y ys' q"
      by (rule dseg_cong) (use r e in \<open>auto simp: ring_def\<close>)
    with e show ?thesis by simp
  next
    fix xs' x assume e: "xs = xs' @ [x]" "ys = []"
    have "dseg h q xs' x" using d e by (simp add: dseg_append)
    then have "dseg ?h q xs' x"
      by (rule dseg_cong) (use r e in \<open>auto simp: ring_def\<close>)
    with e show ?thesis by (simp add: dseg_append)
  next
    fix xs' x y ys' assume e: "xs = xs' @ [x]" "ys = y # ys'"
    have "dseg h q xs' x" "dseg h y ys' q" using d e by (simp_all add: dseg_append)
    then have "dseg ?h q xs' x" "dseg ?h y ys' q"
      by (auto elim!: dseg_cong) (use r e in \<open>auto simp: ring_def\<close>)
    with e show ?thesis by (simp add: dseg_append)
  qed
  with r have "ring ?h q (xs @ ys)" by (auto simp: ring_def)
  with list_del_eq [OF r] show ?thesis by auto
qed


lemma ring_add1_frame:
  assumes "ring h q xs" "n \<notin> set (q # xs)" "n \<noteq> NullN" "list_add1 q n h = Inr h'"
    and "ring h q2 ys" "set (q2 # ys) \<inter> set (n # q # xs) = {}"
  shows "ring h' q2 ys"
proof -
  have "nd_next h q \<in> set (q # xs)"
    using ring_next [OF assms(1)] by (auto split: list.splits)
  with assms(6) have "nd_next h q \<notin> set (q2 # ys)" by auto
  with assms(4,6) show ?thesis
    unfolding list_add1_eq [OF assms(1-3)] by (auto intro: ring_cong [OF assms(5)])
qed

lemma ring_del_frame:
  assumes "ring h q (xs @ n # ys)" "list_del n h = Inr h'"
    and "ring h q2 zs" "set (q2 # zs) \<inter> set (q # xs @ n # ys) = {}"
  shows "ring h' q2 zs"
proof -
  note e = list_del_eq [OF assms(1)]
  have "nd_prev h n \<in> set (q # xs)"
    using e last_in_set [of "q # xs"] by simp
  moreover have "nd_next h n \<in> set (q # ys)"
    using e hd_in_set [of "ys @ [q]"] by auto
  ultimately have "nd_prev h n \<notin> set (q2 # zs)" "nd_next h n \<notin> set (q2 # zs)"
    using assms(4) by auto
  with e assms(2) show ?thesis by (auto intro: ring_cong [OF assms(3)])
qed

lemma list_pop_eq:
  assumes "ring h q (n # ys)"
  shows "list_pop q h = bindE (list_del n h) (\<lambda>h'. Inr (n, h'))"
proof -
  have "nd_next h q = n" "q \<noteq> NullN" using assms by (auto simp: ring_def)
  then show ?thesis by (simp add: list_pop_def get_next_def)
qed

section \<open>The interface of the free lists\<close>

text \<open>
  What the allocator relies on: a representation predicate for a list with a given head in a
  store, and insertion at the front, deletion of a member and removal of the front element that
  return, have their effect on the list and leave every separate list of the store alone.
\<close>

locale free_list =
  fixes rep :: "'h \<Rightarrow> 'p \<Rightarrow> 'p list \<Rightarrow> bool"
    and add :: "'p \<Rightarrow> 'p \<Rightarrow> 'h \<Rightarrow> 'h res"
    and del :: "'p \<Rightarrow> 'h \<Rightarrow> 'h res"
    and pop :: "'p \<Rightarrow> 'h \<Rightarrow> ('p \<times> 'h) res"
    and is_emp :: "'p \<Rightarrow> 'h \<Rightarrow> bool"
    and valid :: "'p \<Rightarrow> bool"
  assumes rep_distinct: "rep h q xs \<Longrightarrow> distinct (q # xs)"
    and emp_iff: "rep h q xs \<Longrightarrow> is_emp q h \<longleftrightarrow> xs = []"
    and add_spec: "rep h q xs \<Longrightarrow> valid n \<Longrightarrow> n \<notin> set (q # xs) \<Longrightarrow>
      \<exists>h'. add q n h = Inr h' \<and> rep h' q (n # xs) \<and>
        (\<forall>q2 ys. rep h q2 ys \<longrightarrow> set (q2 # ys) \<inter> set (n # q # xs) = {} \<longrightarrow> rep h' q2 ys)"
    and del_spec: "rep h q (xs @ n # ys) \<Longrightarrow>
      \<exists>h'. del n h = Inr h' \<and> rep h' q (xs @ ys) \<and>
        (\<forall>q2 zs. rep h q2 zs \<longrightarrow> set (q2 # zs) \<inter> set (q # xs @ n # ys) = {} \<longrightarrow> rep h' q2 zs)"
    and pop_del: "rep h q (n # ys) \<Longrightarrow> pop q h = bindE (del n h) (\<lambda>h'. Inr (n, h'))"

text \<open>The heads \<open>heads i\<close>, \<open>i < N\<close>, of separate lists with contents \<open>area i\<close>.\<close>

definition list_family ::
    "('h \<Rightarrow> 'p \<Rightarrow> 'p list \<Rightarrow> bool) \<Rightarrow> (nat \<Rightarrow> 'p) \<Rightarrow> nat \<Rightarrow> (nat \<Rightarrow> 'p list) \<Rightarrow> 'h \<Rightarrow> bool" where
  "list_family rep heads N area h \<longleftrightarrow>
     (\<forall>i<N. rep h (heads i) (area i)) \<and>
     (\<forall>i<N. \<forall>j<N. i \<noteq> j \<longrightarrow> set (heads i # area i) \<inter> set (heads j # area j) = {})"

context free_list
begin

lemma family_emp_iff: "list_family rep heads N area h \<Longrightarrow> i < N \<Longrightarrow> is_emp (heads i) h \<longleftrightarrow> area i = []"
  by (auto simp: list_family_def emp_iff)

lemma family_distinct: "list_family rep heads N area h \<Longrightarrow> i < N \<Longrightarrow> distinct (area i)"
  using rep_distinct by (fastforce simp: list_family_def)

lemma family_upd:
  assumes fam: "list_family rep heads N area h" and i: "i < N"
    and h': "rep h' (heads i) xs"
    and sub: "set xs \<subseteq> insert n (set (area i))"
    and new: "\<And>j. j < N \<Longrightarrow> j \<noteq> i \<Longrightarrow> n \<notin> set (heads j # area j)"
    and frame: "\<forall>q2 ys. rep h q2 ys \<longrightarrow> set (q2 # ys) \<inter> set (n # heads i # area i) = {} \<longrightarrow> rep h' q2 ys"
  shows "list_family rep heads N (area(i := xs)) h'"
proof -
  have "rep h' (heads j) (area j)" if j: "j < N" "j \<noteq> i" for j
  proof -
    have "rep h (heads j) (area j)" using fam j by (simp add: list_family_def)
    moreover have "set (heads j # area j) \<inter> set (heads i # area i) = {}"
      using fam i j unfolding list_family_def by blast
    then have "set (heads j # area j) \<inter> set (n # heads i # area i) = {}"
      using new [OF j] by auto
    ultimately show ?thesis using frame by blast
  qed
  moreover have "set (heads i # xs) \<inter> set (heads j # area j) = {}" if j: "j < N" "j \<noteq> i" for j
  proof -
    have "set (heads i # area i) \<inter> set (heads j # area j) = {}"
      using fam i j unfolding list_family_def by blast
    then show ?thesis using new [OF j] sub by auto
  qed
  ultimately show ?thesis
    using h' fam i unfolding list_family_def by (auto simp: Int_commute)
qed

lemma family_add:
  assumes fam: "list_family rep heads N area h" and i: "i < N" and "valid n"
    and new: "\<And>j. j < N \<Longrightarrow> n \<notin> set (heads j # area j)"
  shows "\<exists>h'. add (heads i) n h = Inr h' \<and> list_family rep heads N (area(i := n # area i)) h'"
proof -
  have "rep h (heads i) (area i)" using fam i by (simp add: list_family_def)
  from add_spec [OF this \<open>valid n\<close> new [OF i]] obtain h' where
    h': "add (heads i) n h = Inr h'" "rep h' (heads i) (n # area i)"
      "\<forall>q2 ys. rep h q2 ys \<longrightarrow> set (q2 # ys) \<inter> set (n # heads i # area i) = {} \<longrightarrow> rep h' q2 ys"
    by blast
  then show ?thesis using family_upd [OF fam i h'(2) _ _ h'(3)] new by auto
qed

lemma family_del:
  assumes fam: "list_family rep heads N area h" and i: "i < N" and n: "n \<in> set (area i)"
  shows "\<exists>h'. del n h = Inr h' \<and> list_family rep heads N (area(i := remove1 n (area i))) h'"
proof -
  have r: "rep h (heads i) (area i)" using fam i by (simp add: list_family_def)
  from n obtain xs ys where e: "area i = xs @ n # ys" "n \<notin> set xs" by (meson split_list_first)
  from del_spec [OF r [unfolded e(1)]] obtain h' where
    h': "del n h = Inr h'" "rep h' (heads i) (xs @ ys)"
      "\<forall>q2 zs. rep h q2 zs \<longrightarrow> set (q2 # zs) \<inter> set (heads i # xs @ n # ys) = {} \<longrightarrow> rep h' q2 zs"
    by blast
  have new: "n \<notin> set (heads j # area j)" if "j < N" "j \<noteq> i" for j
  proof -
    have "set (heads i # area i) \<inter> set (heads j # area j) = {}"
      using fam i that unfolding list_family_def by blast
    with n show ?thesis by auto
  qed
  have "list_family rep heads N (area(i := xs @ ys)) h'"
    by (rule family_upd [OF fam i h'(2) _ new]) (use h'(3) e in auto)
  with h'(1) e show ?thesis by (auto simp: remove1_append)
qed

lemma family_pop:
  assumes fam: "list_family rep heads N area h" and i: "i < N" and n: "area i = n # ys"
  shows "\<exists>h'. pop (heads i) h = Inr (n, h') \<and> list_family rep heads N (area(i := ys)) h'"
proof -
  have "rep h (heads i) (n # ys)" using fam i n by (auto simp: list_family_def)
  from pop_del [OF this] family_del [OF fam i, of n] n show ?thesis by auto
qed

lemma add_then_pop:
  assumes "rep h q xs" "valid n" "n \<notin> set (q # xs)"
  shows "\<exists>h'. bindE (add q n h) (pop q) = Inr (n, h') \<and> rep h' q xs"
proof -
  from add_spec [OF assms] obtain h1 where "add q n h = Inr h1" "rep h1 q (n # xs)" by blast
  moreover from del_spec [of h1 q "[]" n xs] \<open>rep h1 q (n # xs)\<close>
  obtain h2 where "del n h1 = Inr h2" "rep h2 q xs" by auto
  ultimately show ?thesis by (auto simp: pop_del)
qed

end

text \<open>The code's operations provide the interface.\<close>

interpretation node_ring: free_list ring list_add1 list_del list_pop list_empty "\<lambda>n. n \<noteq> NullN"
proof unfold_locales
  fix h q xs assume "ring h q xs"
  then show "distinct (q # xs)" by (simp add: ring_def)
next
  fix h q xs assume "ring h q xs"
  then show "list_empty q h \<longleftrightarrow> xs = []" by (rule ring_empty_iff)
next
  fix h q xs n assume a: "ring h q xs" "n \<noteq> NullN" "n \<notin> set (q # xs)"
  then obtain h' where "list_add1 q n h = Inr h'" "ring h' q (n # xs)"
    using ring_add1 by blast
  with a show "\<exists>h'. list_add1 q n h = Inr h' \<and> ring h' q (n # xs) \<and>
      (\<forall>q2 ys. ring h q2 ys \<longrightarrow> set (q2 # ys) \<inter> set (n # q # xs) = {} \<longrightarrow> ring h' q2 ys)"
    using ring_add1_frame by blast
next
  fix h q xs n ys assume a: "ring h q (xs @ n # ys)"
  then obtain h' where "list_del n h = Inr h'" "ring h' q (xs @ ys)"
    using ring_del by blast
  with a show "\<exists>h'. list_del n h = Inr h' \<and> ring h' q (xs @ ys) \<and>
      (\<forall>q2 zs. ring h q2 zs \<longrightarrow> set (q2 # zs) \<inter> set (q # xs @ n # ys) = {} \<longrightarrow> ring h' q2 zs)"
    using ring_del_frame by blast
next
  fix h q n ys assume "ring h q (n # ys)"
  then show "list_pop q h = bindE (list_del n h) (\<lambda>h'. Inr (n, h'))" by (rule list_pop_eq)
qed

end
