(* ===== verification/Pke_Sync.thy ===== *)
theory Pke_Sync
  imports Pke_Prelude
begin

text \<open>
  The atomic primitives and the spinlock of \<^verbatim>\<open>kernel/sync_utils.c\<close>. The primitives are functions
  on the memory cell they address. The lock is modelled twice: as the loop one hart runs while no
  other hart changes the cell (the setting of the other components, \<^verbatim>\<open>NCPU\<close> being 1), and as a
  step relation in which any number of harts race for the same cell.
\<close>

section \<open>Atomic read-modify-write operations\<close>

definition atomic_add :: "uint64 \<Rightarrow> uint64 \<Rightarrow> uint64" where
  "atomic_add cell delta = cell + delta"

definition atomic_fetch_add :: "uint64 \<Rightarrow> uint64 \<Rightarrow> uint64 \<times> uint64" where
  "atomic_fetch_add cell delta = (cell, cell + delta)"

definition atomic_swap :: "uint32 \<Rightarrow> uint32 \<Rightarrow> uint32 \<times> uint32" where
  "atomic_swap cell new_val = (cell, new_val)"

definition atomic_set_release :: "uint32 \<Rightarrow> uint32 \<Rightarrow> uint32" where
  "atomic_set_release cell val = val"

text \<open>
  The compare-and-swap loops retry while the store-conditional fails. The list says, attempt by
  attempt, whether the store-conditional succeeds and which value the cell has when it is loaded;
  \<open>None\<close> stands for a list that ends before the loop does.
\<close>

fun cas_loop :: "(bool \<times> 'a::len word) list \<Rightarrow> 'a word \<Rightarrow> 'a word \<Rightarrow> (uint32 \<times> 'a word) option" where
  "cas_loop [] expected new_val = None"
| "cas_loop ((sc_ok, cell) # attempts) expected new_val =
     (if cell \<noteq> expected then Some (0, cell)
      else if sc_ok then Some (1, new_val)
      else cas_loop attempts expected new_val)"

definition atomic_cas_d :: "(bool \<times> uint64) list \<Rightarrow> uint64 \<Rightarrow> uint64 \<Rightarrow> (uint32 \<times> uint64) option" where
  "atomic_cas_d attempts expected new_val = cas_loop attempts expected new_val"

definition atomic_cas_w :: "(bool \<times> uint32) list \<Rightarrow> uint32 \<Rightarrow> uint32 \<Rightarrow> (uint32 \<times> uint32) option" where
  "atomic_cas_w attempts expected new_val = cas_loop attempts expected new_val"

text \<open>On a hart that runs alone the first store-conditional succeeds.\<close>

definition cas_alone :: "uint64 \<Rightarrow> uint64 \<Rightarrow> uint64 \<Rightarrow> uint32 \<times> uint64" where
  "cas_alone cell expected new_val = (if cell = expected then (1, new_val) else (0, cell))"

lemma cas_loop_retries:
  "cas_loop (replicate n (False, cell) @ (True, cell) # rest) expected new_val =
     Some (if cell = expected then (1, new_val) else (0, cell))"
  by (induction n) auto

lemma cas_alone_eq: "Some (cas_alone cell expected new_val) = atomic_cas_d [(True, cell)] expected new_val"
  by (simp add: cas_alone_def atomic_cas_d_def)

lemma cas_loop_Some:
  "cas_loop attempts expected new_val = Some (r, v) \<Longrightarrow>
     (r = 1 \<and> v = new_val \<and> (True, expected) \<in> set attempts) \<or>
     (r = 0 \<and> v \<noteq> expected \<and> v \<in> snd ` set attempts)"
  by (induction attempts expected new_val rule: cas_loop.induct) (auto split: if_splits)

section \<open>The lock on a hart that runs alone\<close>

partial_function (option) lock_acquire :: "uint32 \<Rightarrow> uint32 option" where
  "lock_acquire lock =
     (if lock = 0
      then (case atomic_swap lock 1 of (old, lock') \<Rightarrow> if old = 0 then Some lock' else lock_acquire lock')
      else lock_acquire lock)"

definition lock_release :: "uint32 \<Rightarrow> uint32" where
  "lock_release lock = atomic_set_release lock 0"

lemma lock_acquire_held_aux:
  assumes "lock_acquire l = Some r"
  shows "l = 0 \<and> r = 1"
proof (rule lock_acquire.raw_induct [where P = "\<lambda>l r. l = 0 \<and> r = 1", OF _ assms])
  fix f l r
  assume IH: "\<And>l r. f l = Some r \<Longrightarrow> l = 0 \<and> r = 1"
    and eq: "(if l = 0
      then (case atomic_swap l 1 of (old, l') \<Rightarrow> if old = 0 then Some l' else f l')
      else f l) = Some r"
  then show "l = 0 \<and> r = 1"
    by (auto simp: atomic_swap_def split: if_splits)
qed

lemma lock_acquire_free [simp]: "lock_acquire 0 = Some 1"
  by (subst lock_acquire.simps) (simp add: atomic_swap_def)

lemma lock_acquire_held: "l \<noteq> 0 \<Longrightarrow> lock_acquire l = None"
  using lock_acquire_held_aux by (cases "lock_acquire l") auto

lemma lock_acquire_Some_iff: "lock_acquire l = Some r \<longleftrightarrow> l = 0 \<and> r = 1"
  using lock_acquire_held_aux by auto

lemma lock_release_eq [simp]: "lock_release l = 0"
  by (simp add: lock_release_def atomic_set_release_def)

section \<open>Harts racing for the lock\<close>

text \<open>
  The program counter of a hart: outside, about to test the lock word, about to swap it, inside
  the critical section. One rule per memory access of \<^verbatim>\<open>lock_acquire\<close> and \<^verbatim>\<open>lock_release\<close>.
\<close>

datatype lock_pc = Outside | Testing | Swapping | Critical

record lock_sys =
  pcs :: "nat \<Rightarrow> lock_pc"
  lock_word :: uint32

inductive lock_step :: "lock_sys \<Rightarrow> lock_sys \<Rightarrow> bool" where
  enter: "pcs s i = Outside \<Longrightarrow> lock_step s (s\<lparr>pcs := (pcs s)(i := Testing)\<rparr>)"
| test_free: "pcs s i = Testing \<Longrightarrow> lock_word s = 0 \<Longrightarrow>
    lock_step s (s\<lparr>pcs := (pcs s)(i := Swapping)\<rparr>)"
| test_held: "pcs s i = Testing \<Longrightarrow> lock_word s \<noteq> 0 \<Longrightarrow> lock_step s s"
| swap_won: "pcs s i = Swapping \<Longrightarrow> atomic_swap (lock_word s) 1 = (0, w) \<Longrightarrow>
    lock_step s (s\<lparr>pcs := (pcs s)(i := Critical), lock_word := w\<rparr>)"
| swap_lost: "pcs s i = Swapping \<Longrightarrow> atomic_swap (lock_word s) 1 = (old, w) \<Longrightarrow> old \<noteq> 0 \<Longrightarrow>
    lock_step s (s\<lparr>pcs := (pcs s)(i := Testing), lock_word := w\<rparr>)"
| leave: "pcs s i = Critical \<Longrightarrow>
    lock_step s (s\<lparr>pcs := (pcs s)(i := Outside), lock_word := lock_release (lock_word s)\<rparr>)"

definition lock_init :: lock_sys where
  "lock_init = \<lparr>pcs = (\<lambda>_. Outside), lock_word = 0\<rparr>"

inductive lock_reachable :: "lock_sys \<Rightarrow> bool" where
  init: "lock_reachable lock_init"
| step: "lock_reachable s \<Longrightarrow> lock_step s t \<Longrightarrow> lock_reachable t"

text \<open>The word is 1 while exactly one hart is inside, and 0 otherwise.\<close>

definition lock_inv :: "lock_sys \<Rightarrow> bool" where
  "lock_inv s \<longleftrightarrow>
     (lock_word s = 0 \<and> (\<forall>i. pcs s i \<noteq> Critical)) \<or>
     (\<exists>h. lock_word s = 1 \<and> (\<forall>i. pcs s i = Critical \<longleftrightarrow> i = h))"

lemma lock_step_inv:
  assumes "lock_step s t" and "lock_inv s"
  shows "lock_inv t"
  using assms
proof (cases rule: lock_step.cases)
  case (leave i)
  from assms(2) leave(2) have "\<forall>j. pcs s j = Critical \<longleftrightarrow> j = i"
    unfolding lock_inv_def by metis
  with leave show ?thesis by (simp add: lock_inv_def)
next
  case (swap_won i w)
  with assms(2) have "w = 1" "\<forall>j. pcs s j \<noteq> Critical"
    by (auto simp: lock_inv_def atomic_swap_def)
  with swap_won show ?thesis by (auto simp: lock_inv_def)
next
  case (swap_lost i old w)
  with assms(2) obtain h where "w = 1" "\<forall>j. pcs s j = Critical \<longleftrightarrow> j = h" "lock_word s = 1"
    by (auto simp: lock_inv_def atomic_swap_def)
  moreover from this swap_lost(2) have "i \<noteq> h" by force
  ultimately show ?thesis using swap_lost(1) by (auto simp: lock_inv_def)
next
  case (enter i)
  then have "\<forall>j. pcs t j = Critical \<longleftrightarrow> pcs s j = Critical" "lock_word t = lock_word s" by auto
  with assms(2) show ?thesis by (simp add: lock_inv_def)
next
  case (test_free i)
  then have "\<forall>j. pcs t j = Critical \<longleftrightarrow> pcs s j = Critical" "lock_word t = lock_word s" by auto
  with assms(2) show ?thesis by (simp add: lock_inv_def)
next
  case (test_held i)
  with assms(2) show ?thesis by simp
qed

lemma lock_reachable_inv: "lock_reachable s \<Longrightarrow> lock_inv s"
proof (induction rule: lock_reachable.induct)
  case init
  show ?case by (simp add: lock_inv_def lock_init_def)
next
  case (step s t)
  then show ?case using lock_step_inv by blast
qed

text \<open>C31: However many harts run \<^verbatim>\<open>lock_acquire\<close> and \<^verbatim>\<open>lock_release\<close> interleaved access by access, at
  most one is in the critical section, and whenever none is, each hart that is trying to acquire the
  lock can get in.\<close>

theorem lock_exclusive:
  assumes "lock_reachable s"
  shows "(\<forall>i j. pcs s i = Critical \<and> pcs s j = Critical \<longrightarrow> i = j) \<and>
    (\<forall>i. (\<forall>j. pcs s j \<noteq> Critical) \<and> pcs s i \<noteq> Outside \<longrightarrow> (\<exists>t. lock_step\<^sup>*\<^sup>* s t \<and> pcs t i = Critical))"
proof (intro conjI allI impI)
  note inv = lock_reachable_inv [OF assms]
  show "i = j" if "pcs s i = Critical \<and> pcs s j = Critical" for i j
    using that inv unfolding lock_inv_def by metis
  show "\<exists>t. lock_step\<^sup>*\<^sup>* s t \<and> pcs t i = Critical" if i: "(\<forall>j. pcs s j \<noteq> Critical) \<and> pcs s i \<noteq> Outside" for i
  proof -
    have w: "lock_word s = 0" using inv i unfolding lock_inv_def by metis
    have swap: "\<exists>t. lock_step u t \<and> pcs t i = Critical" if "pcs u i = Swapping" "lock_word u = 0" for u
      using lock_step.swap_won [OF that(1), of 1] that(2) by (auto simp: atomic_swap_def)
    show ?thesis
    proof (cases "pcs s i")
      case Testing
      let ?u = "s\<lparr>pcs := (pcs s)(i := Swapping)\<rparr>"
      have "lock_step s ?u" by (rule lock_step.test_free [OF Testing w])
      moreover obtain t where "lock_step ?u t" "pcs t i = Critical" using swap [of ?u] w by auto
      ultimately show ?thesis by (meson rtranclp.rtrancl_into_rtrancl rtranclp.rtrancl_refl)
    next
      case Swapping
      then show ?thesis using swap [OF _ w] by blast
    qed (use i in auto)
  qed
qed

theorem lock_exclusive_witness:
  "\<exists>s t. lock_reachable s \<and> pcs s 3 = Testing \<and> lock_step\<^sup>*\<^sup>* s t \<and> pcs t 3 = Critical"
proof -
  let ?s = "lock_init\<lparr>pcs := (pcs lock_init)(3 := Testing)\<rparr>"
  have r: "lock_reachable ?s"
    by (rule lock_reachable.step [OF lock_reachable.init lock_step.enter]) (simp add: lock_init_def)
  obtain t where "lock_step\<^sup>*\<^sup>* ?s t" "pcs t 3 = Critical"
    using lock_exclusive [OF r, THEN conjunct2, THEN spec, of 3] by (auto simp: lock_init_def split: if_splits)
  then show ?thesis using r by (intro exI [of _ ?s] exI [of _ t]) simp
qed

end
