(* ===== verification/Pke_Buddy.thy ===== *)
theory Pke_Buddy
  imports Pke_Ring Pke_Riscv Pke_Sync
begin

text \<open>
  The physical memory manager of \<^verbatim>\<open>kernel/pmm.c\<close>: its state, the buddy system
  (\<^verbatim>\<open>buddy_system_init\<close>, \<^verbatim>\<open>buddy_split\<close>, \<^verbatim>\<open>buddy_alloc\<close>, \<^verbatim>\<open>__buddy_merge_inner\<close>,
  \<^verbatim>\<open>buddy_free\<close>), the per-CPU page caches (\<^verbatim>\<open>alloc_page\<close>, \<^verbatim>\<open>pfree\<close>) and \<^verbatim>\<open>pmm_init\<close>.
  A \<^verbatim>\<open>page_t *\<close> is the index of the descriptor in \<^verbatim>\<open>pages\<close> (the page frame number); the
  list node inside a descriptor is the node \<open>PageN pfn\<close> of the node store.
\<close>

section \<open>State\<close>

definition MAX_ORDER :: nat where "MAX_ORDER = 11"
definition PCPU_CACHE_SIZE :: nat where "PCPU_CACHE_SIZE = 32"

text \<open>The bit-fields of \<^verbatim>\<open>page_t.status\<close>, each at its width.\<close>

record page =
  is_free :: "1 word"
  is_head :: "1 word"
  pg_order :: "5 word"
  pg_alloc :: "3 word"
  cpu_id :: "6 word"
  pg_ref :: "16 word"
  pg_color :: "8 word"

text \<open>An entry of \<^verbatim>\<open>objs\<close> is a \<^verbatim>\<open>page_t *\<close>; \<open>None\<close> is the null pointer of zeroed memory.\<close>

record percpu_cache =
  objs :: "uint64 option list"
  pc_count :: uint32

record pmm =
  pages :: "uint64 \<Rightarrow> page"
  nr_pages :: uint64
  bnodes :: nodes
  buddy_lock :: uint32
  pcpu_caches :: "percpu_cache list"
  free_mem_start_addr :: uint64
  free_mem_end_addr :: uint64
  buddy_start :: uint64
  buddy_end :: uint64
  g_mem_size :: uint64
  tp_reg :: uint64
  sstatus_reg :: uint64

section \<open>Addresses, descriptors and lists\<close>

definition PFN_TO_ADDR :: "uint64 \<Rightarrow> uint64" where
  "PFN_TO_ADDR pfn = pfn * PGSIZE + DRAM_BASE"

definition ADDR_TO_PFN :: "uint64 \<Rightarrow> uint64" where
  "ADDR_TO_PFN addr = (addr - DRAM_BASE) div PGSIZE"

text \<open>Reading and writing the descriptor \<^verbatim>\<open>pages[pfn]\<close>: the array has \<^verbatim>\<open>nr_pages\<close> elements.\<close>

definition page_at :: "uint64 \<Rightarrow> pmm \<Rightarrow> page res" where
  "page_at p s = (if p < nr_pages s then Inr (pages s p) else Inl OutOfBounds)"

definition page_upd :: "uint64 \<Rightarrow> (page \<Rightarrow> page) \<Rightarrow> pmm \<Rightarrow> pmm res" where
  "page_upd p f s =
     (if p < nr_pages s then Inr (s\<lparr>pages := (pages s)(p := f (pages s p))\<rparr>) else Inl OutOfBounds)"

definition with_nodes :: "(nodes \<Rightarrow> nodes res) \<Rightarrow> pmm \<Rightarrow> pmm res" where
  "with_nodes f s = bindE (f (bnodes s)) (\<lambda>h. Inr (s\<lparr>bnodes := h\<rparr>))"

text \<open>The list head \<^verbatim>\<open>&main_buddy.free_area[i]\<close>, of an array with \<^verbatim>\<open>MAX_ORDER\<close> elements.\<close>

definition free_area :: "nat \<Rightarrow> nref res" where
  "free_area i = (if i < MAX_ORDER then Inr (HeadN i) else Inl OutOfBounds)"

text \<open>\<^verbatim>\<open>__list_pop\<close> on a free list and \<^verbatim>\<open>NODE_TO_PAGE\<close> of the node it returns, which is a
  descriptor only if the node belongs to one.\<close>

definition NODE_TO_PAGE :: "nref \<Rightarrow> uint64 res" where
  "NODE_TO_PAGE n = (case n of PageN p \<Rightarrow> Inr p | _ \<Rightarrow> Inl OutOfBounds)"

definition area_pop :: "nat \<Rightarrow> pmm \<Rightarrow> (uint64 \<times> pmm) res" where
  "area_pop i s =
     bindE (free_area i) (\<lambda>q.
     bindE (list_pop q (bnodes s)) (\<lambda>(n, h).
     bindE (NODE_TO_PAGE n) (\<lambda>p.
     Inr (p, s\<lparr>bnodes := h\<rparr>))))"

definition area_add :: "nat \<Rightarrow> uint64 \<Rightarrow> pmm \<Rightarrow> pmm res" where
  "area_add i p s =
     bindE (free_area i) (\<lambda>q.
     with_nodes (list_add q (PageN p) (PageN p)) s)"

definition buddy_lock_acquire :: "pmm \<Rightarrow> pmm res" where
  "buddy_lock_acquire s =
     (case lock_acquire (buddy_lock s) of None \<Rightarrow> Inl Spin | Some l \<Rightarrow> Inr (s\<lparr>buddy_lock := l\<rparr>))"

definition buddy_lock_release :: "pmm \<Rightarrow> pmm" where
  "buddy_lock_release s = s\<lparr>buddy_lock := lock_release (buddy_lock s)\<rparr>"

section \<open>Splitting and allocating blocks\<close>

text \<open>One iteration of the loop of \<^verbatim>\<open>buddy_split\<close>, at order \<open>i\<close>.\<close>

definition split_once :: "nat \<Rightarrow> pmm \<Rightarrow> pmm res" where
  "split_once i s =
     bindE (area_pop i s) (\<lambda>(p, s).
     let buddy_pfn = p + shl1 (i - 1) in
     bindE (page_upd buddy_pfn (\<lambda>pg. pg\<lparr>pg_alloc := 0, is_free := 1, is_head := 1,
                                        pg_order := word_of_nat (i - 1)\<rparr>) s) (\<lambda>s.
     bindE (area_add (i - 1) buddy_pfn s) (\<lambda>s.
     bindE (page_upd p (\<lambda>pg. pg\<lparr>pg_order := word_of_nat (i - 1)\<rparr>) s) (\<lambda>s.
     area_add (i - 1) p s))))"

fun buddy_split :: "nat \<Rightarrow> nat \<Rightarrow> pmm \<Rightarrow> pmm res" where
  "buddy_split i target_order s =
     (if i > target_order
      then bindE (split_once i s) (\<lambda>s. buddy_split (i - 1) target_order s)
      else Inr s)"

declare buddy_split.simps [simp del]

text \<open>The search loop of \<^verbatim>\<open>buddy_alloc\<close> from order \<open>i\<close> upwards.\<close>

function buddy_alloc_loop :: "nat \<Rightarrow> nat \<Rightarrow> pmm \<Rightarrow> (uint64 \<times> pmm) res" where
  "buddy_alloc_loop i order s =
     (if i < MAX_ORDER
      then if list_empty (HeadN i) (bnodes s)
           then buddy_alloc_loop (i + 1) order s
           else bindE (if i > order then buddy_split i order s else Inr s) (\<lambda>s.
                bindE (area_pop order s) (\<lambda>(p, s).
                let s = buddy_lock_release s in
                bindE (page_upd p (\<lambda>pg. pg\<lparr>is_free := 0, pg_alloc := 1\<rparr>) s) (\<lambda>s.
                Inr (PFN_TO_ADDR p, s))))
      else let s = buddy_lock_release s in
           Inl (Panic ''buddy_alloc : Out of required size of memory!''))"
  by pat_completeness auto
termination
  by (relation "measure (\<lambda>(i, order, s). MAX_ORDER - i)") auto

declare buddy_alloc_loop.simps [simp del]

definition buddy_alloc :: "uint32 \<Rightarrow> pmm \<Rightarrow> (uint64 \<times> pmm) res" where
  "buddy_alloc order s =
     bindE (guardE (unat order < MAX_ORDER) (AssertFail ''order >= 0 && order < MAX_ORDER'')) (\<lambda>_.
     bindE (buddy_lock_acquire s) (\<lambda>s.
     buddy_alloc_loop (unat order) (unat order) s))"

section \<open>Merging and freeing blocks\<close>

function merge_loop :: "uint64 \<Rightarrow> nat \<Rightarrow> pmm \<Rightarrow> (uint64 \<times> nat \<times> pmm) res" where
  "merge_loop pfn order s =
     (if order < MAX_ORDER - 1
      then let my_buddy = pfn XOR shl1 order in
           bindE (page_at my_buddy s) (\<lambda>b.
           if unat (pg_order b) \<noteq> order \<or> is_free b \<noteq> 1 \<or> is_head b \<noteq> 1
           then Inr (pfn, order, s)
           else bindE (with_nodes (list_del (PageN my_buddy)) s) (\<lambda>s.
                bindE (page_upd my_buddy (\<lambda>pg. pg\<lparr>is_free := 0, is_head := 0\<rparr>) s) (\<lambda>s.
                let pfn = pfn AND NOT (shl1 order) in
                bindE (page_upd pfn (\<lambda>pg. pg\<lparr>pg_order := word_of_nat (order + 1)\<rparr>) s) (\<lambda>s.
                merge_loop pfn (order + 1) s))))
      else Inr (pfn, order, s))"
  by pat_completeness auto
termination
  by (relation "measure (\<lambda>(pfn, order, s). MAX_ORDER - order)") auto

declare merge_loop.simps [simp del]

definition buddy_merge_inner :: "uint64 \<Rightarrow> pmm \<Rightarrow> pmm res" where
  "buddy_merge_inner p s =
     bindE (page_at p s) (\<lambda>pg.
     bindE (page_upd p (\<lambda>pg. pg\<lparr>is_free := 0, is_head := 0, pg_alloc := 0\<rparr>) s) (\<lambda>s.
     bindE (merge_loop p (unat (pg_order pg)) s) (\<lambda>(p, order, s).
     bindE (page_upd p (\<lambda>pg. pg\<lparr>is_free := 1, is_head := 1, pg_alloc := 0\<rparr>) s) (\<lambda>s.
     area_add order p s))))"

definition buddy_free :: "uint64 \<Rightarrow> pmm \<Rightarrow> pmm res" where
  "buddy_free addr s =
     bindE (guardE (addr \<ge> buddy_start s \<or> addr < buddy_end s)
              (AssertFail ''addr >= buddy_start || addr < buddy_end'')) (\<lambda>_.
     bindE (buddy_lock_acquire s) (\<lambda>s.
     bindE (buddy_merge_inner (ADDR_TO_PFN addr) s) (\<lambda>s.
     Inr (buddy_lock_release s))))"

end
