(* ===== verification/Pke_Buddy_Inv.thy ===== *)
theory Pke_Buddy_Inv
  imports Pke_Buddy
begin

text \<open>
  The invariant of the buddy system and what every operation of \<^verbatim>\<open>kernel/pmm.c\<close> does to it.
  A block of order \<open>i\<close> at frame \<open>p\<close> is the set of the \<open>2 ^ i\<close> frames from \<open>p\<close>. The invariant
  relates the free lists, the descriptors' flags and the set of free blocks; the operations are
  then specified by their effect on the set of free frames.
\<close>

section \<open>Blocks\<close>

definition blk :: "uint64 \<Rightarrow> nat \<Rightarrow> nat set" where
  "blk p i = {unat p ..< unat p + 2 ^ i}"

text \<open>\<open>p\<close> is a possible block of order \<open>i\<close> among \<open>nr\<close> frames.\<close>

definition block_ok :: "nat \<Rightarrow> uint64 \<Rightarrow> nat \<Rightarrow> bool" where
  "block_ok nr p i \<longleftrightarrow> i < MAX_ORDER \<and> 2 ^ i dvd unat p \<and> unat p + 2 ^ i \<le> nr"

definition frames :: "(uint64 \<times> nat) set \<Rightarrow> nat set" where
  "frames F = (\<Union>(p, i)\<in>F. blk p i)"

lemma blk_self [simp]: "unat p \<in> blk p i"
  by (simp add: blk_def)

lemma frames_insert [simp]: "frames (insert (p, i) F) = blk p i \<union> frames F"
  by (auto simp: frames_def)

lemma frames_memb: "(p, i) \<in> F \<Longrightarrow> blk p i \<subseteq> frames F"
  by (auto simp: frames_def)

lemma dvd_add_le:
  fixes a b d :: nat
  assumes "d dvd a" "d dvd b" "a < b"
  shows "a + d \<le> b"
proof -
  from assms obtain x y where "a = d * x" "b = d * y" by (auto elim!: dvdE)
  with assms(3) have "x < y" by simp
  then have "d * Suc x \<le> d * y" by (intro mult_le_mono2) simp
  with \<open>a = d * x\<close> \<open>b = d * y\<close> show ?thesis by simp
qed

text \<open>The two halves of a block.\<close>

lemma unat_upper_half:
  assumes "block_ok nr p (Suc i)" "nr < 2 ^ 64"
  shows "unat (p + shl1 i) = unat p + 2 ^ i"
proof -
  have i: "i < 10" using assms by (simp add: block_ok_def MAX_ORDER_def)
  then have "unat (shl1 i) = 2 ^ i" by (intro unat_shl1) simp
  moreover have "unat p + 2 ^ i < 2 ^ 64"
    using assms by (simp add: block_ok_def)
  ultimately show ?thesis by (simp add: unat_add_noof)
qed

lemma block_halves:
  assumes "block_ok nr p (Suc i)" "nr < 2 ^ 64"
  shows "block_ok nr p i" "block_ok nr (p + shl1 i) i"
    "blk p (Suc i) = blk p i \<union> blk (p + shl1 i) i"
    "blk p i \<inter> blk (p + shl1 i) i = {}"
proof -
  have d: "2 ^ i dvd unat p"
    using assms(1) by (simp add: block_ok_def) (metis dvd_mult_right mult.commute)
  note u = unat_upper_half [OF assms]
  show "block_ok nr p i" using assms d by (simp add: block_ok_def)
  show "block_ok nr (p + shl1 i) i"
    using assms d by (simp add: block_ok_def u)
  show "blk p (Suc i) = blk p i \<union> blk (p + shl1 i) i"
    by (auto simp: blk_def u)
  show "blk p i \<inter> blk (p + shl1 i) i = {}"
    by (auto simp: blk_def u)
qed

text \<open>The buddy of a block, and the block of the next order that the two make up.\<close>

lemma unset_bit_nat_eq: "bit (n :: nat) i \<Longrightarrow> unset_bit i n = n - 2 ^ i"
proof -
  assume "bit n i"
  then have "n = set_bit i (unset_bit i n)"
    by (auto intro!: bit_eqI simp: bit_set_bit_iff bit_unset_bit_iff)
  also have "\<dots> = unset_bit i n + 2 ^ i"
    by (simp add: set_bit_eq bit_unset_bit_iff)
  finally show ?thesis by simp
qed

lemma unat_xor_bit:
  assumes "i < 64"
  shows "unat (p XOR shl1 i) =
    (if bit p i then unat p - 2 ^ i else unat p + 2 ^ i)"
proof -
  have "unat (p XOR shl1 i) = unat p XOR unat (shl1 i)"
    by (rule unsigned_xor_eq)
  also have "\<dots> = flip_bit i (unat p)"
    using assms by (simp add: unat_shl1 flip_bit_eq_xor push_bit_eq_mult)
  also have "\<dots> = (if bit p i then unat p - 2 ^ i else unat p + 2 ^ i)"
    using assms by (simp add: flip_bit_eq_if set_bit_eq unset_bit_nat_eq bit_unsigned_iff)
  finally show ?thesis .
qed

lemma unat_clear_bit:
  assumes "i < 64"
  shows "unat (p AND NOT (shl1 i) :: uint64) = (if bit p i then unat p - 2 ^ i else unat p)"
proof -
  have "p AND NOT (shl1 i) = (if bit p i then p XOR shl1 i else p)"
    by (rule bit_eqI) (auto simp: bit_and_iff bit_xor_iff bit_not_iff bit_shl1)
  then show ?thesis using unat_xor_bit [OF assms, of p] by simp
qed

lemma dvd_not_bit:
  fixes n :: nat
  assumes "2 ^ i dvd n" "\<not> bit n i"
  shows "2 ^ Suc i dvd n"
proof -
  from assms(1) obtain k where k: "n = 2 ^ i * k" by (auto elim: dvdE)
  with assms(2) have "even k" by (simp add: bit_iff_odd)
  with k show ?thesis by (auto elim!: evenE)
qed

lemma dvd_bit:
  fixes n :: nat
  assumes "2 ^ i dvd n" "bit n i"
  shows "2 ^ Suc i dvd n - 2 ^ i" "2 ^ i \<le> n"
proof -
  from assms(1) obtain k where k: "n = 2 ^ i * k" by (auto elim: dvdE)
  with assms(2) have "odd k" by (simp add: bit_iff_odd)
  then obtain j where "k = 2 * j + 1" by (auto elim: oddE)
  with k have "n = 2 ^ Suc i * j + 2 ^ i" by (simp add: algebra_simps)
  then show "2 ^ Suc i dvd n - 2 ^ i" "2 ^ i \<le> n" by simp_all
qed

lemma block_merge:
  assumes ok: "block_ok nr p i" and i: "i < MAX_ORDER - 1" and nr: "1024 dvd nr"
  defines "b \<equiv> p XOR shl1 i" and "q \<equiv> p AND NOT (shl1 i)"
  shows "unat b < nr" "block_ok nr q (Suc i)" "blk q (Suc i) = blk p i \<union> blk b i"
    "blk p i \<inter> blk b i = {}" "q = p \<or> q = b"
proof -
  have i64: "i < 64" using i by (simp add: MAX_ORDER_def)
  have d: "2 ^ i dvd unat p" and le: "unat p + 2 ^ i \<le> nr" using ok by (auto simp: block_ok_def)
  have bitp: "bit (unat p) i \<longleftrightarrow> bit p i" using i64 by (simp add: bit_unsigned_iff)
  note b = unat_xor_bit [OF i64, of p, folded b_def] and q = unat_clear_bit [OF i64, of p, folded q_def]
  have dq: "2 ^ Suc i dvd unat q"
    using dvd_bit [OF d] dvd_not_bit [OF d] by (auto simp: q bitp)
  have "(2 :: nat) ^ Suc i dvd 2 ^ 10" using i by (intro le_imp_power_dvd) (simp add: MAX_ORDER_def)
  moreover have "2 ^ 10 dvd nr" using nr by simp
  ultimately have "2 ^ Suc i dvd nr" by (rule dvd_trans)
  moreover have "unat q < nr"
  proof -
    have "unat q \<le> unat p" by (simp add: q)
    also have "unat p < unat p + 2 ^ i" by simp
    finally show ?thesis using le by simp
  qed
  ultimately have leq: "unat q + 2 ^ Suc i \<le> nr" using dq by (intro dvd_add_le)
  show "block_ok nr q (Suc i)" using dq leq i by (simp add: block_ok_def MAX_ORDER_def)
  have le2: "bit p i \<Longrightarrow> 2 ^ i \<le> unat p" using dvd_bit [OF d] by (simp add: bitp)
  have pos: "(0 :: nat) < 2 ^ i" by simp
  show "unat b < nr"
    unfolding b using leq [unfolded q power_Suc] le le2 pos by (cases "bit p i"; simp only: if_True if_False; linarith)
  show "blk q (Suc i) = blk p i \<union> blk b i" "blk p i \<inter> blk b i = {}"
    using le2 by (auto simp: blk_def b q split: if_splits)
  show "q = p \<or> q = b"
    using b q by (auto simp: word_unat_eq_iff split: if_splits)
qed

section \<open>The invariant\<close>

abbreviation free_head :: "page \<Rightarrow> bool" where
  "free_head g \<equiv> is_free g = 1 \<and> is_head g = 1"

text \<open>The descriptors flag exactly the blocks of \<open>F\<close> as free, and these do not overlap.\<close>

definition pg_inv :: "nat \<Rightarrow> (uint64 \<times> nat) set \<Rightarrow> (uint64 \<Rightarrow> page) \<Rightarrow> bool" where
  "pg_inv nr F pg \<longleftrightarrow>
     (\<forall>p i. (p, i) \<in> F \<longrightarrow> block_ok nr p i \<and> free_head (pg p) \<and> unat (pg_order (pg p)) = i) \<and>
     (\<forall>q. unat q < nr \<longrightarrow> free_head (pg q) \<longrightarrow> (q, unat (pg_order (pg q))) \<in> F) \<and>
     (\<forall>p i q j. (p, i) \<in> F \<longrightarrow> (q, j) \<in> F \<longrightarrow> p \<noteq> q \<longrightarrow> blk p i \<inter> blk q j = {})"

definition free_set :: "(nat \<Rightarrow> uint64 list) \<Rightarrow> (uint64 \<times> nat) set" where
  "free_set area = {(p, i). i < MAX_ORDER \<and> p \<in> set (area i)}"

definition lists_inv :: "(nat \<Rightarrow> uint64 list) \<Rightarrow> nodes \<Rightarrow> bool" where
  "lists_inv area h \<longleftrightarrow> list_family ring HeadN MAX_ORDER (\<lambda>i. map PageN (area i)) h"

text \<open>The number of descriptors is a multiple of the largest block, so that the buddy of a block
  is a descriptor too, and small enough for frame addresses not to wrap around.\<close>

definition nr_ok :: "nat \<Rightarrow> bool" where
  "nr_ok nr \<longleftrightarrow> 1024 dvd nr \<and> nr \<le> 2 ^ 40"

definition buddy_inv :: "(nat \<Rightarrow> uint64 list) \<Rightarrow> pmm \<Rightarrow> bool" where
  "buddy_inv area s \<longleftrightarrow>
     nr_ok (unat (nr_pages s)) \<and>
     lists_inv area (bnodes s) \<and>
     pg_inv (unat (nr_pages s)) (free_set area) (pages s)"

definition buddy_ok :: "pmm \<Rightarrow> bool" where
  "buddy_ok s \<longleftrightarrow> (\<exists>area. buddy_inv area s)"

text \<open>The free frames of a state, read off the descriptors.\<close>

definition free_blocks :: "pmm \<Rightarrow> (uint64 \<times> nat) set" where
  "free_blocks s =
     {(p, unat (pg_order (pages s p))) |p. p < nr_pages s \<and> free_head (pages s p)}"

definition free_frames :: "pmm \<Rightarrow> nat set" where
  "free_frames s = frames (free_blocks s)"

lemma pg_invD:
  assumes "pg_inv nr F pg" "(p, i) \<in> F"
  shows "block_ok nr p i" "is_free (pg p) = 1" "is_head (pg p) = 1" "unat (pg_order (pg p)) = i"
  using assms by (simp_all add: pg_inv_def)

lemma pg_inv_flagged:
  "pg_inv nr F pg \<Longrightarrow> unat q < nr \<Longrightarrow> free_head (pg q) \<Longrightarrow> (q, unat (pg_order (pg q))) \<in> F"
  by (simp add: pg_inv_def)

lemma pg_inv_disjoint:
  "pg_inv nr F pg \<Longrightarrow> (p, i) \<in> F \<Longrightarrow> (q, j) \<in> F \<Longrightarrow> p \<noteq> q \<Longrightarrow> blk p i \<inter> blk q j = {}"
  by (simp add: pg_inv_def)

lemma block_ok_less: "block_ok nr p i \<Longrightarrow> unat p < nr"
  by (simp add: block_ok_def) (metis add_lessD1 le_add1 le_less_trans le_neq_implies_less
      less_add_same_cancel1 zero_less_numeral zero_less_power nat_less_le)

lemma pg_inv_blocks:
  assumes "pg_inv nr F pg"
  shows "F = {(p, unat (pg_order (pg p))) |p. unat p < nr \<and> free_head (pg p)}"
  using pg_invD [OF assms] block_ok_less pg_inv_flagged [OF assms] by fast

lemma buddy_inv_blocks:
  assumes "buddy_inv area s"
  shows "free_blocks s = free_set area"
proof -
  have "pg_inv (unat (nr_pages s)) (free_set area) (pages s)"
    using assms by (simp add: buddy_inv_def)
  from pg_inv_blocks [OF this] show ?thesis
    by (simp add: free_blocks_def word_less_nat_alt)
qed

lemma not_head_if_disjoint: "blk p i \<inter> frames F = {} \<Longrightarrow> (p, j) \<notin> F"
  using frames_memb [of p j F] blk_self [of p i] blk_self [of p j] by blast

lemma pg_inv_insert:
  assumes inv: "pg_inv nr F pg" and ok: "block_ok nr p i" and dis: "blk p i \<inter> frames F = {}"
    and g: "free_head g" "unat (pg_order g) = i"
  shows "pg_inv nr (insert (p, i) F) (pg(p := g))"
proof -
  have new: "(p, j) \<notin> F" for j using not_head_if_disjoint [OF dis] .
  have old: "blk p i \<inter> blk q j = {}" if "(q, j) \<in> F" for q j
    using dis frames_memb [OF that] by blast
  show ?thesis
    unfolding pg_inv_def
  proof (intro conjI allI impI)
    fix q j assume "(q, j) \<in> insert (p, i) F"
    then consider "q = p" "j = i" | "(q, j) \<in> F" "q \<noteq> p" using new by auto
    then show "block_ok nr q j" "is_free ((pg(p := g)) q) = 1" "is_head ((pg(p := g)) q) = 1"
      "unat (pg_order ((pg(p := g)) q)) = j"
      by (cases; use ok g pg_invD [OF inv] in auto)+
  next
    fix q assume "unat q < nr" "free_head ((pg(p := g)) q)"
    then show "(q, unat (pg_order ((pg(p := g)) q))) \<in> insert (p, i) F"
      using g pg_inv_flagged [OF inv] by auto
  next
    fix q j r k assume "(q, j) \<in> insert (p, i) F" "(r, k) \<in> insert (p, i) F" "q \<noteq> r"
    then show "blk q j \<inter> blk r k = {}"
      using old pg_inv_disjoint [OF inv] by (metis Int_commute insertE prod.inject)
  qed
qed

lemma pg_inv_remove:
  assumes inv: "pg_inv nr F pg" and memb: "(p, i) \<in> F" and g: "\<not> free_head g"
  shows "pg_inv nr (F - {(p, i)}) (pg(p := g))"
proof -
  have one: "(p, j) \<in> F \<Longrightarrow> j = i" for j using pg_invD(4) [OF inv] memb by blast
  show ?thesis
    unfolding pg_inv_def using one g pg_invD [OF inv] pg_inv_flagged [OF inv] pg_inv_disjoint [OF inv]
    by (auto simp del: disjoint_iff)
qed

lemma pg_inv_unflagged:
  assumes inv: "pg_inv nr F pg" and "\<And>j. (p, j) \<notin> F" "\<not> free_head g"
  shows "pg_inv nr F (pg(p := g))"
  unfolding pg_inv_def
  using assms(2,3) pg_invD [OF inv] pg_inv_flagged [OF inv] pg_inv_disjoint [OF inv]
  by (auto simp del: disjoint_iff)

lemma frames_remove:
  assumes inv: "pg_inv nr F pg" and memb: "(p, i) \<in> F"
  shows "frames (F - {(p, i)}) = frames F - blk p i" "blk p i \<subseteq> frames F"
proof -
  have "blk p i \<inter> blk q j = {}" if "(q, j) \<in> F - {(p, i)}" for q j
    using pg_inv_disjoint [OF inv memb, of q j] pg_invD(4) [OF inv] that memb by auto
  then have "blk p i \<inter> frames (F - {(p, i)}) = {}" by (fastforce simp: frames_def)
  moreover have "frames F = blk p i \<union> frames (F - {(p, i)})"
    using memb by (metis frames_insert insert_Diff)
  ultimately show "frames (F - {(p, i)}) = frames F - blk p i" "blk p i \<subseteq> frames F" by auto
qed

lemma free_set_add: "i < MAX_ORDER \<Longrightarrow> free_set (area(i := p # area i)) = insert (p, i) (free_set area)"
  by (auto simp: free_set_def split: if_splits)

lemma free_set_del:
  "distinct (area i) \<Longrightarrow> free_set (area(i := remove1 p (area i))) = free_set area - {(p, i)}"
  by (auto simp: free_set_def split: if_splits)

section \<open>The free lists\<close>

lemma map_PageN_upd:
  "(\<lambda>j. map PageN ((area(i := xs)) j)) = (\<lambda>j. map PageN (area j))(i := map PageN xs)"
  by auto

lemma lists_inv_upd:
  "lists_inv (area(i := xs)) h \<longleftrightarrow>
     list_family ring HeadN MAX_ORDER ((\<lambda>j. map PageN (area j))(i := map PageN xs)) h"
  by (simp only: lists_inv_def map_PageN_upd)

lemma lists_inv_distinct: "lists_inv area h \<Longrightarrow> i < MAX_ORDER \<Longrightarrow> distinct (area i)"
  unfolding lists_inv_def by (drule (1) node_ring.family_distinct) (simp add: distinct_map)

lemma lists_inv_empty: "lists_inv area h \<Longrightarrow> i < MAX_ORDER \<Longrightarrow> list_empty (HeadN i) h \<longleftrightarrow> area i = []"
  unfolding lists_inv_def by (drule (1) node_ring.family_emp_iff) simp

lemma area_add_lists:
  assumes "lists_inv area (bnodes s)" "i < MAX_ORDER" "\<And>j. j < MAX_ORDER \<Longrightarrow> p \<notin> set (area j)"
  shows "\<exists>h. area_add i p s = Inr (s\<lparr>bnodes := h\<rparr>) \<and> lists_inv (area(i := p # area i)) h"
proof -
  from node_ring.family_add [OF assms(1) [unfolded lists_inv_def] assms(2), of "PageN p"] assms(3)
  obtain h where "list_add1 (HeadN i) (PageN p) (bnodes s) = Inr h"
    "list_family ring HeadN MAX_ORDER ((\<lambda>j. map PageN (area j))(i := PageN p # map PageN (area i))) h"
    by auto
  with assms(2) show ?thesis
    by (intro exI [of _ h])
      (simp add: area_add_def free_area_def with_nodes_def list_add1_def lists_inv_upd del: fun_upd_apply)
qed

lemma area_pop_lists:
  assumes "lists_inv area (bnodes s)" "i < MAX_ORDER" "area i = p # ps"
  shows "\<exists>h. area_pop i s = Inr (p, s\<lparr>bnodes := h\<rparr>) \<and> lists_inv (area(i := ps)) h"
proof -
  from node_ring.family_pop [OF assms(1) [unfolded lists_inv_def] assms(2), of "PageN p" "map PageN ps"] assms(3)
  obtain h where "list_pop (HeadN i) (bnodes s) = Inr (PageN p, h)"
    "list_family ring HeadN MAX_ORDER ((\<lambda>j. map PageN (area j))(i := map PageN ps)) h"
    by auto
  with assms(2) show ?thesis
    by (intro exI [of _ h])
      (simp add: area_pop_def free_area_def NODE_TO_PAGE_def lists_inv_upd del: fun_upd_apply)
qed

lemma remove1_map_PageN: "remove1 (PageN p) (map PageN xs) = map PageN (remove1 p xs)"
  by (induction xs) auto

lemma area_del_lists:
  assumes "lists_inv area (bnodes s)" "i < MAX_ORDER" "p \<in> set (area i)"
  shows "\<exists>h. with_nodes (list_del (PageN p)) s = Inr (s\<lparr>bnodes := h\<rparr>) \<and>
    lists_inv (area(i := remove1 p (area i))) h"
proof -
  from node_ring.family_del [OF assms(1) [unfolded lists_inv_def] assms(2), of "PageN p"] assms(3)
  obtain h where "list_del (PageN p) (bnodes s) = Inr h"
    "list_family ring HeadN MAX_ORDER
       ((\<lambda>j. map PageN (area j))(i := remove1 (PageN p) (map PageN (area i)))) h"
    by auto
  then show ?thesis
    by (intro exI [of _ h])
      (simp add: with_nodes_def lists_inv_upd remove1_map_PageN del: fun_upd_apply)
qed

lemma not_in_area: "p \<notin> fst ` free_set area \<Longrightarrow> j < MAX_ORDER \<Longrightarrow> p \<notin> set (area j)"
  by (force simp: free_set_def)

section \<open>What an operation leaves alone\<close>

text \<open>\<open>touches A s s'\<close>: of the state, only the free lists, the lock and the descriptors of frames
  in \<open>A\<close> differ.\<close>

definition touches :: "nat set \<Rightarrow> pmm \<Rightarrow> pmm \<Rightarrow> bool" where
  "touches A s s' \<longleftrightarrow>
     (\<exists>pg h l. s' = s\<lparr>pages := pg, bnodes := h, buddy_lock := l\<rparr> \<and>
       (\<forall>q. unat q \<notin> A \<longrightarrow> pg q = pages s q))"

lemma touches_refl [simp]: "touches A s s"
  unfolding touches_def by (rule exI [of _ "pages s"], rule exI [of _ "bnodes s"],
    rule exI [of _ "buddy_lock s"]) simp

lemma touches_trans:
  assumes "touches A s s'" "touches B s' s''" "A \<union> B \<subseteq> C"
  shows "touches C s s''"
proof -
  from assms(1) obtain pg h l where 1: "s' = s\<lparr>pages := pg, bnodes := h, buddy_lock := l\<rparr>"
    "\<And>q. unat q \<notin> A \<Longrightarrow> pg q = pages s q" by (auto simp: touches_def)
  from assms(2) obtain pg' h' l' where 2: "s'' = s'\<lparr>pages := pg', bnodes := h', buddy_lock := l'\<rparr>"
    "\<And>q. unat q \<notin> B \<Longrightarrow> pg' q = pages s' q" by (auto simp: touches_def)
  have "s'' = s\<lparr>pages := pg', bnodes := h', buddy_lock := l'\<rparr>" using 1 2 by simp
  moreover have "pg' q = pages s q" if "unat q \<notin> C" for q
  proof -
    from that assms(3) have "unat q \<notin> A" "unat q \<notin> B" by auto
    with 1 2 show ?thesis by simp
  qed
  ultimately show ?thesis unfolding touches_def by blast
qed

lemma touches_nr: "touches A s s' \<Longrightarrow> nr_pages s' = nr_pages s"
  by (auto simp: touches_def)

lemma touches_page: "touches A s s' \<Longrightarrow> unat q \<notin> A \<Longrightarrow> pages s' q = pages s q"
  by (auto simp: touches_def)

lemma touchesI:
  "s' = s\<lparr>pages := pg, bnodes := h, buddy_lock := l\<rparr> \<Longrightarrow> (\<And>q. unat q \<notin> A \<Longrightarrow> pg q = pages s q) \<Longrightarrow>
     touches A s s'"
  unfolding touches_def by blast

section \<open>Coalescing\<close>

text \<open>No two buddies are free at the same time, but for blocks that start in \<open>X\<close>.\<close>

definition no_buddies :: "uint64 set \<Rightarrow> (uint64 \<times> nat) set \<Rightarrow> bool" where
  "no_buddies X F \<longleftrightarrow>
     (\<forall>p i. (p, i) \<in> F \<longrightarrow> i < MAX_ORDER - 1 \<longrightarrow> (p XOR shl1 i, i) \<in> F \<longrightarrow>
       p \<in> X \<or> p XOR shl1 i \<in> X)"

definition coalesced :: "pmm \<Rightarrow> bool" where
  "coalesced s \<longleftrightarrow> no_buddies {} (free_blocks s)"

lemma no_buddies_mono: "no_buddies X F \<Longrightarrow> F' \<subseteq> F \<Longrightarrow> X \<subseteq> X' \<Longrightarrow> no_buddies X' F'"
  unfolding no_buddies_def by blast

lemma xor_twice [simp]: "(p XOR m) XOR m = (p :: 'a::len word)"
  by (simp add: xor.assoc)

lemma no_buddies_insert:
  assumes "no_buddies X F" "q \<in> X \<or> i = MAX_ORDER - 1 \<or> q XOR shl1 i \<in> X \<or> (q XOR shl1 i, i) \<notin> F"
  shows "no_buddies X (insert (q, i) F)"
proof -
  have "q XOR shl1 i \<noteq> q" if "i < MAX_ORDER - 1"
  proof
    assume "q XOR shl1 i = q"
    then have "q XOR q XOR shl1 i = q XOR q" by (metis xor.assoc)
    then have "shl1 i = 0" by simp
    moreover have "bit (shl1 i) i" using that by (simp add: bit_shl1 MAX_ORDER_def)
    ultimately show False by simp
  qed
  note ne = this
  show ?thesis
    unfolding no_buddies_def
  proof (intro allI impI)
    fix p j assume a: "(p, j) \<in> insert (q, i) F" "j < MAX_ORDER - 1" "(p XOR shl1 j, j) \<in> insert (q, i) F"
    consider "(p, j) \<in> F" "(p XOR shl1 j, j) \<in> F" | "p = q" "j = i" "(q XOR shl1 i, i) \<in> F"
      | "(p, j) \<in> F" "q = p XOR shl1 j" "j = i" | "p = q" "j = i" "q XOR shl1 i = q"
      using a by auto
    then show "p \<in> X \<or> p XOR shl1 j \<in> X"
    proof cases
      case 1
      with assms(1) a(2) show ?thesis by (auto simp: no_buddies_def)
    qed (use assms(2) ne a(2) in auto)
  qed
qed

lemma no_buddies_drop_head:
  "no_buddies {p} F \<Longrightarrow> (\<And>j. (p, j) \<notin> F') \<Longrightarrow> F' \<subseteq> F \<Longrightarrow> no_buddies {} F'"
  unfolding no_buddies_def by fastforce

lemma upper_half_xor:
  assumes "block_ok nr p (Suc k)" "nr < 2 ^ 64"
  shows "(p + shl1 k) XOR shl1 k = p"
proof -
  have k: "k < 64" using assms by (simp add: block_ok_def MAX_ORDER_def)
  have u: "unat (p + shl1 k) = unat p + 2 ^ k" by (rule unat_upper_half [OF assms])
  obtain c where c: "unat p = 2 ^ Suc k * c" using assms(1) by (auto simp: block_ok_def elim: dvdE)
  have "(unat p + 2 ^ k) div 2 ^ k = 2 * c + 1"
  proof -
    have "unat p + 2 ^ k = 2 ^ k * (2 * c + 1)" using c by (simp add: algebra_simps)
    then show ?thesis by simp
  qed
  then have "bit (unat (p + shl1 k)) k" by (simp add: bit_iff_odd u)
  then have "bit (p + shl1 k) k" by (simp add: bit_unsigned_iff)
  then have "unat ((p + shl1 k) XOR shl1 k) = unat p" by (simp add: unat_xor_bit [OF k] u)
  then show ?thesis by (simp add: word_unat_eq_iff)
qed

section \<open>Splitting\<close>

lemma unat_order_word: "k < MAX_ORDER \<Longrightarrow> unat (word_of_nat k :: 5 word) = k"
  by (simp add: unat_of_nat MAX_ORDER_def)

lemma nr_ok_less: "nr_ok nr \<Longrightarrow> nr < 2 ^ 64"
  by (simp add: nr_ok_def)

lemma page_upd_ok:
  "unat p < unat (nr_pages s) \<Longrightarrow> page_upd p f s = Inr (s\<lparr>pages := (pages s)(p := f (pages s p))\<rparr>)"
  by (simp add: page_upd_def word_less_nat_alt)

lemma page_at_ok: "unat p < unat (nr_pages s) \<Longrightarrow> page_at p s = Inr (pages s p)"
  by (simp add: page_at_def word_less_nat_alt)

lemma free_set_pop:
  assumes "lists_inv area h" "i < MAX_ORDER" "area i = p # ps"
  shows "free_set (area(i := ps)) = free_set area - {(p, i)}"
  using free_set_del [of area i p] lists_inv_distinct [OF assms(1,2)] assms(3) by simp

lemma split_pg_inv:
  assumes inv: "pg_inv nr F pg" and memb: "(p, Suc k) \<in> F" and nr: "nr < 2 ^ 64"
    and gb: "free_head gb" "unat (pg_order gb) = k"
    and gp: "free_head gp" "unat (pg_order gp) = k"
  defines "b \<equiv> p + shl1 k"
  shows "pg_inv nr (insert (p, k) (insert (b, k) (F - {(p, Suc k)}))) (pg(b := gb, p := gp))"
    and "frames (insert (p, k) (insert (b, k) (F - {(p, Suc k)}))) = frames F"
    and "\<And>j. (b, j) \<notin> F" and "b \<noteq> p" and "unat b < nr" and "unat p < nr"
proof -
  have ok: "block_ok nr p (Suc k)" using pg_invD [OF inv memb] by simp
  note half = block_halves [OF ok nr, folded b_def] and rem = frames_remove [OF inv memb]
  show ne: "b \<noteq> p" using half(4) blk_self [of p k] by (metis Int_absorb empty_iff)
  show "unat b < nr" "unat p < nr" using half(1,2) by (auto dest: block_ok_less)
  have dis: "blk b k \<inter> frames (F - {(p, Suc k)}) = {}" "blk p k \<inter> frames (F - {(p, Suc k)}) = {}"
    using half(3) by (auto simp: rem(1))
  then have "(b, j) \<notin> F - {(p, Suc k)}" for j using not_head_if_disjoint by blast
  with ne show "(b, j) \<notin> F" for j by auto
  let ?g0 = "(pg p)\<lparr>is_free := 0\<rparr>"
  have "pg_inv nr (F - {(p, Suc k)}) (pg(p := ?g0))"
    using inv memb by (rule pg_inv_remove) simp
  from pg_inv_insert [OF this half(2) dis(1) gb]
  have "pg_inv nr (insert (b, k) (F - {(p, Suc k)})) (pg(p := ?g0, b := gb))" .
  from pg_inv_insert [OF this half(1) _ gp]
  have "pg_inv nr (insert (p, k) (insert (b, k) (F - {(p, Suc k)}))) (pg(p := ?g0, b := gb, p := gp))"
    using dis half(4) by (simp add: Int_Un_distrib)
  moreover have "pg(p := ?g0, b := gb, p := gp) = pg(b := gb, p := gp)" using ne by auto
  ultimately show "pg_inv nr (insert (p, k) (insert (b, k) (F - {(p, Suc k)}))) (pg(b := gb, p := gp))"
    by simp
  show "frames (insert (p, k) (insert (b, k) (F - {(p, Suc k)}))) = frames F"
    using half(3) rem by auto
qed

lemma split_once_correct:
  assumes inv: "buddy_inv area s" and k: "Suc k < MAX_ORDER" and p: "area (Suc k) = p # ps"
  shows "\<exists>s'. split_once (Suc k) s = Inr s' \<and>
    buddy_inv (area(Suc k := ps, k := p # (p + shl1 k) # area k)) s' \<and>
    free_frames s' = free_frames s \<and> touches (free_frames s) s s' \<and> buddy_lock s' = buddy_lock s \<and>
    (no_buddies {p} (free_blocks s) \<longrightarrow> no_buddies {p} (free_blocks s'))"
proof -
  let ?F = "free_set area" and ?nr = "unat (nr_pages s)" and ?b = "p + shl1 k"
  let ?A1 = "area(Suc k := ps)" and ?A2 = "area(Suc k := ps, k := ?b # area k)"
  let ?A3 = "area(Suc k := ps, k := p # ?b # area k)"
  from inv have li: "lists_inv area (bnodes s)" and pi: "pg_inv ?nr ?F (pages s)"
    and nr: "nr_ok ?nr" by (auto simp: buddy_inv_def)
  have memb: "(p, Suc k) \<in> ?F" using k p by (simp add: free_set_def)
  have ord: "unat (word_of_nat k :: 5 word) = k" using k by (simp add: unat_order_word)
  let ?gb = "(pages s ?b)\<lparr>pg_alloc := 0, is_free := 1, is_head := 1, pg_order := word_of_nat k\<rparr>"
  let ?gp = "(pages s p)\<lparr>pg_order := word_of_nat k\<rparr>"
  have g: "free_head ?gb" "unat (pg_order ?gb) = k" "free_head ?gp" "unat (pg_order ?gp) = k"
    using pg_invD [OF pi memb] ord by simp_all
  note sp = split_pg_inv [OF pi memb nr_ok_less [OF nr] g]
  from area_pop_lists [OF li k p] obtain h1 where
    h1: "area_pop (Suc k) s = Inr (p, s\<lparr>bnodes := h1\<rparr>)" "lists_inv ?A1 h1" by blast
  have F1: "free_set ?A1 = ?F - {(p, Suc k)}" by (rule free_set_pop [OF li k p])
  define s2 where "s2 = s\<lparr>bnodes := h1, pages := (pages s)(?b := ?gb)\<rparr>"
  have "?b \<notin> set (?A1 j)" if "j < MAX_ORDER" for j
    using sp(3) F1 that not_in_area [of ?b ?A1 j] by fastforce
  with area_add_lists [of ?A1 s2 k ?b] h1(2) k obtain h2 where
    h2: "area_add k ?b s2 = Inr (s2\<lparr>bnodes := h2\<rparr>)" "lists_inv ?A2 h2" by (auto simp: s2_def)
  have F2: "free_set ?A2 = insert (?b, k) (?F - {(p, Suc k)})"
    using free_set_add [of k ?A1 ?b] k F1 by simp
  define s3 where "s3 = s2\<lparr>bnodes := h2, pages := (pages s2)(p := ?gp)\<rparr>"
  have "(p, j) \<notin> free_set ?A2" for j
    using sp(4) pg_invD(4) [OF pi] memb by (auto simp: F2)
  then have "p \<notin> set (?A2 j)" if "j < MAX_ORDER" for j
    using that not_in_area [of p ?A2 j] by fastforce
  with area_add_lists [of ?A2 s3 k p] h2(2) k obtain h3 where
    h3: "area_add k p s3 = Inr (s3\<lparr>bnodes := h3\<rparr>)" "lists_inv ?A3 h3" by (auto simp: s3_def)
  have F3: "free_set ?A3 = insert (p, k) (insert (?b, k) (?F - {(p, Suc k)}))"
    using free_set_add [of k ?A2 p] k F2 by simp
  let ?s = "s\<lparr>bnodes := h3, pages := (pages s)(?b := ?gb, p := ?gp)\<rparr>"
  have "split_once (Suc k) s = Inr ?s"
    using h1(1) h2(1) h3(1) sp(4,5,6)
    by (simp add: split_once_def page_upd_ok Let_def s2_def s3_def)
  moreover have inv': "buddy_inv ?A3 ?s"
    using nr h3(2) sp(1) by (simp add: buddy_inv_def F3 del: fun_upd_apply)
  moreover have "free_frames ?s = free_frames s"
    by (simp only: free_frames_def buddy_inv_blocks [OF inv] buddy_inv_blocks [OF inv'] F3 sp(2))
  moreover have "touches (free_frames s) s ?s"
  proof (rule touchesI)
    show "?s = s\<lparr>pages := (pages s)(?b := ?gb, p := ?gp), bnodes := h3, buddy_lock := buddy_lock s\<rparr>"
      by simp
    have "blk p k \<union> blk ?b k \<subseteq> free_frames s"
      using sp(2) by (auto simp: free_frames_def buddy_inv_blocks [OF inv])
    then have "unat p \<in> free_frames s" "unat ?b \<in> free_frames s"
      using blk_self [of p k] blk_self [of ?b k] by blast+
    then show "((pages s)(?b := ?gb, p := ?gp)) q = pages s q" if "unat q \<notin> free_frames s" for q
      using that by auto
  qed
  moreover have "no_buddies {p} (free_blocks s) \<longrightarrow> no_buddies {p} (free_blocks ?s)"
  proof
    assume "no_buddies {p} (free_blocks s)"
    then have "no_buddies {p} (?F - {(p, Suc k)})"
      by (rule no_buddies_mono) (auto simp: buddy_inv_blocks [OF inv])
    moreover have "?b XOR shl1 k = p"
      using upper_half_xor pg_invD(1) [OF pi memb] nr_ok_less [OF nr] by blast
    ultimately show "no_buddies {p} (free_blocks ?s)"
      unfolding buddy_inv_blocks [OF inv'] F3 by (intro no_buddies_insert) simp_all
  qed
  ultimately show ?thesis by (intro exI [of _ ?s]) simp
qed

lemma buddy_split_correct:
  assumes "buddy_inv area s" "t \<le> i" "i < MAX_ORDER" "area i = p # ps"
  shows "\<exists>s' area' ps'. buddy_split i t s = Inr s' \<and> buddy_inv area' s' \<and> area' t = p # ps' \<and>
    free_frames s' = free_frames s \<and> touches (free_frames s) s s' \<and> buddy_lock s' = buddy_lock s \<and>
    (no_buddies {p} (free_blocks s) \<longrightarrow> no_buddies {p} (free_blocks s'))"
  using assms
proof (induction i arbitrary: area s ps)
  case 0
  then show ?case by (intro exI [of _ s] exI [of _ area]) (simp add: buddy_split.simps)
next
  case (Suc k)
  show ?case
  proof (cases "t = Suc k")
    case True
    with Suc.prems show ?thesis by (intro exI [of _ s] exI [of _ area]) (simp add: buddy_split.simps)
  next
    case False
    let ?A = "area(Suc k := ps, k := p # (p + shl1 k) # area k)"
    from split_once_correct [OF Suc.prems(1,3,4)] obtain s1 where
      s1: "split_once (Suc k) s = Inr s1" "buddy_inv ?A s1" "free_frames s1 = free_frames s"
        "touches (free_frames s) s s1" "buddy_lock s1 = buddy_lock s"
        "no_buddies {p} (free_blocks s) \<longrightarrow> no_buddies {p} (free_blocks s1)" by blast
    from Suc.IH [OF s1(2)] False Suc.prems obtain s2 area' ps' where
      s2: "buddy_split k t s1 = Inr s2" "buddy_inv area' s2" "area' t = p # ps'"
        "free_frames s2 = free_frames s1" "touches (free_frames s1) s1 s2" "buddy_lock s2 = buddy_lock s1"
        "no_buddies {p} (free_blocks s1) \<longrightarrow> no_buddies {p} (free_blocks s2)"
      by auto
    have "buddy_split (Suc k) t s = Inr s2"
      using s1(1) s2(1) False Suc.prems by (subst buddy_split.simps) simp
    moreover have "touches (free_frames s) s s2"
      using s1(3,4) s2(5) by (auto intro: touches_trans)
    ultimately show ?thesis
      using s1 s2 by (intro exI [of _ s2] exI [of _ area']) simp
  qed
qed

section \<open>Allocating\<close>

text \<open>A block handed out: its descriptor is not free and none of its frames is.\<close>

definition allocated :: "uint64 \<Rightarrow> nat \<Rightarrow> pmm \<Rightarrow> bool" where
  "allocated p i s \<longleftrightarrow>
     block_ok (unat (nr_pages s)) p i \<and> is_free (pages s p) = 0 \<and>
     unat (pg_order (pages s p)) = i \<and> blk p i \<inter> free_frames s = {}"

definition alloc_post :: "nat \<Rightarrow> pmm \<Rightarrow> uint64 \<Rightarrow> pmm \<Rightarrow> bool" where
  "alloc_post order s p s' \<longleftrightarrow>
     buddy_ok s' \<and> buddy_lock s' = 0 \<and> blk p order \<subseteq> free_frames s \<and>
     free_frames s' = free_frames s - blk p order \<and> allocated p order s' \<and>
     touches (free_frames s) s s' \<and> (coalesced s \<longrightarrow> coalesced s')"

lemma alloc_tail:
  assumes inv: "buddy_inv area s" and i: "i < MAX_ORDER" and p: "area i = p # ps"
  shows "\<exists>s'. bindE (area_pop i s) (\<lambda>(p, s). let s = buddy_lock_release s in
      bindE (page_upd p (\<lambda>pg. pg\<lparr>is_free := 0, pg_alloc := 1\<rparr>) s) (\<lambda>s. Inr (PFN_TO_ADDR p, s))) =
    Inr (PFN_TO_ADDR p, s') \<and> alloc_post i s p s' \<and> free_blocks s' = free_blocks s - {(p, i)} \<and>
    (\<forall>j. (p, j) \<notin> free_blocks s')"
proof -
  let ?nr = "unat (nr_pages s)" and ?F = "free_set area"
  from inv have li: "lists_inv area (bnodes s)" and pi: "pg_inv ?nr ?F (pages s)"
    and nr: "nr_ok ?nr" by (auto simp: buddy_inv_def)
  have memb: "(p, i) \<in> ?F" using i p by (simp add: free_set_def)
  from area_pop_lists [OF li i p] obtain h where
    h: "area_pop i s = Inr (p, s\<lparr>bnodes := h\<rparr>)" "lists_inv (area(i := ps)) h" by blast
  have F: "free_set (area(i := ps)) = ?F - {(p, i)}" by (rule free_set_pop [OF li i p])
  let ?g = "(pages s p)\<lparr>is_free := 0, pg_alloc := 1\<rparr>"
  let ?s = "s\<lparr>bnodes := h, buddy_lock := 0, pages := (pages s)(p := ?g)\<rparr>"
  note ok = pg_invD [OF pi memb]
  have inv': "buddy_inv (area(i := ps)) ?s"
    using nr h(2) pg_inv_remove [OF pi memb, of ?g] by (simp add: buddy_inv_def F del: fun_upd_apply)
  have fr: "free_frames ?s = free_frames s - blk p i"
    using frames_remove(1) [OF pi memb]
    by (simp only: free_frames_def buddy_inv_blocks [OF inv] buddy_inv_blocks [OF inv'] F)
  have sub: "blk p i \<subseteq> free_frames s"
    using frames_remove(2) [OF pi memb] by (simp only: free_frames_def buddy_inv_blocks [OF inv])
  have "unat p \<in> free_frames s" using sub blk_self by (rule subsetD)
  then have "touches (free_frames s) s ?s"
    by (intro touchesI [where pg = "(pages s)(p := ?g)" and h = h and l = 0]) auto
  moreover have "allocated p i ?s"
    using ok fr by (auto simp: allocated_def)
  moreover have bl: "free_blocks ?s = free_blocks s - {(p, i)}"
    by (simp only: buddy_inv_blocks [OF inv] buddy_inv_blocks [OF inv'] F)
  moreover have "\<forall>j. (p, j) \<notin> free_blocks ?s"
    unfolding bl buddy_inv_blocks [OF inv] using pg_invD(4) [OF pi] memb by blast
  moreover have "coalesced s \<longrightarrow> coalesced ?s"
    unfolding coalesced_def bl by (auto elim: no_buddies_mono)
  ultimately have "alloc_post i s p ?s \<and> free_blocks ?s = free_blocks s - {(p, i)} \<and>
      (\<forall>j. (p, j) \<notin> free_blocks ?s)"
    using inv' fr sub unfolding alloc_post_def buddy_ok_def by auto
  moreover have "unat p < ?nr" using ok(1) by (rule block_ok_less)
  then have "bindE (area_pop i s) (\<lambda>(p, s). let s = buddy_lock_release s in
      bindE (page_upd p (\<lambda>pg. pg\<lparr>is_free := 0, pg_alloc := 1\<rparr>) s) (\<lambda>s. Inr (PFN_TO_ADDR p, s))) =
    Inr (PFN_TO_ADDR p, ?s)"
    using h(1) by (simp add: page_upd_ok buddy_lock_release_def)
  ultimately show ?thesis by blast
qed

lemma buddy_alloc_loop_correct:
  assumes "buddy_inv area s" "order \<le> i" "i \<le> j" "j < MAX_ORDER" "area j \<noteq> []"
  shows "\<exists>p s'. buddy_alloc_loop i order s = Inr (PFN_TO_ADDR p, s') \<and> alloc_post order s p s'"
  using assms
proof (induction i order s rule: buddy_alloc_loop.induct)
  case (1 i order s)
  have i: "i < MAX_ORDER" using "1.prems" by simp
  have li: "lists_inv area (bnodes s)" using "1.prems"(1) by (simp add: buddy_inv_def)
  note emp = lists_inv_empty [OF li i]
  show ?case
  proof (cases "area i = []")
    case True
    then have "i < j" using "1.prems" by (metis le_neq_implies_less)
    then have "\<exists>p s'. buddy_alloc_loop (i + 1) order s = Inr (PFN_TO_ADDR p, s') \<and> alloc_post order s p s'"
      using "1.IH" i emp True "1.prems" by simp
    then show ?thesis
      using True emp i by (subst buddy_alloc_loop.simps) simp
  next
    case False
    then obtain p ps where p: "area i = p # ps" by (cases "area i") auto
    obtain s1 area1 ps1 where s1: "(if i > order then buddy_split i order s else Inr s) = Inr s1"
      "buddy_inv area1 s1" "area1 order = p # ps1" "free_frames s1 = free_frames s"
      "touches (free_frames s) s s1"
      "no_buddies {p} (free_blocks s) \<longrightarrow> no_buddies {p} (free_blocks s1)"
      using buddy_split_correct [OF "1.prems"(1,2) i p] p "1.prems"(1,2)
      by (cases "order < i") (auto simp: not_less intro: exI [of _ s])
    have "order < MAX_ORDER" using "1.prems"(2) i by simp
    from alloc_tail [OF s1(2) this s1(3)] obtain s2 where
      s2: "bindE (area_pop order s1) (\<lambda>(p, s). let s = buddy_lock_release s in
        bindE (page_upd p (\<lambda>pg. pg\<lparr>is_free := 0, pg_alloc := 1\<rparr>) s) (\<lambda>s. Inr (PFN_TO_ADDR p, s))) =
        Inr (PFN_TO_ADDR p, s2)" "alloc_post order s1 p s2"
        "free_blocks s2 \<subseteq> free_blocks s1" "\<And>j. (p, j) \<notin> free_blocks s2" by blast
    have "buddy_alloc_loop i order s = Inr (PFN_TO_ADDR p, s2)"
      using False emp i s1(1) s2(1) by (subst buddy_alloc_loop.simps) simp
    moreover have "coalesced s2" if "coalesced s"
    proof -
      from that have "no_buddies {p} (free_blocks s1)"
        using s1(6) no_buddies_mono [of "{}" "free_blocks s" "free_blocks s" "{p}"]
        by (simp add: coalesced_def)
      then show ?thesis unfolding coalesced_def using s2(4,3) by (rule no_buddies_drop_head)
    qed
    then have "alloc_post order s p s2"
      using s2(2) s1(4,5) by (auto simp: alloc_post_def intro: touches_trans)
    ultimately show ?thesis by blast
  qed
qed

lemma buddy_alloc_loop_none:
  assumes "lists_inv area (bnodes s)" "\<And>j. i \<le> j \<Longrightarrow> j < MAX_ORDER \<Longrightarrow> area j = []"
  shows "buddy_alloc_loop i order s = Inl (Panic ''buddy_alloc : Out of required size of memory!'')"
  using assms
proof (induction i order s rule: buddy_alloc_loop.induct)
  case (1 i order s)
  show ?case
  proof (cases "i < MAX_ORDER")
    case True
    then have "list_empty (HeadN i) (bnodes s)"
      using lists_inv_empty "1.prems" by blast
    with "1" True show ?thesis by (subst buddy_alloc_loop.simps) simp
  next
    case False
    then show ?thesis by (subst buddy_alloc_loop.simps) simp
  qed
qed

section \<open>Merging\<close>

lemma merge_step_pg_inv:
  assumes pi: "pg_inv nr F pg" and nr: "nr_ok nr" and ok: "block_ok nr p i" and i: "i < MAX_ORDER - 1"
    and dis: "blk p i \<inter> frames F = {}"
  defines "b \<equiv> p XOR shl1 i" and "q \<equiv> p AND NOT (shl1 i)"
  assumes memb: "(b, i) \<in> F" and gb: "\<not> free_head gb"
    and gq: "\<forall>g. \<not> free_head g \<longrightarrow> \<not> free_head (gq g)"
  defines "pg1 \<equiv> pg(b := gb)"
  shows "pg_inv nr (F - {(b, i)}) (pg1(q := gq (pg1 q)))"
    and "blk q (Suc i) \<inter> frames (F - {(b, i)}) = {}"
    and "blk q (Suc i) \<union> frames (F - {(b, i)}) = blk p i \<union> frames F"
proof -
  have "1024 dvd nr" using nr by (simp add: nr_ok_def)
  note m = block_merge [OF ok i this, folded b_def q_def] and rem = frames_remove [OF pi memb]
  have pi1: "pg_inv nr (F - {(b, i)}) pg1"
    unfolding pg1_def using pi memb gb by (rule pg_inv_remove)
  have head: "(p, j) \<notin> F" for j using not_head_if_disjoint [OF dis] .
  have "(b, j) \<notin> F - {(b, i)}" for j using pg_invD(4) [OF pi] memb by blast
  with head m(5) have new: "(q, j) \<notin> F - {(b, i)}" for j by blast
  then have "\<not> free_head (pg1 q)"
    using pg_inv_flagged [OF pi1, of q] block_ok_less [OF m(2)] by blast
  with gq have "\<not> free_head (gq (pg1 q))" by blast
  from pg_inv_unflagged [OF pi1 new this]
  show "pg_inv nr (F - {(b, i)}) (pg1(q := gq (pg1 q)))" .
  show "blk q (Suc i) \<inter> frames (F - {(b, i)}) = {}"
    using m(3) dis by (auto simp: rem(1))
  show "blk q (Suc i) \<union> frames (F - {(b, i)}) = blk p i \<union> frames F"
    using m(3) rem by auto
qed

text \<open>The state of the merge loop: a block outside the free blocks, of the order its descriptor has.\<close>

definition merging :: "(nat \<Rightarrow> uint64 list) \<Rightarrow> uint64 \<Rightarrow> nat \<Rightarrow> pmm \<Rightarrow> bool" where
  "merging area p i s \<longleftrightarrow>
     buddy_inv area s \<and> block_ok (unat (nr_pages s)) p i \<and> blk p i \<inter> free_frames s = {} \<and>
     unat (pg_order (pages s p)) = i"

lemma merge_step:
  assumes m: "merging area p i s" and i: "i < MAX_ORDER - 1"
  defines "b \<equiv> p XOR shl1 i" and "q \<equiv> p AND NOT (shl1 i)"
  assumes fb: "free_head (pages s b)" "unat (pg_order (pages s b)) = i"
  shows "\<exists>s' area'. bindE (with_nodes (list_del (PageN b)) s) (\<lambda>s.
      bindE (page_upd b (\<lambda>pg. pg\<lparr>is_free := 0, is_head := 0\<rparr>) s) (\<lambda>s.
      page_upd q (\<lambda>pg. pg\<lparr>pg_order := word_of_nat (i + 1)\<rparr>) s)) = Inr s' \<and>
    merging area' q (Suc i) s' \<and> buddy_lock s' = buddy_lock s \<and> nr_pages s' = nr_pages s \<and>
    blk q (Suc i) \<union> free_frames s' = blk p i \<union> free_frames s \<and>
    free_blocks s' \<subseteq> free_blocks s \<and>
    touches (blk p i \<union> free_frames s) s s'"
proof -
  let ?nr = "unat (nr_pages s)" and ?F = "free_set area"
  from m have inv: "buddy_inv area s" and ok: "block_ok ?nr p i"
    and dis: "blk p i \<inter> free_frames s = {}" by (auto simp: merging_def)
  from inv have li: "lists_inv area (bnodes s)" and pi: "pg_inv ?nr ?F (pages s)"
    and nr: "nr_ok ?nr" by (auto simp: buddy_inv_def)
  have ff: "free_frames s = frames ?F" by (simp add: free_frames_def buddy_inv_blocks [OF inv])
  have "1024 dvd ?nr" using nr by (simp add: nr_ok_def)
  note bm = block_merge [OF ok i this, folded b_def q_def]
  have memb: "(b, i) \<in> ?F" using pg_inv_flagged [OF pi bm(1)] fb by simp
  have i': "i < MAX_ORDER" "Suc i < MAX_ORDER" using i by (auto simp: MAX_ORDER_def)
  have inb: "b \<in> set (area i)" using memb by (simp add: free_set_def)
  from area_del_lists [OF li i'(1) inb] obtain h where
    h: "with_nodes (list_del (PageN b)) s = Inr (s\<lparr>bnodes := h\<rparr>)"
      "lists_inv (area(i := remove1 b (area i))) h" by blast
  let ?A = "area(i := remove1 b (area i))"
  have F: "free_set ?A = ?F - {(b, i)}"
    using lists_inv_distinct [OF li i'(1)] by (rule free_set_del)
  let ?gb = "(pages s b)\<lparr>is_free := 0, is_head := 0\<rparr>"
  let ?gq = "\<lambda>g. g\<lparr>pg_order := word_of_nat (i + 1) :: 5 word\<rparr>"
  let ?pg1 = "(pages s)(b := ?gb)" let ?pg = "?pg1(q := ?gq (?pg1 q))"
  let ?s = "s\<lparr>bnodes := h, pages := ?pg\<rparr>"
  have gb: "\<not> free_head ?gb" and gq: "\<forall>g. \<not> free_head g \<longrightarrow> \<not> free_head (?gq g)" by simp_all
  note st = merge_step_pg_inv [OF pi nr ok i dis [unfolded ff], folded b_def q_def,
    OF memb gb gq]
  have lt: "unat b < ?nr" "unat q < ?nr" using bm(1) block_ok_less [OF bm(2)] by auto
  have inv': "buddy_inv ?A ?s"
    using nr h(2) st(1) by (simp add: buddy_inv_def F del: fun_upd_apply)
  have bl: "free_blocks ?s = free_blocks s - {(b, i)}"
    by (simp only: buddy_inv_blocks [OF inv'] buddy_inv_blocks [OF inv] F)
  have ff': "free_frames ?s = frames (?F - {(b, i)})"
    by (simp only: free_frames_def bl buddy_inv_blocks [OF inv])
  have un: "blk q (Suc i) \<union> free_frames ?s = blk p i \<union> free_frames s"
    using st(3) by (simp only: ff ff')
  have dis': "blk q (Suc i) \<inter> free_frames ?s = {}" by (simp only: ff' st(2))
  have ord': "unat (pg_order (pages ?s q)) = Suc i"
    using unat_order_word [OF i'(2)] by (simp del: of_nat_Suc)
  have "merging ?A q (Suc i) ?s"
    unfolding merging_def by (intro conjI inv' dis' ord') (simp add: bm(2))
  moreover have "touches (blk p i \<union> free_frames s) s ?s"
  proof (rule touchesI)
    show "?s = s\<lparr>pages := ?pg, bnodes := h, buddy_lock := buddy_lock s\<rparr>" by simp
    have "b \<noteq> x \<and> q \<noteq> x" if "unat x \<notin> blk p i \<union> free_frames s" for x
      using that bm(5) frames_memb [OF memb] ff blk_self [of b i] blk_self [of p i] by blast
    then show "?pg x = pages s x" if "unat x \<notin> blk p i \<union> free_frames s" for x
      using that by auto
  qed
  moreover have "bindE (with_nodes (list_del (PageN b)) s) (\<lambda>s.
      bindE (page_upd b (\<lambda>pg. pg\<lparr>is_free := 0, is_head := 0\<rparr>) s) (\<lambda>s.
      page_upd q (\<lambda>pg. pg\<lparr>pg_order := word_of_nat (i + 1)\<rparr>) s)) = Inr ?s"
    using h(1) lt by (simp add: page_upd_ok)
  ultimately show ?thesis using un bl by (intro exI [of _ ?s] exI [of _ ?A]) auto
qed

lemma merge_loop_correct:
  assumes "merging area p i s"
  shows "\<exists>q j s' area'. merge_loop p i s = Inr (q, j, s') \<and> merging area' q j s' \<and>
    buddy_lock s' = buddy_lock s \<and> nr_pages s' = nr_pages s \<and>
    blk q j \<union> free_frames s' = blk p i \<union> free_frames s \<and>
    free_blocks s' \<subseteq> free_blocks s \<and>
    (j = MAX_ORDER - 1 \<or> (q XOR shl1 j, j) \<notin> free_blocks s') \<and>
    touches (blk p i \<union> free_frames s) s s'"
  using assms
proof (induction p i s arbitrary: area rule: merge_loop.induct)
  case (1 p i s)
  let ?b = "p XOR shl1 i" and ?q = "p AND NOT (shl1 i)"
  from "1.prems" have ok: "block_ok (unat (nr_pages s)) p i" and inv: "buddy_inv area s"
    by (auto simp: merging_def)
  show ?case
  proof (cases "i < MAX_ORDER - 1")
    case False
    then have "i = MAX_ORDER - 1" using ok unfolding block_ok_def by linarith
    moreover from this have "merge_loop p i s = Inr (p, i, s)" by (simp add: merge_loop.simps)
    ultimately show ?thesis using "1.prems" by (intro exI [of _ p] exI [of _ i] exI [of _ s] exI [of _ area]) simp
  next
    case True
    have "1024 dvd unat (nr_pages s)" using inv by (simp add: buddy_inv_def nr_ok_def)
    note b = block_merge(1) [OF ok True this]
    show ?thesis
    proof (cases "free_head (pages s ?b) \<and> unat (pg_order (pages s ?b)) = i")
      case False
      then have "merge_loop p i s = Inr (p, i, s)"
        using True b by (subst merge_loop.simps) (auto simp: page_at_ok Let_def)
      moreover have "(?b, i) \<notin> free_blocks s" using False by (auto simp: free_blocks_def)
      ultimately show ?thesis
        using "1.prems" by (intro exI [of _ p] exI [of _ i] exI [of _ s] exI [of _ area]) simp
    next
      case fb: True
      from merge_step [OF "1.prems" True] fb obtain s1 area1 where
        s1: "bindE (with_nodes (list_del (PageN ?b)) s) (\<lambda>s.
            bindE (page_upd ?b (\<lambda>pg. pg\<lparr>is_free := 0, is_head := 0\<rparr>) s) (\<lambda>s.
            page_upd ?q (\<lambda>pg. pg\<lparr>pg_order := word_of_nat (i + 1)\<rparr>) s)) = Inr s1"
          "merging area1 ?q (Suc i) s1" "buddy_lock s1 = buddy_lock s" "nr_pages s1 = nr_pages s"
          "blk ?q (Suc i) \<union> free_frames s1 = blk p i \<union> free_frames s"
          "free_blocks s1 \<subseteq> free_blocks s"
          "touches (blk p i \<union> free_frames s) s s1" by blast
      from s1(1) obtain sa sb where sab: "with_nodes (list_del (PageN ?b)) s = Inr sa"
        "page_upd ?b (\<lambda>pg. pg\<lparr>is_free := 0, is_head := 0\<rparr>) sa = Inr sb"
        "page_upd ?q (\<lambda>pg. pg\<lparr>pg_order := word_of_nat (i + 1)\<rparr>) sb = Inr s1"
        by (auto simp: res_simps)
      have step: "merge_loop p i s = merge_loop ?q (i + 1) s1"
        using True fb b sab by (subst merge_loop.simps) (simp add: page_at_ok Let_def)
      have "\<exists>q j s' area'. merge_loop ?q (i + 1) s1 = Inr (q, j, s') \<and> merging area' q j s' \<and>
          buddy_lock s' = buddy_lock s1 \<and> nr_pages s' = nr_pages s1 \<and>
          blk q j \<union> free_frames s' = blk ?q (i + 1) \<union> free_frames s1 \<and>
          free_blocks s' \<subseteq> free_blocks s1 \<and>
          (j = MAX_ORDER - 1 \<or> (q XOR shl1 j, j) \<notin> free_blocks s') \<and>
          touches (blk ?q (i + 1) \<union> free_frames s1) s1 s'"
        by (rule "1.IH" [OF True refl page_at_ok [OF b] _ sab(1) sab(2) refl sab(3)])
          (use fb s1(2) in auto)
      then obtain q j s' area' where s': "merge_loop ?q (i + 1) s1 = Inr (q, j, s')"
        "merging area' q j s'" "buddy_lock s' = buddy_lock s1" "nr_pages s' = nr_pages s1"
        "blk q j \<union> free_frames s' = blk ?q (Suc i) \<union> free_frames s1"
        "free_blocks s' \<subseteq> free_blocks s1"
        "j = MAX_ORDER - 1 \<or> (q XOR shl1 j, j) \<notin> free_blocks s'"
        "touches (blk ?q (Suc i) \<union> free_frames s1) s1 s'" by auto
      have "touches (blk p i \<union> free_frames s) s s'"
        using s1(7) s'(8) s1(5) by (auto intro: touches_trans)
      with s1 s' step show ?thesis
        by (intro exI [of _ q] exI [of _ j] exI [of _ s'] exI [of _ area']) auto
    qed
  qed
qed

text \<open>Marking a block free and inserting it into the list of its order.\<close>

lemma insert_block:
  assumes inv: "buddy_inv area s" and ok: "block_ok (unat (nr_pages s)) q j"
    and dis: "blk q j \<inter> free_frames s = {}"
    and g: "free_head (f (pages s q))" "unat (pg_order (f (pages s q))) = j"
  shows "\<exists>s'. bindE (page_upd q f s) (area_add j q) =
      Inr s' \<and> buddy_inv (area(j := q # area j)) s' \<and> buddy_lock s' = buddy_lock s \<and>
    free_blocks s' = insert (q, j) (free_blocks s) \<and> touches (blk q j) s s'"
proof -
  let ?nr = "unat (nr_pages s)" and ?F = "free_set area"
  from inv have li: "lists_inv area (bnodes s)" and pi: "pg_inv ?nr ?F (pages s)"
    and nr: "nr_ok ?nr" by (auto simp: buddy_inv_def)
  have dis': "blk q j \<inter> frames ?F = {}"
    using dis by (simp add: free_frames_def buddy_inv_blocks [OF inv])
  let ?g = "f (pages s q)"
  let ?s1 = "s\<lparr>pages := (pages s)(q := ?g)\<rparr>"
  have j: "j < MAX_ORDER" using ok by (simp add: block_ok_def)
  have "(q, k) \<notin> ?F" for k using not_head_if_disjoint [OF dis'] .
  then have "q \<notin> set (area k)" if "k < MAX_ORDER" for k
    using that not_in_area [of q area k] by fastforce
  with area_add_lists [of area ?s1 j q] li j obtain h where
    h: "area_add j q ?s1 = Inr (?s1\<lparr>bnodes := h\<rparr>)" "lists_inv (area(j := q # area j)) h" by auto
  have F: "free_set (area(j := q # area j)) = insert (q, j) ?F" using j by (rule free_set_add)
  have inv': "buddy_inv (area(j := q # area j)) (?s1\<lparr>bnodes := h\<rparr>)"
    using nr h(2) pg_inv_insert [OF pi ok dis' g]
    by (simp add: buddy_inv_def F del: fun_upd_apply)
  moreover have "touches (blk q j) s (?s1\<lparr>bnodes := h\<rparr>)"
    by (rule touchesI [where pg = "(pages s)(q := ?g)" and h = h and l = "buddy_lock s"]) auto
  moreover have "free_blocks (?s1\<lparr>bnodes := h\<rparr>) = insert (q, j) (free_blocks s)"
    by (simp only: buddy_inv_blocks [OF inv'] buddy_inv_blocks [OF inv] F)
  ultimately show ?thesis
    using h(1) block_ok_less [OF ok] by (intro exI [of _ "?s1\<lparr>bnodes := h\<rparr>"]) (simp add: page_upd_ok)
qed

definition free_post :: "nat \<Rightarrow> pmm \<Rightarrow> uint64 \<Rightarrow> pmm \<Rightarrow> bool" where
  "free_post i s p s' \<longleftrightarrow>
     buddy_ok s' \<and> buddy_lock s' = buddy_lock s \<and> free_frames s' = free_frames s \<union> blk p i \<and>
     touches (free_frames s \<union> blk p i) s s' \<and> (coalesced s \<longrightarrow> coalesced s')"

lemma buddy_merge_inner_correct:
  assumes "buddy_ok s" and al: "allocated p i s"
  shows "\<exists>s'. buddy_merge_inner p s = Inr s' \<and> free_post i s p s'"
proof -
  from assms(1) obtain area where inv: "buddy_inv area s" by (auto simp: buddy_ok_def)
  let ?nr = "unat (nr_pages s)" and ?F = "free_set area"
  from al have ok: "block_ok ?nr p i" and ord: "unat (pg_order (pages s p)) = i"
    and dis: "blk p i \<inter> free_frames s = {}" by (auto simp: allocated_def)
  from inv have pi: "pg_inv ?nr ?F (pages s)" by (simp add: buddy_inv_def)
  let ?g = "(pages s p)\<lparr>is_free := 0, is_head := 0, pg_alloc := 0\<rparr>"
  let ?s1 = "s\<lparr>pages := (pages s)(p := ?g)\<rparr>"
  have "(p, j) \<notin> ?F" for j
    using not_head_if_disjoint [of p i ?F] dis by (simp add: free_frames_def buddy_inv_blocks [OF inv])
  then have "pg_inv ?nr ?F ((pages s)(p := ?g))" by (intro pg_inv_unflagged [OF pi]) auto
  then have inv1: "buddy_inv area ?s1" using inv by (simp add: buddy_inv_def)
  have bl1: "free_blocks ?s1 = free_blocks s"
    by (simp only: buddy_inv_blocks [OF inv1] buddy_inv_blocks [OF inv])
  have ff1: "free_frames ?s1 = free_frames s" by (simp only: free_frames_def bl1)
  have t1: "touches (blk p i) s ?s1"
    by (rule touchesI [where pg = "(pages s)(p := ?g)" and h = "bnodes s" and l = "buddy_lock s"]) auto
  have "blk p i \<inter> free_frames ?s1 = {}" using dis by (simp only: ff1)
  then have "merging area p i ?s1" unfolding merging_def using inv1 ok ord by simp
  from merge_loop_correct [OF this] obtain q j s2 area2 where
    s2: "merge_loop p i ?s1 = Inr (q, j, s2)" "merging area2 q j s2" "buddy_lock s2 = buddy_lock s"
      "blk q j \<union> free_frames s2 = blk p i \<union> free_frames s" "free_blocks s2 \<subseteq> free_blocks s"
      "j = MAX_ORDER - 1 \<or> (q XOR shl1 j, j) \<notin> free_blocks s2"
      "touches (blk p i \<union> free_frames s) ?s1 s2"
    unfolding ff1 bl1 by auto
  have "\<exists>s3. bindE (page_upd q (\<lambda>pg. pg\<lparr>is_free := 1, is_head := 1, pg_alloc := 0\<rparr>) s2) (area_add j q) =
      Inr s3 \<and> buddy_inv (area2(j := q # area2 j)) s3 \<and> buddy_lock s3 = buddy_lock s2 \<and>
    free_blocks s3 = insert (q, j) (free_blocks s2) \<and> touches (blk q j) s2 s3"
    using s2(2) by (intro insert_block) (auto simp: merging_def)
  then obtain s3 where
    s3: "bindE (page_upd q (\<lambda>pg. pg\<lparr>is_free := 1, is_head := 1, pg_alloc := 0\<rparr>) s2) (area_add j q) = Inr s3"
      "buddy_inv (area2(j := q # area2 j)) s3" "buddy_lock s3 = buddy_lock s2"
      "free_blocks s3 = insert (q, j) (free_blocks s2)" "touches (blk q j) s2 s3" by blast
  have "buddy_merge_inner p s = Inr s3"
    using s2(1) s3(1) ord block_ok_less [OF ok]
    by (simp add: buddy_merge_inner_def page_at_ok page_upd_ok)
  moreover have "free_frames s3 = free_frames s \<union> blk p i"
    using s2(4) s3(4) by (auto simp: free_frames_def)
  moreover have "touches (free_frames s \<union> blk p i) s s3"
    using touches_trans [OF t1 touches_trans [OF s2(7) s3(5) subset_refl]] s2(4) by blast
  moreover have "coalesced s3" if "coalesced s"
  proof -
    have "no_buddies {} (free_blocks s2)"
      using that s2(5) by (auto simp: coalesced_def intro: no_buddies_mono)
    then show ?thesis
      unfolding coalesced_def s3(4) by (rule no_buddies_insert) (use s2(6) in auto)
  qed
  ultimately show ?thesis
    using s2(3) s3(2,3) by (intro exI [of _ s3]) (auto simp: free_post_def buddy_ok_def)
qed

text \<open>Frames and their addresses.\<close>

lemma unat_PFN_TO_ADDR: "unat p < 2 ^ 40 \<Longrightarrow> unat (PFN_TO_ADDR p) = unat p * 4096 + 0x80000000"
proof -
  assume p: "unat p < 2 ^ 40"
  have "unat (p * PGSIZE) = unat p * 4096"
    using p by (subst unat_mult_noof) (simp_all)
  then show ?thesis
    unfolding PFN_TO_ADDR_def using p by (subst unat_add_noof) simp_all
qed

lemma ADDR_TO_PFN_TO_ADDR: "unat p < 2 ^ 40 \<Longrightarrow> ADDR_TO_PFN (PFN_TO_ADDR p) = p"
proof -
  assume p: "unat p < 2 ^ 40"
  have "unat (PFN_TO_ADDR p - DRAM_BASE) = unat p * 4096"
    using unat_PFN_TO_ADDR [OF p] by (subst unat_sub_le) (simp_all add: word_le_nat_alt)
  then show ?thesis
    unfolding ADDR_TO_PFN_def by (simp add: word_unat_eq_iff unat_div)
qed

lemma block_pfn_bound: "buddy_ok s \<Longrightarrow> block_ok (unat (nr_pages s)) p i \<Longrightarrow> unat p < 2 ^ 40"
  by (auto simp: buddy_ok_def buddy_inv_def nr_ok_def dest: block_ok_less)

lemma buddy_ok_lock: "buddy_ok (s\<lparr>buddy_lock := l\<rparr>) \<longleftrightarrow> buddy_ok s"
  by (simp add: buddy_ok_def buddy_inv_def)

lemma free_blocks_lock [simp]: "free_blocks (s\<lparr>buddy_lock := l\<rparr>) = free_blocks s"
  by (simp add: free_blocks_def)

lemma free_frames_lock [simp]: "free_frames (s\<lparr>buddy_lock := l\<rparr>) = free_frames s"
  by (simp add: free_frames_def)

lemma coalesced_lock [simp]: "coalesced (s\<lparr>buddy_lock := l\<rparr>) = coalesced s"
  by (simp add: coalesced_def)

lemma allocated_lock [simp]: "allocated p i (s\<lparr>buddy_lock := l\<rparr>) = allocated p i s"
  by (simp add: allocated_def)

lemma touches_lock: "touches A s (s\<lparr>buddy_lock := l\<rparr>)"
  by (rule touchesI [where pg = "pages s" and h = "bnodes s" and l = l]) simp_all

lemma touches_from_lock: "touches A (s\<lparr>buddy_lock := l\<rparr>) s' \<Longrightarrow> touches A s s'"
  by (rule touches_trans [OF touches_lock [of A]]) auto

lemma touches_to_lock: "touches A s s' \<Longrightarrow> touches A s (s'\<lparr>buddy_lock := l\<rparr>)"
  by (rule touches_trans [OF _ touches_lock [of A]]) auto

end
