(* ===== verification/Pke_Frames.thy ===== *)
theory Pke_Frames
  imports Pke_Buddy_Inv
begin

text \<open>
  The abstract contract of a frame allocator, as a locale: allocating takes a block out of the
  free frames, releasing puts it back, and the blocks handed out are never touched by either.
  The buddy system of \<^verbatim>\<open>kernel/pmm.c\<close> is an instance; what a client of the allocator may
  conclude is proved in the locale and reaches \<^verbatim>\<open>buddy_alloc\<close> and \<^verbatim>\<open>buddy_free\<close> through
  the interpretation.
\<close>

section \<open>The two entry points\<close>

lemma buddy_alloc_spec:
  assumes ok: "buddy_ok s" and l: "buddy_lock s = 0" and o: "unat order < MAX_ORDER"
    and q: "(q, j) \<in> free_blocks s" "unat order \<le> j"
  shows "\<exists>p s'. buddy_alloc order s = Inr (PFN_TO_ADDR p, s') \<and> alloc_post (unat order) s p s'"
proof -
  from ok obtain area where inv: "buddy_inv area s" by (auto simp: buddy_ok_def)
  let ?s = "s\<lparr>buddy_lock := 1\<rparr>"
  have inv1: "buddy_inv area ?s" using inv by (simp add: buddy_inv_def)
  have "(q, j) \<in> free_set area" using q(1) by (simp add: buddy_inv_blocks [OF inv])
  then have "j < MAX_ORDER" "area j \<noteq> []" by (auto simp: free_set_def)
  from buddy_alloc_loop_correct [OF inv1 order_refl q(2) this] obtain p s' where
    p: "buddy_alloc_loop (unat order) (unat order) ?s = Inr (PFN_TO_ADDR p, s')"
      "alloc_post (unat order) ?s p s'" by blast
  have "buddy_alloc order s = Inr (PFN_TO_ADDR p, s')"
    using p(1) o l by (simp add: buddy_alloc_def buddy_lock_acquire_def)
  moreover have "alloc_post (unat order) s p s'"
    using p(2) by (auto simp: alloc_post_def dest: touches_from_lock)
  ultimately show ?thesis by blast
qed

lemma buddy_alloc_fails:
  assumes ok: "buddy_ok s" and l: "buddy_lock s = 0" and o: "unat order < MAX_ORDER"
    and none: "\<And>q j. (q, j) \<in> free_blocks s \<Longrightarrow> j < unat order"
  shows "buddy_alloc order s = Inl (Panic ''buddy_alloc : Out of required size of memory!'')"
proof -
  from ok obtain area where inv: "buddy_inv area s" by (auto simp: buddy_ok_def)
  have "area j = []" if "unat order \<le> j" "j < MAX_ORDER" for j
  proof (rule ccontr)
    assume "area j \<noteq> []"
    then have "(hd (area j), j) \<in> free_blocks s"
      using that by (simp add: buddy_inv_blocks [OF inv] free_set_def)
    then show False using none that by fastforce
  qed
  moreover have "lists_inv area (bnodes (s\<lparr>buddy_lock := 1\<rparr>))" using inv by (simp add: buddy_inv_def)
  ultimately have "buddy_alloc_loop (unat order) (unat order) (s\<lparr>buddy_lock := 1\<rparr>) =
      Inl (Panic ''buddy_alloc : Out of required size of memory!'')"
    by (intro buddy_alloc_loop_none)
  then show ?thesis using o l by (simp add: buddy_alloc_def buddy_lock_acquire_def)
qed

lemma buddy_alloc_order_range:
  "\<not> unat order < MAX_ORDER \<Longrightarrow>
     buddy_alloc order s = Inl (AssertFail ''order >= 0 && order < MAX_ORDER'')"
  by (simp add: buddy_alloc_def)

lemma buddy_alloc_locked:
  "buddy_lock s \<noteq> 0 \<Longrightarrow> unat order < MAX_ORDER \<Longrightarrow> buddy_alloc order s = Inl Spin"
  by (simp add: buddy_alloc_def buddy_lock_acquire_def lock_acquire_held)

lemma buddy_alloc_Inr:
  assumes ok: "buddy_ok s" and r: "buddy_alloc order s = Inr (a, s')"
  shows "unat order < MAX_ORDER \<and> (\<exists>p. a = PFN_TO_ADDR p \<and> alloc_post (unat order) s p s')"
proof -
  have o: "unat order < MAX_ORDER" using r buddy_alloc_order_range by fastforce
  have l: "buddy_lock s = 0" using r buddy_alloc_locked [OF _ o] by fastforce
  have "\<exists>q j. (q, j) \<in> free_blocks s \<and> unat order \<le> j"
    using r buddy_alloc_fails [OF ok l o] by (metis not_less old.sum.distinct(1))
  with buddy_alloc_spec [OF ok l o] r o show ?thesis by fastforce
qed

lemma buddy_free_spec:
  assumes ok: "buddy_ok s" and l: "buddy_lock s = 0" and rng: "buddy_start s \<le> buddy_end s"
    and al: "allocated p i s"
  shows "\<exists>s'. buddy_free (PFN_TO_ADDR p) s = Inr s' \<and> free_post i s p s'"
proof -
  let ?s = "s\<lparr>buddy_lock := 1\<rparr>"
  have "buddy_ok ?s" "allocated p i ?s" using ok al by (simp_all add: buddy_ok_lock)
  from buddy_merge_inner_correct [OF this] obtain s1 where
    s1: "buddy_merge_inner p ?s = Inr s1" "free_post i ?s p s1" by blast
  have "unat p < 2 ^ 40" using block_pfn_bound ok al by (auto simp: allocated_def)
  moreover have "buddy_start s \<le> PFN_TO_ADDR p \<or> PFN_TO_ADDR p < buddy_end s" using rng by auto
  ultimately have "buddy_free (PFN_TO_ADDR p) s = Inr (buddy_lock_release s1)"
    using s1(1) l by (simp add: buddy_free_def buddy_lock_acquire_def ADDR_TO_PFN_TO_ADDR)
  moreover have "free_post i s p (buddy_lock_release s1)"
    using s1(2) l by (auto simp: free_post_def buddy_lock_release_def buddy_ok_lock
        intro: touches_to_lock touches_from_lock)
  ultimately show ?thesis by blast
qed

section \<open>The contract\<close>

locale frame_allocator =
  fixes ok :: "'s \<Rightarrow> bool"
    and free :: "'s \<Rightarrow> nat set"
    and block :: "'p \<Rightarrow> 'o \<Rightarrow> nat set"
    and owns :: "'p \<Rightarrow> 'o \<Rightarrow> 's \<Rightarrow> bool"
    and alloc :: "'o \<Rightarrow> 's \<Rightarrow> ('p \<times> 's) res"
    and release :: "'p \<Rightarrow> 's \<Rightarrow> 's res"
  assumes alloc_ok: "ok s \<Longrightarrow> alloc i s = Inr (p, s') \<Longrightarrow>
      ok s' \<and> owns p i s' \<and> block p i \<subseteq> free s \<and> free s' = free s - block p i"
    and alloc_keeps: "ok s \<Longrightarrow> alloc i s = Inr (p, s') \<Longrightarrow> owns q j s \<Longrightarrow> owns q j s'"
    and release_ok: "ok s \<Longrightarrow> owns p i s \<Longrightarrow>
      \<exists>s'. release p s = Inr s' \<and> ok s' \<and> free s' = free s \<union> block p i"
    and release_keeps: "ok s \<Longrightarrow> owns p i s \<Longrightarrow> release p s = Inr s' \<Longrightarrow> owns q j s \<Longrightarrow>
      block p i \<inter> block q j = {} \<Longrightarrow> owns q j s'"
    and owned_not_free: "ok s \<Longrightarrow> owns p i s \<Longrightarrow> block p i \<inter> free s = {}"

text \<open>A client that allocates blocks of the given orders, one after the other.\<close>

fun alloc_seq :: "('o \<Rightarrow> 's \<Rightarrow> ('p \<times> 's) res) \<Rightarrow> 'o list \<Rightarrow> 's \<Rightarrow> ('p list \<times> 's) res" where
  "alloc_seq alloc [] s = Inr ([], s)"
| "alloc_seq alloc (i # is) s =
     bindE (alloc i s) (\<lambda>(p, s). bindE (alloc_seq alloc is s) (\<lambda>(ps, s). Inr (p # ps, s)))"

text \<open>A client that returns the blocks at the given addresses, one after the other.\<close>

fun release_seq :: "('p \<Rightarrow> 's \<Rightarrow> 's res) \<Rightarrow> 'p list \<Rightarrow> 's \<Rightarrow> 's res" where
  "release_seq release [] s = Inr s"
| "release_seq release (p # ps) s = bindE (release p s) (release_seq release ps)"

context frame_allocator
begin

lemma alloc_release_free:
  assumes "ok s" "alloc i s = Inr (p, s')"
  shows "\<exists>s''. release p s' = Inr s'' \<and> ok s'' \<and> free s'' = free s"
proof -
  note a = alloc_ok [OF assms]
  then obtain s'' where "release p s' = Inr s''" "ok s''" "free s'' = free s' \<union> block p i"
    using release_ok by blast
  moreover have "free s' \<union> block p i = free s" using a by auto
  ultimately show ?thesis by auto
qed

lemma alloc_seq_blocks:
  assumes "ok s" "alloc_seq alloc is s = Inr (ps, s')"
  shows "ok s' \<and> length ps = length is \<and>
    (\<forall>k<length is. owns (ps ! k) (is ! k) s' \<and> block (ps ! k) (is ! k) \<subseteq> free s) \<and>
    (\<forall>k<length is. \<forall>l<length is. k \<noteq> l \<longrightarrow> block (ps ! k) (is ! k) \<inter> block (ps ! l) (is ! l) = {}) \<and>
    free s' = free s - (\<Union>k<length is. block (ps ! k) (is ! k)) \<and>
    (\<forall>q j. owns q j s \<longrightarrow> owns q j s')"
  using assms
proof (induction "is" arbitrary: s ps)
  case Nil
  then show ?case by simp
next
  case (Cons i "is")
  from Cons.prems(2) obtain p s1 qs where
    s1: "alloc i s = Inr (p, s1)" "alloc_seq alloc is s1 = Inr (qs, s')" "ps = p # qs"
    by (auto simp: bindE_Inr_iff)
  note a = alloc_ok [OF Cons.prems(1) s1(1)]
  note IH = Cons.IH [OF conjunct1 [OF a] s1(2)]
  have own_p: "owns p i s'" using IH a by blast
  have sub: "block (qs ! k) (is ! k) \<subseteq> free s" "block p i \<inter> block (qs ! k) (is ! k) = {}"
    if "k < length is" for k
  proof -
    have "block (qs ! k) (is ! k) \<subseteq> free s - block p i" using IH a that by auto
    then show "block (qs ! k) (is ! k) \<subseteq> free s" "block p i \<inter> block (qs ! k) (is ! k) = {}" by auto
  qed
  have "owns (ps ! k) ((i # is) ! k) s' \<and> block (ps ! k) ((i # is) ! k) \<subseteq> free s"
    if "k < length (i # is)" for k
    using that IH a own_p sub s1(3) by (cases k) auto
  moreover have "block (ps ! k) ((i # is) ! k) \<inter> block (ps ! l) ((i # is) ! l) = {}"
    if "k < length (i # is)" "l < length (i # is)" "k \<noteq> l" for k l
    using that IH sub(2) s1(3) by (cases k; cases l) (auto simp: Int_commute)
  moreover have "free s' = free s - (\<Union>k<length (i # is). block (ps ! k) ((i # is) ! k))"
  proof -
    have "(\<Union>k<length (i # is). block (ps ! k) ((i # is) ! k)) =
        block p i \<union> (\<Union>k<length is. block (qs ! k) (is ! k))"
      using s1(3) by (auto simp: lessThan_Suc_eq_insert_0)
    then show ?thesis using IH a by auto
  qed
  moreover have "owns q j s'" if "owns q j s" for q j
    using IH alloc_keeps [OF Cons.prems(1) s1(1) that] by blast
  ultimately show ?case using IH s1(3) by simp
qed

end

section \<open>The buddy system is a frame allocator\<close>

definition buddy_ready :: "pmm \<Rightarrow> bool" where
  "buddy_ready s \<longleftrightarrow> buddy_ok s \<and> buddy_lock s = 0 \<and> buddy_start s \<le> buddy_end s"

text \<open>The frames of the block at physical address \<open>a\<close>, and that the block is handed out.\<close>

definition block_at :: "uint64 \<Rightarrow> uint32 \<Rightarrow> nat set" where
  "block_at a order = blk (ADDR_TO_PFN a) (unat order)"

definition owns_block :: "uint64 \<Rightarrow> uint32 \<Rightarrow> pmm \<Rightarrow> bool" where
  "owns_block a order s \<longleftrightarrow>
     a = PFN_TO_ADDR (ADDR_TO_PFN a) \<and> allocated (ADDR_TO_PFN a) (unat order) s"

lemma allocated_keeps:
  assumes "allocated q j s" "touches A s s'" "blk q j \<inter> A = {}" "blk q j \<inter> free_frames s' = {}"
  shows "allocated q j s'"
proof -
  have "unat q \<notin> A" using assms(3) blk_self [of q j] by blast
  then show ?thesis
    using assms touches_nr [OF assms(2)] touches_page [OF assms(2), of q] by (simp add: allocated_def)
qed

lemma owns_block_pfn: "unat p < 2 ^ 40 \<Longrightarrow> owns_block (PFN_TO_ADDR p) i s \<longleftrightarrow> allocated p (unat i) s"
  by (simp add: owns_block_def ADDR_TO_PFN_TO_ADDR)

lemma block_at_pfn: "unat p < 2 ^ 40 \<Longrightarrow> block_at (PFN_TO_ADDR p) i = blk p (unat i)"
  by (simp add: block_at_def ADDR_TO_PFN_TO_ADDR)

lemma touches_ready: "touches A s s' \<Longrightarrow> buddy_start s' = buddy_start s \<and> buddy_end s' = buddy_end s"
  by (auto simp: touches_def)

lemma buddy_alloc_owns:
  assumes "buddy_ready s" "buddy_alloc order s = Inr (a, s')"
  shows "buddy_ready s'" "owns_block a order s'" "block_at a order \<subseteq> free_frames s"
    "free_frames s' = free_frames s - block_at a order" "touches (free_frames s) s s'"
proof -
  from assms obtain p where a: "a = PFN_TO_ADDR p" and post: "alloc_post (unat order) s p s'"
    using buddy_alloc_Inr [of s order a s'] by (auto simp: buddy_ready_def)
  have p: "unat p < 2 ^ 40" using post block_pfn_bound by (auto simp: alloc_post_def allocated_def)
  show "buddy_ready s'" "owns_block a order s'" "block_at a order \<subseteq> free_frames s"
    "free_frames s' = free_frames s - block_at a order" "touches (free_frames s) s s'"
    using assms(1) post touches_ready [of _ s s']
    by (auto simp: a block_at_pfn [OF p] owns_block_pfn [OF p] alloc_post_def buddy_ready_def)
qed

lemma buddy_free_owned:
  assumes "buddy_ready s" "owns_block a order s"
  shows "\<exists>s'. buddy_free a s = Inr s' \<and> buddy_ready s' \<and>
    free_frames s' = free_frames s \<union> block_at a order \<and>
    touches (free_frames s \<union> block_at a order) s s'"
proof -
  let ?p = "ADDR_TO_PFN a"
  from assms have al: "allocated ?p (unat order) s" and a: "a = PFN_TO_ADDR ?p"
    by (auto simp: owns_block_def)
  from assms(1) have r: "buddy_ok s" "buddy_lock s = 0" "buddy_start s \<le> buddy_end s"
    by (auto simp: buddy_ready_def)
  from buddy_free_spec [OF r al] obtain s' where
    "buddy_free (PFN_TO_ADDR ?p) s = Inr s'" "free_post (unat order) s ?p s'" by blast
  with a r show ?thesis using touches_ready [of _ s s']
    by (intro exI [of _ s']) (auto simp: free_post_def block_at_def buddy_ready_def)
qed

interpretation buddy_frames: frame_allocator buddy_ready free_frames block_at owns_block buddy_alloc buddy_free
proof (unfold_locales, goal_cases)
  case (1 s i p s')
  then show ?case using buddy_alloc_owns by blast
next
  case (2 s i p s' q j)
  note a = buddy_alloc_owns [OF 2(1,2)]
  have "blk (ADDR_TO_PFN q) (unat j) \<inter> free_frames s = {}"
    using 2(3) by (simp add: owns_block_def allocated_def)
  with 2(3) a show ?case
    by (auto simp: owns_block_def intro: allocated_keeps [OF _ a(5)])
next
  case (3 s p i)
  then show ?case using buddy_free_owned by blast
next
  case (4 s p i s' q j)
  from buddy_free_owned [OF 4(1,2)] 4(3) have
    "free_frames s' = free_frames s \<union> block_at p i" and t: "touches (free_frames s \<union> block_at p i) s s'"
    by auto
  moreover have "block_at q j \<inter> free_frames s = {}"
    using 4(4) by (simp add: owns_block_def allocated_def block_at_def)
  ultimately show ?case using 4(4,5)
    by (auto simp: owns_block_def block_at_def intro!: allocated_keeps [OF _ t])
next
  case (5 s p i)
  then show ?case by (simp add: owns_block_def allocated_def block_at_def)
qed

end
