(* ===== verification/Pke_Pmm.thy ===== *)
theory Pke_Pmm
  imports Pke_Frames
begin

text \<open>
  The remaining operations of \<^verbatim>\<open>kernel/pmm.c\<close>: \<^verbatim>\<open>buddy_system_init\<close>, the per-CPU caches
  (\<^verbatim>\<open>alloc_page\<close>, \<^verbatim>\<open>pfree\<close>) and \<^verbatim>\<open>pmm_init\<close>, and what they guarantee.
\<close>

section \<open>Initialising the buddy system\<close>

text \<open>\<^verbatim>\<open>free_area[i].next = free_area[i].prev = &free_area[i]\<close> for every order.\<close>

definition init_heads :: "nodes \<Rightarrow> nodes" where
  "init_heads h = fold (\<lambda>i h. h\<lparr>nd_next := (nd_next h)(HeadN i := HeadN i),
                                nd_prev := (nd_prev h)(HeadN i := HeadN i)\<rparr>) [0..<MAX_ORDER] h"

text \<open>The order of the block that starts at \<open>curr_addr\<close>: as aligned as the address, as large as
  what remains.\<close>

definition init_order :: "uint64 \<Rightarrow> uint64 \<Rightarrow> nat" where
  "init_order curr_addr stop_addr =
     (let align_order = ctzll (curr_addr div PGSIZE);
          remaining_pages = (stop_addr - curr_addr) div PGSIZE;
          limit_order = 63 - clzll remaining_pages;
          order = (if align_order < limit_order then align_order else limit_order)
      in if order \<ge> MAX_ORDER then MAX_ORDER - 1 else order)"

lemma init_order_fits:
  assumes "cur \<le> stop" "(stop - cur) div PGSIZE \<noteq> 0"
  shows "2 ^ init_order cur stop \<le> (unat stop - unat cur) div 4096" "init_order cur stop < MAX_ORDER"
proof -
  let ?r = "(stop - cur) div PGSIZE"
  have r: "unat ?r = (unat stop - unat cur) div 4096" using assms(1) by (simp add: unat_div unat_sub_le)
  have "init_order cur stop \<le> 63 - clzll ?r" by (auto simp: init_order_def Let_def)
  then have "(2::nat) ^ init_order cur stop \<le> 2 ^ (63 - clzll ?r)" by (rule power_increasing) simp
  also have "\<dots> \<le> unat ?r" by (rule clzll_log(2) [OF assms(2)])
  finally show "2 ^ init_order cur stop \<le> (unat stop - unat cur) div 4096" by (simp add: r)
  show "init_order cur stop < MAX_ORDER" by (auto simp: init_order_def Let_def MAX_ORDER_def)
qed

lemma init_next:
  assumes "cur < stop" "(stop - cur) div PGSIZE \<noteq> 0"
  shows "unat (cur + shl1 (init_order cur stop) * PGSIZE) = unat cur + 2 ^ init_order cur stop * 4096"
    "unat cur + 2 ^ init_order cur stop * 4096 \<le> unat stop"
proof -
  note f = init_order_fits [OF less_imp_le [OF assms(1)] assms(2)]
  have "2 ^ init_order cur stop * 4096 \<le> (unat stop - unat cur) div 4096 * 4096"
    using f(1) by (rule mult_le_mono1)
  also have "\<dots> \<le> unat stop - unat cur" by (rule div_times_less_eq_dividend)
  finally show le: "unat cur + 2 ^ init_order cur stop * 4096 \<le> unat stop"
    using assms(1) by (simp add: word_less_iff_unat)
  have lt: "unat cur + 2 ^ init_order cur stop * 4096 < 2 ^ 64"
    using le unsigned_less [of stop, where ?'a = nat] by simp
  have s: "unat (shl1 (init_order cur stop)) = 2 ^ init_order cur stop"
    using f(2) by (intro unat_shl1) (simp add: MAX_ORDER_def)
  have m: "unat (shl1 (init_order cur stop) * PGSIZE) = 2 ^ init_order cur stop * 4096"
    using lt by (subst unat_mult_noof) (simp_all add: s)
  then show "unat (cur + shl1 (init_order cur stop) * PGSIZE) = unat cur + 2 ^ init_order cur stop * 4096"
    using lt by (subst unat_add_noof) simp_all
qed

text \<open>The loop; \<^verbatim>\<open>__builtin_ctzll\<close> and \<^verbatim>\<open>__builtin_clzll\<close> are undefined at 0.\<close>

function buddy_init_loop :: "uint64 \<Rightarrow> uint64 \<Rightarrow> pmm \<Rightarrow> pmm res" where
  "buddy_init_loop curr_addr stop_addr s =
     (if curr_addr < stop_addr
      then bindE (guardE (curr_addr div PGSIZE \<noteq> 0 \<and> (stop_addr - curr_addr) div PGSIZE \<noteq> 0) Undefined) (\<lambda>_.
           let order = init_order curr_addr stop_addr;
               PFN = ADDR_TO_PFN curr_addr in
           bindE (page_upd PFN (\<lambda>pg. pg\<lparr>pg_alloc := 0, is_head := 1, is_free := 1,
                                        pg_order := word_of_nat order\<rparr>) s) (\<lambda>s.
           bindE (area_add order PFN s) (\<lambda>s.
           buddy_init_loop (curr_addr + shl1 order * PGSIZE) stop_addr s)))
      else Inr s)"
  by pat_completeness auto
termination
proof (relation "measure (\<lambda>(cur, stop, s). unat stop - unat cur)", goal_cases)
  case 1
  show ?case by simp
next
  case (2 cur stop s u order pfn s1 s2)
  then have "cur < stop" "(stop - cur) div PGSIZE \<noteq> 0" by (auto simp: guardE_def split: if_splits)
  from init_next(1) [OF this] have "unat cur < unat (cur + shl1 (init_order cur stop) * PGSIZE)" by simp
  with \<open>cur < stop\<close> 2 show ?case by (simp add: word_less_iff_unat diff_less_mono2)
qed

declare buddy_init_loop.simps [simp del]

definition buddy_system_init :: "uint64 \<Rightarrow> uint64 \<Rightarrow> pmm \<Rightarrow> pmm res" where
  "buddy_system_init start_addr end_addr s =
     (let s = s\<lparr>bnodes := init_heads (bnodes s)\<rparr>;
          s = s\<lparr>buddy_lock := 0\<rparr>;
          curr_addr = ROUNDUP start_addr PGSIZE;
          stop_addr = ROUNDDOWN end_addr PGSIZE
      in buddy_init_loop curr_addr stop_addr s)"

section \<open>The per-CPU caches\<close>

text \<open>The cache \<^verbatim>\<open>pcpu_caches[id]\<close> of an array of \<^verbatim>\<open>NCPU\<close>, and its update.\<close>

definition cache_at :: "uint64 \<Rightarrow> pmm \<Rightarrow> percpu_cache res" where
  "cache_at cid s =
     (if unat cid < length (pcpu_caches s) then Inr (pcpu_caches s ! unat cid) else Inl OutOfBounds)"

definition cache_set :: "uint64 \<Rightarrow> percpu_cache \<Rightarrow> pmm \<Rightarrow> pmm" where
  "cache_set cid c s = s\<lparr>pcpu_caches := (pcpu_caches s)[unat cid := c]\<rparr>"

text \<open>Reading and writing \<^verbatim>\<open>objs[i]\<close>, an array of \<^verbatim>\<open>PCPU_CACHE_SIZE\<close> pointers.\<close>

definition obj_read :: "uint32 \<Rightarrow> percpu_cache \<Rightarrow> uint64 res" where
  "obj_read i c =
     (if unat i < length (objs c)
      then case objs c ! unat i of None \<Rightarrow> Inl Undefined | Some p \<Rightarrow> Inr p
      else Inl OutOfBounds)"

definition obj_write :: "uint32 \<Rightarrow> uint64 \<Rightarrow> percpu_cache \<Rightarrow> percpu_cache res" where
  "obj_write i p c =
     (if unat i < length (objs c) then Inr (c\<lparr>objs := (objs c)[unat i := Some p]\<rparr>) else Inl OutOfBounds)"

text \<open>\<^verbatim>\<open>objs[--count]\<close>.\<close>

definition cache_pop :: "uint64 \<Rightarrow> pmm \<Rightarrow> (uint64 \<times> pmm) res" where
  "cache_pop cid s =
     bindE (cache_at cid s) (\<lambda>c.
     let c = c\<lparr>pc_count := pc_count c - 1\<rparr> in
     bindE (obj_read (pc_count c) c) (\<lambda>p.
     Inr (p, cache_set cid c s)))"

text \<open>The loop of \<^verbatim>\<open>alloc_page\<close> that refills the cache, \<open>n\<close> times
  \<^verbatim>\<open>objs[count++] = PFN_TO_PAGE(ADDR_TO_PFN(buddy_alloc(0)))\<close>.\<close>

fun refill_loop :: "nat \<Rightarrow> uint64 \<Rightarrow> pmm \<Rightarrow> pmm res" where
  "refill_loop 0 cid s = Inr s"
| "refill_loop (Suc n) cid s =
     bindE (buddy_alloc 0 s) (\<lambda>(a, s).
     bindE (cache_at cid s) (\<lambda>c.
     bindE (obj_write (pc_count c) (ADDR_TO_PFN a) c) (\<lambda>c.
     refill_loop n cid (cache_set cid (c\<lparr>pc_count := pc_count c + 1\<rparr>) s))))"

definition alloc_page :: "pmm \<Rightarrow> (uint64 \<times> pmm) res" where
  "alloc_page s =
     (let cid = tp_reg s in
      bindE (cache_at cid s) (\<lambda>c.
      bindE (if pc_count c = 0
             then bindE (buddy_lock_acquire s) (\<lambda>s.
                  bindE (refill_loop 16 cid s) (\<lambda>s.
                  Inr (buddy_lock_release s)))
             else Inr s) (\<lambda>s.
      bindE (cache_pop cid s) (\<lambda>(p, s).
      Inr (PFN_TO_ADDR p, s)))))"

text \<open>The loop of \<^verbatim>\<open>pfree\<close> that gives \<open>n\<close> cached pages back to the buddy system.\<close>

fun flush_loop :: "nat \<Rightarrow> uint64 \<Rightarrow> pmm \<Rightarrow> pmm res" where
  "flush_loop 0 cid s = Inr s"
| "flush_loop (Suc n) cid s =
     bindE (cache_pop cid s) (\<lambda>(p, s).
     bindE (buddy_merge_inner p s) (\<lambda>s.
     flush_loop n cid s))"

definition irq_off :: "pmm \<Rightarrow> uint64 \<times> pmm" where
  "irq_off s = (let (flags, v) = disable_irqsave (sstatus_reg s) in (flags, s\<lparr>sstatus_reg := v\<rparr>))"

definition irq_restore :: "uint64 \<Rightarrow> pmm \<Rightarrow> pmm" where
  "irq_restore flags s = s\<lparr>sstatus_reg := enable_irqrestore flags (sstatus_reg s)\<rparr>"

definition pfree :: "uint64 \<Rightarrow> pmm \<Rightarrow> pmm res" where
  "pfree addr s =
     (let p = ADDR_TO_PFN addr in
      bindE (page_at p s) (\<lambda>pg.
      if pg_order pg \<noteq> 0
      then let (flags, s) = irq_off s in
           bindE (buddy_lock_acquire s) (\<lambda>s.
           bindE (buddy_merge_inner p s) (\<lambda>s.
           let s = buddy_lock_release s in
           Inr (irq_restore flags s)))
      else let (flags, s) = irq_off s; cid = tp_reg s in
           bindE (cache_at cid s) (\<lambda>c.
           bindE (if unat (pc_count c) = PCPU_CACHE_SIZE
                  then bindE (buddy_lock_acquire s) (\<lambda>s.
                       bindE (flush_loop 16 cid s) (\<lambda>s.
                       Inr (buddy_lock_release s)))
                  else Inr s) (\<lambda>s.
           bindE (cache_at cid s) (\<lambda>c.
           let c = c\<lparr>pc_count := pc_count c + 1\<rparr> in
           bindE (obj_write (pc_count c) p c) (\<lambda>c.
           Inr (irq_restore flags (cache_set cid c s))))))))"

text \<open>\<^verbatim>\<open>page_ref_share\<close> has an empty body.\<close>

definition page_ref_share :: "uint64 \<Rightarrow> pmm \<Rightarrow> pmm" where
  "page_ref_share pa s = s"

section \<open>Boot\<close>

definition zero_page :: page where
  "zero_page = \<lparr>is_free = 0, is_head = 0, pg_order = 0, pg_alloc = 0, cpu_id = 0, pg_ref = 0, pg_color = 0\<rparr>"

text \<open>\<^verbatim>\<open>sizeof(page_t)\<close>: the status word and the two pointers of the list node.\<close>

definition sizeof_page :: uint64 where "sizeof_page = 24"

text \<open>The \<^verbatim>\<open>memset\<close> of \<open>nr\<close> descriptors, list nodes included, and the loop that marks every
  frame as reserved.\<close>

definition clear_nodes :: "uint64 \<Rightarrow> (nref \<Rightarrow> nref) \<Rightarrow> nref \<Rightarrow> nref" where
  "clear_nodes nr f n = (case n of PageN i \<Rightarrow> if i < nr then NullN else f n | _ \<Rightarrow> f n)"

definition clear_pages :: "pmm \<Rightarrow> pmm" where
  "clear_pages s =
     s\<lparr>pages := (\<lambda>i. if i < nr_pages s then zero_page else pages s i),
       bnodes := (bnodes s)\<lparr>nd_prev := clear_nodes (nr_pages s) (nd_prev (bnodes s)),
                           nd_next := clear_nodes (nr_pages s) (nd_next (bnodes s))\<rparr>\<rparr>"

definition reserve_pages :: "pmm \<Rightarrow> pmm" where
  "reserve_pages s =
     s\<lparr>pages := (\<lambda>i. if i < nr_pages s then (pages s i)\<lparr>pg_alloc := 3\<rparr> else pages s i)\<rparr>"

text \<open>\<^verbatim>\<open>objs[j] = ...\<close> for \<open>j\<close> from \<open>PCPU_CACHE_SIZE - n\<close> on.\<close>

fun prefill_loop :: "nat \<Rightarrow> uint64 \<Rightarrow> pmm \<Rightarrow> pmm res" where
  "prefill_loop 0 cid s = Inr s"
| "prefill_loop (Suc n) cid s =
     bindE (buddy_alloc 0 s) (\<lambda>(a, s).
     bindE (cache_at cid s) (\<lambda>c.
     bindE (obj_write (word_of_nat (PCPU_CACHE_SIZE - Suc n)) (ADDR_TO_PFN a) c) (\<lambda>c.
     prefill_loop n cid (cache_set cid c s))))"

fun prefill_caches :: "nat \<Rightarrow> pmm \<Rightarrow> pmm res" where
  "prefill_caches 0 s = Inr s"
| "prefill_caches (Suc n) s =
     (let cid = word_of_nat (NCPU - Suc n) in
      bindE (prefill_loop PCPU_CACHE_SIZE cid s) (\<lambda>s.
      bindE (cache_at cid s) (\<lambda>c.
      prefill_caches n (cache_set cid (c\<lparr>pc_count := word_of_nat PCPU_CACHE_SIZE\<rparr>) s))))"

text \<open>\<^verbatim>\<open>pmm_init\<close>; \<open>kend\<close> is the linker symbol \<^verbatim>\<open>_end\<close> and \<^verbatim>\<open>g_mem_size\<close> holds the size
  that the device tree scan found. Clearing descriptors beyond the end of memory is out of
  bounds.\<close>

definition pmm_init :: "uint64 \<Rightarrow> pmm \<Rightarrow> pmm res" where
  "pmm_init kend s =
     (let g_kernel_start = KERN_BASE;
          g_kernel_end = kend;
          pke_kernel_size = g_kernel_end - g_kernel_start;
          s = s\<lparr>free_mem_start_addr := ROUNDUP g_kernel_end PGSIZE\<rparr>;
          s = s\<lparr>g_mem_size := MIN2 PKE_MAX_ALLOWABLE_RAM (g_mem_size s)\<rparr>
      in
      bindE (guardE (\<not> g_mem_size s < pke_kernel_size)
               (Panic ''Error when recomputing physical memory size (g_mem_size).'')) (\<lambda>_.
      let s = s\<lparr>free_mem_end_addr := g_mem_size s + DRAM_BASE\<rparr>;
          pages_addr = ROUNDUP kend 8;
          s = s\<lparr>nr_pages := g_mem_size s div PGSIZE\<rparr>;
          metaspace = nr_pages s * sizeof_page;
          s = s\<lparr>buddy_start := ROUNDUP (metaspace + pages_addr) PGSIZE\<rparr>;
          s = s\<lparr>buddy_end := ROUNDDOWN (free_mem_end_addr s) PGSIZE\<rparr>
      in
      bindE (guardE (unat pages_addr + unat metaspace \<le> unat (free_mem_end_addr s)) OutOfBounds) (\<lambda>_.
      let s = reserve_pages (clear_pages s) in
      bindE (buddy_system_init (buddy_start s) (buddy_end s) s) (\<lambda>s.
      prefill_caches NCPU s))))"

section \<open>The initial tiling\<close>

lemma dvd_bit_clear: "2 ^ Suc k dvd (n :: nat) \<Longrightarrow> j \<le> k \<Longrightarrow> \<not> bit n j"
proof -
  assume "2 ^ Suc k dvd n" "j \<le> k"
  then have "2 ^ Suc j dvd n" by (meson dvd_trans le_imp_power_dvd Suc_le_mono)
  then have "2 ^ j * 2 dvd n" by (simp add: mult.commute)
  then show ?thesis by (auto simp: bit_iff_odd elim!: dvdE)
qed

lemma init_order_block:
  assumes cur: "unat cur = c * 4096 + 0x80000000" and stop: "unat stop = e * 4096 + 0x80000000"
    and lt: "c < e"
  defines "o' \<equiv> init_order cur stop"
  shows "cur < stop" "cur div PGSIZE \<noteq> 0" "(stop - cur) div PGSIZE \<noteq> 0" "o' < MAX_ORDER"
    "2 ^ o' dvd c" "c + 2 ^ o' \<le> e" "o' < MAX_ORDER - 1 \<Longrightarrow> 2 ^ Suc o' dvd c \<Longrightarrow> e < c + 2 ^ Suc o'"
proof -
  show cs: "cur < stop" using cur stop lt by (simp add: word_less_iff_unat)
  have uc: "unat (cur div PGSIZE) = c + 2 ^ 19" using cur by (simp add: unat_div)
  then show nz: "cur div PGSIZE \<noteq> 0" by (metis add_is_0 power_eq_0_iff unat_0 zero_neq_numeral)
  have ur: "unat ((stop - cur) div PGSIZE) = e - c"
    using cs cur stop by (simp add: unat_div unat_sub_le flip: diff_mult_distrib)
  then show nr: "(stop - cur) div PGSIZE \<noteq> 0" using lt by (metis unat_0 zero_less_diff less_irrefl)
  note f = init_order_fits [OF less_imp_le [OF cs] nr, folded o'_def]
  show o: "o' < MAX_ORDER" by (rule f(2))
  have "(unat stop - unat cur) div 4096 = e - c" using cur stop by (simp flip: diff_mult_distrib)
  then show "c + 2 ^ o' \<le> e" using f(1) lt by simp
  let ?a = "ctzll (cur div PGSIZE)" and ?l = "63 - clzll ((stop - cur) div PGSIZE)"
  have oa: "o' \<le> ?a" by (auto simp: o'_def init_order_def Let_def)
  have dvd19: "2 ^ k dvd c + 2 ^ 19 \<longleftrightarrow> 2 ^ k dvd c" if "k \<le> 19" for k
    using that by (intro dvd_add_left_iff le_imp_power_dvd)
  have "2 ^ o' dvd c + 2 ^ 19"
    using ctzll_dvd(3) [OF nz] le_imp_power_dvd [OF oa] uc by (metis dvd_trans)
  then show "2 ^ o' dvd c" using o by (subst (asm) dvd19) (simp_all add: MAX_ORDER_def)
  assume o10: "o' < MAX_ORDER - 1" and d: "2 ^ Suc o' dvd c"
  have "2 ^ Suc o' dvd c + 2 ^ 19" using d o10 by (subst dvd19) (simp_all add: MAX_ORDER_def)
  then have "\<not> bit (unat (cur div PGSIZE)) j" if "j \<le> o'" for j
    using dvd_bit_clear [OF _ that] by (simp only: uc not_False_eq_True)
  then have "\<not> bit (cur div PGSIZE) j" if "j \<le> o'" for j
    using that by (simp add: bit_unsigned_iff)
  then have "o' < ?a" using ctzll_dvd(2) [OF nz] oa by (metis le_neq_implies_less order_refl)
  then have "o' = ?l" using o10 by (auto simp: o'_def init_order_def Let_def MAX_ORDER_def split: if_splits)
  then have "64 - clzll ((stop - cur) div PGSIZE) = Suc o'" using clzll_log(1) [OF nr] by simp
  then show "e < c + 2 ^ Suc o'" using clzll_log(3) [OF nr] ur by simp
qed

text \<open>The blocks of the initial tiling of the frames up to \<open>e\<close>: each is as large as its alignment
  and the remaining space allow. Such a tiling contains no two buddies.\<close>

definition tiled :: "nat \<Rightarrow> (uint64 \<times> nat) set \<Rightarrow> bool" where
  "tiled e F \<longleftrightarrow> (\<forall>p i. (p, i) \<in> F \<longrightarrow> unat p + 2 ^ i \<le> e \<and>
     (i < MAX_ORDER - 1 \<longrightarrow> 2 ^ Suc i dvd unat p \<longrightarrow> e < unat p + 2 ^ Suc i))"

lemma tiledD:
  assumes "tiled e F" "(p, i) \<in> F"
  shows "unat p + 2 ^ i \<le> e" "i < MAX_ORDER - 1 \<Longrightarrow> 2 ^ Suc i dvd unat p \<Longrightarrow> e < unat p + 2 ^ Suc i"
  using assms by (auto simp: tiled_def)

lemma tiled_lower:
  assumes t: "tiled e F" and p: "(p, i) \<in> F" "(p XOR shl1 i, i) \<in> F"
    and i: "i < MAX_ORDER - 1" and d: "2 ^ i dvd unat p"
  shows "bit p i"
proof (rule ccontr)
  assume nb: "\<not> bit p i"
  have i64: "i < 64" using i by (simp add: MAX_ORDER_def)
  have "2 ^ Suc i dvd unat p" using d nb i64 by (intro dvd_not_bit) (simp_all add: bit_unsigned_iff)
  with tiledD(2) [OF t p(1) i] have "e < unat p + 2 ^ Suc i" by blast
  moreover have "unat (p XOR shl1 i) = unat p + 2 ^ i" using unat_xor_bit [OF i64] nb by simp
  ultimately show False using tiledD(1) [OF t p(2)] by simp
qed

lemma tiled_coalesced:
  assumes inv: "buddy_inv area s" and t: "tiled e (free_blocks s)"
  shows "coalesced s"
  unfolding coalesced_def no_buddies_def
proof (intro allI impI)
  fix p i assume a: "(p, i) \<in> free_blocks s" "i < MAX_ORDER - 1" "(p XOR shl1 i, i) \<in> free_blocks s"
  have dvd: "2 ^ i dvd unat q" if "(q, i) \<in> free_blocks s" for q
    using that inv by (auto simp: buddy_inv_blocks [OF inv] buddy_inv_def block_ok_def dest: pg_invD(1))
  have i64: "i < 64" using a(2) by (simp add: MAX_ORDER_def)
  have "bit p i" by (rule tiled_lower [OF t a(1,3,2) dvd [OF a(1)]])
  moreover have "bit (p XOR shl1 i) i"
    by (rule tiled_lower [OF t a(3) _ a(2) dvd [OF a(3)]]) (use a(1) in simp)
  ultimately have False using i64 by (simp add: bit_xor_iff bit_shl1)
  then show "p \<in> {} \<or> p XOR shl1 i \<in> {}" ..
qed

lemma ADDR_TO_PFN_unat:
  assumes "unat a = c * 4096 + 0x80000000"
  shows "unat (ADDR_TO_PFN a) = c"
  using assms unfolding ADDR_TO_PFN_def by (simp add: unat_div unat_sub_le word_le_iff_unat)

lemma buddy_init_loop_correct:
  assumes "buddy_inv area s" "tiled e (free_blocks s)"
    and "unat cur = c * 4096 + 0x80000000" "unat stop = e * 4096 + 0x80000000"
    and "c \<le> e" "e \<le> unat (nr_pages s)" "free_frames s \<inter> {c..} = {}"
  shows "\<exists>s'. buddy_init_loop cur stop s = Inr s' \<and> buddy_ok s' \<and> tiled e (free_blocks s') \<and>
    buddy_lock s' = buddy_lock s \<and> free_frames s' = free_frames s \<union> {c..<e} \<and> touches {c..<e} s s'"
  using assms
proof (induction "e - c" arbitrary: s area c cur rule: less_induct)
  case less
  note prems = less.prems
  show ?case
  proof (cases "c < e")
    case False
    then have "buddy_init_loop cur stop s = Inr s"
      using prems(3-5) by (simp add: buddy_init_loop.simps word_less_iff_unat)
    then show ?thesis using prems False by (auto simp: buddy_ok_def)
  next
    case True
    define o' where "o' = init_order cur stop"
    define p where "p = ADDR_TO_PFN cur"
    note b = init_order_block [OF prems(3,4) True, folded o'_def]
    have p: "unat p = c" unfolding p_def by (rule ADDR_TO_PFN_unat [OF prems(3)])
    have blk: "blk p o' = {c..<c + 2 ^ o'}" by (simp add: blk_def p)
    let ?f = "\<lambda>pg. pg\<lparr>pg_alloc := 0, is_head := 1, is_free := 1, pg_order := word_of_nat o'\<rparr>"
    have "block_ok (unat (nr_pages s)) p o'" using b(4-6) prems(6) by (simp add: block_ok_def p)
    moreover have "blk p o' \<inter> free_frames s = {}" using prems(7) by (auto simp: blk)
    ultimately obtain s1 where s1: "bindE (page_upd p ?f s) (area_add o' p) = Inr s1"
      "buddy_inv (area(o' := p # area o')) s1" "buddy_lock s1 = buddy_lock s"
      "free_blocks s1 = insert (p, o') (free_blocks s)" "touches (blk p o') s s1"
      using insert_block [OF prems(1), of p o' ?f] unat_order_word [OF b(4)] by auto
    define cur' where "cur' = cur + shl1 o' * PGSIZE"
    have cur': "unat cur' = (c + 2 ^ o') * 4096 + 0x80000000"
      using init_next(1) [OF b(1,3), folded o'_def] prems(3) by (simp add: cur'_def algebra_simps)
    have step: "buddy_init_loop cur stop s = buddy_init_loop cur' stop s1"
      using b(1-3) s1(1) by (subst buddy_init_loop.simps)
        (auto simp: Let_def cur'_def res_simps simp flip: o'_def p_def)
    have ff: "free_frames s1 = free_frames s \<union> {c..<c + 2 ^ o'}"
      by (auto simp: free_frames_def s1(4) blk)
    have t: "tiled e (free_blocks s1)"
      using prems(2) b(6,7) unfolding s1(4) tiled_def by (auto simp: p)
    have "\<exists>s'. buddy_init_loop cur' stop s1 = Inr s' \<and> buddy_ok s' \<and> tiled e (free_blocks s') \<and>
      buddy_lock s' = buddy_lock s1 \<and> free_frames s' = free_frames s1 \<union> {c + 2 ^ o'..<e} \<and>
      touches {c + 2 ^ o'..<e} s1 s'"
      using b(6) True prems(4,6,7) s1(5) ff
      by (intro less.hyps [OF _ s1(2) t cur']) (auto simp: touches_nr intro: diff_less_mono2)
    then obtain s' where s': "buddy_init_loop cur' stop s1 = Inr s'" "buddy_ok s'" "tiled e (free_blocks s')"
      "buddy_lock s' = buddy_lock s1" "free_frames s' = free_frames s1 \<union> {c + 2 ^ o'..<e}"
      "touches {c + 2 ^ o'..<e} s1 s'" by blast
    have un: "{c..<c + 2 ^ o'} \<union> {c + 2 ^ o'..<e} = {c..<e}" using b(6) by auto
    have "touches {c..<e} s s'" using touches_trans [OF s1(5) s'(6)] un by (simp add: blk)
    moreover have "free_frames s' = free_frames s \<union> {c..<e}" using ff s'(5) un by auto
    ultimately show ?thesis using s' s1(3) step by auto
  qed
qed

lemma init_heads_rings: "lists_inv (\<lambda>_. []) (init_heads h)"
proof -
  let ?f = "\<lambda>i h. h\<lparr>nd_next := (nd_next h)(HeadN i := HeadN i), nd_prev := (nd_prev h)(HeadN i := HeadN i)\<rparr>"
  have "nd_next (fold ?f [0..<n] h) (HeadN i) = HeadN i \<and> nd_prev (fold ?f [0..<n] h) (HeadN i) = HeadN i"
    if "i < n" for n i
    using that by (induction n) (auto simp: less_Suc_eq)
  then show ?thesis by (simp add: lists_inv_def list_family_def ring_def init_heads_def)
qed

lemma buddy_system_init_correct:
  assumes nr: "nr_ok (unat (nr_pages s))"
    and clean: "\<And>p. p < nr_pages s \<Longrightarrow> \<not> free_head (pages s p)"
    and start: "unat (ROUNDUP start PGSIZE) = c * 4096 + 0x80000000"
    and stop: "unat (ROUNDDOWN stop PGSIZE) = e * 4096 + 0x80000000"
    and ce: "c \<le> e" "e \<le> unat (nr_pages s)"
  shows "\<exists>s'. buddy_system_init start stop s = Inr s' \<and> buddy_ok s' \<and> coalesced s' \<and>
    buddy_lock s' = 0 \<and> free_frames s' = {c..<e} \<and> touches {c..<e} s s'"
proof -
  let ?s = "s\<lparr>bnodes := init_heads (bnodes s), buddy_lock := 0\<rparr>"
  have none: "free_blocks ?s = {}" using clean by (auto simp: free_blocks_def)
  have "free_set (\<lambda>_. []) = {}" by (simp add: free_set_def)
  then have "buddy_inv (\<lambda>_. []) ?s"
    using nr clean init_heads_rings by (auto simp: buddy_inv_def pg_inv_def word_less_iff_unat)
  from buddy_init_loop_correct [OF this _ start stop ce(1), unfolded free_frames_def none] ce(2)
  obtain s' where s': "buddy_init_loop (ROUNDUP start PGSIZE) (ROUNDDOWN stop PGSIZE) ?s = Inr s'"
    "buddy_ok s'" "tiled e (free_blocks s')" "buddy_lock s' = 0" "frames (free_blocks s') = {c..<e}"
    "touches {c..<e} ?s s'" by (auto simp: tiled_def frames_def)
  have "touches {c..<e} s ?s"
    by (rule touchesI [where pg = "pages s" and h = "init_heads (bnodes s)" and l = 0]) simp_all
  then have "touches {c..<e} s s'" using s'(6) by (rule touches_trans) simp
  moreover have "coalesced s'" using s'(2,3) tiled_coalesced by (auto simp: buddy_ok_def)
  ultimately show ?thesis using s' by (simp add: buddy_system_init_def Let_def free_frames_def)
qed

section \<open>The caches hold allocated pages\<close>

text \<open>The page frames a cache holds, the one handed out next last.\<close>

definition cached :: "percpu_cache \<Rightarrow> uint64 list" where
  "cached c = map the (take (unat (pc_count c)) (objs c))"

definition cache_wf :: "percpu_cache \<Rightarrow> bool" where
  "cache_wf c \<longleftrightarrow> length (objs c) = PCPU_CACHE_SIZE \<and> unat (pc_count c) \<le> PCPU_CACHE_SIZE \<and>
     None \<notin> set (take (unat (pc_count c)) (objs c))"

lemma cache_wf_count: "cache_wf c \<Longrightarrow> unat (pc_count c) = length (cached c)"
  by (simp add: cache_wf_def cached_def)

lemma cached_nth:
  assumes "cache_wf c" "i < length (cached c)"
  shows "objs c ! i = Some (cached c ! i)"
proof -
  have i: "i < length (take (unat (pc_count c)) (objs c))" using assms(2) by (simp add: cached_def)
  from nth_mem [OF this] have "objs c ! i \<noteq> None" using assms(1) i by (metis cache_wf_def length_take min_less_iff_conj nth_take)
  then show ?thesis using i by (auto simp: cached_def)
qed

text \<open>The invariant of the whole manager on hart 0: the buddy system is consistent and unlocked
  and the cache holds distinct pages that are allocated in it.\<close>

definition pmm_ok :: "pmm \<Rightarrow> bool" where
  "pmm_ok s \<longleftrightarrow> buddy_ready s \<and> tp_reg s = 0 \<and> length (pcpu_caches s) = NCPU \<and>
     cache_wf (pcpu_caches s ! 0) \<and> distinct (cached (pcpu_caches s ! 0)) \<and>
     (\<forall>p \<in> set (cached (pcpu_caches s ! 0)). allocated p 0 s)"

abbreviation cached_pages :: "pmm \<Rightarrow> uint64 list" where
  "cached_pages s \<equiv> cached (pcpu_caches s ! 0)"

lemma cache_set_frame [simp]:
  "buddy_ready (cache_set cid c s) = buddy_ready s" "allocated p i (cache_set cid c s) = allocated p i s"
  "free_frames (cache_set cid c s) = free_frames s" "coalesced (cache_set cid c s) = coalesced s"
  "tp_reg (cache_set cid c s) = tp_reg s" "nr_pages (cache_set cid c s) = nr_pages s"
  "buddy_lock (cache_set cid c s) = buddy_lock s" "pages (cache_set cid c s) = pages s"
  "buddy_start (cache_set cid c s) = buddy_start s" "buddy_end (cache_set cid c s) = buddy_end s"
  "pcpu_caches (cache_set cid c s) = (pcpu_caches s)[unat cid := c]"
  by (simp_all add: cache_set_def buddy_ready_def buddy_ok_def buddy_inv_def free_frames_def
      free_blocks_def coalesced_def allocated_def)

lemma unat_pred32: "(n :: uint32) \<noteq> 0 \<Longrightarrow> unat (n - 1) = unat n - 1"
  by (simp add: unat_sub_le word_le_iff_unat unat_eq_zero Suc_le_eq unat_gt_0)

text \<open>A cache with at least one page gives out the last one.\<close>

lemma cache_pop_last:
  assumes wf: "cache_wf (pcpu_caches s ! unat cid)" and cid: "unat cid < length (pcpu_caches s)"
    and ps: "cached (pcpu_caches s ! unat cid) = ps @ [p]"
  shows "\<exists>c'. cache_pop cid s = Inr (p, cache_set cid c' s) \<and> cache_wf c' \<and> cached c' = ps \<and>
    objs c' = objs (pcpu_caches s ! unat cid)"
proof -
  let ?c = "pcpu_caches s ! unat cid"
  let ?n = "unat (pc_count ?c)" and ?c' = "?c\<lparr>pc_count := pc_count ?c - 1\<rparr>"
  have len: "length (take ?n (objs ?c)) = Suc (length ps)"
    using ps by (metis cached_def length_append_singleton length_map)
  then have n: "?n = Suc (length ps)" "?n \<le> length (objs ?c)" using wf by (auto simp: cache_wf_def)
  then have "pc_count ?c \<noteq> 0" by (metis nat.distinct(1) unat_0)
  then have pred: "unat (pc_count ?c - 1) = length ps" using n by (simp add: unat_pred32)
  have tk: "take ?n (objs ?c) = take (length ps) (objs ?c) @ [objs ?c ! length ps]"
    using n by (simp add: take_Suc_conv_app_nth)
  then have "map the (take (length ps) (objs ?c)) = ps" "the (objs ?c ! length ps) = p"
    using ps by (simp_all add: cached_def)
  moreover have "None \<notin> set (take ?n (objs ?c))" using wf by (simp add: cache_wf_def)
  then have "\<exists>q. objs ?c ! length ps = Some q" "None \<notin> set (take (length ps) (objs ?c))"
    by (auto simp: tk not_None_eq [symmetric] simp del: not_None_eq)
  ultimately show ?thesis using pred cid n wf
    by (intro exI [of _ ?c']) (auto simp: cache_pop_def cache_at_def obj_read_def cached_def cache_wf_def)
qed

lemma alloc_page_cached:
  assumes ok: "pmm_ok s" and ps: "cached_pages s = ps @ [p]"
  shows "\<exists>s'. alloc_page s = Inr (PFN_TO_ADDR p, s') \<and> pmm_ok s' \<and> cached_pages s' = ps \<and>
    (\<exists>c. s' = cache_set 0 c s \<and> objs c = objs (pcpu_caches s ! 0)) \<and> allocated p 0 s' \<and> p \<notin> set (cached_pages s')"
proof -
  from ok have len: "length (pcpu_caches s) = 1" and tp: "tp_reg s = 0" by (auto simp: pmm_ok_def NCPU_def)
  with ok ps cache_pop_last [of s 0 ps p] obtain c where
    c: "cache_pop 0 s = Inr (p, cache_set 0 c s)" "cache_wf c" "cached c = ps"
      "objs c = objs (pcpu_caches s ! 0)" by (auto simp: pmm_ok_def)
  have "pc_count (pcpu_caches s ! 0) \<noteq> 0" using ps by (auto simp: cached_def)
  then have "alloc_page s = Inr (PFN_TO_ADDR p, cache_set 0 c s)"
    using c(1) len tp by (simp add: alloc_page_def cache_at_def Let_def)
  moreover have "pmm_ok (cache_set 0 c s)" using ok c ps len by (simp add: pmm_ok_def NCPU_def)
  ultimately show ?thesis using c ok ps len by (auto simp: pmm_ok_def)
qed

lemma alloc_page_empty:
  assumes ok: "pmm_ok s" and e: "cached_pages s = []"
  shows "alloc_page s = Inl Spin"
proof -
  from ok have "length (pcpu_caches s) = 1" "tp_reg s = 0" "buddy_lock s = 0" "cache_wf (pcpu_caches s ! 0)"
    by (auto simp: pmm_ok_def NCPU_def buddy_ready_def)
  moreover from this have "pc_count (pcpu_caches s ! 0) = 0"
    using e by (auto simp: cached_def cache_wf_def PCPU_CACHE_SIZE_def unat_eq_zero)
  moreover have "refill_loop 16 0 (s\<lparr>buddy_lock := 1\<rparr>) = Inl Spin"
    by (simp add: numeral_eq_Suc buddy_alloc_locked MAX_ORDER_def)
  ultimately show ?thesis
    by (simp add: alloc_page_def cache_at_def Let_def buddy_lock_acquire_def)
qed

text \<open>Filling the cache at boot.\<close>

definition prefilled :: "nat set \<Rightarrow> nat \<Rightarrow> pmm \<Rightarrow> bool" where
  "prefilled A k s \<longleftrightarrow> buddy_ready s \<and> tp_reg s = 0 \<and> length (pcpu_caches s) = NCPU \<and>
     length (objs (pcpu_caches s ! 0)) = PCPU_CACHE_SIZE \<and>
     (\<exists>ps. take k (objs (pcpu_caches s ! 0)) = map Some ps \<and> distinct ps \<and>
       (\<forall>p\<in>set ps. allocated p 0 s) \<and> free_frames s \<union> unat ` set ps = A)"

lemma buddy_alloc_one:
  assumes r: "buddy_ready s" and ne: "free_frames s \<noteq> {}"
  shows "\<exists>p s'. buddy_alloc 0 s = Inr (PFN_TO_ADDR p, s') \<and> ADDR_TO_PFN (PFN_TO_ADDR p) = p \<and> alloc_post 0 s p s'"
proof -
  from ne obtain q j where "(q, j) \<in> free_blocks s" by (auto simp: free_frames_def frames_def)
  with buddy_alloc_spec [of s 0 q j] r obtain p s' where
    "buddy_alloc 0 s = Inr (PFN_TO_ADDR p, s')" "alloc_post 0 s p s'"
    by (auto simp: buddy_ready_def MAX_ORDER_def)
  moreover from this have "unat p < 2 ^ 40"
    using block_pfn_bound by (auto simp: alloc_post_def allocated_def)
  ultimately show ?thesis using ADDR_TO_PFN_TO_ADDR by blast
qed

lemma take_Suc_update: "k < length xs \<Longrightarrow> take (Suc k) (xs[k := x]) = take k xs @ [x]"
  by (simp add: take_Suc_conv_app_nth)

lemma touches_caches: "touches A s s' \<Longrightarrow> pcpu_caches s' = pcpu_caches s \<and> tp_reg s' = tp_reg s"
  by (auto simp: touches_def)

lemma prefill_step:
  assumes pre: "prefilled A k s" and k: "k < PCPU_CACHE_SIZE"
    and a: "buddy_alloc 0 s = Inr (PFN_TO_ADDR p, s1)" and post: "alloc_post 0 s p s1"
  defines "c' \<equiv> (pcpu_caches s ! 0)\<lparr>objs := (objs (pcpu_caches s ! 0))[k := Some p]\<rparr>"
  shows "prefilled A (Suc k) (cache_set 0 c' s1)"
    "coalesced s \<Longrightarrow> coalesced (cache_set 0 c' s1)"
proof -
  from post have t: "touches (free_frames s) s s1" and ff: "free_frames s1 = free_frames s - {unat p}"
    and inf: "unat p \<in> free_frames s" and al: "allocated p 0 s1"
    by (auto simp: alloc_post_def blk_def)
  show "coalesced s \<Longrightarrow> coalesced (cache_set 0 c' s1)" using post by (simp add: alloc_post_def)
  from pre obtain ps where ps: "take k (objs (pcpu_caches s ! 0)) = map Some ps" "distinct ps"
    "\<forall>q\<in>set ps. allocated q 0 s" "free_frames s \<union> unat ` set ps = A" by (auto simp: prefilled_def)
  from pre have len: "length (pcpu_caches s) = 1" "length (objs (pcpu_caches s ! 0)) = PCPU_CACHE_SIZE"
    by (auto simp: prefilled_def NCPU_def)
  have old: "allocated q 0 s1 \<and> q \<noteq> p" if "q \<in> set ps" for q
  proof -
    have q: "allocated q 0 s" using ps that by blast
    then have "blk q 0 \<inter> free_frames s = {}" by (simp add: allocated_def)
    then show ?thesis using allocated_keeps [OF q t] ff inf by (auto simp: blk_def)
  qed
  have "buddy_ready s1" using buddy_alloc_owns(1) [OF _ a] pre by (simp add: prefilled_def)
  moreover have "take (Suc k) (objs c') = map Some (ps @ [p])"
    using ps(1) k len by (simp add: c'_def take_Suc_update)
  moreover have "distinct (ps @ [p])" "\<forall>q\<in>set (ps @ [p]). allocated q 0 s1"
    using ps(2) old al by auto
  moreover have "free_frames s1 \<union> unat ` set (ps @ [p]) = A" using ps(4) ff inf by auto
  ultimately show "prefilled A (Suc k) (cache_set 0 c' s1)"
    using len pre touches_caches [OF t]
    by (auto simp: prefilled_def NCPU_def c'_def intro!: exI [of _ "ps @ [p]"])
qed

lemma prefill_loop_correct:
  assumes "prefilled A (PCPU_CACHE_SIZE - n) s" "n \<le> PCPU_CACHE_SIZE"
    "finite A" "PCPU_CACHE_SIZE \<le> card A"
  shows "\<exists>s'. prefill_loop n 0 s = Inr s' \<and> prefilled A PCPU_CACHE_SIZE s' \<and> nr_pages s' = nr_pages s \<and>
    (coalesced s \<longrightarrow> coalesced s')"
  using assms
proof (induction n arbitrary: s)
  case 0
  then show ?case by simp
next
  case (Suc n)
  let ?k = "PCPU_CACHE_SIZE - Suc n"
  have k: "?k < PCPU_CACHE_SIZE" "PCPU_CACHE_SIZE - n = Suc ?k" using Suc.prems(2) by auto
  from Suc.prems(1) obtain ps where ps: "take ?k (objs (pcpu_caches s ! 0)) = map Some ps"
    "free_frames s \<union> unat ` set ps = A" by (auto simp: prefilled_def)
  have "length ps \<le> ?k" using arg_cong [OF ps(1), of length] by simp
  then have "card (unat ` set ps) < card A"
    using card_image_le [of "set ps" unat] card_length [of ps] k(1) Suc.prems(4) by simp
  then have "free_frames s \<noteq> {}" using ps(2) by auto
  moreover have "buddy_ready s" using Suc.prems(1) by (simp add: prefilled_def)
  ultimately obtain p s1 where
    a: "buddy_alloc 0 s = Inr (PFN_TO_ADDR p, s1)" "ADDR_TO_PFN (PFN_TO_ADDR p) = p" "alloc_post 0 s p s1"
    using buddy_alloc_one by blast
  let ?c = "(pcpu_caches s ! 0)\<lparr>objs := (objs (pcpu_caches s ! 0))[?k := Some p]\<rparr>"
  note st = prefill_step [OF Suc.prems(1) k(1) a(1,3)]
  have t: "pcpu_caches s1 = pcpu_caches s" "nr_pages s1 = nr_pages s"
    using a(3) touches_caches touches_nr by (auto simp: alloc_post_def)
  have uk: "unat (word_of_nat ?k :: uint32) = ?k"
    using k(1) by (simp add: PCPU_CACHE_SIZE_def unat_of_nat)
  have "0 < length (pcpu_caches s)" "?k < length (objs (pcpu_caches s ! 0))"
    using Suc.prems(1) k(1) by (auto simp: prefilled_def NCPU_def)
  then have "prefill_loop (Suc n) 0 s = prefill_loop n 0 (cache_set 0 ?c s1)"
    using a(1,2) t(1) uk by (simp add: cache_at_def obj_write_def)
  moreover have "\<exists>s'. prefill_loop n 0 (cache_set 0 ?c s1) = Inr s' \<and> prefilled A PCPU_CACHE_SIZE s' \<and>
      nr_pages s' = nr_pages (cache_set 0 ?c s1) \<and> (coalesced (cache_set 0 ?c s1) \<longrightarrow> coalesced s')"
    using Suc.prems(2-4) st(1) k(2) by (intro Suc.IH) simp_all
  ultimately show ?case using st(2) t by auto
qed

lemma prefill_caches_correct:
  assumes "prefilled A 0 s" "finite A" "PCPU_CACHE_SIZE \<le> card A"
  shows "\<exists>s'. prefill_caches NCPU s = Inr s' \<and> pmm_ok s' \<and> length (cached_pages s') = PCPU_CACHE_SIZE \<and>
    free_frames s' \<union> unat ` set (cached_pages s') = A \<and> nr_pages s' = nr_pages s \<and> (coalesced s \<longrightarrow> coalesced s')"
proof -
  from prefill_loop_correct [of A PCPU_CACHE_SIZE s] assms obtain s1 where
    s1: "prefill_loop PCPU_CACHE_SIZE 0 s = Inr s1" "prefilled A PCPU_CACHE_SIZE s1" "nr_pages s1 = nr_pages s"
      "coalesced s \<longrightarrow> coalesced s1" by auto
  let ?c = "(pcpu_caches s1 ! 0)\<lparr>pc_count := word_of_nat PCPU_CACHE_SIZE\<rparr>"
  from s1(2) have len: "length (pcpu_caches s1) = 1" "length (objs (pcpu_caches s1 ! 0)) = PCPU_CACHE_SIZE"
    by (auto simp: prefilled_def NCPU_def)
  from s1(2) len(2) obtain ps where ps: "objs (pcpu_caches s1 ! 0) = map Some ps" "distinct ps"
    "\<forall>p\<in>set ps. allocated p 0 s1" "free_frames s1 \<union> unat ` set ps = A" by (auto simp: prefilled_def)
  have n: "unat (word_of_nat PCPU_CACHE_SIZE :: uint32) = PCPU_CACHE_SIZE"
    by (simp add: PCPU_CACHE_SIZE_def)
  have c: "cached ?c = ps" using len ps(1) by (simp add: cached_def n comp_def)
  moreover have "cache_wf ?c" using len ps(1) by (auto simp: cache_wf_def n)
  ultimately have "pmm_ok (cache_set 0 ?c s1)"
    using s1(2) len ps(2,3) by (simp add: pmm_ok_def prefilled_def NCPU_def)
  moreover have "prefill_caches NCPU s = Inr (cache_set 0 ?c s1)"
    using s1(1) len by (auto simp: NCPU_def cache_at_def)
  moreover have "length ps = PCPU_CACHE_SIZE" using len ps(1) by simp
  ultimately show ?thesis using s1 c len ps(4) by auto
qed

text \<open>What \<^verbatim>\<open>pmm_init\<close> needs of the machine: memory in multiples of the largest block, a kernel
  image that ends inside it, and room for the descriptors and the initial cache.\<close>

definition boot_ok :: "uint64 \<Rightarrow> pmm \<Rightarrow> bool" where
  "boot_ok kend s \<longleftrightarrow>
     (let m = unat (MIN2 PKE_MAX_ALLOWABLE_RAM (g_mem_size s)) in
      4194304 dvd m \<and> 0x80000000 \<le> unat kend \<and>
      unat kend + 7 + m div 4096 * 24 + 4096 + 32 * 4096 \<le> m + 0x80000000 \<and>
      length (pcpu_caches s) = NCPU \<and>
      length (objs (pcpu_caches s ! 0)) = PCPU_CACHE_SIZE \<and> tp_reg s = 0)"

lemma roundup_page: "unat a < 2 ^ 32 \<Longrightarrow> unat (ROUNDUP a PGSIZE) = (unat a + 4095) div 4096 * 4096"
  using unat_ROUNDUP_pow2 [of PGSIZE 12 a] by (simp add: PGSIZE_def)

definition first_frame :: "uint64 \<Rightarrow> nat \<Rightarrow> nat" where
  "first_frame kend m = (((unat kend + 7) div 8 * 8 + m div 4096 * 24 + 4095) div 4096) - 0x80000"

lemma pmm_init_layout:
  assumes "4194304 dvd m" "m \<le> 134217728" "0x80000000 \<le> unat kend"
    "unat kend + 7 + m div 4096 * 24 + 4096 + 32 * 4096 \<le> m + 0x80000000" "unat g = m"
  defines "start \<equiv> ROUNDUP (g div PGSIZE * sizeof_page + ROUNDUP kend 8) PGSIZE"
    and "stop \<equiv> ROUNDDOWN (g + DRAM_BASE) PGSIZE"
  shows "unat (ROUNDUP start PGSIZE) = first_frame kend m * 4096 + 0x80000000"
    "unat (ROUNDDOWN stop PGSIZE) = m div 4096 * 4096 + 0x80000000"
    "first_frame kend m + 32 \<le> m div 4096" "unat (g div PGSIZE) = m div 4096"
    "start \<le> stop" "\<not> g < kend - KERN_BASE"
    "unat (ROUNDUP kend 8) + unat (g div PGSIZE * sizeof_page) \<le> unat (g + DRAM_BASE)"
proof -
  let ?ka = "(unat kend + 7) div 8 * 8"
  have kend: "unat kend \<le> 2281701376" using assms(2,4) by linarith
  have ka: "?ka \<le> unat kend + 7" "unat kend \<le> ?ka" by presburger+
  have k8: "unat (ROUNDUP kend 8) = ?ka"
    using unat_ROUNDUP_pow2 [of 8 3 kend] kend by (simp add: add.commute)
  show nr: "unat (g div PGSIZE) = m div 4096" using assms(5) by (simp add: unat_div)
  have md: "m div 4096 \<le> 32768" using div_le_mono [OF assms(2), of 4096] by simp
  have meta: "unat (g div PGSIZE * sizeof_page) = m div 4096 * 24"
    using nr md by (subst unat_mult_noof) (simp_all add: sizeof_page_def)
  have lt: "m div 4096 * 24 + ?ka < 2 ^ 32" using ka(1) kend md by simp
  have sum: "unat (g div PGSIZE * sizeof_page + ROUNDUP kend 8) = ?ka + m div 4096 * 24"
    using lt by (subst unat_add_noof) (simp_all only: meta k8 add.commute, simp)
  let ?r = "(?ka + m div 4096 * 24 + 4095) div 4096"
  have start: "unat start = ?r * 4096"
    unfolding start_def using lt by (subst roundup_page) (simp_all only: sum add.commute)
  have r: "?r * 4096 \<le> ?ka + m div 4096 * 24 + 4095" by (rule div_times_less_eq_dividend)
  have "0x80000 * 4096 \<le> ?ka + m div 4096 * 24 + 4095" using assms(3) ka(2) by simp
  then have r2: "0x80000 \<le> ?r" by (simp only: less_eq_div_iff_mult_less_eq zero_less_numeral)
  from r2 have ff: "?r * 4096 = first_frame kend m * 4096 + 0x80000000"
    by (simp only: first_frame_def diff_mult_distrib) simp
  then show "unat (ROUNDUP start PGSIZE) = first_frame kend m * 4096 + 0x80000000"
    using roundup_page [of start] start r ka(1) kend md by simp
  have m4: "m div 4096 * 4096 = m" using assms(1) by (auto elim!: dvdE)
  have end_addr: "unat (g + DRAM_BASE) = m + 0x80000000"
    using assms(2,5) by (subst unat_add_noof) simp_all
  have pg: "(m + 0x80000000) div 4096 * 4096 = m + 0x80000000" using assms(1) by (auto elim!: dvdE)
  have stop: "unat stop = m + 0x80000000" by (simp add: stop_def unat_ROUNDDOWN_page end_addr pg)
  show "unat (ROUNDDOWN stop PGSIZE) = m div 4096 * 4096 + 0x80000000"
    by (simp only: unat_ROUNDDOWN_page stop pg m4)
  have "first_frame kend m * 4096 + 32 * 4096 \<le> m" using r ff assms(4) ka(1) by linarith
  then show "first_frame kend m + 32 \<le> m div 4096"
    using less_eq_div_iff_mult_less_eq [of 4096 "first_frame kend m + 32" m] by (simp add: add_mult_distrib)
  show "start \<le> stop" using start stop r assms(4) ka(1) by (simp add: word_le_iff_unat)
  have "unat (kend - KERN_BASE) = unat kend - 0x80000000"
    using assms(3) by (simp add: unat_sub_le word_le_iff_unat KERN_BASE_def)
  then show "\<not> g < kend - KERN_BASE" using assms(4,5) by (simp add: word_less_iff_unat)
  show "unat (ROUNDUP kend 8) + unat (g div PGSIZE * sizeof_page) \<le> unat (g + DRAM_BASE)"
    using assms(4) ka(1) by (simp add: k8 meta end_addr)
qed

lemma clear_bounds [simp]:
  "buddy_start (reserve_pages (clear_pages s)) = buddy_start s"
  "buddy_end (reserve_pages (clear_pages s)) = buddy_end s"
  by (simp_all add: reserve_pages_def clear_pages_def)

lemma pmm_init_correct:
  assumes "boot_ok kend s"
  defines "m \<equiv> unat (MIN2 PKE_MAX_ALLOWABLE_RAM (g_mem_size s))"
  shows "\<exists>s'. pmm_init kend s = Inr s' \<and> pmm_ok s' \<and> coalesced s' \<and> unat (nr_pages s') = m div 4096 \<and>
    length (cached_pages s') = PCPU_CACHE_SIZE \<and>
    free_frames s' \<union> unat ` set (cached_pages s') = {first_frame kend m ..< m div 4096}"
proof -
  let ?g = "MIN2 PKE_MAX_ALLOWABLE_RAM (g_mem_size s)"
  have m: "m \<le> 134217728"
    by (auto simp: m_def MIN2_def PKE_MAX_ALLOWABLE_RAM_def word_less_iff_unat)
  from assms(1) have b: "4194304 dvd m" "0x80000000 \<le> unat kend"
    "unat kend + 7 + m div 4096 * 24 + 4096 + 32 * 4096 \<le> m + 0x80000000"
    "length (pcpu_caches s) = NCPU" "length (objs (pcpu_caches s ! 0)) = PCPU_CACHE_SIZE" "tp_reg s = 0"
    by (auto simp: boot_ok_def m_def Let_def)
  note lay = pmm_init_layout [OF b(1) m b(2,3) meta_eq_to_obj_eq [OF m_def, symmetric]]
  let ?st = "ROUNDUP (?g div PGSIZE * sizeof_page + ROUNDUP kend 8) PGSIZE"
  let ?en = "ROUNDDOWN (?g + DRAM_BASE) PGSIZE"
  let ?s0 = "s\<lparr>free_mem_start_addr := ROUNDUP kend PGSIZE, g_mem_size := ?g,
    free_mem_end_addr := ?g + DRAM_BASE, nr_pages := ?g div PGSIZE, buddy_start := ?st, buddy_end := ?en\<rparr>"
  let ?s1 = "reserve_pages (clear_pages ?s0)"
  have nr: "nr_pages ?s1 = ?g div PGSIZE" by (simp add: reserve_pages_def clear_pages_def)
  have "1024 dvd m div 4096" using b(1) by (auto elim!: dvdE)
  moreover have "m div 4096 \<le> 2 ^ 40" using m div_le_dividend [of m 4096] by simp
  ultimately have nr_ok: "nr_ok (unat (nr_pages ?s1))" by (simp only: nr lay(4) nr_ok_def)
  have clean: "\<not> free_head (pages ?s1 p)" if "p < nr_pages ?s1" for p
    using that by (simp add: reserve_pages_def clear_pages_def zero_page_def)
  obtain s2 where s2: "buddy_system_init ?st ?en ?s1 = Inr s2" "buddy_ok s2" "coalesced s2" "buddy_lock s2 = 0"
    "free_frames s2 = {first_frame kend m ..< m div 4096}"
    "touches {first_frame kend m ..< m div 4096} ?s1 s2"
    using buddy_system_init_correct [OF nr_ok clean lay(1,2)] lay(3,4) nr by auto
  have keep: "pcpu_caches s2 = pcpu_caches s" "tp_reg s2 = tp_reg s" "nr_pages s2 = ?g div PGSIZE"
    "buddy_start s2 = ?st" "buddy_end s2 = ?en"
    using s2(6) by (auto simp: touches_def reserve_pages_def clear_pages_def)
  have "prefilled {first_frame kend m ..< m div 4096} 0 s2"
    using s2 b lay(5) by (simp add: prefilled_def buddy_ready_def keep)
  moreover have "PCPU_CACHE_SIZE \<le> card {first_frame kend m ..< m div 4096}"
    using lay(3) by (simp add: PCPU_CACHE_SIZE_def)
  ultimately obtain s' where s': "prefill_caches NCPU s2 = Inr s'" "pmm_ok s'"
    "length (cached_pages s') = PCPU_CACHE_SIZE" "nr_pages s' = nr_pages s2" "coalesced s'"
    "free_frames s' \<union> unat ` set (cached_pages s') = {first_frame kend m ..< m div 4096}"
    using s2(3) prefill_caches_correct [OF _ finite_atLeastLessThan] by metis
  have "pmm_init kend s = Inr s'"
    using lay(6,7) s2(1) s'(1) by (simp add: pmm_init_def Let_def)
  then show ?thesis using s' lay(4) keep by auto
qed

section \<open>Freeing\<close>

lemma irq_frame [simp]:
  "buddy_ready (s\<lparr>sstatus_reg := v\<rparr>) = buddy_ready s" "allocated p i (s\<lparr>sstatus_reg := v\<rparr>) = allocated p i s"
  "free_frames (s\<lparr>sstatus_reg := v\<rparr>) = free_frames s" "coalesced (s\<lparr>sstatus_reg := v\<rparr>) = coalesced s"
  "buddy_ok (s\<lparr>sstatus_reg := v\<rparr>) = buddy_ok s"
  by (simp_all add: buddy_ready_def buddy_ok_def buddy_inv_def free_frames_def free_blocks_def
      coalesced_def allocated_def)

lemma irq_off_restore:
  "\<exists>flags v. irq_off s = (flags, s\<lparr>sstatus_reg := v\<rparr>) \<and>
    (\<forall>t. sstatus_reg t = v \<longrightarrow> irq_restore flags t = t\<lparr>sstatus_reg := sstatus_reg s\<rparr>)"
  using irq_save_restore [of "sstatus_reg s"]
  by (cases "disable_irqsave (sstatus_reg s)") (auto simp: irq_off_def irq_restore_def)

text \<open>A block of order 1 or more goes straight back to the buddy system.\<close>

lemma pfree_block_correct:
  assumes r: "buddy_ready s" and own: "owns_block a order s" and o: "order \<noteq> 0"
  shows "\<exists>s'. pfree a s = Inr s' \<and> buddy_ready s' \<and> free_frames s' = free_frames s \<union> block_at a order \<and>
    (coalesced s \<longrightarrow> coalesced s') \<and> sstatus_reg s' = sstatus_reg s \<and> pcpu_caches s' = pcpu_caches s"
proof -
  obtain flags v where irq: "irq_off s = (flags, s\<lparr>sstatus_reg := v\<rparr>)"
    "\<And>t. sstatus_reg t = v \<Longrightarrow> irq_restore flags t = t\<lparr>sstatus_reg := sstatus_reg s\<rparr>"
    using irq_off_restore [of s] by blast
  let ?p = "ADDR_TO_PFN a" and ?v = v
  let ?s = "s\<lparr>sstatus_reg := ?v, buddy_lock := 1\<rparr>"
  from own have al: "allocated ?p (unat order) s" by (simp add: owns_block_def)
  from r have "buddy_ok ?s" by (simp add: buddy_ok_lock buddy_ready_def)
  moreover have "allocated ?p (unat order) ?s" using al by simp
  ultimately obtain s1 where s1: "buddy_merge_inner ?p ?s = Inr s1" "free_post (unat order) ?s ?p s1"
    using buddy_merge_inner_correct by blast
  from s1(2) have t: "touches (free_frames s \<union> blk ?p (unat order)) ?s s1" by (simp add: free_post_def)
  let ?s' = "(buddy_lock_release s1)\<lparr>sstatus_reg := sstatus_reg s\<rparr>"
  have "unat (pg_order (pages s ?p)) \<noteq> 0" using al o by (simp add: allocated_def unat_eq_zero)
  then have "pg_order (pages s ?p) \<noteq> 0" by auto
  moreover have "?p < nr_pages s"
    using al block_ok_less by (auto simp: allocated_def word_less_iff_unat)
  moreover have "irq_restore flags (buddy_lock_release s1) = ?s'"
    using t by (intro irq(2)) (auto simp: touches_def buddy_lock_release_def)
  moreover have "buddy_lock s = 0" using r by (simp add: buddy_ready_def)
  ultimately have "pfree a s = Inr ?s'" using s1(1)
    by (simp add: pfree_def irq(1) page_at_def buddy_lock_acquire_def Let_def)
  moreover have "buddy_ready ?s'" using s1(2) r touches_ready [OF t]
    by (simp add: buddy_ready_def free_post_def buddy_ok_lock buddy_lock_release_def)
  ultimately show ?thesis using s1(2) touches_caches [OF t]
    by (intro exI [of _ ?s']) (simp add: free_post_def block_at_def buddy_lock_release_def)
qed

text \<open>The cached pages that the loop of \<^verbatim>\<open>pfree\<close> gives back.\<close>

definition flushable :: "uint64 list \<Rightarrow> pmm \<Rightarrow> bool" where
  "flushable ps s \<longleftrightarrow> buddy_ok s \<and> length (pcpu_caches s) = NCPU \<and> cache_wf (pcpu_caches s ! 0) \<and>
     cached_pages s = ps \<and> distinct ps \<and> (\<forall>p\<in>set ps. allocated p 0 s)"

lemma flush_step:
  assumes f: "flushable (ps @ [q]) s"
  shows "\<exists>s1 s'. cache_pop 0 s = Inr (q, s1) \<and> buddy_merge_inner q s1 = Inr s' \<and> flushable ps s' \<and>
    free_frames s' = insert (unat q) (free_frames s) \<and>
    objs (pcpu_caches s' ! 0) = objs (pcpu_caches s ! 0) \<and> buddy_lock s' = buddy_lock s \<and>
    tp_reg s' = tp_reg s \<and> sstatus_reg s' = sstatus_reg s \<and> buddy_start s' = buddy_start s \<and>
    buddy_end s' = buddy_end s"
proof -
  from f have len: "length (pcpu_caches s) = 1" and ok: "buddy_ok s" and q: "allocated q 0 s"
    and old: "\<forall>p\<in>set ps. allocated p 0 s \<and> p \<noteq> q" by (auto simp: flushable_def NCPU_def)
  from f len cache_pop_last [of s 0 ps q] obtain c where
    c: "cache_pop 0 s = Inr (q, cache_set 0 c s)" "cache_wf c" "cached c = ps"
      "objs c = objs (pcpu_caches s ! 0)" by (auto simp: flushable_def)
  let ?s1 = "cache_set 0 c s"
  have "buddy_ok ?s1" using ok by (simp add: cache_set_def buddy_ok_def buddy_inv_def)
  moreover have "allocated q 0 ?s1" using q by simp
  ultimately obtain s' where s': "buddy_merge_inner q ?s1 = Inr s'" "free_post 0 ?s1 q s'"
    using buddy_merge_inner_correct by blast
  then have ff: "free_frames s' = insert (unat q) (free_frames s)"
    and t: "touches (insert (unat q) (free_frames s)) ?s1 s'"
    by (auto simp: free_post_def blk_def)
  have keep: "allocated p 0 s'" if "p \<in> set ps" for p
  proof (rule allocated_keeps [OF _ t])
    show "allocated p 0 ?s1" using old that by simp
    have "blk p 0 \<inter> insert (unat q) (free_frames s) = {}"
      using old that by (auto simp: allocated_def blk_def word_unat_eq_iff)
    then show "blk p 0 \<inter> insert (unat q) (free_frames s) = {}" "blk p 0 \<inter> free_frames s' = {}"
      by (simp_all only: ff)
  qed
  have "flushable ps s'" using c len keep f s'(2) touches_caches [OF t]
    by (auto simp: flushable_def NCPU_def free_post_def)
  moreover have "sstatus_reg s' = sstatus_reg s" using t by (auto simp: touches_def cache_set_def)
  moreover have "buddy_lock s' = buddy_lock s" using s'(2) by (simp add: free_post_def)
  ultimately show ?thesis using c s'(1) ff touches_caches [OF t] touches_ready [OF t] len
    by (intro exI [of _ ?s1] exI [of _ s']) (simp)
qed

lemma flush_loop_correct:
  assumes "flushable (ps @ qs) s"
  shows "\<exists>s'. flush_loop (length qs) 0 s = Inr s' \<and> flushable ps s' \<and>
    free_frames s' = free_frames s \<union> unat ` set qs \<and>
    objs (pcpu_caches s' ! 0) = objs (pcpu_caches s ! 0) \<and> buddy_lock s' = buddy_lock s \<and>
    tp_reg s' = tp_reg s \<and> sstatus_reg s' = sstatus_reg s \<and> buddy_start s' = buddy_start s \<and>
    buddy_end s' = buddy_end s"
  using assms
proof (induction qs arbitrary: s rule: rev_induct)
  case Nil
  then show ?case by simp
next
  case (snoc q qs)
  from flush_step [of "ps @ qs" q s] snoc.prems obtain s1 s2 where
    s2: "cache_pop 0 s = Inr (q, s1)" "buddy_merge_inner q s1 = Inr s2" "flushable (ps @ qs) s2"
      "free_frames s2 = insert (unat q) (free_frames s)"
      "objs (pcpu_caches s2 ! 0) = objs (pcpu_caches s ! 0)" "buddy_lock s2 = buddy_lock s"
      "tp_reg s2 = tp_reg s" "sstatus_reg s2 = sstatus_reg s" "buddy_start s2 = buddy_start s"
      "buddy_end s2 = buddy_end s" by auto
  from snoc.IH [OF s2(3)] show ?case using s2 by auto
qed

text \<open>What happens to a page of order 0: the slot written is the one above the new top.\<close>

lemma unat_succ32: "unat (n :: uint32) < 2 ^ 32 - 1 \<Longrightarrow> unat (n + 1) = Suc (unat n)"
  by (subst unat_add_noof) simp_all

lemma pfree_push:
  assumes tp: "tp_reg s = 0" and len: "length (pcpu_caches s) = 1"
    and objs: "length (objs (pcpu_caches s ! 0)) = PCPU_CACHE_SIZE"
    and p: "ADDR_TO_PFN b < nr_pages s" "pg_order (pages s (ADDR_TO_PFN b)) = 0"
    and n: "unat (pc_count (pcpu_caches s ! 0)) < PCPU_CACHE_SIZE"
  defines "k \<equiv> Suc (unat (pc_count (pcpu_caches s ! 0)))"
  shows "pfree b s =
    (if k < PCPU_CACHE_SIZE
     then Inr (cache_set 0 ((pcpu_caches s ! 0)\<lparr>pc_count := pc_count (pcpu_caches s ! 0) + 1,
                 objs := (objs (pcpu_caches s ! 0))[k := Some (ADDR_TO_PFN b)]\<rparr>) s)
     else Inl OutOfBounds)"
proof -
  let ?c = "pcpu_caches s ! 0"
  obtain flags v where irq: "irq_off s = (flags, s\<lparr>sstatus_reg := v\<rparr>)"
    "\<And>t. sstatus_reg t = v \<Longrightarrow> irq_restore flags t = t\<lparr>sstatus_reg := sstatus_reg s\<rparr>"
    using irq_off_restore [of s] by blast
  have k: "unat (pc_count ?c + 1) = k"
    unfolding k_def using n by (intro unat_succ32) (simp add: PCPU_CACHE_SIZE_def)
  have r: "irq_restore flags (cache_set 0 c (s\<lparr>sstatus_reg := v\<rparr>)) = cache_set 0 c s" for c
    by (simp add: irq(2) cache_set_def)
  show ?thesis
    using tp len objs p n k r
    by (auto simp: pfree_def irq(1) page_at_def cache_at_def obj_write_def Let_def)
qed

text \<open>What happens when the cache is full: sixteen pages go back to the buddy system and the new
  top is one slot below the page that was freed.\<close>

lemma pfree_flush:
  assumes ok: "pmm_ok s" and full: "cached_pages s = ps @ qs" "length ps = 16" "length qs = 16"
    and p: "ADDR_TO_PFN b < nr_pages s" "pg_order (pages s (ADDR_TO_PFN b)) = 0"
  shows "\<exists>s' c. pfree b s = Inr s' \<and> buddy_ready s' \<and> free_frames s' = free_frames s \<union> unat ` set qs \<and>
    tp_reg s' = 0 \<and> pcpu_caches s' = [c] \<and> pc_count c = 17 \<and>
    objs c = (objs (pcpu_caches s ! 0))[17 := Some (ADDR_TO_PFN b)] \<and> sstatus_reg s' = sstatus_reg s"
proof -
  obtain flags v where irq: "irq_off s = (flags, s\<lparr>sstatus_reg := v\<rparr>)"
    "\<And>t. sstatus_reg t = v \<Longrightarrow> irq_restore flags t = t\<lparr>sstatus_reg := sstatus_reg s\<rparr>"
    using irq_off_restore [of s] by blast
  let ?c = "pcpu_caches s ! 0" and ?v = v
  from ok have ready: "buddy_ready s" and tp: "tp_reg s = 0" and len: "length (pcpu_caches s) = 1"
    and wf: "cache_wf ?c" by (auto simp: pmm_ok_def NCPU_def)
  have n: "unat (pc_count ?c) = 32"
    using full cache_wf_count [OF wf] by simp
  let ?s = "s\<lparr>sstatus_reg := ?v, buddy_lock := 1\<rparr>"
  have "flushable (ps @ qs) ?s" using ok full(1)
    by (simp add: flushable_def pmm_ok_def buddy_ok_lock buddy_ready_def)
  from flush_loop_correct [OF this] full(3) obtain s1 where
    s1: "flush_loop 16 0 ?s = Inr s1" "flushable ps s1" "free_frames s1 = free_frames s \<union> unat ` set qs"
      "objs (pcpu_caches s1 ! 0) = objs ?c" "tp_reg s1 = 0" "sstatus_reg s1 = ?v"
      "buddy_start s1 = buddy_start s" "buddy_end s1 = buddy_end s" using tp by auto
  let ?c1 = "pcpu_caches s1 ! 0" and ?s2 = "buddy_lock_release s1"
  from s1(2) have len1: "length (pcpu_caches s1) = 1" and objs1: "length (objs ?c1) = 32"
    by (auto simp: flushable_def NCPU_def cache_wf_def PCPU_CACHE_SIZE_def)
  have "unat (pc_count ?c1) = 16"
    using s1(2) full(2) cache_wf_count by (auto simp: flushable_def)
  then have n1: "pc_count ?c1 = 16" by (simp add: word_unat_eq_iff)
  let ?c' = "?c1\<lparr>pc_count := 17, objs := (objs ?c)[17 := Some (ADDR_TO_PFN b)]\<rparr>"
  let ?s' = "(cache_set 0 ?c' ?s2)\<lparr>sstatus_reg := sstatus_reg s\<rparr>"
  have r: "irq_restore flags (cache_set 0 ?c' ?s2) = ?s'"
    using s1(6) by (intro irq(2)) (simp add: cache_set_def buddy_lock_release_def)
  have "buddy_lock s = 0" using ready by (simp add: buddy_ready_def)
  then have "pfree b s = Inr ?s'"
    using tp len p n s1(1,4,5) len1 objs1 n1 r
    by (auto simp: pfree_def irq(1) page_at_def cache_at_def obj_write_def Let_def PCPU_CACHE_SIZE_def
        buddy_lock_acquire_def buddy_lock_release_def)
  moreover have "buddy_ready ?s'" using s1(2,7,8) ready
    by (simp add: flushable_def buddy_ready_def buddy_lock_release_def cache_set_def buddy_ok_def buddy_inv_def)
  moreover have "pcpu_caches ?s' = [?c']" using len1
    by (cases "pcpu_caches s1") (auto simp: buddy_lock_release_def)
  ultimately show ?thesis using s1(3,5)
    by (intro exI [of _ ?s'] exI [of _ ?c']) (simp add: buddy_lock_release_def cache_set_def free_frames_def free_blocks_def)
qed

end
