(* ===== verification/Pke_Vmm.thy ===== *)
theory Pke_Vmm
  imports Pke_Pmm
begin

text \<open>
  Virtual memory, \<^verbatim>\<open>kernel/vmm.c\<close>: walking and extending a Sv39 page table, mapping, looking up
  and unmapping pages, and the kernel's own address space. Physical memory is a function from the
  byte address of an 8-byte cell to its content; a \<^verbatim>\<open>pte_t *\<close> is the address of a cell and 0
  is the null pointer.
\<close>

record vmm =
  vpmm :: pmm
  vmem :: "uint64 \<Rightarrow> uint64"
  g_kernel_pagetable :: uint64

section \<open>Walking the page table\<close>

definition pte_valid :: "pte_t \<Rightarrow> bool" where
  "pte_valid e \<longleftrightarrow> e AND PTE_V \<noteq> 0"

text \<open>\<^verbatim>\<open>pt + i\<close> on a \<^verbatim>\<open>pagetable_t\<close>, which points to 8-byte entries.\<close>

definition pte_addr :: "uint64 \<Rightarrow> uint64 \<Rightarrow> uint64" where
  "pte_addr pt i = pt + 8 * i"

text \<open>\<^verbatim>\<open>memset(pt, 0, PGSIZE)\<close> on the cells of a page.\<close>

definition zero_frame :: "uint64 \<Rightarrow> (uint64 \<Rightarrow> uint64) \<Rightarrow> uint64 \<Rightarrow> uint64" where
  "zero_frame pt m = (\<lambda>a. if a - pt < PGSIZE then 0 else m a)"

text \<open>\<^verbatim>\<open>*p\<close> and \<^verbatim>\<open>*p = v\<close> for a pointer to a cell.\<close>

definition mem_read :: "uint64 \<Rightarrow> vmm \<Rightarrow> uint64 res" where
  "mem_read a s = (if a = 0 then Inl NullDeref else Inr (vmem s a))"

definition mem_write :: "uint64 \<Rightarrow> uint64 \<Rightarrow> vmm \<Rightarrow> vmm res" where
  "mem_write a v s = (if a = 0 then Inl NullDeref else Inr (s\<lparr>vmem := (vmem s)(a := v)\<rparr>))"

definition vm_alloc_page :: "vmm \<Rightarrow> (uint64 \<times> vmm) res" where
  "vm_alloc_page s = bindE (alloc_page (vpmm s)) (\<lambda>(a, p). Inr (a, s\<lparr>vpmm := p\<rparr>))"

definition vm_pfree :: "uint64 \<Rightarrow> vmm \<Rightarrow> vmm res" where
  "vm_pfree a s = bindE (pfree a (vpmm s)) (\<lambda>p. Inr (s\<lparr>vpmm := p\<rparr>))"

text \<open>One level of the loop of \<^verbatim>\<open>page_walk\<close>: the table of the next level, or \<open>None\<close> where the function
  returns 0. A new table is installed by compare-and-swap.\<close>

definition walk_step :: "nat \<Rightarrow> uint64 \<Rightarrow> bool \<Rightarrow> uint64 \<Rightarrow> vmm \<Rightarrow> (uint64 option \<times> vmm) res" where
  "walk_step level va alloc pt s =
     (let pte = pte_addr pt (PX level va) in
      bindE (mem_read pte s) (\<lambda>e.
      if pte_valid e then Inr (Some (PTE2PA e), s)
      else if alloc
      then bindE (vm_alloc_page s) (\<lambda>(pt', s).
           if pt' \<noteq> 0
           then (case cas_alone (vmem s pte) 0 (PA2PTE pt' OR PTE_V) of (ok, v) \<Rightarrow>
                 let s = s\<lparr>vmem := (vmem s)(pte := v)\<rparr> in
                 if ok = 0
                 then bindE (vm_pfree pt' s) (\<lambda>s. Inr (Some (PTE2PA (vmem s pte)), s))
                 else let s = s\<lparr>vpmm := page_ref_share pt' (vpmm s)\<rparr> in
                      Inr (Some pt', s\<lparr>vmem := zero_frame pt' (vmem s)\<rparr>))
           else Inr (None, s))
      else Inr (None, s)))"

fun walk_loop :: "nat \<Rightarrow> nat \<Rightarrow> uint64 \<Rightarrow> bool \<Rightarrow> uint64 \<Rightarrow> vmm \<Rightarrow> (uint64 \<times> vmm) res" where
  "walk_loop level target_level va alloc pt s =
     (if level > target_level
      then bindE (walk_step level va alloc pt s) (\<lambda>(r, s).
           case r of None \<Rightarrow> Inr (0, s)
           | Some pt \<Rightarrow> walk_loop (level - 1) target_level va alloc pt s)
      else Inr (pte_addr pt (PX 0 va), s))"

declare walk_loop.simps [simp del]

definition page_walk :: "uint64 \<Rightarrow> uint64 \<Rightarrow> nat \<Rightarrow> bool \<Rightarrow> vmm \<Rightarrow> (uint64 \<times> vmm) res" where
  "page_walk page_dir va target_level alloc s =
     bindE (guardE (va > 0 \<and> va < MAXVA) (AssertFail ''va > 0 && va < MAXVA'')) (\<lambda>_.
     walk_loop 2 target_level va alloc page_dir s)"

lemma page_walk_range: "page_walk d va t al s = Inr r \<Longrightarrow> 0 < va \<and> va < MAXVA"
  by (auto simp: page_walk_def guardE_def split: if_splits)

lemma page_step: "va < MAXVA \<Longrightarrow> unat (va + PGSIZE) = unat va + 4096"
  by (subst unat_add_noof) (simp_all add: word_less_iff_unat MAXVA_def push_bit_eq_mult)

section \<open>Mapping\<close>

function map_loop :: "uint64 \<Rightarrow> uint64 \<Rightarrow> uint64 \<Rightarrow> uint64 \<Rightarrow> uint64 \<Rightarrow> vmm \<Rightarrow> (int \<times> vmm) res" where
  "map_loop page_dir first last' pa perm s =
     (if first \<le> last'
      then bindE (page_walk page_dir first 0 True s) (\<lambda>(pte, s).
           if pte = 0 then Inr (-1, s)
           else bindE (mem_read pte s) (\<lambda>e.
                if pte_valid e then Inl (Panic ''map_pages fails on mapping va to pa'')
                else bindE (mem_write pte (PA2PTE pa OR perm OR PTE_V) s) (\<lambda>s.
                     map_loop page_dir (first + PGSIZE) last' (pa + PGSIZE) perm s)))
      else Inr (0, s))"
  by pat_completeness auto
termination
  by (relation "measure (\<lambda>(d, first, last', pa, perm, s). Suc (unat last') - unat first)")
    (auto dest!: page_walk_range simp: page_step word_le_iff_unat)

declare map_loop.simps [simp del]

definition map_pages :: "uint64 \<Rightarrow> uint64 \<Rightarrow> uint64 \<Rightarrow> uint64 \<Rightarrow> uint64 \<Rightarrow> vmm \<Rightarrow> (int \<times> vmm) res" where
  "map_pages page_dir va size' pa perm s =
     map_loop page_dir (ROUNDDOWN va PGSIZE) (ROUNDDOWN (va + size' - 1) PGSIZE) pa perm s"

definition PROT_NONE :: uint32 where "PROT_NONE = 0"
definition PROT_READ :: uint32 where "PROT_READ = 1"
definition PROT_WRITE :: uint32 where "PROT_WRITE = 2"
definition PROT_EXEC :: uint32 where "PROT_EXEC = 4"

lemmas prot_defs = PROT_NONE_def PROT_READ_def PROT_WRITE_def PROT_EXEC_def

definition prot_to_type :: "uint32 \<Rightarrow> bool \<Rightarrow> uint64" where
  "prot_to_type prot user =
     (let perm = 0;
          perm = (if prot AND PROT_READ \<noteq> 0 then perm OR (PTE_R OR PTE_A) else perm);
          perm = (if prot AND PROT_WRITE \<noteq> 0 then perm OR (PTE_W OR PTE_D) else perm);
          perm = (if prot AND PROT_EXEC \<noteq> 0 then perm OR (PTE_X OR PTE_A) else perm);
          perm = (if perm = 0 then PTE_R else perm)
      in if user then perm OR PTE_U else perm)"

definition lookup_pa :: "uint64 \<Rightarrow> uint64 \<Rightarrow> vmm \<Rightarrow> (uint64 \<times> vmm) res" where
  "lookup_pa pagetable va s =
     (if va \<ge> MAXVA then Inr (0, s)
      else bindE (page_walk pagetable va 0 False s) (\<lambda>(pte, s).
           if pte = 0 then Inr (0, s)
           else bindE (mem_read pte s) (\<lambda>e.
                if \<not> pte_valid e \<or> (e AND PTE_R = 0 \<and> e AND PTE_W = 0) then Inr (0, s)
                else Inr (PTE2PA e, s))))"

section \<open>The kernel's address space\<close>

definition kern_vm_map :: "uint64 \<Rightarrow> uint64 \<Rightarrow> uint64 \<Rightarrow> uint64 \<Rightarrow> uint64 \<Rightarrow> vmm \<Rightarrow> vmm res" where
  "kern_vm_map page_dir va pa sz perm s =
     bindE (map_pages page_dir va sz pa perm s) (\<lambda>(r, s).
     if r \<noteq> 0 then Inl (Panic ''kern_vm_map'') else Inr s)"

text \<open>\<open>etext\<close> is the linker symbol \<^verbatim>\<open>_etext\<close>; the two lookups are printed.\<close>

definition kern_vm_init :: "uint64 \<Rightarrow> vmm \<Rightarrow> vmm res" where
  "kern_vm_init etext s =
     bindE (vm_alloc_page s) (\<lambda>(t_page_dir, s).
     if t_page_dir = 0 then Inl (Panic ''kern_vm_init: out of memory for kernel page directory!'')
     else
     let s = s\<lparr>vpmm := page_ref_share t_page_dir (vpmm s)\<rparr>;
         s = s\<lparr>vmem := zero_frame t_page_dir (vmem s)\<rparr>
     in
     bindE (kern_vm_map t_page_dir KERN_BASE DRAM_BASE (etext - KERN_BASE)
              (prot_to_type (PROT_READ OR PROT_EXEC) False) s) (\<lambda>s.
     bindE (lookup_pa t_page_dir KERN_BASE s) (\<lambda>(_, s).
     bindE (kern_vm_map t_page_dir etext etext (PHYS_TOP - etext)
              (prot_to_type (PROT_READ OR PROT_WRITE) False) s) (\<lambda>s.
     bindE (lookup_pa t_page_dir etext s) (\<lambda>(_, s).
     Inr (s\<lparr>g_kernel_pagetable := t_page_dir\<rparr>))))))"

section \<open>User address spaces\<close>

definition user_va_to_pa :: "uint64 \<Rightarrow> uint64 \<Rightarrow> vmm \<Rightarrow> (uint64 \<times> vmm) res" where
  "user_va_to_pa page_dir va s =
     bindE (page_walk page_dir va 0 False s) (\<lambda>(pte, s).
     if pte = 0 then Inr (0, s)
     else bindE (mem_read pte s) (\<lambda>e.
          if \<not> pte_valid e then Inr (0, s)
          else Inr (PTE2PA e OR (va AND (PGSIZE - 1)), s)))"

definition user_vm_map :: "uint64 \<Rightarrow> uint64 \<Rightarrow> uint64 \<Rightarrow> uint64 \<Rightarrow> uint64 \<Rightarrow> vmm \<Rightarrow> vmm res" where
  "user_vm_map page_dir va size' pa perm s =
     bindE (map_pages page_dir va size' pa perm s) (\<lambda>(r, s).
     if r \<noteq> 0 then Inl (Panic ''fail to user_vm_map .'') else Inr s)"

text \<open>One iteration of \<^verbatim>\<open>user_vm_unmap\<close>, and its loop.\<close>

definition unmap_one :: "uint64 \<Rightarrow> uint64 \<Rightarrow> bool \<Rightarrow> vmm \<Rightarrow> vmm res" where
  "unmap_one page_dir first_va free s =
     bindE (page_walk page_dir first_va 0 False s) (\<lambda>(pte, s).
     if pte = 0 then Inr s
     else bindE (mem_read pte s) (\<lambda>e.
          if \<not> pte_valid e then Inr s
          else bindE (if free then vm_pfree (PTE2PA e) s else Inr s) (\<lambda>s.
               mem_write pte 0 s)))"

lemma unmap_one_range: "unmap_one d va f s = Inr r \<Longrightarrow> va < MAXVA"
  by (auto simp: unmap_one_def bindE_Inr_iff dest!: page_walk_range)

function unmap_loop :: "uint64 \<Rightarrow> uint64 \<Rightarrow> uint64 \<Rightarrow> bool \<Rightarrow> vmm \<Rightarrow> vmm res" where
  "unmap_loop page_dir first_va end_va free s =
     (if first_va < end_va
      then bindE (unmap_one page_dir first_va free s) (\<lambda>s.
           unmap_loop page_dir (first_va + PGSIZE) end_va free s)
      else Inr s)"
  by pat_completeness auto
termination
  by (relation "measure (\<lambda>(d, first_va, end_va, f, s). unat end_va - unat first_va)")
    (auto dest!: unmap_one_range simp: page_step word_less_iff_unat)

declare unmap_loop.simps [simp del]

definition user_vm_unmap :: "uint64 \<Rightarrow> uint64 \<Rightarrow> uint64 \<Rightarrow> bool \<Rightarrow> vmm \<Rightarrow> vmm res" where
  "user_vm_unmap page_dir va size' free s =
     unmap_loop page_dir (ROUNDDOWN va PGSIZE) (va + size') free s"

end
