(* ===== verification/Pke_Vmm_Inv.thy ===== *)
theory Pke_Vmm_Inv
  imports Pke_Vmm
begin

text \<open>
  The page table as a tree of frames in physical memory, its well-formedness, and the page table
  as a function from virtual pages to entries, which is what walking, mapping and unmapping are
  specified on.
\<close>

section \<open>The tree\<close>

text \<open>The tables of a tree by their position: the directory, the middle tables and the leaf
  tables.\<close>

datatype tpath = Dir | Mid uint64 | Tab uint64 uint64

fun path_ok :: "tpath \<Rightarrow> bool" where
  "path_ok Dir = True"
| "path_ok (Mid i) = (i < 512)"
| "path_ok (Tab i j) = (i < 512 \<and> j < 512)"

fun child :: "tpath \<Rightarrow> uint64 \<Rightarrow> tpath" where
  "child Dir i = Mid i"
| "child (Mid i) j = Tab i j"
| "child (Tab i j) k = Dir"

fun inner :: "tpath \<Rightarrow> bool" where
  "inner Dir = True"
| "inner (Mid i) = True"
| "inner (Tab i j) = False"

text \<open>The table that entry \<open>i\<close> of the table at \<open>t\<close> points to, and the table at a position.\<close>

definition sub_table :: "(uint64 \<Rightarrow> uint64) \<Rightarrow> uint64 \<Rightarrow> uint64 \<Rightarrow> uint64 option" where
  "sub_table m t i = (let e = m (pte_addr t i) in if pte_valid e then Some (PTE2PA e) else None)"

fun table_at :: "(uint64 \<Rightarrow> uint64) \<Rightarrow> uint64 \<Rightarrow> tpath \<Rightarrow> uint64 option" where
  "table_at m root Dir = Some root"
| "table_at m root (Mid i) = sub_table m root i"
| "table_at m root (Tab i j) = (case sub_table m root i of None \<Rightarrow> None | Some t \<Rightarrow> sub_table m t j)"

text \<open>Well-formed: the tables are page-aligned frames, no two positions share a frame, and an
  entry of a directory or middle table is valid or zero.\<close>

definition pt_wf :: "(uint64 \<Rightarrow> uint64) \<Rightarrow> uint64 \<Rightarrow> bool" where
  "pt_wf m root \<longleftrightarrow> page_aligned root \<and>
     (\<forall>p a. path_ok p \<longrightarrow> table_at m root p = Some a \<longrightarrow> a \<noteq> 0) \<and>
     (\<forall>p q a. path_ok p \<longrightarrow> path_ok q \<longrightarrow> table_at m root p = Some a \<longrightarrow> table_at m root q = Some a \<longrightarrow> p = q) \<and>
     (\<forall>p t i. path_ok p \<longrightarrow> inner p \<longrightarrow> table_at m root p = Some t \<longrightarrow> i < 512 \<longrightarrow>
        pte_valid (m (pte_addr t i)) \<or> m (pte_addr t i) = 0)"

definition tables :: "(uint64 \<Rightarrow> uint64) \<Rightarrow> uint64 \<Rightarrow> uint64 set" where
  "tables m root = {a. \<exists>p. path_ok p \<and> table_at m root p = Some a}"

lemma table_in_tables: "path_ok p \<Longrightarrow> table_at m root p = Some t \<Longrightarrow> t \<in> tables m root"
  unfolding tables_def by (intro CollectI exI [of _ p]) simp

lemma table_at_child: "inner p \<Longrightarrow> table_at m root (child p i) =
    (case table_at m root p of None \<Rightarrow> None | Some t \<Rightarrow> sub_table m t i)"
  by (cases p) auto

lemma path_cases: "q = Dir \<or> (\<exists>p i. inner p \<and> q = child p i)"
proof (cases q)
  case (Mid i)
  then have "q = child Dir i" by simp
  then show ?thesis by (metis inner.simps(1))
next
  case (Tab i j)
  then have "q = child (Mid i) j" by simp
  then show ?thesis by (metis inner.simps(2))
qed simp

lemma child_inj: "inner p \<Longrightarrow> inner q \<Longrightarrow> child p i = child q j \<longleftrightarrow> p = q \<and> i = j"
  by (cases p; cases q) auto

lemma path_ok_child: "inner p \<Longrightarrow> path_ok (child p i) \<longleftrightarrow> path_ok p \<and> i < 512"
  by (cases p) auto

lemma pte_valid_bit: "pte_valid e \<longleftrightarrow> bit e 0"
proof
  assume "bit e 0"
  then have "bit (e AND PTE_V) 0" by (simp add: PTE_V_def bit_and_iff)
  then show "pte_valid e" by (metis pte_valid_def bit_0_eq bot_apply bot_bool_def)
next
  assume v: "pte_valid e"
  show "bit e 0"
  proof (rule ccontr)
    assume "\<not> bit e 0"
    then have "e AND PTE_V = 0" by (intro bit_eqI) (auto simp: PTE_V_def bit_and_iff bit_1_iff intro: gr0I)
    with v show False by (simp add: pte_valid_def)
  qed
qed

lemma not_valid_0 [simp]: "\<not> pte_valid 0"
  by (simp add: pte_valid_def)

lemma pte_or_valid [simp]: "pte_valid (e OR PTE_V)" "pte_valid (a OR (b OR PTE_V))"
  by (simp_all add: pte_valid_bit PTE_V_def bit_or_iff)

section \<open>Entries of different tables do not overlap\<close>

lemma unat_pte_addr:
  assumes "page_aligned t" "i < 512"
  shows "unat (pte_addr t i) = unat t + 8 * unat i"
proof -
  have i: "unat i < 512" using assms(2) by (simp add: word_less_iff_unat)
  have "unat (8 * i) = 8 * unat i" using i by (subst unat_mult_noof) simp_all
  moreover obtain k where k: "unat t = 4096 * k" using assms(1) by (auto simp: page_aligned_unat elim: dvdE)
  moreover have "4096 * k + 4096 \<le> 2 ^ 64"
  proof -
    have "4096 * k < 4096 * 2 ^ 52" using k unsigned_less [of t, where ?'a = nat] by simp
    then have "Suc k \<le> 2 ^ 52" by simp
    then have "4096 * Suc k \<le> 4096 * 2 ^ 52" by (rule mult_le_mono2)
    then show ?thesis by simp
  qed
  ultimately show ?thesis unfolding pte_addr_def using i by (subst unat_add_noof) simp_all
qed

lemma page_offset_unique:
  fixes x y :: nat
  assumes "4096 dvd x" "4096 dvd y" "a < 4096" "b < 4096" "x + a = y + b"
  shows "x = y \<and> a = b"
proof -
  have "(x + a) div 4096 = x div 4096" "(y + b) div 4096 = y div 4096" using assms by (auto elim!: dvdE)
  with assms show ?thesis by (metis add_left_imp_eq dvd_mult_div_cancel)
qed

lemma pte_addr_inj:
  assumes "page_aligned t" "page_aligned u" "i < 512" "j < 512" "pte_addr t i = pte_addr u j"
  shows "t = u \<and> i = j"
proof -
  have "unat t + 8 * unat i = unat u + 8 * unat j"
    using unat_pte_addr [OF assms(1,3)] unat_pte_addr [OF assms(2,4)] assms(5) by simp
  moreover have "8 * unat i < 4096" "8 * unat j < 4096" using assms(3,4) by (simp_all add: word_less_iff_unat)
  ultimately have "unat t = unat u \<and> 8 * unat i = 8 * unat j"
    using assms(1,2) by (intro page_offset_unique) (simp_all add: page_aligned_unat)
  then show ?thesis by (simp add: word_unat_eq_iff)
qed

lemma pte_addr_offset: "i < 512 \<Longrightarrow> pte_addr t i - t < PGSIZE"
proof -
  assume "i < 512"
  then have "unat i < 512" by (simp add: word_less_iff_unat)
  then have "unat (8 * i) < 4096" by (subst unat_mult_noof) simp_all
  then show ?thesis by (simp add: pte_addr_def word_less_iff_unat)
qed

lemma pte_addr_other_frame:
  assumes "page_aligned t" "page_aligned n" "i < 512" "t \<noteq> n"
  shows "\<not> pte_addr t i - n < PGSIZE"
proof
  let ?a = "pte_addr t i - n"
  assume "?a < PGSIZE"
  then have a: "unat ?a < 4096" by (simp add: word_less_iff_unat)
  have "unat n + 4096 \<le> 2 ^ 64"
  proof -
    obtain k where k: "unat n = 4096 * k" using assms(2) by (auto simp: page_aligned_unat elim: dvdE)
    have "4096 * k < 4096 * 2 ^ 52" using k unsigned_less [of n, where ?'a = nat] by simp
    then have "4096 * Suc k \<le> 4096 * 2 ^ 52" by (intro mult_le_mono2) simp
    then show ?thesis using k by simp
  qed
  then have "unat (n + ?a) = unat n + unat ?a" using a by (subst unat_add_noof) simp_all
  moreover have "n + ?a = pte_addr t i" by simp
  ultimately have "unat t + 8 * unat i = unat n + unat ?a" using unat_pte_addr [OF assms(1,3)] by simp
  moreover have "8 * unat i < 4096" using assms(3) by (simp add: word_less_iff_unat)
  ultimately have "unat t = unat n"
    using assms(1,2) a page_offset_unique by (metis page_aligned_unat)
  with assms(4) show False by (simp add: word_unat_eq_iff)
qed

section \<open>Changing the tree\<close>

lemma pt_wfD:
  assumes "pt_wf m root" "path_ok p" "table_at m root p = Some t"
  shows "t \<noteq> 0" "\<And>q. path_ok q \<Longrightarrow> table_at m root q = Some t \<Longrightarrow> p = q"
    "\<And>i. inner p \<Longrightarrow> i < 512 \<Longrightarrow> \<not> pte_valid (m (pte_addr t i)) \<Longrightarrow> m (pte_addr t i) = 0"
  using assms unfolding pt_wf_def by blast+

lemma table_aligned:
  assumes "pt_wf m root" "table_at m root p = Some t"
  shows "page_aligned t"
  using assms by (cases p) (auto simp: pt_wf_def sub_table_def Let_def page_aligned_PTE2PA split: if_splits option.splits)

lemma slot_unique:
  assumes wf: "pt_wf m root" and "path_ok p" "path_ok q" "table_at m root p = Some t" "table_at m root q = Some u"
    and "i < 512" "j < 512" "pte_addr t i = pte_addr u j"
  shows "p = q \<and> i = j"
  using assms pte_addr_inj [of t u i j] table_aligned [OF wf] pt_wfD(2) [OF wf] by blast

lemma table_at_cong:
  assumes "\<And>p t j. path_ok p \<Longrightarrow> inner p \<Longrightarrow> table_at m root p = Some t \<Longrightarrow> j < 512 \<Longrightarrow>
      m' (pte_addr t j) = m (pte_addr t j)" and "path_ok q"
  shows "table_at m' root q = table_at m root q"
proof -
  have d: "sub_table m' root j = sub_table m root j" if "j < 512" for j
    using assms(1) [of Dir root j] that by (simp add: sub_table_def)
  show ?thesis
  proof (cases q)
    case (Tab i j)
    have "sub_table m' t j = sub_table m t j" if "sub_table m root i = Some t" for t
      using assms(1) [of "Mid i" t j] assms(2) Tab that by (simp add: sub_table_def)
    then show ?thesis using Tab d assms(2) by (auto split: option.splits)
  qed (use d assms(2) in auto)
qed

text \<open>Writing an entry of a leaf table.\<close>

lemma leaf_store_tables:
  assumes wf: "pt_wf m root" and p: "path_ok p" "\<not> inner p" "table_at m root p = Some t" and i: "i < 512"
    and q: "path_ok q"
  shows "table_at (m(pte_addr t i := v)) root q = table_at m root q"
  using q
proof (rule table_at_cong [rotated])
  fix r u and j :: uint64
  assume "path_ok r" "inner r" "table_at m root r = Some u" "j < 512"
  then have "pte_addr u j \<noteq> pte_addr t i" using slot_unique [OF wf p(1) _ p(3) _ i] p(2) by metis
  then show "(m(pte_addr t i := v)) (pte_addr u j) = m (pte_addr u j)" by simp
qed

lemma leaf_store_wf:
  assumes wf: "pt_wf m root" and p: "path_ok p" "\<not> inner p" "table_at m root p = Some t" and i: "i < 512"
  shows "pt_wf (m(pte_addr t i := v)) root"
proof -
  note same = leaf_store_tables [OF assms]
  have "pte_valid ((m(pte_addr t i := v)) (pte_addr u j)) \<or> (m(pte_addr t i := v)) (pte_addr u j) = 0"
    if "path_ok q" "inner q" "table_at m root q = Some u" "j < 512" for q u and j :: uint64
  proof -
    have "pte_addr u j \<noteq> pte_addr t i" using slot_unique [OF wf p(1) _ p(3) _ i] p(2) that by metis
    then show ?thesis using pt_wfD(3) [OF wf that(1,3,2,4)] by auto
  qed
  then show ?thesis using wf same unfolding pt_wf_def by simp
qed

text \<open>Installing a new, zeroed table below a directory or middle table.\<close>

definition install :: "uint64 \<Rightarrow> uint64 \<Rightarrow> (uint64 \<Rightarrow> uint64) \<Rightarrow> uint64 \<Rightarrow> uint64" where
  "install a n m = zero_frame n (m(a := PA2PTE n OR PTE_V))"

lemma PTE_V_low: "take_bit 10 PTE_V = PTE_V"
  by (simp add: PTE_V_def)

lemma install_entry:
  assumes wf: "pt_wf m root" and p: "path_ok p" "inner p" "table_at m root p = Some t" and i: "i < 512"
    and n: "page_aligned n" "n \<notin> tables m root"
    and q: "path_ok q" "table_at m root q = Some u" "j < 512"
  shows "install (pte_addr t i) n m (pte_addr u j) = (if q = p \<and> j = i then PA2PTE n OR PTE_V else m (pte_addr u j))"
proof -
  have "u \<noteq> n" using n(2) q by (auto simp: tables_def)
  then have "\<not> pte_addr u j - n < PGSIZE"
    using pte_addr_other_frame table_aligned [OF wf q(2)] n(1) q(3) by blast
  moreover have "pte_addr u j = pte_addr t i \<longleftrightarrow> q = p \<and> j = i"
    using slot_unique [OF wf q(1) p(1) q(2) p(3) q(3) i] p(3) q(2) by auto
  ultimately show ?thesis by (simp add: install_def zero_frame_def)
qed

lemma install_new_frame: "k < 512 \<Longrightarrow> install a n m (pte_addr n k) = 0"
  using pte_addr_offset by (simp add: install_def zero_frame_def)

lemma install_tables:
  assumes wf: "pt_wf m root" and p: "path_ok p" "inner p" "table_at m root p = Some t" and i: "i < 512"
    and zero: "m (pte_addr t i) = 0" and n: "page_aligned n" "n \<notin> tables m root" and q: "path_ok q"
  shows "table_at (install (pte_addr t i) n m) root q = (if q = child p i then Some n else table_at m root q)"
proof -
  let ?m = "install (pte_addr t i) n m"
  have sub: "sub_table ?m u j = (if q = p \<and> j = i then Some n else sub_table m u j)"
    if "path_ok q" "table_at m root q = Some u" "j < 512" for q u j
    using install_entry [OF wf p i n that] PTE2PA_PA2PTE [OF n(1) PTE_V_low] by (simp add: sub_table_def)
  have new: "sub_table ?m n k = None" if "k < 512" for k
    using install_new_frame [OF that] by (simp add: sub_table_def)
  have old: "sub_table m t i = None" using zero by (simp add: sub_table_def)
  have mid: "table_at ?m root (Mid k) = (if Mid k = child p i then Some n else table_at m root (Mid k))"
    if "k < 512" for k
    using sub [of Dir root k] that p(2) by (cases p) auto
  show ?thesis
  proof (cases q)
    case Dir
    then show ?thesis using p(2) by (cases p) auto
  next
    case (Mid k)
    then show ?thesis using mid q by simp
  next
    case (Tab k l)
    have kl: "k < 512" "l < 512" using q Tab by auto
    have step: "table_at ?m root (Tab k l) = (case table_at ?m root (Mid k) of None \<Rightarrow> None | Some t \<Rightarrow> sub_table ?m t l)"
      by simp
    show ?thesis
    proof (cases "Mid k = child p i")
      case True
      then have "p = Dir" "k = i" using p(2) by (cases p; simp)+
      then have "table_at m root (Tab k l) = None" using old p(3) by simp
      then show ?thesis unfolding Tab step mid [OF kl(1)] using True new [OF kl(2)] \<open>p = Dir\<close> by simp
    next
      case False
      then have m: "table_at ?m root (Mid k) = table_at m root (Mid k)" using mid [OF kl(1)] by simp
      show ?thesis
      proof (cases "table_at m root (Mid k)")
        case None
        then have "p \<noteq> Mid k" using p(3) by auto
        then show ?thesis using None m Tab step p(2) by (cases p) auto
      next
        case (Some u)
        have "sub_table ?m u l = (if Mid k = p \<and> l = i then Some n else sub_table m u l)"
          using sub [of "Mid k" u l] Some kl by simp
        moreover have "child p i = Tab k l \<longleftrightarrow> Mid k = p \<and> l = i" using p(2) by (cases p) auto
        ultimately show ?thesis using Some m Tab step by auto
      qed
    qed
  qed
qed

lemma install_wf:
  assumes wf: "pt_wf m root" and p: "path_ok p" "inner p" "table_at m root p = Some t" and i: "i < 512"
    and zero: "m (pte_addr t i) = 0" and n: "page_aligned n" "n \<notin> tables m root" "n \<noteq> 0"
  shows "pt_wf (install (pte_addr t i) n m) root" "tables (install (pte_addr t i) n m) root = insert n (tables m root)"
proof -
  let ?m = "install (pte_addr t i) n m"
  note tab = install_tables [OF wf p i zero n(1,2)]
  have ok: "path_ok (child p i)" using path_ok_child [OF p(2)] p(1) i by simp
  have no: "table_at m root (child p i) = None"
    using table_at_child [OF p(2), of m root i] p(3) zero by (simp add: sub_table_def)
  show "tables ?m root = insert n (tables m root)"
    unfolding tables_def using tab ok no by (auto split: if_splits) (metis option.distinct(1))
  show "pt_wf ?m root"
    unfolding pt_wf_def
  proof (intro conjI allI impI)
    show "page_aligned root" using wf by (simp add: pt_wf_def)
  next
    fix q a assume "path_ok q" "table_at ?m root q = Some a"
    then show "a \<noteq> 0" using tab [of q] n(3) pt_wfD(1) [OF wf] by (auto split: if_splits)
  next
    fix q r a assume "path_ok q" "path_ok r" "table_at ?m root q = Some a" "table_at ?m root r = Some a"
    then show "q = r" using tab [of q] tab [of r] n(2) pt_wfD(2) [OF wf]
      by (auto simp: tables_def split: if_splits)
  next
    fix q u and j :: uint64
    assume q: "path_ok q" "inner q" "table_at ?m root q = Some u" "j < 512"
    show "pte_valid (?m (pte_addr u j)) \<or> ?m (pte_addr u j) = 0"
    proof (cases "q = child p i")
      case True
      then have "u = n" using q tab [of q] by simp
      then show ?thesis using install_new_frame q by simp
    next
      case False
      then have u: "table_at m root q = Some u" using q tab [of q] by simp
      show ?thesis using install_entry [OF wf p i n(1,2) q(1) u q(4)] pt_wfD(3) [OF wf q(1) u q(2,4)]
        by (auto split: if_splits)
    qed
  qed
qed

section \<open>The page table as a function\<close>

text \<open>The leaf entry for a virtual address; an address without leaf table has the entry 0.\<close>

definition leaf_path :: "uint64 \<Rightarrow> tpath" where
  "leaf_path va = Tab (PX 2 va) (PX 1 va)"

definition pte_of :: "(uint64 \<Rightarrow> uint64) \<Rightarrow> uint64 \<Rightarrow> uint64 \<Rightarrow> pte_t" where
  "pte_of m root va =
     (case table_at m root (leaf_path va) of None \<Rightarrow> 0 | Some t \<Rightarrow> m (pte_addr t (PX 0 va)))"

lemma leaf_path_ok [simp]: "path_ok (leaf_path va)" "\<not> inner (leaf_path va)"
  by (simp_all add: leaf_path_def PX_less)

lemma leaf_path_neq [simp]: "leaf_path va \<noteq> Mid i" "Mid i \<noteq> leaf_path va"
  by (simp_all add: leaf_path_def)

lemma install_pte_of:
  assumes wf: "pt_wf m root" and p: "path_ok p" "inner p" "table_at m root p = Some t" and i: "i < 512"
    and zero: "m (pte_addr t i) = 0" and n: "page_aligned n" "n \<notin> tables m root"
  shows "pte_of (install (pte_addr t i) n m) root va = pte_of m root va"
proof (cases "leaf_path va = child p i")
  case True
  then have "table_at m root (leaf_path va) = None"
    using table_at_child [OF p(2), of m root i] p(3) zero by (simp add: sub_table_def)
  then show ?thesis using install_tables [OF wf p i zero n leaf_path_ok(1), of va] True
      install_new_frame [OF PX_less] by (simp add: pte_of_def)
next
  case False
  note t = install_tables [OF wf p i zero n leaf_path_ok(1), of va]
  have "leaf_path va \<noteq> p" using p(2) leaf_path_ok(2) by metis
  then show ?thesis using t False install_entry [OF wf p i n leaf_path_ok(1) _ PX_less, of va]
    by (auto simp: pte_of_def split: option.splits)
qed

text \<open>Two addresses below \<^verbatim>\<open>MAXVA\<close> have the same indices exactly when they are on the same page.\<close>

definition same_page :: "uint64 \<Rightarrow> uint64 \<Rightarrow> bool" where
  "same_page va va' \<longleftrightarrow> PX 2 va = PX 2 va' \<and> PX 1 va = PX 1 va' \<and> PX 0 va = PX 0 va'"

lemma same_page_entry: "same_page va va' \<Longrightarrow> pte_of m root va' = pte_of m root va"
proof -
  assume "same_page va va'"
  then have "leaf_path va' = leaf_path va" "PX 0 va' = PX 0 va" by (simp_all add: leaf_path_def same_page_def)
  then show ?thesis by (simp only: pte_of_def)
qed

lemma leaf_store_pte_of:
  assumes wf: "pt_wf m root" and t: "table_at m root (leaf_path va) = Some t"
  shows "pte_of (m(pte_addr t (PX 0 va) := v)) root va' = (if same_page va va' then v else pte_of m root va')"
proof -
  let ?m = "m(pte_addr t (PX 0 va) := v)"
  have same: "table_at ?m root (leaf_path va') = table_at m root (leaf_path va')"
    by (rule leaf_store_tables [OF wf leaf_path_ok t PX_less leaf_path_ok(1)])
  show ?thesis
  proof (cases "table_at m root (leaf_path va')")
    case None
    then have "leaf_path va \<noteq> leaf_path va'" using t by auto
    then show ?thesis using None same by (auto simp: pte_of_def same_page_def leaf_path_def)
  next
    case (Some u)
    have "pte_addr u (PX 0 va') = pte_addr t (PX 0 va) \<longleftrightarrow> same_page va va'"
    proof
      assume "pte_addr u (PX 0 va') = pte_addr t (PX 0 va)"
      then have "leaf_path va' = leaf_path va \<and> PX 0 va' = PX 0 va"
        by (intro slot_unique [OF wf _ _ Some t PX_less PX_less]) simp_all
      then show "same_page va va'" by (simp add: same_page_def leaf_path_def)
    next
      assume "same_page va va'"
      then have "leaf_path va' = leaf_path va" "PX 0 va' = PX 0 va"
        by (simp_all add: same_page_def leaf_path_def)
      then show "pte_addr u (PX 0 va') = pte_addr t (PX 0 va)" using Some t by simp
    qed
    then show ?thesis using Some same by (simp add: pte_of_def)
  qed
qed

lemma maxva_bit: "va < MAXVA \<Longrightarrow> bit va n \<Longrightarrow> n < 38"
proof -
  assume va: "va < MAXVA" "bit va n"
  have "unat MAXVA = 2 ^ 38" by (simp add: MAXVA_def push_bit_eq_mult)
  then have lt: "unat va < 2 ^ 38" using va(1) by (simp add: word_less_iff_unat)
  have "bit (unat va) n" using va(2) by (auto simp: bit_unsigned_iff dest: bit_imp_le_length)
  then have "2 ^ n \<le> unat va" by (rule bit_nat_le)
  from this lt have "(2::nat) ^ n < 2 ^ 38" by (rule le_less_trans)
  then show ?thesis by (subst (asm) power_strict_increasing_iff) simp_all
qed

lemma same_page_iff:
  assumes "va < MAXVA" "va' < MAXVA"
  shows "same_page va va' \<longleftrightarrow> unat va div 4096 = unat va' div 4096"
proof -
  have "same_page va va' \<longleftrightarrow> drop_bit 12 va = drop_bit 12 va'"
  proof
    assume sp: "same_page va va'"
    show "drop_bit 12 va = drop_bit 12 va'"
    proof (rule bit_eqI)
      fix n :: nat
      have px: "bit (PX l va) k = bit (PX l va') k" if "l \<le> 2" for l k
        using sp that by (auto simp: same_page_def le_Suc_eq numeral_2_eq_2)
      consider "n < 9" | "9 \<le> n" "n < 18" | "18 \<le> n" "n < 27" | "27 \<le> n" by linarith
      then show "bit (drop_bit 12 va) n = bit (drop_bit 12 va') n"
      proof cases
        case 1
        then show ?thesis using px [of 0 n] by (simp add: PX_bit PXSHIFT_def PGSHIFT_def bit_drop_bit_eq)
      next
        case 2
        then have "n - 9 < 9" by simp
        then show ?thesis using 2 px [of 1 "n - 9"] by (simp add: PX_bit PXSHIFT_def PGSHIFT_def bit_drop_bit_eq)
      next
        case 3
        then have "n - 18 < 9" by simp
        then show ?thesis using 3 px [of 2 "n - 18"] by (simp add: PX_bit PXSHIFT_def PGSHIFT_def bit_drop_bit_eq)
      next
        case 4
        then show ?thesis using maxva_bit assms by (fastforce simp: bit_drop_bit_eq)
      qed
    qed
  next
    assume eq: "drop_bit 12 va = drop_bit 12 va'"
    have "PX l va = PX l va'" for l
    proof -
      have "drop_bit (PXSHIFT l) w = drop_bit (9 * l) (drop_bit 12 w)" for w :: uint64
        by (simp add: PXSHIFT_def PGSHIFT_def add.commute)
      then show ?thesis using eq by (simp only: PX_def)
    qed
    then show "same_page va va'" by (simp add: same_page_def)
  qed
  also have "\<dots> \<longleftrightarrow> unat va div 4096 = unat va' div 4096"
    by (simp add: word_unat_eq_iff unat_div drop_bit_eq_div)
  finally show ?thesis .
qed

section \<open>Walking\<close>

text \<open>The invariant of an address space: the manager is consistent, the tree is well-formed, and
  no table is a page that the cache may hand out.\<close>

definition vm_ok :: "uint64 \<Rightarrow> vmm \<Rightarrow> bool" where
  "vm_ok root s \<longleftrightarrow> pmm_ok (vpmm s) \<and> pt_wf (vmem s) root \<and>
     tables (vmem s) root \<inter> PFN_TO_ADDR ` set (cached_pages (vpmm s)) = {}"

abbreviation page_supply :: "vmm \<Rightarrow> nat" where
  "page_supply s \<equiv> length (cached_pages (vpmm s))"

lemma pte_addr_nz:
  assumes "pt_wf m root" "path_ok p" "table_at m root p = Some t" "i < 512"
  shows "pte_addr t i \<noteq> 0"
proof
  assume "pte_addr t i = 0"
  then have "unat t + 8 * unat i = 0"
    using unat_pte_addr [OF table_aligned [OF assms(1,3)] assms(4)] by simp
  then have "t = 0" by (simp add: unat_eq_0)
  with pt_wfD(1) [OF assms(1,2,3)] show False by simp
qed

lemma walk_step_valid:
  assumes "pt_wf (vmem s) root" "path_ok p" "table_at (vmem s) root p = Some t"
    and "sub_table (vmem s) t (PX l va) = Some u"
  shows "walk_step l va al t s = Inr (Some u, s)"
  using assms pte_addr_nz [OF assms(1-3) PX_less]
  by (auto simp: walk_step_def mem_read_def sub_table_def Let_def split: if_splits)

lemma walk_step_stop:
  assumes "pt_wf (vmem s) root" "path_ok p" "table_at (vmem s) root p = Some t"
    and "sub_table (vmem s) t (PX l va) = None"
  shows "walk_step l va False t s = Inr (None, s)"
  using assms pte_addr_nz [OF assms(1-3) PX_less]
  by (auto simp: walk_step_def mem_read_def sub_table_def Let_def split: if_splits)

text \<open>\<open>drawn p qs p'\<close>: the pages \<open>qs\<close> have been taken from the top of the cache, and nothing else has
  happened to the allocator.\<close>

definition drawn :: "pmm \<Rightarrow> uint64 list \<Rightarrow> pmm \<Rightarrow> bool" where
  "drawn p qs p' \<longleftrightarrow> cached_pages p = cached_pages p' @ qs \<and>
     (\<exists>n. p' = cache_set 0 ((pcpu_caches p ! 0)\<lparr>pc_count := n\<rparr>) p)"

lemma drawn_refl [simp]: "drawn p [] p"
  unfolding drawn_def by (auto intro!: exI [of _ "pc_count (pcpu_caches p ! 0)"] simp: cache_set_def)

lemma drawn_trans: "drawn p qs p' \<Longrightarrow> drawn p' rs p'' \<Longrightarrow> drawn p (rs @ qs) p''"
  unfolding drawn_def by (cases "pcpu_caches p") (auto simp: cache_set_def)

lemma vm_alloc_page_cached:
  assumes "pmm_ok (vpmm s)" "cached_pages (vpmm s) = ps @ [f]"
  shows "\<exists>p'. vm_alloc_page s = Inr (PFN_TO_ADDR f, s\<lparr>vpmm := p'\<rparr>) \<and> pmm_ok p' \<and> cached_pages p' = ps \<and>
    drawn (vpmm s) [f] p' \<and> page_aligned (PFN_TO_ADDR f) \<and> PFN_TO_ADDR f \<noteq> 0 \<and> PFN_TO_ADDR f \<notin> PFN_TO_ADDR ` set ps"
proof -
  from alloc_page_cached [OF assms] obtain p' where
    p': "alloc_page (vpmm s) = Inr (PFN_TO_ADDR f, p')" "pmm_ok p'" "cached_pages p' = ps"
      "\<exists>c. p' = cache_set 0 c (vpmm s) \<and> objs c = objs (pcpu_caches (vpmm s) ! 0)" by blast
  from p'(4) obtain c where c: "p' = cache_set 0 c (vpmm s)" "objs c = objs (pcpu_caches (vpmm s) ! 0)" by blast
  have "c = (pcpu_caches (vpmm s) ! 0)\<lparr>pc_count := pc_count c\<rparr>" using c(2) by (cases c) simp
  with c p'(3) assms(2) have dr: "drawn (vpmm s) [f] p'" unfolding drawn_def by metis
  have al: "\<forall>q\<in>set (ps @ [f]). allocated q 0 (vpmm s)" and d: "distinct (ps @ [f])"
    and ok: "buddy_ok (vpmm s)"
    using assms by (auto simp: pmm_ok_def buddy_ready_def)
  have b: "unat q < 2 ^ 40" if "q \<in> set (ps @ [f])" for q
    using al that block_pfn_bound [OF ok] by (auto simp: allocated_def)
  have "unat (PFN_TO_ADDR f) = unat f * 4096 + 0x80000000" using b by (intro unat_PFN_TO_ADDR) simp
  then have "4096 dvd unat (PFN_TO_ADDR f)" "unat (PFN_TO_ADDR f) \<noteq> 0" by (simp_all add: dvd_add)
  then have "page_aligned (PFN_TO_ADDR f)" "PFN_TO_ADDR f \<noteq> 0" by (auto simp: page_aligned_unat)
  moreover have "PFN_TO_ADDR f \<notin> PFN_TO_ADDR ` set ps"
  proof
    assume "PFN_TO_ADDR f \<in> PFN_TO_ADDR ` set ps"
    then obtain q where q: "q \<in> set ps" "PFN_TO_ADDR f = PFN_TO_ADDR q" by blast
    have "unat f < 2 ^ 40" "unat q < 2 ^ 40" using b q(1) by simp_all
    then have "f = q" using q(2) ADDR_TO_PFN_TO_ADDR by metis
    with q(1) d show False by simp
  qed
  ultimately show ?thesis using p'(1-3) dr by (auto simp: vm_alloc_page_def)
qed

lemma vm_alloc_page_empty:
  "pmm_ok (vpmm s) \<Longrightarrow> cached_pages (vpmm s) = [] \<Longrightarrow> vm_alloc_page s = Inl Spin"
  by (simp add: vm_alloc_page_def alloc_page_empty)

text \<open>\<open>extends root s s'\<close>: the tree of \<open>s'\<close> is that of \<open>s\<close> with zeroed tables added; no entry of the
  page table changes, and no memory outside the tables.\<close>

definition extends :: "uint64 \<Rightarrow> vmm \<Rightarrow> vmm \<Rightarrow> bool" where
  "extends root s s' \<longleftrightarrow> vm_ok root s' \<and>
     (\<forall>va. pte_of (vmem s') root va = pte_of (vmem s) root va) \<and>
     (\<forall>p t. path_ok p \<longrightarrow> table_at (vmem s) root p = Some t \<longrightarrow> table_at (vmem s') root p = Some t) \<and>
     (\<forall>a. (\<forall>t\<in>tables (vmem s') root. \<not> a - t < PGSIZE) \<longrightarrow> vmem s' a = vmem s a) \<and>
     (\<exists>qs. drawn (vpmm s) qs (vpmm s') \<and>
        tables (vmem s') root = tables (vmem s) root \<union> PFN_TO_ADDR ` set qs) \<and>
     g_kernel_pagetable s' = g_kernel_pagetable s"

lemma extends_refl: "vm_ok root s \<Longrightarrow> extends root s s"
  by (auto simp: extends_def intro!: exI [of _ "[]"])

lemma drawn_tables_trans:
  assumes "\<exists>qs. drawn p qs p' \<and> T' = T \<union> PFN_TO_ADDR ` set qs"
    and "\<exists>qs. drawn p' qs p'' \<and> T'' = T' \<union> PFN_TO_ADDR ` set qs"
  shows "\<exists>qs. drawn p qs p'' \<and> T'' = T \<union> PFN_TO_ADDR ` set qs"
proof -
  from assms obtain qs rs where "drawn p qs p'" "T' = T \<union> PFN_TO_ADDR ` set qs"
    "drawn p' rs p''" "T'' = T' \<union> PFN_TO_ADDR ` set rs" by blast
  then have "drawn p (rs @ qs) p'' \<and> T'' = T \<union> PFN_TO_ADDR ` set (rs @ qs)" using drawn_trans by auto
  then show ?thesis by blast
qed

lemma extends_tables: "extends root s s' \<Longrightarrow> tables (vmem s) root \<subseteq> tables (vmem s') root"
  unfolding extends_def tables_def by blast

lemma extends_trans:
  assumes a: "extends root s s'" and b: "extends root s' s''"
  shows "extends root s s''"
proof -
  have "vmem s'' x = vmem s x" if "\<forall>t\<in>tables (vmem s'') root. \<not> x - t < PGSIZE" for x
  proof -
    have "\<forall>t\<in>tables (vmem s') root. \<not> x - t < PGSIZE" using that extends_tables [OF b] by blast
    then have "vmem s' x = vmem s x" using a by (simp add: extends_def)
    moreover have "vmem s'' x = vmem s' x" using b that by (simp add: extends_def)
    ultimately show ?thesis by simp
  qed
  moreover have "\<exists>qs. drawn (vpmm s) qs (vpmm s'') \<and>
      tables (vmem s'') root = tables (vmem s) root \<union> PFN_TO_ADDR ` set qs"
    by (rule drawn_tables_trans [of _ "vpmm s'" "tables (vmem s') root"]) (use a b in \<open>simp_all add: extends_def\<close>)
  ultimately show ?thesis using a b unfolding extends_def by simp
qed

lemma walk_step_alloc:
  assumes ok: "vm_ok root s" and p: "path_ok p" "inner p" "table_at (vmem s) root p = Some t"
    and none: "sub_table (vmem s) t (PX l va) = None" and sup: "cached_pages (vpmm s) = ps @ [f]"
  shows "\<exists>s'. walk_step l va True t s = Inr (Some (PFN_TO_ADDR f), s') \<and> extends root s s' \<and>
    table_at (vmem s') root (child p (PX l va)) = Some (PFN_TO_ADDR f) \<and> cached_pages (vpmm s') = ps \<and>
    (\<forall>q. path_ok q \<longrightarrow> q \<noteq> child p (PX l va) \<longrightarrow> table_at (vmem s') root q = table_at (vmem s) root q)"
proof -
  let ?a = "pte_addr t (PX l va)" and ?n = "PFN_TO_ADDR f"
  from ok have wf: "pt_wf (vmem s) root" and pok: "pmm_ok (vpmm s)"
    and dis: "tables (vmem s) root \<inter> PFN_TO_ADDR ` set (ps @ [f]) = {}"
    using sup by (auto simp: vm_ok_def)
  from vm_alloc_page_cached [OF pok sup] obtain p' where
    al: "vm_alloc_page s = Inr (?n, s\<lparr>vpmm := p'\<rparr>)" "pmm_ok p'" "cached_pages p' = ps"
      "page_aligned ?n" "?n \<noteq> 0" "?n \<notin> PFN_TO_ADDR ` set ps" and dr: "drawn (vpmm s) [f] p'" by blast
  have nt: "?n \<notin> tables (vmem s) root" using dis by auto
  have inv: "\<not> pte_valid (vmem s ?a)" using none by (auto simp: sub_table_def Let_def split: if_splits)
  have z: "vmem s ?a = 0" by (rule pt_wfD(3) [OF wf p(1,3,2) PX_less inv])
  let ?s' = "s\<lparr>vpmm := p', vmem := install ?a ?n (vmem s)\<rparr>"
  have "walk_step l va True t s = Inr (Some ?n, ?s')"
    using al(1,5) z pte_addr_nz [OF wf p(1,3) PX_less]
    by (simp add: walk_step_def mem_read_def Let_def cas_alone_def page_ref_share_def install_def)
  moreover note tab = install_tables [OF wf p PX_less z al(4) nt] and w = install_wf [OF wf p PX_less z al(4) nt al(5)]
  have "vm_ok root ?s'" using al(2,3,6) w dis by (auto simp: vm_ok_def)
  moreover have no: "table_at (vmem s) root (child p (PX l va)) = None"
    using table_at_child [OF p(2)] p(3) none by simp
  moreover have "vmem ?s' x = vmem s x" if far: "\<forall>u\<in>tables (vmem ?s') root. \<not> x - u < PGSIZE" for x
  proof -
    have "?n \<in> tables (vmem ?s') root" "t \<in> tables (vmem ?s') root"
      using w(2) p by (auto simp: tables_def)
    then have "\<not> x - ?n < PGSIZE" "x \<noteq> ?a" using far pte_addr_offset [OF PX_less] by blast+
    then show ?thesis by (simp add: install_def zero_frame_def)
  qed
  ultimately show ?thesis
    using tab install_pte_of [OF wf p PX_less z al(4) nt] al(3) path_ok_child [OF p(2)] p(1) PX_less dr w(2)
    by (intro exI [of _ ?s']) (auto simp: extends_def intro!: exI [of _ "[f]"])
qed

text \<open>The tables that are missing on the way to a leaf.\<close>

definition missing :: "(uint64 \<Rightarrow> uint64) \<Rightarrow> uint64 \<Rightarrow> tpath \<Rightarrow> nat" where
  "missing m root p = (if table_at m root p = None then 1 else 0)"

definition missing_tables :: "(uint64 \<Rightarrow> uint64) \<Rightarrow> uint64 \<Rightarrow> uint64 \<Rightarrow> nat" where
  "missing_tables m root va = missing m root (Mid (PX 2 va)) + missing m root (leaf_path va)"

lemma walk_step_ok:
  assumes ok: "vm_ok root s" and p: "path_ok p" "inner p" "table_at (vmem s) root p = Some t"
    and sup: "missing (vmem s) root (child p (PX l va)) \<le> page_supply s"
  shows "\<exists>u s'. walk_step l va True t s = Inr (Some u, s') \<and> extends root s s' \<and>
    table_at (vmem s') root (child p (PX l va)) = Some u \<and>
    page_supply s' = page_supply s - missing (vmem s) root (child p (PX l va)) \<and>
    (\<forall>q. path_ok q \<longrightarrow> q \<noteq> child p (PX l va) \<longrightarrow> table_at (vmem s') root q = table_at (vmem s) root q)"
proof (cases "sub_table (vmem s) t (PX l va)")
  case (Some u)
  have wf: "pt_wf (vmem s) root" using ok by (simp add: vm_ok_def)
  have "table_at (vmem s) root (child p (PX l va)) = Some u" using table_at_child [OF p(2)] p(3) Some by simp
  then show ?thesis using walk_step_valid [OF wf p(1,3) Some] extends_refl [OF ok]
    by (intro exI [of _ u] exI [of _ s]) (simp add: missing_def)
next
  case None
  then have no: "table_at (vmem s) root (child p (PX l va)) = None" using table_at_child [OF p(2)] p(3) by simp
  then have "cached_pages (vpmm s) \<noteq> []" using sup by (auto simp: missing_def)
  then obtain ps f where ps: "cached_pages (vpmm s) = ps @ [f]"
    by (cases "cached_pages (vpmm s)" rule: rev_cases) auto
  from walk_step_alloc [OF ok p None ps] ps no show ?thesis by (fastforce simp: missing_def)
qed

lemma walk_step_spin:
  assumes ok: "vm_ok root s" and p: "path_ok p" "inner p" "table_at (vmem s) root p = Some t"
    and sup: "page_supply s < missing (vmem s) root (child p (PX l va))"
  shows "walk_step l va True t s = Inl Spin"
proof -
  have wf: "pt_wf (vmem s) root" and e: "cached_pages (vpmm s) = []" and pok: "pmm_ok (vpmm s)"
    using ok sup by (auto simp: vm_ok_def missing_def split: if_splits)
  have "table_at (vmem s) root (child p (PX l va)) = None" using sup by (auto simp: missing_def split: if_splits)
  then have "\<not> pte_valid (vmem s (pte_addr t (PX l va)))"
    using table_at_child [OF p(2)] p(3) by (auto simp: sub_table_def Let_def split: if_splits)
  then show ?thesis using vm_alloc_page_empty [OF pok e] pte_addr_nz [OF wf p(1,3) PX_less]
    by (simp add: walk_step_def mem_read_def Let_def)
qed

lemma walk_loop_unroll:
  "walk_loop 2 0 va al root s =
     bindE (walk_step 2 va al root s) (\<lambda>(r, s). case r of None \<Rightarrow> Inr (0, s)
     | Some u \<Rightarrow> bindE (walk_step 1 va al u s) (\<lambda>(r, s). case r of None \<Rightarrow> Inr (0, s)
     | Some t \<Rightarrow> Inr (pte_addr t (PX 0 va), s)))"
  by (simp add: walk_loop.simps cong: option.case_cong)

lemma page_walk_alloc:
  assumes ok: "vm_ok root s" and va: "0 < va" "va < MAXVA"
    and sup: "missing_tables (vmem s) root va \<le> page_supply s"
  shows "\<exists>t s'. page_walk root va 0 True s = Inr (pte_addr t (PX 0 va), s') \<and> extends root s s' \<and>
    table_at (vmem s') root (leaf_path va) = Some t \<and>
    page_supply s' = page_supply s - missing_tables (vmem s) root va \<and>
    (\<forall>q. path_ok q \<longrightarrow> q \<noteq> Mid (PX 2 va) \<longrightarrow> q \<noteq> leaf_path va \<longrightarrow> table_at (vmem s') root q = table_at (vmem s) root q)"
proof -
  have s2: "missing (vmem s) root (child Dir (PX 2 va)) \<le> page_supply s"
    using sup by (simp add: missing_tables_def)
  from walk_step_ok [OF ok _ _ _ s2, of root] obtain u s1 where
    s1: "walk_step 2 va True root s = Inr (Some u, s1)" "extends root s s1"
      "table_at (vmem s1) root (Mid (PX 2 va)) = Some u"
      "page_supply s1 = page_supply s - missing (vmem s) root (Mid (PX 2 va))"
      "\<forall>q. path_ok q \<longrightarrow> q \<noteq> Mid (PX 2 va) \<longrightarrow> table_at (vmem s1) root q = table_at (vmem s) root q" by auto
  have same: "missing (vmem s1) root (leaf_path va) = missing (vmem s) root (leaf_path va)"
    using s1(5) leaf_path_ok(1) [of va] by (simp add: missing_def)
  have ok1: "vm_ok root s1" using s1(2) by (simp add: extends_def)
  have "missing (vmem s1) root (child (Mid (PX 2 va)) (PX 1 va)) \<le> page_supply s1"
    using sup same s1(4) by (simp add: missing_tables_def leaf_path_def)
  from walk_step_ok [OF ok1 _ _ s1(3) this] obtain t s' where
    s': "walk_step 1 va True u s1 = Inr (Some t, s')" "extends root s1 s'"
      "table_at (vmem s') root (leaf_path va) = Some t"
      "page_supply s' = page_supply s1 - missing (vmem s1) root (leaf_path va)"
      "\<forall>q. path_ok q \<longrightarrow> q \<noteq> leaf_path va \<longrightarrow> table_at (vmem s') root q = table_at (vmem s1) root q"
    by (auto simp: PX_less leaf_path_def)
  have "page_walk root va 0 True s = Inr (pte_addr t (PX 0 va), s')"
    using va s1(1) s'(1) by (simp add: page_walk_def walk_loop_unroll)
  moreover have "page_supply s' = page_supply s - missing_tables (vmem s) root va"
    using s1(4) s'(4) same by (simp add: missing_tables_def)
  ultimately show ?thesis using extends_trans [OF s1(2) s'(2)] s'(3,5) s1(5)
    by (intro exI [of _ t] exI [of _ s']) simp
qed

lemma page_walk_spin:
  assumes ok: "vm_ok root s" and va: "0 < va" "va < MAXVA"
    and sup: "page_supply s < missing_tables (vmem s) root va"
  shows "page_walk root va 0 True s = Inl Spin"
proof (cases "missing (vmem s) root (child Dir (PX 2 va)) \<le> page_supply s")
  case False
  then have "walk_step 2 va True root s = Inl Spin" using walk_step_spin [OF ok, of Dir root] by simp
  then show ?thesis using va by (simp add: page_walk_def walk_loop_unroll)
next
  case True
  from walk_step_ok [OF ok _ _ _ True, of root] obtain u s1 where
    s1: "walk_step 2 va True root s = Inr (Some u, s1)" "extends root s s1"
      "table_at (vmem s1) root (Mid (PX 2 va)) = Some u"
      "page_supply s1 = page_supply s - missing (vmem s) root (Mid (PX 2 va))"
      "\<forall>q. path_ok q \<longrightarrow> q \<noteq> Mid (PX 2 va) \<longrightarrow> table_at (vmem s1) root q = table_at (vmem s) root q" by auto
  have "missing (vmem s1) root (leaf_path va) = missing (vmem s) root (leaf_path va)"
    using s1(5) leaf_path_ok(1) [of va] by (simp add: missing_def)
  then have "page_supply s1 < missing (vmem s1) root (child (Mid (PX 2 va)) (PX 1 va))"
    using sup True s1(4) by (simp add: missing_tables_def leaf_path_def)
  then have "walk_step 1 va True u s1 = Inl Spin"
    using walk_step_spin [of root s1 "Mid (PX 2 va)" u] s1(2,3) by (simp add: extends_def PX_less)
  then show ?thesis using va s1(1) by (simp add: page_walk_def walk_loop_unroll)
qed

lemma page_walk_noalloc:
  assumes wf: "pt_wf (vmem s) root" and va: "0 < va" "va < MAXVA"
  shows "page_walk root va 0 False s =
    Inr (case table_at (vmem s) root (leaf_path va) of None \<Rightarrow> 0 | Some t \<Rightarrow> pte_addr t (PX 0 va), s)"
proof (cases "table_at (vmem s) root (Mid (PX 2 va))")
  case None
  then have "sub_table (vmem s) root (PX 2 va) = None" by simp
  then have "walk_step 2 va False root s = Inr (None, s)" using walk_step_stop [OF wf, of Dir root] by simp
  then show ?thesis using va None by (simp add: page_walk_def walk_loop_unroll leaf_path_def)
next
  case (Some u)
  then have 2: "walk_step 2 va False root s = Inr (Some u, s)" using walk_step_valid [OF wf, of Dir root] by simp
  have mid: "path_ok (Mid (PX 2 va))" by (simp add: PX_less)
  have leaf: "table_at (vmem s) root (leaf_path va) = sub_table (vmem s) u (PX 1 va)"
    using Some by (simp add: leaf_path_def)
  show ?thesis
  proof (cases "sub_table (vmem s) u (PX 1 va)")
    case None
    then show ?thesis using 2 leaf va walk_step_stop [OF wf mid Some None]
      by (simp add: page_walk_def walk_loop_unroll)
  next
    case (Some t)
    then show ?thesis using 2 leaf va walk_step_valid [OF wf mid \<open>table_at (vmem s) root (Mid (PX 2 va)) = Some u\<close> Some]
      by (simp add: page_walk_def walk_loop_unroll)
  qed
qed

section \<open>Mapping a range\<close>

fun page_list :: "uint64 \<Rightarrow> nat \<Rightarrow> uint64 list" where
  "page_list va 0 = []"
| "page_list va (Suc n) = va # page_list (va + PGSIZE) n"

text \<open>The tables that mapping a list of pages has to allocate.\<close>

definition walk_paths :: "uint64 list \<Rightarrow> tpath set" where
  "walk_paths vas = (\<lambda>va. Mid (PX 2 va)) ` set vas \<union> leaf_path ` set vas"

definition needs :: "(uint64 \<Rightarrow> uint64) \<Rightarrow> uint64 \<Rightarrow> uint64 list \<Rightarrow> nat" where
  "needs m root vas = card {p \<in> walk_paths vas. table_at m root p = None}"

lemma finite_walk_paths [simp]: "finite (walk_paths vas)"
  by (simp add: walk_paths_def)

lemma walk_paths_ok: "p \<in> walk_paths vas \<Longrightarrow> path_ok p"
  by (auto simp: walk_paths_def PX_less)

lemma needs_one: "card {p \<in> {Mid (PX 2 va), leaf_path va}. table_at m root p = None} = missing_tables m root va"
proof -
  have "{p \<in> {Mid (PX 2 va), leaf_path va}. table_at m root p = None} =
      (if table_at m root (Mid (PX 2 va)) = None then {Mid (PX 2 va)} else {}) \<union>
      (if table_at m root (leaf_path va) = None then {leaf_path va} else {})" by auto
  then show ?thesis by (auto simp: missing_tables_def missing_def)
qed

lemma needs_Cons:
  assumes "table_at m' root (Mid (PX 2 va)) \<noteq> None" "table_at m' root (leaf_path va) \<noteq> None"
    and "\<And>q. path_ok q \<Longrightarrow> q \<noteq> Mid (PX 2 va) \<Longrightarrow> q \<noteq> leaf_path va \<Longrightarrow> table_at m' root q = table_at m root q"
  shows "needs m root (va # vas) = missing_tables m root va + needs m' root vas"
proof -
  let ?A = "{p \<in> {Mid (PX 2 va), leaf_path va}. table_at m root p = None}"
  let ?B = "{p \<in> walk_paths vas. table_at m' root p = None}"
  have "?B = {p \<in> walk_paths vas. p \<noteq> Mid (PX 2 va) \<and> p \<noteq> leaf_path va \<and> table_at m root p = None}"
    using assms walk_paths_ok by (metis (lifting))
  then have "{p \<in> walk_paths (va # vas). table_at m root p = None} = ?A \<union> ?B"
    by (auto simp: walk_paths_def)
  moreover have "?A \<inter> ?B = {}" using assms(1,2) by auto
  moreover have "finite ?A" "finite ?B" by simp_all
  ultimately show ?thesis by (simp only: needs_def card_Un_disjoint needs_one)
qed

text \<open>\<open>updated root f s s'\<close>: the same address space with the entries given by \<open>f\<close>.\<close>

definition updated :: "uint64 \<Rightarrow> (uint64 \<Rightarrow> pte_t) \<Rightarrow> vmm \<Rightarrow> vmm \<Rightarrow> bool" where
  "updated root f s s' \<longleftrightarrow> vm_ok root s' \<and>
     (\<forall>va < MAXVA. pte_of (vmem s') root va = f va) \<and>
     tables (vmem s) root \<subseteq> tables (vmem s') root \<and>
     (\<forall>a. (\<forall>t\<in>tables (vmem s') root. \<not> a - t < PGSIZE) \<longrightarrow> vmem s' a = vmem s a) \<and>
     (\<exists>qs. drawn (vpmm s) qs (vpmm s') \<and>
        tables (vmem s') root = tables (vmem s) root \<union> PFN_TO_ADDR ` set qs) \<and>
     g_kernel_pagetable s' = g_kernel_pagetable s"

lemma updated_refl: "vm_ok root s \<Longrightarrow> updated root (pte_of (vmem s) root) s s"
  by (auto simp: updated_def intro!: exI [of _ "[]"])

lemma updated_trans:
  assumes a: "updated root f s s'" and b: "updated root g s' s''"
  shows "updated root g s s''"
proof -
  have "vmem s'' x = vmem s x" if "\<forall>t\<in>tables (vmem s'') root. \<not> x - t < PGSIZE" for x
  proof -
    have "\<forall>t\<in>tables (vmem s') root. \<not> x - t < PGSIZE" using that b unfolding updated_def by blast
    then have "vmem s' x = vmem s x" using a by (simp add: updated_def)
    moreover have "vmem s'' x = vmem s' x" using b that by (simp add: updated_def)
    ultimately show ?thesis by simp
  qed
  moreover have "\<exists>qs. drawn (vpmm s) qs (vpmm s'') \<and>
      tables (vmem s'') root = tables (vmem s) root \<union> PFN_TO_ADDR ` set qs"
    by (rule drawn_tables_trans [of _ "vpmm s'" "tables (vmem s') root"]) (use a b in \<open>simp_all add: updated_def\<close>)
  ultimately show ?thesis using a b unfolding updated_def by auto
qed

lemma extends_updated: "extends root s s' \<Longrightarrow> updated root (pte_of (vmem s) root) s s'"
  using extends_tables [of root s s'] by (simp add: extends_def updated_def)

text \<open>Writing an entry of an existing leaf table.\<close>

lemma leaf_write:
  assumes ok: "vm_ok root s" and t: "table_at (vmem s) root (leaf_path va) = Some t"
  defines "a \<equiv> pte_addr t (PX 0 va)"
  shows "updated root (\<lambda>va'. if same_page va va' then v else pte_of (vmem s) root va') s (s\<lparr>vmem := (vmem s)(a := v)\<rparr>)"
    "path_ok q \<Longrightarrow> table_at ((vmem s)(a := v)) root q = table_at (vmem s) root q"
proof -
  have wf: "pt_wf (vmem s) root" using ok by (simp add: vm_ok_def)
  note same = leaf_store_tables [OF wf leaf_path_ok t PX_less [of 0 va], where v = v]
  note wf' = leaf_store_wf [OF wf leaf_path_ok t PX_less [of 0 va], where v = v]
  let ?s' = "s\<lparr>vmem := (vmem s)(a := v)\<rparr>"
  have tabs: "tables (vmem ?s') root = tables (vmem s) root" unfolding tables_def a_def using same by auto
  have "vm_ok root ?s'" using ok wf' tabs by (simp add: vm_ok_def a_def)
  moreover have "vmem ?s' x = vmem s x" if far: "\<forall>u\<in>tables (vmem ?s') root. \<not> x - u < PGSIZE" for x
  proof -
    have "t \<in> tables (vmem s) root" by (rule table_in_tables [OF leaf_path_ok(1) t])
    then have "\<not> x - t < PGSIZE" using far tabs by simp
    then have "x \<noteq> a" using pte_addr_offset [OF PX_less [of 0 va], of t] by (auto simp: a_def)
    then show ?thesis by simp
  qed
  ultimately show "updated root (\<lambda>va'. if same_page va va' then v else pte_of (vmem s) root va') s ?s'"
    using leaf_store_pte_of [OF wf t] tabs by (auto simp: updated_def a_def intro!: exI [of _ "[]"])
  show "path_ok q \<Longrightarrow> table_at ((vmem s)(a := v)) root q = table_at (vmem s) root q" by (simp add: a_def same)
qed

text \<open>Walking to a leaf and writing the entry there.\<close>

lemma walk_store:
  assumes ok: "vm_ok root s" and va: "0 < va" "va < MAXVA"
    and sup: "missing_tables (vmem s) root va \<le> page_supply s"
  shows "\<exists>t s1. page_walk root va 0 True s = Inr (pte_addr t (PX 0 va), s1) \<and> pte_addr t (PX 0 va) \<noteq> 0 \<and>
    extends root s s1 \<and> vmem s1 (pte_addr t (PX 0 va)) = pte_of (vmem s) root va \<and>
    (let s' = s1\<lparr>vmem := (vmem s1)(pte_addr t (PX 0 va) := v)\<rparr> in
     updated root (\<lambda>va'. if same_page va va' then v else pte_of (vmem s) root va') s s' \<and>
     page_supply s' = page_supply s - missing_tables (vmem s) root va \<and>
     (\<forall>vas. needs (vmem s) root (va # vas) = missing_tables (vmem s) root va + needs (vmem s') root vas))"
proof -
  from page_walk_alloc [OF assms] obtain t s1 where
    s1: "page_walk root va 0 True s = Inr (pte_addr t (PX 0 va), s1)" "extends root s s1"
      "table_at (vmem s1) root (leaf_path va) = Some t"
      "page_supply s1 = page_supply s - missing_tables (vmem s) root va"
      "\<And>q. path_ok q \<Longrightarrow> q \<noteq> Mid (PX 2 va) \<Longrightarrow> q \<noteq> leaf_path va \<Longrightarrow> table_at (vmem s1) root q = table_at (vmem s) root q"
    by blast
  have ok1: "vm_ok root s1" and wf1: "pt_wf (vmem s1) root" using s1(2) by (simp_all add: extends_def vm_ok_def)
  let ?a = "pte_addr t (PX 0 va)" let ?s' = "s1\<lparr>vmem := (vmem s1)(?a := v)\<rparr>"
  note lw = leaf_write [OF ok1 s1(3), where v = v]
  have read: "vmem s1 ?a = pte_of (vmem s) root va"
    using s1(2,3) by (metis extends_def option.simps(5) pte_of_def)
  have mid: "table_at (vmem s1) root (Mid (PX 2 va)) \<noteq> None"
    using s1(3) by (auto simp: leaf_path_def split: option.splits)
  have need: "needs (vmem s) root (va # vas) = missing_tables (vmem s) root va + needs (vmem ?s') root vas" for vas
    by (rule needs_Cons) (use mid s1(3,5) lw(2) in \<open>simp_all add: PX_less del: table_at.simps\<close>)
  have "updated root (\<lambda>va'. if same_page va va' then v else pte_of (vmem s) root va') s ?s'"
    using updated_trans [OF extends_updated [OF s1(2)] lw(1)] s1(2) by (simp add: extends_def updated_def)
  then show ?thesis using s1(1,2,4) pte_addr_nz [OF wf1 leaf_path_ok(1) s1(3) PX_less] read need
    by (intro exI [of _ t] exI [of _ s1]) (simp add: Let_def)
qed

section \<open>Two address spaces\<close>

text \<open>An address space whose table frames keep their content is unchanged.\<close>

lemma frame_agrees:
  assumes wf: "pt_wf m root" and agree: "\<And>t a. t \<in> tables m root \<Longrightarrow> a - t < PGSIZE \<Longrightarrow> m' a = m a"
  shows "path_ok q \<Longrightarrow> table_at m' root q = table_at m root q" "pt_wf m' root" "tables m' root = tables m root"
    "pte_of m' root va = pte_of m root va"
proof -
  have cell: "m' (pte_addr t j) = m (pte_addr t j)" if "path_ok p" "table_at m root p = Some t" "j < 512" for p t j
    by (rule agree [OF table_in_tables [OF that(1,2)] pte_addr_offset [OF that(3)]])
  show same: "table_at m' root q = table_at m root q" if "path_ok q" for q
    using cell that by (rule table_at_cong)
  show "tables m' root = tables m root" using same by (auto simp: tables_def)
  show "pte_of m' root va = pte_of m root va"
    using same [OF leaf_path_ok(1)] cell [OF leaf_path_ok(1) _ PX_less] by (auto simp: pte_of_def split: option.splits)
  have "pte_valid (m' (pte_addr t i)) \<or> m' (pte_addr t i) = 0"
    if "path_ok p" "inner p" "table_at m' root p = Some t" "i < 512" for p t i
  proof -
    have "table_at m root p = Some t" using same [OF that(1)] that(3) by simp
    then show ?thesis using wf cell [OF that(1) _ that(4)] that unfolding pt_wf_def by metis
  qed
  then show "pt_wf m' root" using wf same unfolding pt_wf_def by simp
qed

text \<open>Frames that are different and page-aligned do not overlap.\<close>

lemma frames_apart:
  assumes "page_aligned t" "page_aligned u" "t \<noteq> u" "a - t < PGSIZE"
  shows "\<not> a - u < PGSIZE"
proof
  assume u: "a - u < PGSIZE"
  have *: "unat a = unat v + unat (a - v)" if "page_aligned v" "a - v < PGSIZE" for v
  proof -
    have "4096 dvd unat v" using that(1) by (simp add: page_aligned_unat)
    then obtain k where k: "unat v = 4096 * k" by (rule dvdE)
    have "unat v < 2 ^ 64" using unsigned_less [of v] by simp
    then have "4096 * k + 4096 \<le> 2 ^ 64" using k by simp
    moreover have "unat (a - v) < 4096" using that(2) by (simp add: word_less_iff_unat)
    ultimately have "unat (v + (a - v)) = unat v + unat (a - v)" using k by (intro unat_add_noof) simp
    then show ?thesis by simp
  qed
  have "unat t + unat (a - t) = unat u + unat (a - u)"
    using * [OF assms(1,4)] * [OF assms(2) u] by simp
  then have "unat t = unat u"
    using page_offset_unique [of "unat t" "unat u" "unat (a - t)" "unat (a - u)"] assms(1,2,4) u
    by (simp add: page_aligned_unat word_less_iff_unat)
  with assms(3) show False by (simp add: word_unat_eq_iff)
qed

lemma tables_aligned: "pt_wf m root \<Longrightarrow> t \<in> tables m root \<Longrightarrow> page_aligned t"
  by (auto simp: tables_def intro: table_aligned)

text \<open>Changing one address space leaves another one with other tables alone.\<close>

lemma other_space:
  assumes up: "updated root f s s'" and ok: "vm_ok root2 s"
    and dis: "tables (vmem s) root \<inter> tables (vmem s) root2 = {}"
  shows "vm_ok root2 s'" "tables (vmem s') root2 = tables (vmem s) root2"
    "tables (vmem s') root \<inter> tables (vmem s') root2 = {}"
    "\<And>q. path_ok q \<Longrightarrow> table_at (vmem s') root2 q = table_at (vmem s) root2 q"
    "\<And>va. pte_of (vmem s') root2 va = pte_of (vmem s) root2 va"
proof -
  from up obtain qs where qs: "drawn (vpmm s) qs (vpmm s')"
    "tables (vmem s') root = tables (vmem s) root \<union> PFN_TO_ADDR ` set qs" by (auto simp: updated_def)
  have cp: "cached_pages (vpmm s) = cached_pages (vpmm s') @ qs" using qs(1) by (simp add: drawn_def)
  have wf2: "pt_wf (vmem s) root2" and wf': "pt_wf (vmem s') root" using ok up by (simp_all add: vm_ok_def updated_def)
  have d: "tables (vmem s') root \<inter> tables (vmem s) root2 = {}"
    using ok dis cp by (auto simp: vm_ok_def qs(2))
  have "vmem s' a = vmem s a" if "t \<in> tables (vmem s) root2" "a - t < PGSIZE" for t a
  proof -
    have "\<forall>u\<in>tables (vmem s') root. \<not> a - u < PGSIZE"
    proof
      fix u assume u: "u \<in> tables (vmem s') root"
      then have "t \<noteq> u" using d that(1) by blast
      then show "\<not> a - u < PGSIZE"
        using frames_apart tables_aligned [OF wf2 that(1)] tables_aligned [OF wf' u] that(2) by blast
    qed
    then show ?thesis using up by (simp add: updated_def)
  qed
  note * = frame_agrees [OF wf2 this]
  show "tables (vmem s') root2 = tables (vmem s) root2" by (rule *(3))
  then show "tables (vmem s') root \<inter> tables (vmem s') root2 = {}" using d by simp
  show "\<And>q. path_ok q \<Longrightarrow> table_at (vmem s') root2 q = table_at (vmem s) root2 q" by (rule *(1))
  show "\<And>va. pte_of (vmem s') root2 va = pte_of (vmem s) root2 va" by (rule *(4))
  have "pmm_ok (vpmm s')" using up by (simp add: updated_def vm_ok_def)
  then show "vm_ok root2 s'" using ok *(2,3) cp by (auto simp: vm_ok_def)
qed

text \<open>The entries after mapping \<open>n\<close> pages from \<open>first\<close> to \<open>pa\<close>.\<close>

definition mapped :: "uint64 \<Rightarrow> nat \<Rightarrow> uint64 \<Rightarrow> uint64 \<Rightarrow> (uint64 \<Rightarrow> pte_t) \<Rightarrow> uint64 \<Rightarrow> pte_t" where
  "mapped first n pa perm f va =
     (if unat first \<le> unat va \<and> unat va < unat first + n * 4096
      then PA2PTE (pa + (ROUNDDOWN va PGSIZE - first)) OR perm OR PTE_V else f va)"

lemma mapped_cong: "f va = g va \<Longrightarrow> mapped first n pa perm f va = mapped first n pa perm g va"
  by (simp add: mapped_def)

lemma unat_less_maxva: "a < MAXVA \<longleftrightarrow> unat a < 2 ^ 38"
  by (simp add: MAXVA_def word_less_iff_unat push_bit_eq_mult)

lemma same_page_range:
  assumes "page_aligned first" "first < MAXVA" "va < MAXVA"
  shows "same_page first va \<longleftrightarrow> unat first \<le> unat va \<and> unat va < unat first + 4096"
proof -
  obtain k where k: "unat first = 4096 * k" using assms(1) by (auto simp: page_aligned_unat elim: dvdE)
  have "unat first div 4096 = unat va div 4096 \<longleftrightarrow> unat va div 4096 = k" using k by auto
  also have "\<dots> \<longleftrightarrow> 4096 * k \<le> unat va \<and> unat va < 4096 * k + 4096"
    using div_nat_eqI [of 4096 k "unat va"] by (auto simp: mult.commute) 
  finally show ?thesis using same_page_iff [OF assms(2,3)] k by simp
qed

lemma rounddown_same:
  assumes "page_aligned first" "unat first \<le> unat va" "unat va < unat first + 4096"
  shows "ROUNDDOWN va PGSIZE = first"
proof -
  obtain k where k: "unat first = 4096 * k" using assms(1) by (auto simp: page_aligned_unat elim: dvdE)
  have "unat va div 4096 = k" using assms k by (intro div_nat_eqI) simp_all
  then show ?thesis using k by (simp add: word_unat_eq_iff unat_ROUNDDOWN_page)
qed

lemma mapped_Suc:
  assumes "page_aligned first" "first < MAXVA" "va < MAXVA"
  shows "mapped first (Suc n) pa perm f va =
    mapped (first + PGSIZE) n (pa + PGSIZE) perm
      (\<lambda>va. if same_page first va then PA2PTE pa OR perm OR PTE_V else f va) va"
proof -
  have u: "unat (first + PGSIZE) = unat first + 4096" by (rule page_step [OF assms(2)])
  have w: "pa + PGSIZE + (x - (first + PGSIZE)) = pa + (x - first)" for x by simp
  show ?thesis
    using rounddown_same [OF assms(1), of va] same_page_range [OF assms]
    by (auto simp: mapped_def u w)
qed

lemma page_aligned_step: "page_aligned a \<Longrightarrow> a < MAXVA \<Longrightarrow> page_aligned (a + PGSIZE)"
  by (simp add: page_aligned_unat page_step)

lemma updated_cong: "updated root f s s' \<Longrightarrow> (\<And>va. va < MAXVA \<Longrightarrow> f va = g va) \<Longrightarrow> updated root g s s'"
  by (simp add: updated_def)

text \<open>One iteration of the mapping loop on an unmapped page.\<close>

lemma map_loop_step:
  assumes ok: "vm_ok root s" and first: "page_aligned first" "0 < first" "first < MAXVA" "first \<le> last'"
    and inv: "\<not> pte_valid (pte_of (vmem s) root first)"
    and sup: "missing_tables (vmem s) root first \<le> page_supply s"
  shows "\<exists>s2. map_loop root first last' pa perm s = map_loop root (first + PGSIZE) last' (pa + PGSIZE) perm s2 \<and>
    updated root (\<lambda>va. if same_page first va then PA2PTE pa OR perm OR PTE_V else pte_of (vmem s) root va) s s2 \<and>
    page_supply s2 = page_supply s - missing_tables (vmem s) root first \<and>
    (\<forall>vas. needs (vmem s) root (first # vas) = missing_tables (vmem s) root first + needs (vmem s2) root vas) \<and>
    page_aligned (first + PGSIZE) \<and> 0 < first + PGSIZE \<and> unat (first + PGSIZE) = unat first + 4096 \<and>
    (\<forall>va<MAXVA. unat (first + PGSIZE) \<le> unat va \<longrightarrow> pte_of (vmem s2) root va = pte_of (vmem s) root va)"
proof -
  let ?v = "PA2PTE pa OR perm OR PTE_V"
  from walk_store [OF ok first(2,3) sup, of ?v] obtain t s1 where
    w: "page_walk root first 0 True s = Inr (pte_addr t (PX 0 first), s1)" "pte_addr t (PX 0 first) \<noteq> 0"
      "vmem s1 (pte_addr t (PX 0 first)) = pte_of (vmem s) root first" and
    w2: "let s' = s1\<lparr>vmem := (vmem s1)(pte_addr t (PX 0 first) := ?v)\<rparr> in
     updated root (\<lambda>va'. if same_page first va' then ?v else pte_of (vmem s) root va') s s' \<and>
     page_supply s' = page_supply s - missing_tables (vmem s) root first \<and>
     (\<forall>vas. needs (vmem s) root (first # vas) = missing_tables (vmem s) root first + needs (vmem s') root vas)" by blast
  define s2 where "s2 = s1\<lparr>vmem := (vmem s1)(pte_addr t (PX 0 first) := ?v)\<rparr>"
  from w2 have s2: "updated root (\<lambda>va'. if same_page first va' then ?v else pte_of (vmem s) root va') s s2"
    "page_supply s2 = page_supply s - missing_tables (vmem s) root first"
    "\<forall>vas. needs (vmem s) root (first # vas) = missing_tables (vmem s) root first + needs (vmem s2) root vas"
    by (simp_all add: Let_def s2_def)
  have u: "unat (first + PGSIZE) = unat first + 4096" by (rule page_step [OF first(3)])
  have "map_loop root first last' pa perm s = map_loop root (first + PGSIZE) last' (pa + PGSIZE) perm s2"
    using w inv first(4) by (subst map_loop.simps) (simp add: mem_read_def mem_write_def s2_def)
  moreover have "0 < first + PGSIZE" using u by (simp add: word_less_iff_unat)
  moreover have "pte_of (vmem s2) root va = pte_of (vmem s) root va"
    if "va < MAXVA" "unat (first + PGSIZE) \<le> unat va" for va
    using s2(1) that same_page_range [OF first(1,3) that(1)] u by (simp add: updated_def)
  ultimately show ?thesis
    using s2 u page_aligned_step [OF first(1,3)] by (intro exI [of _ s2]) simp
qed

lemma missing_le_needs: "missing_tables m root first \<le> needs m root (first # vas)"
proof -
  have "{p \<in> {Mid (PX 2 first), leaf_path first}. table_at m root p = None} \<subseteq>
    {p \<in> walk_paths (first # vas). table_at m root p = None}" by (auto simp: walk_paths_def)
  then show ?thesis unfolding needs_one [symmetric] needs_def by (intro card_mono) simp_all
qed

text \<open>Mapping succeeds when the cache can supply the tables and no page is mapped yet.\<close>

lemma map_loop_ok:
  assumes "vm_ok root s" "page_aligned first" "0 < first"
    and "unat last' + 4096 = unat first + n * 4096" "unat first + n * 4096 \<le> 2 ^ 38"
    and "needs (vmem s) root (page_list first n) \<le> page_supply s"
    and "\<And>va. va < MAXVA \<Longrightarrow> unat first \<le> unat va \<Longrightarrow> unat va < unat first + n * 4096 \<Longrightarrow>
      \<not> pte_valid (pte_of (vmem s) root va)"
  shows "\<exists>s'. map_loop root first last' pa perm s = Inr (0, s') \<and>
    updated root (mapped first n pa perm (pte_of (vmem s) root)) s s' \<and>
    page_supply s' = page_supply s - needs (vmem s) root (page_list first n) \<and>
    (\<forall>vas. needs (vmem s) root (page_list first n @ vas) =
       needs (vmem s) root (page_list first n) + needs (vmem s') root vas)"
  using assms
proof (induction n arbitrary: s first pa)
  case 0
  then have "unat last' < unat first" by simp
  then have "map_loop root first last' pa perm s = Inr (0, s)"
    by (simp add: map_loop.simps word_le_iff_unat)
  moreover have "updated root (mapped first 0 pa perm (pte_of (vmem s) root)) s s"
    using updated_refl [OF "0.prems"(1)] by (rule updated_cong) (auto simp: mapped_def)
  ultimately show ?case by (simp add: needs_def walk_paths_def)
next
  case (Suc n)
  let ?v = "PA2PTE pa OR perm OR PTE_V" and ?vas = "page_list (first + PGSIZE) n"
  have lt: "first < MAXVA" using Suc.prems(5) by (simp add: unat_less_maxva)
  have le: "first \<le> last'" using Suc.prems(4) by (simp add: word_le_iff_unat)
  have inv: "\<not> pte_valid (pte_of (vmem s) root first)" using Suc.prems(7) [OF lt] by simp
  have "missing_tables (vmem s) root first \<le> page_supply s"
    using missing_le_needs [of "vmem s" root first ?vas] Suc.prems(6) by simp
  from map_loop_step [OF Suc.prems(1-3) lt le inv this] obtain s2 where
    step: "map_loop root first last' pa perm s = map_loop root (first + PGSIZE) last' (pa + PGSIZE) perm s2" and
    s2: "updated root (\<lambda>va. if same_page first va then ?v else pte_of (vmem s) root va) s s2"
      "page_supply s2 = page_supply s - missing_tables (vmem s) root first"
      "\<And>vas. needs (vmem s) root (first # vas) = missing_tables (vmem s) root first + needs (vmem s2) root vas" and
    nxt: "page_aligned (first + PGSIZE)" "0 < first + PGSIZE" and u: "unat (first + PGSIZE) = unat first + 4096" and
    rest: "\<And>va. va < MAXVA \<Longrightarrow> unat (first + PGSIZE) \<le> unat va \<Longrightarrow> pte_of (vmem s2) root va = pte_of (vmem s) root va"
    by blast
  have f2: "pte_of (vmem s2) root va = (if same_page first va then ?v else pte_of (vmem s) root va)"
    if "va < MAXVA" for va using s2(1) that by (simp add: updated_def)
  have "\<exists>s'. map_loop root (first + PGSIZE) last' (pa + PGSIZE) perm s2 = Inr (0, s') \<and>
    updated root (mapped (first + PGSIZE) n (pa + PGSIZE) perm (pte_of (vmem s2) root)) s2 s' \<and>
    page_supply s' = page_supply s2 - needs (vmem s2) root ?vas \<and>
    (\<forall>vas. needs (vmem s2) root (?vas @ vas) = needs (vmem s2) root ?vas + needs (vmem s') root vas)"
    using s2 nxt u Suc.prems(4-7) rest by (intro Suc.IH) (auto simp: updated_def)
  then obtain s' where s': "map_loop root (first + PGSIZE) last' (pa + PGSIZE) perm s2 = Inr (0, s')"
    "updated root (mapped (first + PGSIZE) n (pa + PGSIZE) perm (pte_of (vmem s2) root)) s2 s'"
    "page_supply s' = page_supply s2 - needs (vmem s2) root ?vas"
    "\<forall>vas. needs (vmem s2) root (?vas @ vas) = needs (vmem s2) root ?vas + needs (vmem s') root vas" by blast
  have "updated root (mapped first (Suc n) pa perm (pte_of (vmem s) root)) s s'"
    using updated_trans [OF s2(1) s'(2)]
  proof (rule updated_cong)
    fix va assume va: "va < MAXVA"
    show "mapped (first + PGSIZE) n (pa + PGSIZE) perm (pte_of (vmem s2) root) va =
      mapped first (Suc n) pa perm (pte_of (vmem s) root) va"
      unfolding mapped_Suc [OF Suc.prems(2) lt va] by (rule mapped_cong) (rule f2 [OF va])
  qed
  then show ?case using step s'(1,3,4) s2(2,3) by simp
qed

text \<open>When the cache runs out on the way, mapping never returns.\<close>

lemma map_loop_spin:
  assumes "vm_ok root s" "page_aligned first" "0 < first"
    and "unat last' + 4096 = unat first + n * 4096" "unat first + n * 4096 \<le> 2 ^ 38"
    and "page_supply s < needs (vmem s) root (page_list first n)"
    and "\<And>va. va < MAXVA \<Longrightarrow> unat first \<le> unat va \<Longrightarrow> unat va < unat first + n * 4096 \<Longrightarrow>
      \<not> pte_valid (pte_of (vmem s) root va)"
  shows "map_loop root first last' pa perm s = Inl Spin"
  using assms
proof (induction n arbitrary: s first pa)
  case 0
  then show ?case by (simp add: needs_def walk_paths_def)
next
  case (Suc n)
  let ?vas = "page_list (first + PGSIZE) n"
  have lt: "first < MAXVA" using Suc.prems(5) by (simp add: unat_less_maxva)
  have le: "first \<le> last'" using Suc.prems(4) by (simp add: word_le_iff_unat)
  have inv: "\<not> pte_valid (pte_of (vmem s) root first)" using Suc.prems(7) [OF lt] by simp
  show ?case
  proof (cases "missing_tables (vmem s) root first \<le> page_supply s")
    case False
    then show ?thesis using page_walk_spin [OF Suc.prems(1,3) lt] le by (subst map_loop.simps) simp
  next
    case True
    from map_loop_step [OF Suc.prems(1-3) lt le inv this] obtain s2 where
      step: "map_loop root first last' pa perm s = map_loop root (first + PGSIZE) last' (pa + PGSIZE) perm s2" and
      up: "updated root (\<lambda>va. if same_page first va then PA2PTE pa OR perm OR PTE_V else pte_of (vmem s) root va) s s2" and
      s2: "page_supply s2 = page_supply s - missing_tables (vmem s) root first"
        "\<And>vas. needs (vmem s) root (first # vas) = missing_tables (vmem s) root first + needs (vmem s2) root vas" and
      nxt: "page_aligned (first + PGSIZE)" "0 < first + PGSIZE" and u: "unat (first + PGSIZE) = unat first + 4096" and
      rest: "\<And>va. va < MAXVA \<Longrightarrow> unat (first + PGSIZE) \<le> unat va \<Longrightarrow> pte_of (vmem s2) root va = pte_of (vmem s) root va"
      by blast
    have "page_supply s2 < needs (vmem s2) root ?vas" using s2 Suc.prems(6) True by simp
    then have "map_loop root (first + PGSIZE) last' (pa + PGSIZE) perm s2 = Inl Spin"
      using up nxt u Suc.prems(4,5,7) rest by (intro Suc.IH) (auto simp: updated_def)
    then show ?thesis using step by simp
  qed
qed

section \<open>A new address space\<close>

lemma empty_tables:
  assumes "\<forall>i<512. m (pte_addr root i) = 0" "path_ok p"
  shows "table_at m root p = (if p = Dir then Some root else None)"
  using assms by (cases p) (auto simp: sub_table_def)

lemma empty_tree:
  assumes z: "\<forall>i<512. m (pte_addr root i) = 0" and root: "page_aligned root" "root \<noteq> 0"
  shows "pt_wf m root" "tables m root = {root}" "pte_of m root va = 0"
proof -
  note t = empty_tables [OF z]
  have "pte_valid (m (pte_addr u i)) \<or> m (pte_addr u i) = 0"
    if "path_ok p" "table_at m root p = Some u" "i < 512" for p u i
    using t [OF that(1)] that z by (auto split: if_splits)
  then show "pt_wf m root" unfolding pt_wf_def using t root by (auto split: if_splits)
  show "tables m root = {root}" unfolding tables_def using t by (auto split: if_splits intro: exI [of _ Dir])
  have "table_at m root (leaf_path va) = None" using t [OF leaf_path_ok(1)] by (simp add: leaf_path_def)
  then show "pte_of m root va = 0" by (simp add: pte_of_def)
qed

lemma zero_frame_entry: "\<forall>i<512. zero_frame pt m (pte_addr pt i) = 0"
  using pte_addr_offset by (simp add: zero_frame_def)

text \<open>Taking a page from the cache and clearing it makes an empty page directory.\<close>

lemma new_directory:
  assumes "pmm_ok (vpmm s)" "cached_pages (vpmm s) \<noteq> []"
  shows "\<exists>root p'. vm_alloc_page s = Inr (root, s\<lparr>vpmm := p'\<rparr>) \<and> root \<noteq> 0 \<and> page_aligned root \<and>
    vm_ok root (s\<lparr>vpmm := p', vmem := zero_frame root (vmem s)\<rparr>) \<and>
    length (cached_pages p') = page_supply s - 1 \<and>
    (\<forall>p. path_ok p \<longrightarrow> table_at (zero_frame root (vmem s)) root p = (if p = Dir then Some root else None)) \<and>
    (\<forall>va. pte_of (zero_frame root (vmem s)) root va = 0)"
proof -
  obtain ps f where ps: "cached_pages (vpmm s) = ps @ [f]"
    using assms(2) by (cases "cached_pages (vpmm s)" rule: rev_cases) auto
  from vm_alloc_page_cached [OF assms(1) ps] obtain p' where
    p': "vm_alloc_page s = Inr (PFN_TO_ADDR f, s\<lparr>vpmm := p'\<rparr>)" "pmm_ok p'" "cached_pages p' = ps"
      "page_aligned (PFN_TO_ADDR f)" "PFN_TO_ADDR f \<noteq> 0" "PFN_TO_ADDR f \<notin> PFN_TO_ADDR ` set ps" by blast
  note e = empty_tree [OF zero_frame_entry [of "PFN_TO_ADDR f" "vmem s"] p'(4,5)]
  have "vm_ok (PFN_TO_ADDR f) (s\<lparr>vpmm := p', vmem := zero_frame (PFN_TO_ADDR f) (vmem s)\<rparr>)"
    using p' e(1,2) by (simp add: vm_ok_def)
  then show ?thesis
    using p' e(3) ps empty_tables [OF zero_frame_entry [of "PFN_TO_ADDR f" "vmem s"]]
    by (intro exI [of _ "PFN_TO_ADDR f"] exI [of _ p']) simp
qed

end
