(* ===== verification/Pke_Pmm_Thms.thy ===== *)
theory Pke_Pmm_Thms
  imports Pke_Pmm
begin

text \<open>
  The theorems on the physical memory manager of \<^verbatim>\<open>kernel/pmm.c\<close>: boot, the buddy system,
  the per-CPU page cache. Each is instantiated on the machine booted with 128 MiB of memory and
  a kernel image of 64 KiB.
\<close>

section \<open>A booted machine\<close>

text \<open>The zeroed globals, with the memory size that the device tree reports.\<close>

definition cold_pmm :: pmm where
  "cold_pmm = \<lparr>pages = (\<lambda>_. zero_page), nr_pages = 0,
     bnodes = \<lparr>nd_prev = (\<lambda>_. NullN), nd_next = (\<lambda>_. NullN)\<rparr>, buddy_lock = 0,
     pcpu_caches = [\<lparr>objs = replicate 32 None, pc_count = 0\<rparr>],
     free_mem_start_addr = 0, free_mem_end_addr = 0, buddy_start = 0, buddy_end = 0,
     g_mem_size = 0x8000000, tp_reg = 0, sstatus_reg = 0\<rparr>"

definition booted :: pmm where
  "booted = (case pmm_init 0x80010000 cold_pmm of Inr s \<Rightarrow> s | Inl e \<Rightarrow> cold_pmm)"

lemma cold_mem: "unat (MIN2 PKE_MAX_ALLOWABLE_RAM (g_mem_size cold_pmm)) = 0x8000000"
  by (simp add: cold_pmm_def MIN2_def PKE_MAX_ALLOWABLE_RAM_def)

lemma cold_boot_ok: "boot_ok 0x80010000 cold_pmm"
  unfolding boot_ok_def cold_mem by (simp add: cold_pmm_def NCPU_def PCPU_CACHE_SIZE_def)

lemma booted_facts:
  "pmm_init 0x80010000 cold_pmm = Inr booted" "pmm_ok booted" "coalesced booted"
  "unat (nr_pages booted) = 32768" "length (cached_pages booted) = 32"
  "free_frames booted \<union> unat ` set (cached_pages booted) = {208..<32768}"
proof -
  from pmm_init_correct [OF cold_boot_ok, unfolded cold_mem] obtain s where
    s: "pmm_init 0x80010000 cold_pmm = Inr s" "pmm_ok s" "coalesced s" "unat (nr_pages s) = 32768"
      "length (cached_pages s) = 32" "free_frames s \<union> unat ` set (cached_pages s) = {208..<32768}"
    by (auto simp: first_frame_def PCPU_CACHE_SIZE_def)
  then have "booted = s" by (simp add: booted_def)
  with s show "pmm_init 0x80010000 cold_pmm = Inr booted" "pmm_ok booted" "coalesced booted"
    "unat (nr_pages booted) = 32768" "length (cached_pages booted) = 32"
    "free_frames booted \<union> unat ` set (cached_pages booted) = {208..<32768}" by simp_all
qed

lemma booted_ready: "buddy_ready booted"
  using booted_facts(2) by (simp add: pmm_ok_def)

lemma booted_free: "free_frames booted \<noteq> {}"
proof
  assume "free_frames booted = {}"
  then have "{208..<32768} = unat ` set (cached_pages booted)" using booted_facts(6) by simp
  then have "card {208..<32768::nat} \<le> card (set (cached_pages booted))" by (simp add: card_image_le)
  also have "\<dots> \<le> 32" using card_length [of "cached_pages booted"] booted_facts(5) by simp
  finally show False by simp
qed

lemma booted_alloc:
  "\<exists>a s'. buddy_alloc 0 booted = Inr (a, s')"
  using buddy_alloc_one [OF booted_ready booted_free] by blast

section \<open>Boot\<close>

text \<open>C5: On a machine whose memory is a multiple of 4 MiB and has room for the kernel, the
  descriptors and 32 pages, \<^verbatim>\<open>pmm_init\<close> succeeds and establishes the invariant of the manager:
  the buddy system is consistent, unlocked and fully coalesced, the cache of hart 0 holds 32
  distinct pages, and the cached and the free frames together are exactly the frames from the
  first page after the descriptor array to the end of memory.\<close>

theorem pmm_init_establishes:
  assumes "boot_ok kend s"
  defines "m \<equiv> unat (MIN2 PKE_MAX_ALLOWABLE_RAM (g_mem_size s))"
  shows "\<exists>s'. pmm_init kend s = Inr s' \<and> pmm_ok s' \<and> coalesced s' \<and> unat (nr_pages s') = m div 4096 \<and>
    length (cached_pages s') = PCPU_CACHE_SIZE \<and>
    free_frames s' \<union> unat ` set (cached_pages s') = {first_frame kend m ..< m div 4096}"
  unfolding m_def using pmm_init_correct [OF assms(1)] .

theorem pmm_init_establishes_witness:
  "boot_ok 0x80010000 cold_pmm \<and>
   (\<exists>s'. pmm_init 0x80010000 cold_pmm = Inr s' \<and> pmm_ok s' \<and> coalesced s' \<and> unat (nr_pages s') = 32768 \<and>
     free_frames s' \<union> unat ` set (cached_pages s') = {208..<32768})"
  using pmm_init_establishes [OF cold_boot_ok, unfolded cold_mem] cold_boot_ok
  by (auto simp: first_frame_def)

section \<open>The buddy system\<close>

text \<open>C21: In a consistent and unlocked state \<^verbatim>\<open>buddy_alloc\<close> of a valid order returns a block
  exactly when some free block of that order or a larger one exists; otherwise it panics. An
  order of 11 or more trips the assertion.\<close>

theorem buddy_alloc_succeeds_iff:
  assumes "buddy_ready s"
  shows "(buddy_alloc order s \<in> range Inr \<longleftrightarrow>
      unat order < MAX_ORDER \<and> (\<exists>(q, j) \<in> free_blocks s. unat order \<le> j)) \<and>
    (buddy_alloc order s \<notin> range Inr \<longrightarrow> buddy_alloc order s \<in>
      {Inl (Panic ''buddy_alloc : Out of required size of memory!''),
       Inl (AssertFail ''order >= 0 && order < MAX_ORDER'')})"
proof -
  from assms have r: "buddy_ok s" "buddy_lock s = 0" by (auto simp: buddy_ready_def)
  consider "\<not> unat order < MAX_ORDER" | "unat order < MAX_ORDER" "\<exists>(q, j) \<in> free_blocks s. unat order \<le> j"
    | "unat order < MAX_ORDER" "\<And>q j. (q, j) \<in> free_blocks s \<Longrightarrow> j < unat order" by force
  then show ?thesis
  proof cases
    case 1
    then show ?thesis using buddy_alloc_order_range [OF 1] by auto
  next
    case 2
    then show ?thesis using buddy_alloc_spec [OF r 2(1)] by fastforce
  next
    case 3
    then show ?thesis using buddy_alloc_fails [OF r 3] by force
  qed
qed

theorem buddy_alloc_succeeds_iff_witness:
  "buddy_ready booted \<and> (\<exists>(q, j) \<in> free_blocks booted. unat (0 :: uint32) \<le> j)"
proof -
  have "buddy_alloc 0 booted \<in> range Inr" using booted_alloc by auto
  then show ?thesis using buddy_alloc_succeeds_iff [OF booted_ready, of 0] booted_ready by blast
qed

text \<open>C6: A block that \<^verbatim>\<open>buddy_alloc\<close> returns consists of frames that were free and no longer
  are, no other frame changes its state, every block handed out before stays handed out, and the
  invariant (with coalescing) is kept.\<close>

theorem buddy_alloc_correct:
  assumes "buddy_ready s" and "buddy_alloc order s = Inr (a, s')"
  shows "buddy_ready s' \<and> owns_block a order s' \<and> block_at a order \<subseteq> free_frames s \<and>
    free_frames s' = free_frames s - block_at a order \<and> (coalesced s \<longrightarrow> coalesced s') \<and>
    (\<forall>q j. owns_block q j s \<longrightarrow> owns_block q j s' \<and> block_at q j \<inter> block_at a order = {})"
proof -
  note a = buddy_alloc_owns [OF assms]
  have "coalesced s \<longrightarrow> coalesced s'"
    using buddy_alloc_Inr [OF _ assms(2)] assms(1) by (auto simp: buddy_ready_def alloc_post_def)
  moreover have "owns_block q j s' \<and> block_at q j \<inter> block_at a order = {}" if "owns_block q j s" for q j
  proof -
    have "block_at q j \<inter> free_frames s = {}" by (rule buddy_frames.owned_not_free [OF assms(1) that])
    with a(3) have "block_at q j \<inter> block_at a order = {}" by fast
    with buddy_frames.alloc_keeps [OF assms that] show ?thesis by simp
  qed
  ultimately show ?thesis using a by (intro conjI) simp_all
qed

theorem buddy_alloc_correct_witness:
  "\<exists>a s'. buddy_alloc 0 booted = Inr (a, s') \<and> owns_block a 0 s' \<and> block_at a 0 \<subseteq> free_frames booted \<and>
     coalesced s'"
proof -
  from booted_alloc obtain a s' where "buddy_alloc 0 booted = Inr (a, s')" by blast
  with buddy_alloc_correct [OF booted_ready this] booted_facts(3) show ?thesis by blast
qed

text \<open>Blocks allocated one after the other, of any orders, are pairwise disjoint, are all
  still owned at the end, and the free frames are what is left.\<close>

lemma buddy_alloc_sequence:
  assumes "buddy_ready s" and "alloc_seq buddy_alloc orders s = Inr (as, s')"
  shows "length as = length orders \<and>
    (\<forall>k<length orders. owns_block (as ! k) (orders ! k) s' \<and> block_at (as ! k) (orders ! k) \<subseteq> free_frames s) \<and>
    (\<forall>k<length orders. \<forall>l<length orders. k \<noteq> l \<longrightarrow>
       block_at (as ! k) (orders ! k) \<inter> block_at (as ! l) (orders ! l) = {}) \<and>
    free_frames s' = free_frames s - (\<Union>k<length orders. block_at (as ! k) (orders ! k))"
  using buddy_frames.alloc_seq_blocks [OF assms] by (elim conjE) (intro conjI; assumption)

lemma buddy_alloc_sequence_witness:
  "\<exists>a s'. alloc_seq buddy_alloc [0] booted = Inr ([a], s') \<and> owns_block a 0 s' \<and>
     free_frames s' = free_frames booted - block_at a 0"
proof -
  from booted_alloc obtain a s' where "buddy_alloc 0 booted = Inr (a, s')" by blast
  then have a: "alloc_seq buddy_alloc [0] booted = Inr ([a], s')" by simp
  from buddy_alloc_sequence [OF booted_ready a] a show ?thesis by auto
qed

text \<open>C7: \<^verbatim>\<open>buddy_free\<close> of an owned block always succeeds, gives exactly its frames back, merges
  so that no two buddies stay free, and keeps every other owned block that is disjoint from it.\<close>

theorem buddy_free_correct:
  assumes "buddy_ready s" and "owns_block a order s"
  shows "\<exists>s'. buddy_free a s = Inr s' \<and> buddy_ready s' \<and>
    free_frames s' = free_frames s \<union> block_at a order \<and> (coalesced s \<longrightarrow> coalesced s') \<and>
    (\<forall>q j. owns_block q j s \<longrightarrow> block_at a order \<inter> block_at q j = {} \<longrightarrow> owns_block q j s')"
proof -
  from buddy_free_owned [OF assms] obtain s' where s': "buddy_free a s = Inr s'" "buddy_ready s'"
    "free_frames s' = free_frames s \<union> block_at a order" by blast
  from assms have "buddy_ok s" "buddy_lock s = 0" "buddy_start s \<le> buddy_end s"
    "allocated (ADDR_TO_PFN a) (unat order) s" "a = PFN_TO_ADDR (ADDR_TO_PFN a)"
    by (auto simp: buddy_ready_def owns_block_def)
  then have "coalesced s \<longrightarrow> coalesced s'"
    using buddy_free_spec [of s "ADDR_TO_PFN a" "unat order"] s'(1) by (auto simp: free_post_def)
  with s' buddy_frames.release_keeps [OF assms s'(1)] show ?thesis by blast
qed

theorem buddy_free_correct_witness:
  "\<exists>a s s'. buddy_alloc 0 booted = Inr (a, s) \<and> owns_block a 0 s \<and> buddy_free a s = Inr s' \<and>
     free_frames s' = free_frames booted"
proof -
  from booted_alloc obtain a s where a: "buddy_alloc 0 booted = Inr (a, s)" by blast
  note o = buddy_alloc_owns [OF booted_ready a]
  from buddy_free_correct [OF o(1,2)] obtain s' where "buddy_free a s = Inr s'"
    "free_frames s' = free_frames s \<union> block_at a 0" by blast
  moreover have "free_frames s \<union> block_at a 0 = free_frames booted" using o(3,4) by auto
  ultimately show ?thesis using a o by auto
qed

section \<open>The page cache\<close>

text \<open>A client that takes \<open>n\<close> pages one after the other.\<close>

abbreviation alloc_pages :: "nat \<Rightarrow> pmm \<Rightarrow> (uint64 list \<times> pmm) res" where
  "alloc_pages n s \<equiv> alloc_seq (\<lambda>_. alloc_page) (replicate n ()) s"

lemma alloc_pages_step:
  assumes "pmm_ok s" "cached_pages s = ps @ [p]"
  shows "\<exists>s'. alloc_pages (Suc n) s = bindE (alloc_pages n s') (\<lambda>(as, s). Inr (PFN_TO_ADDR p # as, s)) \<and>
    pmm_ok s' \<and> cached_pages s' = ps \<and> (\<exists>c. s' = cache_set 0 c s)"
  using alloc_page_cached [OF assms] by auto

lemma alloc_pages_cached:
  assumes "pmm_ok s" "n \<le> length (cached_pages s)"
  shows "\<exists>s'. alloc_pages n s = Inr (map PFN_TO_ADDR (take n (rev (cached_pages s))), s') \<and> pmm_ok s' \<and>
    cached_pages s' = take (length (cached_pages s) - n) (cached_pages s) \<and>
    (\<forall>p i. allocated p i s' = allocated p i s)"
  using assms
proof (induction n arbitrary: s)
  case 0
  then show ?case by simp
next
  case (Suc n)
  then obtain ps p where ps: "cached_pages s = ps @ [p]"
    by (metis Suc_le_length_iff append_butlast_last_id list.distinct(1))
  from alloc_pages_step [OF Suc.prems(1) ps] obtain s1 where
    s1: "alloc_pages (Suc n) s = bindE (alloc_pages n s1) (\<lambda>(as, s). Inr (PFN_TO_ADDR p # as, s))"
      "pmm_ok s1" "cached_pages s1 = ps" "\<exists>c. s1 = cache_set 0 c s" by blast
  from Suc.IH [OF s1(2)] s1(3) Suc.prems(2) ps obtain s' where
    "alloc_pages n s1 = Inr (map PFN_TO_ADDR (take n (rev ps)), s')" "pmm_ok s'"
    "cached_pages s' = take (length ps - n) ps" "\<forall>p i. allocated p i s' = allocated p i s1" by auto
  then show ?case using s1 ps by auto
qed

lemma alloc_pages_exhausted:
  assumes "pmm_ok s" "length (cached_pages s) < n"
  shows "alloc_pages n s = Inl Spin"
  using assms
proof (induction n arbitrary: s)
  case (Suc n)
  show ?case
  proof (cases "cached_pages s" rule: rev_cases)
    case Nil
    then show ?thesis using alloc_page_empty [OF Suc.prems(1)] by simp
  next
    case (snoc ps p)
    from alloc_pages_step [OF Suc.prems(1) snoc, of n] obtain s1 where
      s1: "alloc_pages (Suc n) s = bindE (alloc_pages n s1) (\<lambda>(as, s). Inr (PFN_TO_ADDR p # as, s))"
        "pmm_ok s1" "cached_pages s1 = ps" by blast
    then have "alloc_pages n s1 = Inl Spin" using Suc.IH Suc.prems(2) snoc by auto
    then show ?thesis by (simp only: s1(1) bindE.simps)
  qed
qed simp

lemma allocated_inj:
  assumes "buddy_ready s" "allocated p 0 s" "allocated q 0 s" "PFN_TO_ADDR p = PFN_TO_ADDR q"
  shows "p = q"
  using assms block_pfn_bound ADDR_TO_PFN_TO_ADDR by (metis allocated_def buddy_ready_def)

text \<open>C25: From a consistent state whose cache holds \<open>k\<close> pages, \<^verbatim>\<open>alloc_page\<close> returns \<open>n \<le> k\<close>
  times a new page that the caller then owns, all of them different; the call after that never
  returns, because \<^verbatim>\<open>alloc_page\<close> takes the lock that \<^verbatim>\<open>buddy_alloc\<close> then waits for.\<close>

theorem alloc_page_supply:
  assumes "pmm_ok s"
  shows "(n \<le> length (cached_pages s) \<longrightarrow>
      (\<exists>as s'. alloc_pages n s = Inr (as, s') \<and> pmm_ok s' \<and> length as = n \<and> distinct as \<and>
        (\<forall>a\<in>set as. owns_block a 0 s'))) \<and>
    (length (cached_pages s) < n \<longrightarrow> alloc_pages n s = Inl Spin)"
proof (intro conjI impI)
  assume n: "n \<le> length (cached_pages s)"
  from alloc_pages_cached [OF assms n] obtain s' where
    s': "alloc_pages n s = Inr (map PFN_TO_ADDR (take n (rev (cached_pages s))), s')" "pmm_ok s'"
      "\<forall>p i. allocated p i s' = allocated p i s" by blast
  let ?ps = "take n (rev (cached_pages s))"
  from assms have r: "buddy_ready s" and al: "\<forall>p\<in>set ?ps. allocated p 0 s" and d: "distinct ?ps"
    by (auto simp: pmm_ok_def dest!: in_set_takeD)
  have "distinct (map PFN_TO_ADDR ?ps)"
    using d al allocated_inj [OF r] by (auto simp: distinct_map inj_on_def)
  moreover have "owns_block (PFN_TO_ADDR p) 0 s'" if "p \<in> set ?ps" for p
  proof -
    have "allocated p 0 s" using al that by blast
    moreover from this have "unat p < 2 ^ 40"
      using r block_pfn_bound by (auto simp: allocated_def buddy_ready_def)
    ultimately show ?thesis using s'(3) by (simp add: owns_block_pfn)
  qed
  ultimately show "\<exists>as s'. alloc_pages n s = Inr (as, s') \<and> pmm_ok s' \<and> length as = n \<and> distinct as \<and>
      (\<forall>a\<in>set as. owns_block a 0 s')"
    using s'(1,2) n by (intro exI [of _ "map PFN_TO_ADDR ?ps"] exI [of _ s']) auto
next
  assume "length (cached_pages s) < n"
  then show "alloc_pages n s = Inl Spin" by (rule alloc_pages_exhausted [OF assms])
qed

theorem alloc_page_supply_witness:
  "pmm_ok booted \<and> alloc_pages 32 booted \<in> range Inr \<and> alloc_pages 33 booted = Inl Spin"
  using alloc_page_supply [OF booted_facts(2), of 32] alloc_page_supply [OF booted_facts(2), of 33]
    booted_facts(2,5) by auto

text \<open>A single page that is freed is stored one slot above the new top of the cache.\<close>

lemma pfree_slot:
  assumes ok: "pmm_ok s" and room: "Suc (length (cached_pages s)) < PCPU_CACHE_SIZE"
    and b: "ADDR_TO_PFN b < nr_pages s" "pg_order (pages s (ADDR_TO_PFN b)) = 0"
  shows "pfree b s = Inr (cache_set 0 ((pcpu_caches s ! 0)\<lparr>pc_count := pc_count (pcpu_caches s ! 0) + 1,
    objs := (objs (pcpu_caches s ! 0))[Suc (length (cached_pages s)) := Some (ADDR_TO_PFN b)]\<rparr>) s)"
proof -
  have len: "length (pcpu_caches s) = 1" and wf: "cache_wf (pcpu_caches s ! 0)" and tp: "tp_reg s = 0"
    using ok by (auto simp: pmm_ok_def NCPU_def)
  show ?thesis using pfree_push [of s b] b len tp wf room cache_wf_count [OF wf] by (simp add: cache_wf_def)
qed

text \<open>After \<^verbatim>\<open>pfree\<close> of a single page the next allocation, from any state with the same caches, returns what the
  slot above the old top held.\<close>

lemma pfree_stale_slot:
  assumes ok: "pmm_ok s" and stale: "objs (pcpu_caches s ! 0) ! length (cached_pages s) = Some q"
    and room: "Suc (length (cached_pages s)) < PCPU_CACHE_SIZE"
    and b: "ADDR_TO_PFN b < nr_pages s" "pg_order (pages s (ADDR_TO_PFN b)) = 0"
  shows "\<exists>s2. pfree b s = Inr s2 \<and>
    (\<forall>u. pcpu_caches u = pcpu_caches s2 \<and> tp_reg u = tp_reg s2 \<longrightarrow> (\<exists>s3. alloc_page u = Inr (PFN_TO_ADDR q, s3)))"
proof -
  let ?c = "pcpu_caches s ! 0" and ?k = "Suc (length (cached_pages s))"
  from ok have len: "length (pcpu_caches s) = 1" and wf: "cache_wf ?c" and tp: "tp_reg s = 0"
    by (auto simp: pmm_ok_def NCPU_def)
  have n: "unat (pc_count ?c) = length (cached_pages s)" by (rule cache_wf_count [OF wf])
  let ?c2 = "?c\<lparr>pc_count := pc_count ?c + 1, objs := (objs ?c)[?k := Some (ADDR_TO_PFN b)]\<rparr>"
  have p2: "pfree b s = Inr (cache_set 0 ?c2 s)" by (rule pfree_slot [OF ok room b])
  have "pc_count ?c + 1 \<noteq> 0" "pc_count ?c + 1 - 1 = pc_count ?c"
    using unat_succ32 [of "pc_count ?c"] n room by (auto simp: PCPU_CACHE_SIZE_def)
  then have "\<exists>s3. alloc_page u = Inr (PFN_TO_ADDR q, s3)"
    if "pcpu_caches u = pcpu_caches (cache_set 0 ?c2 s)" "tp_reg u = tp_reg (cache_set 0 ?c2 s)" for u
    using n room len tp wf stale that
    by (auto simp: alloc_page_def cache_at_def cache_pop_def obj_read_def cache_wf_def Let_def)
  then show ?thesis using p2 by blast
qed

lemma pfree_then_alloc:
  assumes "pmm_ok s" "objs (pcpu_caches s ! 0) ! length (cached_pages s) = Some q"
    "Suc (length (cached_pages s)) < PCPU_CACHE_SIZE" "ADDR_TO_PFN b < nr_pages s" "pg_order (pages s (ADDR_TO_PFN b)) = 0"
  shows "\<exists>s2 s3. pfree b s = Inr s2 \<and> alloc_page s2 = Inr (PFN_TO_ADDR q, s3)"
  using pfree_stale_slot [OF assms] by blast

text \<open>C36: A page that \<^verbatim>\<open>alloc_page\<close> returned is returned again by the next call if any page
  of order 0 is freed in between, because \<^verbatim>\<open>pfree\<close> stores the page one slot above the top.\<close>

theorem pfree_reissues_last_page:
  assumes "pmm_ok s" and "cached_pages s \<noteq> []" and "length (cached_pages s) < PCPU_CACHE_SIZE"
    and "ADDR_TO_PFN b < nr_pages s" and "pg_order (pages s (ADDR_TO_PFN b)) = 0"
  shows "\<exists>a s1 s2 s3. alloc_page s = Inr (a, s1) \<and> owns_block a 0 s1 \<and> pfree b s1 = Inr s2 \<and>
    alloc_page s2 = Inr (a, s3)"
proof -
  from assms(2) obtain ps p where ps: "cached_pages s = ps @ [p]"
    by (cases "cached_pages s" rule: rev_cases) auto
  from alloc_page_cached [OF assms(1) ps] obtain s1 c where
    s1: "alloc_page s = Inr (PFN_TO_ADDR p, s1)" "pmm_ok s1" "cached_pages s1 = ps"
      "s1 = cache_set 0 c s" "objs c = objs (pcpu_caches s ! 0)" "allocated p 0 s1" by blast
  from assms(1) have len: "length (pcpu_caches s) = 1" and wf: "cache_wf (pcpu_caches s ! 0)"
    by (auto simp: pmm_ok_def NCPU_def)
  have "objs (pcpu_caches s1 ! 0) ! length ps = Some p"
    using cached_nth [OF wf, of "length ps"] ps s1(4,5) len by simp
  moreover have "owns_block (PFN_TO_ADDR p) 0 s1"
    using s1(2,6) block_pfn_bound by (subst owns_block_pfn) (auto simp: allocated_def pmm_ok_def buddy_ready_def)
  ultimately show ?thesis using pfree_then_alloc [OF s1(2)] s1 assms(3-5) ps by simp
qed

text \<open>The state after the first allocation and the first page descriptor, which the boot leaves
  reserved and of order 0.\<close>

lemma booted_first:
  "\<exists>a s c p. alloc_page booted = Inr (a, s) \<and> pmm_ok s \<and> length (cached_pages s) = 31 \<and>
     s = cache_set 0 c booted \<and> a = PFN_TO_ADDR p \<and> allocated p 0 s"
proof -
  have "cached_pages booted \<noteq> []" using booted_facts(5) by auto
  then obtain ps p where ps: "cached_pages booted = ps @ [p]"
    by (cases "cached_pages booted" rule: rev_cases) auto
  from alloc_page_cached [OF booted_facts(2) ps] ps booted_facts(5) show ?thesis by fastforce
qed

theorem pfree_reissues_last_page_witness:
  "\<exists>a0 b s a s1 s2 s3. alloc_page booted = Inr (a0, s) \<and> alloc_page s = Inr (a, s1) \<and>
     pfree b s1 = Inr s2 \<and> alloc_page s2 = Inr (a, s3)"
proof -
  from booted_first obtain a0 s c p where
    s: "alloc_page booted = Inr (a0, s)" "pmm_ok s" "length (cached_pages s) = 31" "allocated p 0 s" by blast
  have p40: "unat p < 2 ^ 40" using s(2,4) block_pfn_bound by (auto simp: allocated_def pmm_ok_def buddy_ready_def)
  have pfn: "ADDR_TO_PFN (PFN_TO_ADDR p) = p" by (rule ADDR_TO_PFN_TO_ADDR [OF p40])
  have "p < nr_pages s" "pg_order (pages s p) = 0"
    using s(4) block_ok_less by (auto simp: allocated_def word_less_iff_unat unat_eq_zero)
  then show ?thesis
    using pfree_reissues_last_page [OF s(2), of "PFN_TO_ADDR p"] s(1,3) pfn by (fastforce simp: PCPU_CACHE_SIZE_def)
qed

text \<open>C37: Freeing the page just taken from a full cache writes beyond the end of
  \<^verbatim>\<open>objs\<close>.\<close>

theorem pfree_writes_out_of_bounds:
  assumes "pmm_ok s" and "length (cached_pages s) = PCPU_CACHE_SIZE" and "alloc_page s = Inr (a, s')"
  shows "pfree a s' = Inl OutOfBounds"
proof -
  from assms(2) obtain ps p where ps: "cached_pages s = ps @ [p]"
    by (cases "cached_pages s" rule: rev_cases) (auto simp: PCPU_CACHE_SIZE_def)
  from alloc_page_cached [OF assms(1) ps] assms(3) have
    s': "a = PFN_TO_ADDR p" "pmm_ok s'" "cached_pages s' = ps" "allocated p 0 s'" by auto
  have wf: "cache_wf (pcpu_caches s' ! 0)" using s'(2) by (simp add: pmm_ok_def)
  have n: "Suc (unat (pc_count (pcpu_caches s' ! 0))) = PCPU_CACHE_SIZE"
    using cache_wf_count [OF wf] s'(3) ps assms(2) by simp
  have "unat p < 2 ^ 40" using s'(2,4) block_pfn_bound by (auto simp: allocated_def pmm_ok_def buddy_ready_def)
  then have pfn: "ADDR_TO_PFN a = p" by (simp add: s'(1) ADDR_TO_PFN_TO_ADDR)
  have "p < nr_pages s'" "pg_order (pages s' p) = 0"
    using s'(4) block_ok_less by (auto simp: allocated_def word_less_iff_unat unat_eq_zero)
  then show ?thesis
    using pfree_push [of s' a] s'(2) wf n pfn by (simp add: pmm_ok_def cache_wf_def NCPU_def)
qed

theorem pfree_writes_out_of_bounds_witness:
  "\<exists>a s'. alloc_page booted = Inr (a, s') \<and> pfree a s' = Inl OutOfBounds"
  using booted_first pfree_writes_out_of_bounds [OF booted_facts(2)] booted_facts(5)
  by (fastforce simp: PCPU_CACHE_SIZE_def)

text \<open>When \<^verbatim>\<open>pfree\<close> finds the cache full it gives sixteen pages back to the buddy system,
  but the next \<^verbatim>\<open>alloc_page\<close> hands out one of them while it is free there.\<close>

lemma pfree_full_hands_out_free_page:
  assumes "pmm_ok s" and "length (cached_pages s) = PCPU_CACHE_SIZE"
    and "ADDR_TO_PFN b < nr_pages s" and "pg_order (pages s (ADDR_TO_PFN b)) = 0"
  shows "\<exists>s1 a s2. pfree b s = Inr s1 \<and> alloc_page s1 = Inr (a, s2) \<and> block_at a 0 \<subseteq> free_frames s2"
proof -
  let ?ps = "take 16 (cached_pages s)" and ?qs = "drop 16 (cached_pages s)"
  have l: "length (cached_pages s) = 32" using assms(2) by (simp add: PCPU_CACHE_SIZE_def)
  from assms(1) have wf: "cache_wf (pcpu_caches s ! 0)" by (simp add: pmm_ok_def)
  let ?p = "cached_pages s ! 16"
  have o: "objs (pcpu_caches s ! 0) ! 16 = Some ?p" by (rule cached_nth [OF wf]) (simp add: l)
  obtain s1 c where s1: "pfree b s = Inr s1" "free_frames s1 = free_frames s \<union> unat ` set ?qs"
    "tp_reg s1 = 0" "pcpu_caches s1 = [c]" "pc_count c = 17"
    "objs c = (objs (pcpu_caches s ! 0))[17 := Some (ADDR_TO_PFN b)]"
    using pfree_flush [OF assms(1) append_take_drop_id [symmetric, of _ 16] _ _ assms(3,4)] l by auto
  have "length (objs (pcpu_caches s ! 0)) = 32" using wf by (simp add: cache_wf_def PCPU_CACHE_SIZE_def)
  then have "alloc_page s1 = Inr (PFN_TO_ADDR ?p, cache_set 0 (c\<lparr>pc_count := 16\<rparr>) s1)"
    using s1(3-6) o
    by (simp add: alloc_page_def cache_at_def cache_pop_def obj_read_def Let_def)
  moreover have "?p \<in> set ?qs" using l by (auto simp: in_set_conv_nth intro: exI [of _ 0])
  moreover have "allocated ?p 0 s" using assms(1) l by (simp add: pmm_ok_def)
  then have "unat ?p < 2 ^ 40"
    using assms(1) block_pfn_bound by (auto simp: allocated_def pmm_ok_def buddy_ready_def)
  then have "block_at (PFN_TO_ADDR ?p) 0 = {unat ?p}" by (simp add: block_at_pfn blk_def)
  ultimately show ?thesis using s1(1,2) by auto
qed

lemma pfree_full_hands_out_free_page_witness:
  "\<exists>b s1 a s2. pfree b booted = Inr s1 \<and> alloc_page s1 = Inr (a, s2) \<and> block_at a 0 \<subseteq> free_frames s2"
proof -
  let ?p = "cached_pages booted ! 0"
  have al: "allocated ?p 0 booted" using booted_facts(2,5) by (simp add: pmm_ok_def)
  then have "unat ?p < 2 ^ 40"
    using booted_ready block_pfn_bound by (auto simp: allocated_def buddy_ready_def)
  then have "ADDR_TO_PFN (PFN_TO_ADDR ?p) = ?p" by (rule ADDR_TO_PFN_TO_ADDR)
  moreover have "?p < nr_pages booted" "pg_order (pages booted ?p) = 0"
    using al block_ok_less by (auto simp: allocated_def word_less_iff_unat unat_eq_zero)
  ultimately show ?thesis
    using pfree_full_hands_out_free_page [OF booted_facts(2), of "PFN_TO_ADDR ?p"] booted_facts(5)
    by (fastforce simp: PCPU_CACHE_SIZE_def)
qed

text \<open>\<^verbatim>\<open>pfree\<close> of an owned block of order 1 or more gives its frames back to the buddy
  system, coalesced, leaves the caches alone and restores the interrupt state.\<close>

lemma pfree_block_returns_frames:
  assumes "buddy_ready s" and "owns_block a order s" and "order \<noteq> 0"
  shows "\<exists>s'. pfree a s = Inr s' \<and> buddy_ready s' \<and> free_frames s' = free_frames s \<union> block_at a order \<and>
    (coalesced s \<longrightarrow> coalesced s') \<and> sstatus_reg s' = sstatus_reg s \<and> pcpu_caches s' = pcpu_caches s"
  by (rule pfree_block_correct [OF assms])

text \<open>A machine with a single block, of order 1 at frame 2, that is handed out.\<close>

definition held_pmm :: pmm where
  "held_pmm = cold_pmm\<lparr>nr_pages := 1024, bnodes := init_heads (bnodes cold_pmm),
     pages := (\<lambda>_. zero_page)(2 := zero_page\<lparr>pg_order := 1, is_head := 1, pg_alloc := 1\<rparr>)\<rparr>"

lemma held_facts: "buddy_ready held_pmm" "owns_block 0x80002000 1 held_pmm"
proof -
  have "free_set (\<lambda>_. []) = {}" by (simp add: free_set_def)
  moreover have nf: "\<not> free_head (pages held_pmm p)" for p by (simp add: held_pmm_def zero_page_def)
  ultimately have "buddy_inv (\<lambda>_. []) held_pmm"
    using init_heads_rings by (simp add: buddy_inv_def pg_inv_def nr_ok_def held_pmm_def zero_page_def)
  then show "buddy_ready held_pmm" by (auto simp: buddy_ready_def buddy_ok_def held_pmm_def cold_pmm_def)
  have "free_frames held_pmm = {}" using nf by (auto simp: free_frames_def free_blocks_def frames_def)
  then show "owns_block 0x80002000 1 held_pmm"
    by (simp add: owns_block_def allocated_def ADDR_TO_PFN_def PFN_TO_ADDR_def PGSIZE_def DRAM_BASE_def
        held_pmm_def zero_page_def block_ok_def MAX_ORDER_def)
qed

lemma pfree_block_returns_frames_witness:
  "buddy_ready held_pmm \<and> owns_block 0x80002000 1 held_pmm \<and>
   (\<exists>s'. pfree 0x80002000 held_pmm = Inr s' \<and> free_frames s' = free_frames held_pmm \<union> block_at 0x80002000 1)"
  using pfree_block_returns_frames [OF held_facts] held_facts by auto

end
