(* ===== verification/Pke_Vmm_Thms.thy ===== *)
theory Pke_Vmm_Thms
  imports Pke_Vmm_Inv Pke_Pmm_Thms
begin

text \<open>
  The theorems on \<^verbatim>\<open>kernel/vmm.c\<close>: mapping, translating and unmapping pages, stated on the page
  table as a function from virtual addresses to entries, the interface a client of the page table
  relies on, and the kernel's own address space.
\<close>

section \<open>Mapping ranges\<close>

text \<open>The pages that the range of \<open>size'\<close> bytes at \<open>va\<close> touches.\<close>

definition range_pages :: "uint64 \<Rightarrow> uint64 \<Rightarrow> nat" where
  "range_pages va size' = Suc ((unat va + unat size' - 1) div 4096 - unat va div 4096)"

definition range_ok :: "uint64 \<Rightarrow> uint64 \<Rightarrow> bool" where
  "range_ok va size' \<longleftrightarrow> 4096 \<le> unat va \<and> 0 < unat size' \<and> unat va + unat size' \<le> 2 ^ 38"

lemma page_aligned_ROUNDDOWN [simp]: "page_aligned (ROUNDDOWN a PGSIZE)"
  by (simp add: page_aligned_unat unat_ROUNDDOWN_page)

lemma range_bounds:
  assumes "range_ok va size'"
  defines "first \<equiv> ROUNDDOWN va PGSIZE" and "last' \<equiv> ROUNDDOWN (va + size' - 1) PGSIZE"
  shows "0 < first" "unat last' + 4096 = unat first + range_pages va size' * 4096"
    "unat first + range_pages va size' * 4096 \<le> 2 ^ 38"
proof -
  from assms(1) have b: "4096 \<le> unat va" "0 < unat size'" "unat va + unat size' \<le> 2 ^ 38"
    by (auto simp: range_ok_def)
  have f: "unat first = unat va div 4096 * 4096" by (simp add: first_def unat_ROUNDDOWN_page)
  have "1 \<le> unat va div 4096" using div_le_mono [OF b(1), of 4096] by simp
  then show "0 < first" using f by (simp add: word_less_iff_unat)
  have add: "unat (va + size') = unat va + unat size'" using b(3) by (subst unat_add_noof) simp_all
  have "unat (va + size' - 1) = unat va + unat size' - 1"
    using add b by (subst unat_sub_le) (simp_all add: word_le_iff_unat)
  then have l: "unat last' = (unat va + unat size' - 1) div 4096 * 4096"
    by (simp add: last'_def unat_ROUNDDOWN_page)
  have le: "unat va div 4096 \<le> (unat va + unat size' - 1) div 4096" using b(2) by (intro div_le_mono) simp
  then show sum: "unat last' + 4096 = unat first + range_pages va size' * 4096"
    by (simp add: f l range_pages_def add_mult_distrib diff_mult_distrib)
  have "(unat va + unat size' - 1) div 4096 \<le> (2 ^ 38 - 1) div 4096" using b by (intro div_le_mono) simp
  then have "unat last' \<le> (2 ^ 38 - 1) div 4096 * 4096" unfolding l by (rule mult_le_mono1)
  then show "unat first + range_pages va size' * 4096 \<le> 2 ^ 38" unfolding sum [symmetric] by simp
qed

lemma map_pages_correct':
  assumes "vm_ok root s" and "range_ok va size'"
    and "needs (vmem s) root (page_list (ROUNDDOWN va PGSIZE) (range_pages va size')) \<le> page_supply s"
    and "\<forall>va'<MAXVA. unat (ROUNDDOWN va PGSIZE) \<le> unat va' \<longrightarrow>
      unat va' < unat (ROUNDDOWN va PGSIZE) + range_pages va size' * 4096 \<longrightarrow>
      \<not> pte_valid (pte_of (vmem s) root va')"
  shows "\<exists>s'. map_pages root va size' pa perm s = Inr (0, s') \<and>
    updated root (mapped (ROUNDDOWN va PGSIZE) (range_pages va size') pa perm (pte_of (vmem s) root)) s s' \<and>
    page_supply s' = page_supply s - needs (vmem s) root (page_list (ROUNDDOWN va PGSIZE) (range_pages va size'))"
  unfolding map_pages_def
  using map_loop_ok [OF assms(1) page_aligned_ROUNDDOWN range_bounds [OF assms(2)] assms(3)] assms(4) by blast

text \<open>C3: \<^verbatim>\<open>map_pages\<close> on pages that are not mapped yet, with enough cached pages for the missing
  tables, returns 0, takes exactly these pages from the cache, changes exactly the entries of the
  range, page by page to consecutive frames with the given permissions, writes no memory outside
  the tables of this address space, and keeps the tree well-formed.\<close>

theorem map_pages_correct:
  assumes "vm_ok root s" and "range_ok va size'"
    and "needs (vmem s) root (page_list (ROUNDDOWN va PGSIZE) (range_pages va size')) \<le> page_supply s"
    and "\<forall>va'<MAXVA. unat (ROUNDDOWN va PGSIZE) \<le> unat va' \<longrightarrow>
      unat va' < unat (ROUNDDOWN va PGSIZE) + range_pages va size' * 4096 \<longrightarrow>
      \<not> pte_valid (pte_of (vmem s) root va')"
  shows "\<exists>s'. map_pages root va size' pa perm s = Inr (0, s') \<and>
    updated root (mapped (ROUNDDOWN va PGSIZE) (range_pages va size') pa perm (pte_of (vmem s) root)) s s' \<and>
    page_supply s' = page_supply s - needs (vmem s) root (page_list (ROUNDDOWN va PGSIZE) (range_pages va size'))"
  by (rule map_pages_correct' [OF assms])

text \<open>The address space of a new, empty page directory on the booted machine.\<close>

definition boot_vm :: vmm where
  "boot_vm = \<lparr>vpmm = booted, vmem = (\<lambda>_. 0), g_kernel_pagetable = 0\<rparr>"

lemma fresh_space:
  "\<exists>root s. vm_ok root s \<and> page_supply s = 31 \<and> (\<forall>va. pte_of (vmem s) root va = 0) \<and>
     (\<forall>p. path_ok p \<longrightarrow> table_at (vmem s) root p = (if p = Dir then Some root else None))"
proof -
  have "pmm_ok (vpmm boot_vm)" "cached_pages (vpmm boot_vm) \<noteq> []"
    using booted_facts(2,5) by (auto simp: boot_vm_def)
  from new_directory [OF this] show ?thesis using booted_facts(5) by (fastforce simp: boot_vm_def)
qed

lemma needs_one_page: "needs m root [va] \<le> 2"
proof -
  have "needs m root [va] \<le> card {Mid (PX 2 va), leaf_path va}"
    unfolding needs_def by (intro card_mono) (auto simp: walk_paths_def)
  also have "\<dots> \<le> 2" by (simp add: card_insert_if)
  finally show ?thesis .
qed

theorem map_pages_correct_witness:
  "\<exists>root s s'. vm_ok root s \<and> map_pages root 0x400000 0x1000 0x87000000 7 s = Inr (0, s') \<and>
     vm_ok root s' \<and> pte_of (vmem s') root 0x400010 = PA2PTE 0x87000000 OR 7 OR PTE_V \<and>
     pte_of (vmem s') root 0x401000 = 0"
proof -
  from fresh_space obtain root s where s: "vm_ok root s" "page_supply s = 31"
    "\<And>va. pte_of (vmem s) root va = 0" by blast
  have r: "range_ok 0x400000 0x1000" "range_pages 0x400000 0x1000 = 1"
    by (simp_all add: range_ok_def range_pages_def)
  have d: "ROUNDDOWN 0x400000 PGSIZE = 0x400000" "ROUNDDOWN 0x400010 PGSIZE = 0x400000"
    by (simp_all add: word_unat_eq_iff unat_ROUNDDOWN_page)
  have "needs (vmem s) root (page_list 0x400000 1) \<le> page_supply s"
    using needs_one_page [of "vmem s" root "0x400000"] s(2) by simp
  then obtain s' where s': "map_pages root 0x400000 0x1000 0x87000000 7 s = Inr (0, s')"
    "updated root (mapped 0x400000 1 0x87000000 7 (pte_of (vmem s) root)) s s'"
    using map_pages_correct [OF s(1) r(1), where pa = "0x87000000" and perm = 7] s(3) r(2) d by auto
  then have "vm_ok root s'" and f: "\<And>va. va < MAXVA \<Longrightarrow> pte_of (vmem s') root va = mapped 0x400000 1 0x87000000 7 (pte_of (vmem s) root) va"
    by (auto simp: updated_def)
  moreover have "pte_of (vmem s') root 0x400010 = PA2PTE 0x87000000 OR 7 OR PTE_V"
    using f [of "0x400010"] d by (simp add: mapped_def MAXVA_def word_less_iff_unat push_bit_eq_mult)
  moreover have "pte_of (vmem s') root 0x401000 = 0"
    using f [of "0x401000"] s(3) by (simp add: mapped_def MAXVA_def word_less_iff_unat push_bit_eq_mult)
  ultimately show ?thesis using s(1) s'(1) by blast
qed

section \<open>The interface of an address space\<close>

text \<open>What a client of the page table relies on: the entries as a function, mapping one page
  changes the entry of that page only, and translation reads the entry.\<close>

locale page_map =
  fixes ok :: "'s \<Rightarrow> bool"
    and entry :: "'s \<Rightarrow> uint64 \<Rightarrow> pte_t"
    and room :: "uint64 \<Rightarrow> 's \<Rightarrow> bool"
    and map_page :: "uint64 \<Rightarrow> uint64 \<Rightarrow> uint64 \<Rightarrow> 's \<Rightarrow> 's res"
    and translate :: "uint64 \<Rightarrow> 's \<Rightarrow> (uint64 \<times> 's) res"
  assumes map_page_ok: "ok s \<Longrightarrow> page_aligned va \<Longrightarrow> 0 < va \<Longrightarrow> va < MAXVA \<Longrightarrow> room va s \<Longrightarrow>
      \<not> pte_valid (entry s va) \<Longrightarrow>
      \<exists>s'. map_page va pa perm s = Inr s' \<and> ok s' \<and>
        (\<forall>va'<MAXVA. entry s' va' = (if same_page va va' then PA2PTE pa OR perm OR PTE_V else entry s va'))"
    and translate_ok: "ok s \<Longrightarrow> 0 < va \<Longrightarrow> va < MAXVA \<Longrightarrow>
      translate va s = Inr (if pte_valid (entry s va) then PTE2PA (entry s va) OR (va AND (PGSIZE - 1)) else 0, s)"

context page_map
begin

lemma map_then_translate:
  assumes "ok s" "page_aligned va" "0 < va" "va < MAXVA" "room va s" "\<not> pte_valid (entry s va)"
    and pa: "page_aligned pa" "take_bit 10 perm = perm"
  shows "\<exists>s'. map_page va pa perm s = Inr s' \<and> ok s' \<and>
    (\<forall>va'. 0 < va' \<longrightarrow> va' < MAXVA \<longrightarrow>
       (if same_page va va' then translate va' s' = Inr (pa OR (va' AND (PGSIZE - 1)), s')
        else map_sum id fst (translate va' s') = map_sum id fst (translate va' s)))"
proof -
  from map_page_ok [OF assms(1-6), of pa perm] obtain s' where s': "map_page va pa perm s = Inr s'" "ok s'"
    "\<And>va'. va' < MAXVA \<Longrightarrow> entry s' va' = (if same_page va va' then PA2PTE pa OR perm OR PTE_V else entry s va')"
    by blast
  have "take_bit 10 (perm OR PTE_V) = perm OR PTE_V" using pa(2) PTE_V_low by (simp add: take_bit_or)
  then have "PTE2PA (PA2PTE pa OR perm OR PTE_V) = pa"
    using PTE2PA_PA2PTE [OF pa(1), of "perm OR PTE_V"] by (simp add: or.assoc)
  moreover have "pte_valid (PA2PTE pa OR perm OR PTE_V)" by simp
  ultimately show ?thesis using s' translate_ok [OF s'(2)] translate_ok [OF assms(1)]
    by (intro exI [of _ s']) simp
qed

end

text \<open>The page table of \<^verbatim>\<open>vmm.c\<close> is such an address space: \<^verbatim>\<open>user_vm_map\<close> of one page and
  \<^verbatim>\<open>user_va_to_pa\<close>.\<close>

lemma range_one_page:
  assumes "page_aligned va" "0 < va" "va < MAXVA"
  shows "range_ok va PGSIZE" "range_pages va PGSIZE = 1" "ROUNDDOWN va PGSIZE = va"
proof -
  obtain k where k: "unat va = 4096 * k" using assms(1) by (auto simp: page_aligned_unat elim: dvdE)
  have "0 < k" using assms(2) k by (auto simp: word_less_iff_unat)
  moreover have "k < 2 ^ 26" using assms(3) k by (simp add: unat_less_maxva)
  then have "Suc k \<le> 2 ^ 26" by simp
  then have "4096 * Suc k \<le> 4096 * 2 ^ 26" by (rule mult_le_mono2)
  ultimately show "range_ok va PGSIZE" using k by (simp add: range_ok_def)
  have "(4096 * k + 4096 - 1) div 4096 = k" by (rule div_nat_eqI) simp_all
  then show "range_pages va PGSIZE = 1" by (simp add: range_pages_def k)
  show "ROUNDDOWN va PGSIZE = va" using k by (simp add: word_unat_eq_iff unat_ROUNDDOWN_page)
qed

lemma user_vm_map_page:
  assumes "vm_ok root s" "page_aligned va" "0 < va" "va < MAXVA"
    and "missing_tables (vmem s) root va \<le> page_supply s" "\<not> pte_valid (pte_of (vmem s) root va)"
  shows "\<exists>s'. user_vm_map root va PGSIZE pa perm s = Inr s' \<and> vm_ok root s' \<and>
    (\<forall>va'<MAXVA. pte_of (vmem s') root va' =
       (if same_page va va' then PA2PTE pa OR perm OR PTE_V else pte_of (vmem s) root va')) \<and>
    page_supply s' = page_supply s - missing_tables (vmem s) root va \<and>
    updated root (pte_of (vmem s') root) s s'"
proof -
  note r = range_one_page [OF assms(2-4)]
  have n: "needs (vmem s) root [va] = missing_tables (vmem s) root va"
    using needs_one [of va "vmem s" root] by (simp add: needs_def walk_paths_def disj_commute)
  have un: "\<not> pte_valid (pte_of (vmem s) root va')" if "va' < MAXVA" "unat va \<le> unat va'" "unat va' < unat va + 4096" for va'
  proof -
    have "same_page va va'" using same_page_range [OF assms(2,4) that(1)] that by simp
    with assms(6) show ?thesis using same_page_entry [of va va'] by simp
  qed
  obtain s' where s': "map_pages root va PGSIZE pa perm s = Inr (0, s')"
    "updated root (mapped va 1 pa perm (pte_of (vmem s) root)) s s'"
    "page_supply s' = page_supply s - missing_tables (vmem s) root va"
    using map_pages_correct' [OF assms(1) r(1), where pa = pa and perm = perm] r(2,3) n un assms(5) by auto
  have f: "mapped va 1 pa perm (pte_of (vmem s) root) va' =
      (if same_page va va' then PA2PTE pa OR perm OR PTE_V else pte_of (vmem s) root va')" if "va' < MAXVA" for va'
    using rounddown_same [OF assms(2), of va'] by (auto simp: mapped_def same_page_range [OF assms(2,4) that])
  have "updated root (pte_of (vmem s') root) s s'" using s'(2) by (simp add: updated_def)
  then show ?thesis using s' f by (auto simp: user_vm_map_def updated_def)
qed

lemma user_va_to_pa_eq:
  assumes "vm_ok root s" "0 < va" "va < MAXVA"
  shows "user_va_to_pa root va s =
    Inr (if pte_valid (pte_of (vmem s) root va) then PTE2PA (pte_of (vmem s) root va) OR (va AND (PGSIZE - 1)) else 0, s)"
proof -
  have wf: "pt_wf (vmem s) root" using assms(1) by (simp add: vm_ok_def)
  show ?thesis
    using page_walk_noalloc [OF wf assms(2,3)] pte_addr_nz [OF wf leaf_path_ok(1) _ PX_less, of va]
    by (auto simp: user_va_to_pa_def mem_read_def pte_of_def split: option.splits)
qed

interpretation user_space: page_map "vm_ok root" "\<lambda>s. pte_of (vmem s) root"
    "\<lambda>va s. missing_tables (vmem s) root va \<le> page_supply s"
    "\<lambda>va pa perm. user_vm_map root va PGSIZE pa perm" "user_va_to_pa root" for root
proof (unfold_locales, goal_cases)
  case (1 s va pa perm)
  from user_vm_map_page [OF this] show ?case by blast
next
  case (2 s va)
  then show ?case by (rule user_va_to_pa_eq)
qed

text \<open>C22: After \<^verbatim>\<open>user_vm_map\<close> of a page-aligned frame at an unmapped page,
  \<^verbatim>\<open>user_va_to_pa\<close> translates every address of that page to the same offset in the frame and
  every other address as before.\<close>

theorem user_vm_map_translates:
  assumes "vm_ok root s" and "page_aligned va" and "0 < va" and "va < MAXVA"
    and "missing_tables (vmem s) root va \<le> page_supply s" and "\<not> pte_valid (pte_of (vmem s) root va)"
    and "page_aligned pa" and "take_bit 10 perm = perm"
  shows "\<exists>s'. user_vm_map root va PGSIZE pa perm s = Inr s' \<and> vm_ok root s' \<and>
    (\<forall>va'. 0 < va' \<longrightarrow> va' < MAXVA \<longrightarrow>
       (if same_page va va' then user_va_to_pa root va' s' = Inr (pa OR (va' AND (PGSIZE - 1)), s')
        else map_sum id fst (user_va_to_pa root va' s') = map_sum id fst (user_va_to_pa root va' s)))"
  by (rule user_space.map_then_translate [OF assms])

lemma missing_le_2: "missing_tables m root va \<le> 2"
  by (simp add: missing_tables_def missing_def)

lemma small_va: "(0x400000 :: uint64) < MAXVA" "(0x400010 :: uint64) < MAXVA" "(0x401000 :: uint64) < MAXVA"
  by (simp_all add: unat_less_maxva)

theorem user_vm_map_translates_witness:
  "\<exists>root s s'. vm_ok root s \<and> user_vm_map root 0x400000 PGSIZE 0x87000000 7 s = Inr s' \<and>
     user_va_to_pa root 0x400010 s' = Inr (0x87000010, s') \<and>
     map_sum id fst (user_va_to_pa root 0x401000 s') = Inr 0"
proof -
  from fresh_space obtain root s where s: "vm_ok root s" "page_supply s = 31"
    "\<And>va. pte_of (vmem s) root va = 0" by blast
  have al: "page_aligned 0x400000" "page_aligned 0x87000000" by (simp_all add: page_aligned_unat)
  have sp: "same_page 0x400000 0x400010" "\<not> same_page 0x400000 0x401000"
    using same_page_range [OF al(1) small_va(1)] small_va by auto
  have "missing_tables (vmem s) root 0x400000 \<le> page_supply s"
    using missing_le_2 [of "vmem s" root "0x400000"] s(2) by simp
  then obtain s' where s': "user_vm_map root 0x400000 PGSIZE 0x87000000 7 s = Inr s'"
    "\<And>va'. 0 < va' \<Longrightarrow> va' < MAXVA \<Longrightarrow>
       (if same_page 0x400000 va' then user_va_to_pa root va' s' = Inr (0x87000000 OR (va' AND (PGSIZE - 1)), s')
        else map_sum id fst (user_va_to_pa root va' s') = map_sum id fst (user_va_to_pa root va' s))"
    using user_vm_map_translates [OF s(1) al(1) _ small_va(1) _ _ al(2), of 7] s(3) by auto
  have "user_va_to_pa root 0x400010 s' = Inr (0x87000010, s')"
    using s'(2) [of "0x400010"] small_va sp by (simp add: PGSIZE_def)
  moreover have "map_sum id fst (user_va_to_pa root 0x401000 s') = Inr 0"
    using s'(2) [of "0x401000"] small_va sp s(3) user_va_to_pa_eq [OF s(1), of "0x401000"] by simp
  ultimately show ?thesis using s(1) s'(1) by blast
qed

lemma lookup_pa_eq:
  assumes "vm_ok root s"
  shows "lookup_pa root va s =
    (if va \<ge> MAXVA then Inr (0, s)
     else if va = 0 then Inl (AssertFail ''va > 0 && va < MAXVA'')
     else let e = pte_of (vmem s) root va in
       Inr (if pte_valid e \<and> (e AND PTE_R \<noteq> 0 \<or> e AND PTE_W \<noteq> 0) then PTE2PA e else 0, s))"
proof -
  have wf: "pt_wf (vmem s) root" using assms by (simp add: vm_ok_def)
  consider "va \<ge> MAXVA" | "va = 0" "va < MAXVA" | "0 < va" "va < MAXVA"
    by (metis not_le word_gt_0)
  then show ?thesis
  proof cases
    case 2
    then show ?thesis by (simp add: lookup_pa_def page_walk_def not_le guardE_def)
  next
    case 3
    then show ?thesis
      using page_walk_noalloc [OF wf 3] pte_addr_nz [OF wf leaf_path_ok(1) _ PX_less, of va]
      by (auto simp: lookup_pa_def mem_read_def pte_of_def Let_def split: option.splits)
  qed (simp add: lookup_pa_def)
qed

text \<open>\<^verbatim>\<open>lookup_pa\<close> returns the frame of a mapped page that is readable or writable, and 0
  for every other address below \<^verbatim>\<open>MAXVA\<close> as well as for every address from \<^verbatim>\<open>MAXVA\<close> on; address
  0 trips the assertion of \<^verbatim>\<open>page_walk\<close>. The state is never changed.\<close>

lemma lookup_pa_spec:
  assumes "vm_ok root s"
  shows "lookup_pa root va s =
    (if va \<ge> MAXVA then Inr (0, s)
     else if va = 0 then Inl (AssertFail ''va > 0 && va < MAXVA'')
     else let e = pte_of (vmem s) root va in
       Inr (if pte_valid e \<and> (e AND PTE_R \<noteq> 0 \<or> e AND PTE_W \<noteq> 0) then PTE2PA e else 0, s))"
  by (rule lookup_pa_eq [OF assms])

lemma lookup_pa_spec_witness:
  "\<exists>root s. vm_ok root s \<and> lookup_pa root 0x400000 s = Inr (0, s) \<and> lookup_pa root MAXVA s = Inr (0, s)"
proof -
  from fresh_space obtain root s where s: "vm_ok root s" "\<And>va. pte_of (vmem s) root va = 0" by blast
  have "lookup_pa root 0x400000 s = Inr (0, s)"
    using lookup_pa_spec [OF s(1), of "0x400000"] small_va(1) s(2) by (simp add: not_le [symmetric])
  moreover have "lookup_pa root MAXVA s = Inr (0, s)" using lookup_pa_spec [OF s(1), of MAXVA] by simp
  ultimately show ?thesis using s(1) by blast
qed

section \<open>Unmapping\<close>

lemma unmap_one_effect:
  assumes wf: "pt_wf (vmem s) root" and va: "0 < va" "va < MAXVA"
  shows "case unmap_one root va free s of
      Inl e \<Rightarrow> free \<and> pte_valid (pte_of (vmem s) root va) \<and> vm_pfree (PTE2PA (pte_of (vmem s) root va)) s = Inl e
    | Inr s' \<Rightarrow> pt_wf (vmem s') root \<and>
        (\<forall>va'. pte_of (vmem s') root va' =
           (if same_page va va' \<and> pte_valid (pte_of (vmem s) root va) then 0 else pte_of (vmem s) root va')) \<and>
        (\<not> free \<longrightarrow> vpmm s' = vpmm s)"
proof (cases "table_at (vmem s) root (leaf_path va)")
  case None
  then show ?thesis using page_walk_noalloc [OF wf va] wf by (simp add: unmap_one_def pte_of_def)
next
  case (Some t)
  let ?a = "pte_addr t (PX 0 va)" and ?e = "pte_of (vmem s) root va"
  have nz: "?a \<noteq> 0" by (rule pte_addr_nz [OF wf leaf_path_ok(1) Some PX_less])
  have e: "vmem s ?a = ?e" using Some by (simp add: pte_of_def)
  note store = leaf_store_wf [OF wf leaf_path_ok Some PX_less [of 0 va], where v = 0]
    leaf_store_pte_of [OF wf Some, where v = 0]
  have w: "page_walk root va 0 False s = Inr (?a, s)" using page_walk_noalloc [OF wf va] Some by simp
  have mem: "vmem s' = vmem s" if "vm_pfree x s = Inr s'" for x s'
    using that by (auto simp: vm_pfree_def bindE_Inr_iff)
  show ?thesis
  proof (cases "pte_valid ?e")
    case False
    then show ?thesis using w e nz wf by (simp add: unmap_one_def mem_read_def)
  next
    case True
    then have "unmap_one root va free s =
        bindE (if free then vm_pfree (PTE2PA ?e) s else Inr s) (\<lambda>s. mem_write ?a 0 s)"
      using w e nz by (simp add: unmap_one_def mem_read_def)
    then show ?thesis using True store mem nz
      by (cases "if free then vm_pfree (PTE2PA ?e) s else Inr s") (auto simp: mem_write_def split: if_splits)
  qed
qed

text \<open>The entries after unmapping \<open>n\<close> pages from \<open>first\<close>.\<close>

definition unmapped :: "uint64 \<Rightarrow> nat \<Rightarrow> (uint64 \<Rightarrow> pte_t) \<Rightarrow> uint64 \<Rightarrow> pte_t" where
  "unmapped first n f va =
     (if unat first \<le> unat va \<and> unat va < unat first + n * 4096 \<and> pte_valid (f va) then 0 else f va)"

lemma unmap_loop_effect:
  assumes "pt_wf (vmem s) root" "page_aligned first" "0 < first"
    and "unat end_va \<le> unat first + n * 4096" "unat first + n * 4096 < unat end_va + 4096"
    and "unat first + n * 4096 \<le> 2 ^ 38"
  shows "(\<forall>s'. unmap_loop root first end_va free s = Inr s' \<longrightarrow> pt_wf (vmem s') root \<and>
      (\<forall>va<MAXVA. pte_of (vmem s') root va = unmapped first n (pte_of (vmem s) root) va)) \<and>
    (\<not> free \<longrightarrow> (\<exists>s'. unmap_loop root first end_va free s = Inr s' \<and> vpmm s' = vpmm s))"
  using assms
proof (induction n arbitrary: s first)
  case 0
  then have "unmap_loop root first end_va free s = Inr s"
    by (simp add: unmap_loop.simps word_less_iff_unat)
  then show ?case using 0 by (auto simp: unmapped_def)
next
  case (Suc n)
  have lt: "first < MAXVA" using Suc.prems(6) by (simp add: unat_less_maxva)
  have u: "unat (first + PGSIZE) = unat first + 4096" by (rule page_step [OF lt])
  have "first < end_va" using Suc.prems(5) by (simp add: word_less_iff_unat)
  then have step: "unmap_loop root first end_va free s =
      bindE (unmap_one root first free s) (\<lambda>s. unmap_loop root (first + PGSIZE) end_va free s)"
    by (subst unmap_loop.simps) simp
  note one = unmap_one_effect [OF Suc.prems(1,3) lt, of free]
  show ?case
  proof (cases "unmap_one root first free s")
    case (Inl e)
    then show ?thesis using step one by auto
  next
    case (Inr s1)
    let ?f = "pte_of (vmem s) root"
    from one Inr have s1: "pt_wf (vmem s1) root"
      "\<And>va. pte_of (vmem s1) root va = (if same_page first va \<and> pte_valid (?f first) then 0 else ?f va)"
      "\<not> free \<Longrightarrow> vpmm s1 = vpmm s" by auto
    have eq: "unmapped (first + PGSIZE) n (pte_of (vmem s1) root) va = unmapped first (Suc n) ?f va" if "va < MAXVA" for va
    proof (cases "same_page first va")
      case True
      then have "unat first \<le> unat va" "unat va < unat first + 4096" "?f va = ?f first"
        using same_page_range [OF Suc.prems(2) lt that] same_page_entry by auto
      then show ?thesis using s1(2) True by (simp add: unmapped_def u)
    next
      case False
      then have "\<not> (unat first \<le> unat va \<and> unat va < unat first + 4096)"
        using same_page_range [OF Suc.prems(2) lt that] by simp
      then show ?thesis using s1(2) False by (auto simp: unmapped_def u)
    qed
    have nxt: "page_aligned (first + PGSIZE)" "0 < first + PGSIZE"
      using page_aligned_step [OF Suc.prems(2) lt] u by (simp_all add: word_less_iff_unat)
    note IH = Suc.IH [OF s1(1) nxt, unfolded u]
    have "unmap_loop root first end_va free s = unmap_loop root (first + PGSIZE) end_va free s1"
      using step Inr by simp
    then show ?thesis using IH Suc.prems(4-6) s1(3) eq by (cases free) simp_all
  qed
qed

text \<open>C23: \<^verbatim>\<open>user_vm_unmap\<close> clears exactly the valid entries of the pages that the range
  touches and leaves every other entry alone; without \<^verbatim>\<open>free\<close> it always returns and does not
  touch the page allocator.\<close>

theorem user_vm_unmap_correct:
  assumes "pt_wf (vmem s) root" and "range_ok va size'"
  shows "(\<forall>s'. user_vm_unmap root va size' free s = Inr s' \<longrightarrow> pt_wf (vmem s') root \<and>
      (\<forall>va'<MAXVA. pte_of (vmem s') root va' =
         unmapped (ROUNDDOWN va PGSIZE) (range_pages va size') (pte_of (vmem s) root) va')) \<and>
    (\<not> free \<longrightarrow> (\<exists>s'. user_vm_unmap root va size' free s = Inr s' \<and> vpmm s' = vpmm s))"
proof -
  note b = range_bounds [OF assms(2)]
  from assms(2) have r: "4096 \<le> unat va" "0 < unat size'" "unat va + unat size' \<le> 2 ^ 38"
    by (auto simp: range_ok_def)
  have e: "unat (va + size') = unat va + unat size'" using r(3) by (subst unat_add_noof) simp_all
  have "unat (va + size' - 1) = unat va + unat size' - 1"
    using e r by (subst unat_sub_le) (simp_all add: word_le_iff_unat)
  then have "unat (ROUNDDOWN (va + size' - 1) PGSIZE) = (unat va + unat size' - 1) div 4096 * 4096"
    by (simp add: unat_ROUNDDOWN_page)
  then have l: "unat (ROUNDDOWN va PGSIZE) + range_pages va size' * 4096 =
      (unat va + unat size' - 1) div 4096 * 4096 + 4096" using b(2) by simp
  have "(unat va + unat size' - 1) div 4096 * 4096 \<le> unat va + unat size' - 1" by (rule div_times_less_eq_dividend)
  moreover have "unat va + unat size' - 1 < (unat va + unat size' - 1) div 4096 * 4096 + 4096"
    using div_mult_mod_eq [of "unat va + unat size' - 1" 4096] mod_less_divisor [of 4096 "unat va + unat size' - 1"] by linarith
  ultimately show ?thesis
    unfolding user_vm_unmap_def using r(2) e l b(1,3)
    by (intro unmap_loop_effect [OF assms(1) page_aligned_ROUNDDOWN]) auto
qed

theorem user_vm_unmap_correct_witness:
  "\<exists>root s s'. pt_wf (vmem s) root \<and> user_vm_unmap root 0x400000 0x1000 False s = Inr s' \<and>
     pte_of (vmem s') root 0x400010 = 0"
proof -
  from fresh_space obtain root s where s: "vm_ok root s" "\<And>va. pte_of (vmem s) root va = 0" by blast
  have wf: "pt_wf (vmem s) root" using s(1) by (simp add: vm_ok_def)
  have r: "range_ok 0x400000 0x1000" by (simp add: range_ok_def)
  from user_vm_unmap_correct [OF wf r, of False] s(2) small_va wf show ?thesis
    by (fastforce simp: unmapped_def)
qed

section \<open>The kernel's address space\<close>

lemma page_list_append: "page_list va (m + n) = page_list va m @ page_list (va + word_of_nat m * PGSIZE) n"
  by (induction m arbitrary: va) (simp_all add: algebra_simps)

lemma page_list_memb: "k < n \<Longrightarrow> va + word_of_nat k * PGSIZE \<in> set (page_list va n)"
proof (induction n arbitrary: va k)
  case (Suc n)
  show ?case
  proof (cases k)
    case (Suc j)
    then have "va + PGSIZE + word_of_nat j * PGSIZE \<in> set (page_list (va + PGSIZE) n)"
      using Suc.IH Suc.prems by simp
    then show ?thesis using Suc by (simp add: algebra_simps)
  qed simp
qed simp

text \<open>The direct mapping of 128 MiB needs a middle table and 64 leaf tables.\<close>

lemma unat_PX: "unat (PX l va) = unat va div 2 ^ (12 + 9 * l) mod 512"
proof -
  have m: "PXMASK = mask 9" by (simp add: PXMASK_def mask_eq_exp_minus_1)
  have "PX l va = take_bit 9 (drop_bit (12 + 9 * l) va)"
    by (simp add: PX_def PXSHIFT_def PGSHIFT_def m take_bit_eq_mask)
  then show ?thesis
    by (simp add: unsigned_take_bit_eq unat_drop_bit_eq) (simp add: take_bit_eq_mod drop_bit_eq_div)
qed

lemma kernel_leaf_index:
  assumes "k < 64"
  shows "unat (PX 1 (KERN_BASE + word_of_nat (512 * k) * PGSIZE)) = k"
proof -
  have nat: "unat (word_of_nat n :: uint64) = n" if "n < 2 ^ 64" for n using that by (simp add: unat_of_nat)
  have k: "unat (word_of_nat (512 * k) :: uint64) = 512 * k" using assms by (intro nat) simp
  have "unat (word_of_nat (512 * k) * PGSIZE) = k * 2097152"
    using assms by (subst unat_mult_noof) (simp_all add: k del: of_nat_mult)
  then have "unat (KERN_BASE + word_of_nat (512 * k) * PGSIZE) = (1024 + k) * 2097152"
    using assms by (subst unat_add_noof) (simp_all add: KERN_BASE_def del: of_nat_mult)
  moreover have "(1024 + k) mod 512 = k" using assms mod_mult_self1 [of k 2 512] by (simp add: add.commute)
  ultimately show ?thesis by (simp add: unat_PX del: of_nat_mult)
qed

lemma kernel_needs:
  assumes "\<And>p. path_ok p \<Longrightarrow> table_at m root p = (if p = Dir then Some root else None)"
  shows "64 \<le> needs m root (page_list KERN_BASE 32768)"
proof -
  let ?va = "\<lambda>k :: nat. KERN_BASE + word_of_nat (512 * k) * PGSIZE"
  let ?P = "(\<lambda>k. leaf_path (?va k)) ` {0..<64}"
  have "inj_on (\<lambda>k. PX 1 (?va k)) {0..<64}"
    by (rule inj_onI) (metis atLeastLessThan_iff kernel_leaf_index)
  then have "inj_on (\<lambda>k. leaf_path (?va k)) {0..<64}"
    unfolding inj_on_def leaf_path_def by blast
  then have "card ?P = 64" by (simp add: card_image)
  moreover have "?P \<subseteq> {p \<in> walk_paths (page_list KERN_BASE 32768). table_at m root p = None}"
  proof -
    have "?va k \<in> set (page_list KERN_BASE 32768)" if "k < 64" for k
      using that by (intro page_list_memb) simp
    moreover have "table_at m root (leaf_path va) = None" for va
      using assms [OF leaf_path_ok(1)] by (simp add: leaf_path_def)
    ultimately show ?thesis by (auto simp: walk_paths_def)
  qed
  then have "card ?P \<le> needs m root (page_list KERN_BASE 32768)"
    unfolding needs_def by (rule card_mono [rotated]) (rule finite_subset [OF _ finite_walk_paths], blast)
  ultimately show ?thesis by simp
qed

lemma aligned_range:
  assumes "page_aligned va" "page_aligned (va + size')" "4096 \<le> unat va" "0 < unat size'" "unat va + unat size' \<le> 2 ^ 38"
  shows "range_ok va size'" "ROUNDDOWN va PGSIZE = va" "range_pages va size' * 4096 = unat size'"
proof -
  show r: "range_ok va size'" using assms by (simp add: range_ok_def)
  show f: "ROUNDDOWN va PGSIZE = va" by (rule rounddown_same [OF assms(1)]) simp_all
  obtain a where a: "unat va = 4096 * a" using assms(1) by (auto simp: page_aligned_unat elim: dvdE)
  have e: "unat (va + size') = unat va + unat size'" using assms(5) by (subst unat_add_noof) simp_all
  obtain b where b: "unat va + unat size' = 4096 * b" using assms(2) e by (auto simp: page_aligned_unat elim: dvdE)
  have "a < b" using a b assms(4) by simp
  then have "(4096 * b - 1) div 4096 = b - 1" by (intro div_nat_eqI) auto
  then have "range_pages va size' = b - a" unfolding range_pages_def b using a \<open>a < b\<close> by simp
  then show "range_pages va size' * 4096 = unat size'" using a b by (simp add: diff_mult_distrib)
qed

lemma kern_vm_map_spin:
  assumes "vm_ok root s" "range_ok va size'"
    and "page_supply s < needs (vmem s) root (page_list (ROUNDDOWN va PGSIZE) (range_pages va size'))"
    and "\<And>va'. va' < MAXVA \<Longrightarrow> unat (ROUNDDOWN va PGSIZE) \<le> unat va' \<Longrightarrow> \<not> pte_valid (pte_of (vmem s) root va')"
  shows "kern_vm_map root va pa size' perm s = Inl Spin"
  using map_loop_spin [OF assms(1) page_aligned_ROUNDDOWN range_bounds [OF assms(2)] assms(3)] assms(4)
  by (simp add: kern_vm_map_def map_pages_def)

lemma kernel_range:
  assumes "page_aligned etext" "0x80000000 < unat etext" "unat etext < 0x88000000"
  shows "range_ok KERN_BASE (etext - KERN_BASE)" "range_ok etext (PHYS_TOP - etext)"
    "ROUNDDOWN KERN_BASE PGSIZE = KERN_BASE" "ROUNDDOWN etext PGSIZE = etext"
    "KERN_BASE + word_of_nat (range_pages KERN_BASE (etext - KERN_BASE)) * PGSIZE = etext"
    "range_pages KERN_BASE (etext - KERN_BASE) + range_pages etext (PHYS_TOP - etext) = 32768"
    "unat KERN_BASE + range_pages KERN_BASE (etext - KERN_BASE) * 4096 = unat etext"
proof -
  have u: "unat KERN_BASE = 0x80000000" "unat PHYS_TOP = 0x88000000"
    by (simp_all add: KERN_BASE_def PHYS_TOP_def DRAM_BASE_def PKE_MAX_ALLOWABLE_RAM_def)
  have al: "page_aligned KERN_BASE" "page_aligned PHYS_TOP" by (simp_all add: page_aligned_unat u)
  have d1: "unat (etext - KERN_BASE) = unat etext - 0x80000000"
    using assms(2) by (simp add: unat_sub_le word_le_iff_unat u)
  have d2: "unat (PHYS_TOP - etext) = 0x88000000 - unat etext"
    using assms(3) by (simp add: unat_sub_le word_le_iff_unat u)
  note r1 = aligned_range [OF al(1), of "etext - KERN_BASE"]
  note r2 = aligned_range [OF assms(1), of "PHYS_TOP - etext"]
  show "range_ok KERN_BASE (etext - KERN_BASE)" "ROUNDDOWN KERN_BASE PGSIZE = KERN_BASE"
    using r1 assms d1 u by simp_all
  show "range_ok etext (PHYS_TOP - etext)" "ROUNDDOWN etext PGSIZE = etext" using r2 assms d2 u al(2) by simp_all
  have n1: "range_pages KERN_BASE (etext - KERN_BASE) * 4096 = unat etext - 0x80000000"
    using r1(3) assms d1 u by simp
  have n2: "range_pages etext (PHYS_TOP - etext) * 4096 = 0x88000000 - unat etext"
    using r2(3) assms d2 u al(2) by simp
  show "range_pages KERN_BASE (etext - KERN_BASE) + range_pages etext (PHYS_TOP - etext) = 32768"
    using n1 n2 assms by simp
  show "unat KERN_BASE + range_pages KERN_BASE (etext - KERN_BASE) * 4096 = unat etext" using n1 u assms by simp
  have small: "range_pages KERN_BASE (etext - KERN_BASE) < 2 ^ 64" using n1 assms by simp
  have "unat (word_of_nat (range_pages KERN_BASE (etext - KERN_BASE)) * PGSIZE) = unat etext - 0x80000000"
    using small n1 assms by (subst unat_mult_noof) (simp_all add: unat_of_nat)
  then show "KERN_BASE + word_of_nat (range_pages KERN_BASE (etext - KERN_BASE)) * PGSIZE = etext"
    unfolding word_unat_eq_iff using u assms by (subst unat_add_noof) simp_all
qed

text \<open>\<^verbatim>\<open>kern_vm_init\<close> never returns on a machine whose page cache holds at most 64 pages (after
  boot it holds 32): the direct mapping of the 128 MiB needs more page tables than the cache can
  supply, and the refill of the cache waits for its own lock.\<close>

lemma kern_vm_init_spins:
  assumes "pmm_ok (vpmm s)" and "page_supply s \<le> 64"
    and "page_aligned etext" and "KERN_BASE < etext" and "etext < PHYS_TOP"
  shows "kern_vm_init etext s = Inl Spin"
proof (cases "cached_pages (vpmm s) = []")
  case True
  then show ?thesis using vm_alloc_page_empty [OF assms(1)] by (simp add: kern_vm_init_def)
next
  case False
  from new_directory [OF assms(1) False] obtain root p' where
    n: "vm_alloc_page s = Inr (root, s\<lparr>vpmm := p'\<rparr>)" "root \<noteq> 0"
      "vm_ok root (s\<lparr>vpmm := p', vmem := zero_frame root (vmem s)\<rparr>)" "length (cached_pages p') = page_supply s - 1"
      "\<And>p. path_ok p \<Longrightarrow> table_at (zero_frame root (vmem s)) root p = (if p = Dir then Some root else None)"
      "\<And>va. pte_of (zero_frame root (vmem s)) root va = 0" by blast
  define s0 where "s0 = s\<lparr>vpmm := p', vmem := zero_frame root (vmem s)\<rparr>"
  let ?n1 = "range_pages KERN_BASE (etext - KERN_BASE)" and ?n2 = "range_pages etext (PHYS_TOP - etext)"
  let ?rx = "prot_to_type (PROT_READ OR PROT_EXEC) False" and ?rw = "prot_to_type (PROT_READ OR PROT_WRITE) False"
  have et: "0x80000000 < unat etext" "unat etext < 0x88000000"
    using assms(4,5) by (simp_all add: word_less_iff_unat KERN_BASE_def PHYS_TOP_def DRAM_BASE_def PKE_MAX_ALLOWABLE_RAM_def)
  note k = kernel_range [OF assms(3) et]
  have ok0: "vm_ok root s0" and zero: "\<And>va. pte_of (vmem s0) root va = 0" using n(3,6) by (simp_all add: s0_def)
  have sup0: "page_supply s0 < 64" using n(4) assms(2) False by (simp add: s0_def)
  have total: "64 \<le> needs (vmem s0) root (page_list KERN_BASE ?n1 @ page_list etext ?n2)"
    using kernel_needs [of "vmem s0" root] n(5) page_list_append [of KERN_BASE ?n1 ?n2] k(5,6)
    by (simp add: s0_def)
  have body: "kern_vm_init etext s =
    bindE (kern_vm_map root KERN_BASE DRAM_BASE (etext - KERN_BASE) ?rx s0) (\<lambda>s.
    bindE (lookup_pa root KERN_BASE s) (\<lambda>(_, s).
    bindE (kern_vm_map root etext etext (PHYS_TOP - etext) ?rw s) (\<lambda>s.
    bindE (lookup_pa root etext s) (\<lambda>(_, s).
    Inr (s\<lparr>g_kernel_pagetable := root\<rparr>)))))"
    using n(1,2) by (simp add: kern_vm_init_def page_ref_share_def s0_def Let_def)
  show ?thesis
  proof (cases "needs (vmem s0) root (page_list KERN_BASE ?n1) \<le> page_supply s0")
    case False
    then have "kern_vm_map root KERN_BASE DRAM_BASE (etext - KERN_BASE) ?rx s0 = Inl Spin"
      using zero k(3) by (intro kern_vm_map_spin [OF ok0 k(1)]) simp_all
    then show ?thesis using body by simp
  next
    case True
    from map_loop_ok [OF ok0 page_aligned_ROUNDDOWN range_bounds [OF k(1)], of DRAM_BASE ?rx] True zero k(3) obtain s1 where
      s1: "map_pages root KERN_BASE (etext - KERN_BASE) DRAM_BASE ?rx s0 = Inr (0, s1)"
        "updated root (mapped KERN_BASE ?n1 DRAM_BASE ?rx (pte_of (vmem s0) root)) s0 s1"
        "page_supply s1 = page_supply s0 - needs (vmem s0) root (page_list KERN_BASE ?n1)"
        "\<And>vas. needs (vmem s0) root (page_list KERN_BASE ?n1 @ vas) =
          needs (vmem s0) root (page_list KERN_BASE ?n1) + needs (vmem s1) root vas"
      by (auto simp: map_pages_def)
    have ok1: "vm_ok root s1" using s1(2) by (simp add: updated_def)
    have "pte_of (vmem s1) root va = 0" if "va < MAXVA" "unat etext \<le> unat va" for va
      using s1(2) that zero k(7) by (simp add: updated_def mapped_def)
    moreover have "page_supply s1 < needs (vmem s1) root (page_list etext ?n2)"
      using s1(3) s1(4) [of "page_list etext ?n2"] total sup0 True by simp
    ultimately have "kern_vm_map root etext etext (PHYS_TOP - etext) ?rw s1 = Inl Spin"
      using k(4) by (intro kern_vm_map_spin [OF ok1 k(2)]) simp_all
    moreover have "\<exists>x. lookup_pa root KERN_BASE s1 = Inr (x, s1)"
    proof -
      have "KERN_BASE < MAXVA" "KERN_BASE \<noteq> 0" by (simp_all add: unat_less_maxva KERN_BASE_def)
      then have "0 < KERN_BASE" "KERN_BASE < MAXVA" by (simp_all add: word_gt_0)
      then show ?thesis using page_walk_noalloc [of s1 root KERN_BASE] ok1
          pte_addr_nz [of "vmem s1" root, OF _ leaf_path_ok(1) _ PX_less, of KERN_BASE]
        by (auto simp: lookup_pa_def vm_ok_def mem_read_def not_le split: option.splits)
    qed
    moreover have "kern_vm_map root KERN_BASE DRAM_BASE (etext - KERN_BASE) ?rx s0 = Inr s1"
      using s1(1) by (simp add: kern_vm_map_def)
    ultimately show ?thesis using body by auto
  qed
qed

lemma kern_vm_init_spins_witness:
  "page_supply boot_vm = 32 \<and> kern_vm_init 0x80008000 boot_vm = Inl Spin"
proof -
  have "page_aligned 0x80008000" "KERN_BASE < 0x80008000" "0x80008000 < PHYS_TOP"
    by (simp_all add: page_aligned_unat KERN_BASE_def PHYS_TOP_def DRAM_BASE_def PKE_MAX_ALLOWABLE_RAM_def)
  then show ?thesis using kern_vm_init_spins [of boot_vm "0x80008000"] booted_facts(2,5) by (simp add: boot_vm_def)
qed

end
