(* ===== verification/Pke_Kstate.thy ===== *)
theory Pke_Kstate
  imports Pke_Vmm_Thms
begin

text \<open>
  The state of the kernel above memory management: the process table of \<^verbatim>\<open>kernel/process.h\<close>, the
  current process and the ready queue, the trap registers, and the two kinds of structures that the
  kernel keeps in pages of its own, trap frames and region tables. A \<^verbatim>\<open>process *\<close> is an index
  into \<^verbatim>\<open>procs\<close>; a \<^verbatim>\<open>trapframe *\<close> and a \<^verbatim>\<open>mapped_region *\<close> are the address of the page that
  holds the structure.
\<close>

section \<open>Data\<close>

record trapframe =
  tf_regs :: riscv_regs
  kernel_sp :: uint64
  kernel_trap :: uint64
  epc :: uint64
  kernel_satp :: uint64

definition NPROC :: nat where "NPROC = 32"
definition MAX_HEAP_PAGES :: nat where "MAX_HEAP_PAGES = 32"

datatype proc_status = FREE | READY | RUNNING | BLOCKED | ZOMBIE

definition STACK_SEGMENT :: uint32 where "STACK_SEGMENT = 0"
definition CONTEXT_SEGMENT :: uint32 where "CONTEXT_SEGMENT = 1"
definition SYSTEM_SEGMENT :: uint32 where "SYSTEM_SEGMENT = 2"
definition HEAP_SEGMENT :: uint32 where "HEAP_SEGMENT = 3"
definition CODE_SEGMENT :: uint32 where "CODE_SEGMENT = 4"
definition DATA_SEGMENT :: uint32 where "DATA_SEGMENT = 5"

lemmas segment_defs = STACK_SEGMENT_def CONTEXT_SEGMENT_def SYSTEM_SEGMENT_def HEAP_SEGMENT_def
  CODE_SEGMENT_def DATA_SEGMENT_def

record mapped_region =
  mr_va :: uint64
  mr_npages :: uint32
  mr_seg_type :: uint32

record process_heap_manager =
  heap_top :: uint64
  heap_bottom :: uint64
  free_pages_address :: "uint64 list"
  free_pages_count :: uint32

record process =
  kstack :: uint64
  pagetable :: uint64
  tf_ptr :: uint64
  mapped_info :: uint64
  total_mapped_region :: nat
  user_heap :: process_heap_manager
  pid :: uint64
  status :: proc_status
  parent :: "nat option"
  queue_next :: "nat option"
  tick_count :: int

text \<open>What the kernel takes from elsewhere: the addresses of the linker and assembly symbols, the
  address of each process structure, and the reference counting functions \<^verbatim>\<open>get_page\<close> and
  \<^verbatim>\<open>get_page_ref\<close>, which no source file defines.\<close>

record externs =
  x_trap_vector :: uint64
  x_trap_handler :: uint64
  x_trap_sec_start :: uint64
  x_proc_addr :: "nat \<Rightarrow> uint64"
  x_get_page :: "uint64 \<Rightarrow> pmm \<Rightarrow> pmm res"
  x_get_page_ref :: "uint64 \<Rightarrow> pmm \<Rightarrow> int"

text \<open>Concrete externals, for examples: no reference counting, processes 1 KiB apart.\<close>

definition sample_externs :: externs where
  "sample_externs = \<lparr>x_trap_vector = 0x80002000, x_trap_handler = 0x80003000, x_trap_sec_start = 0x80002000,
     x_proc_addr = (\<lambda>i. 0x80008000 + 0x400 * word_of_nat i), x_get_page = (\<lambda>a s. Inr s),
     x_get_page_ref = (\<lambda>a s. 1)\<rparr>"

record kernel =
  kvm :: vmm
  procs :: "process list"
  current :: "nat option"
  ready_queue_head :: "nat option"
  tframes :: "uint64 \<Rightarrow> trapframe"
  minfos :: "uint64 \<Rightarrow> mapped_region list"
  stvec :: uint64
  satp :: uint64
  sepc :: uint64
  scause :: uint64
  stval :: uint64

abbreviation kpmm :: "kernel \<Rightarrow> pmm" where "kpmm s \<equiv> vpmm (kvm s)"
abbreviation kmem :: "kernel \<Rightarrow> uint64 \<Rightarrow> uint64" where "kmem s \<equiv> vmem (kvm s)"

section \<open>Zeroed structures\<close>

definition zero_regs :: riscv_regs where
  "zero_regs = \<lparr>r_ra = 0, r_sp = 0, r_gp = 0, r_tp = 0, r_t0 = 0, r_t1 = 0, r_t2 = 0, r_s0 = 0,
     r_s1 = 0, r_a0 = 0, r_a1 = 0, r_a2 = 0, r_a3 = 0, r_a4 = 0, r_a5 = 0, r_a6 = 0,
     r_a7 = 0, r_s2 = 0, r_s3 = 0, r_s4 = 0, r_s5 = 0, r_s6 = 0, r_s7 = 0, r_s8 = 0,
     r_s9 = 0, r_s10 = 0, r_s11 = 0, r_t3 = 0, r_t4 = 0, r_t5 = 0, r_t6 = 0\<rparr>"

definition zero_tf :: trapframe where
  "zero_tf = \<lparr>tf_regs = zero_regs, kernel_sp = 0, kernel_trap = 0, epc = 0, kernel_satp = 0\<rparr>"

definition zero_region :: mapped_region where
  "zero_region = \<lparr>mr_va = 0, mr_npages = 0, mr_seg_type = 0\<rparr>"

definition zero_heap :: process_heap_manager where
  "zero_heap = \<lparr>heap_top = 0, heap_bottom = 0, free_pages_address = replicate MAX_HEAP_PAGES 0,
     free_pages_count = 0\<rparr>"

definition zero_process :: process where
  "zero_process = \<lparr>kstack = 0, pagetable = 0, tf_ptr = 0, mapped_info = 0, total_mapped_region = 0,
     user_heap = zero_heap, pid = 0, status = FREE, parent = None, queue_next = None, tick_count = 0\<rparr>"

text \<open>A page holds \<^verbatim>\<open>PGSIZE / sizeof(mapped_region)\<close> region entries of 16 bytes.\<close>

definition REGIONS_PER_PAGE :: nat where "REGIONS_PER_PAGE = 256"

section \<open>Access\<close>

definition proc_at :: "nat \<Rightarrow> kernel \<Rightarrow> process res" where
  "proc_at i s = (if i < length (procs s) then Inr (procs s ! i) else Inl OutOfBounds)"

definition proc_upd :: "nat \<Rightarrow> (process \<Rightarrow> process) \<Rightarrow> kernel \<Rightarrow> kernel res" where
  "proc_upd i f s =
     (if i < length (procs s) then Inr (s\<lparr>procs := (procs s)[i := f (procs s ! i)]\<rparr>) else Inl OutOfBounds)"

definition tf_upd :: "uint64 \<Rightarrow> (trapframe \<Rightarrow> trapframe) \<Rightarrow> kernel \<Rightarrow> kernel res" where
  "tf_upd a f s =
     (if a = 0 then Inl NullDeref else Inr (s\<lparr>tframes := (tframes s)(a := f (tframes s a))\<rparr>))"

definition region_at :: "uint64 \<Rightarrow> nat \<Rightarrow> kernel \<Rightarrow> mapped_region res" where
  "region_at a i s =
     (if a = 0 then Inl NullDeref
      else if i < length (minfos s a) then Inr (minfos s a ! i) else Inl OutOfBounds)"

definition region_set :: "uint64 \<Rightarrow> nat \<Rightarrow> mapped_region \<Rightarrow> kernel \<Rightarrow> kernel res" where
  "region_set a i r s =
     (if a = 0 then Inl NullDeref
      else if i < length (minfos s a) then Inr (s\<lparr>minfos := (minfos s)(a := (minfos s a)[i := r])\<rparr>)
      else Inl OutOfBounds)"

text \<open>An operation on memory management inside the kernel.\<close>

definition with_vm :: "(vmm \<Rightarrow> ('a \<times> vmm) res) \<Rightarrow> kernel \<Rightarrow> ('a \<times> kernel) res" where
  "with_vm f s = bindE (f (kvm s)) (\<lambda>(x, v). Inr (x, s\<lparr>kvm := v\<rparr>))"

definition on_vm :: "(vmm \<Rightarrow> vmm res) \<Rightarrow> kernel \<Rightarrow> kernel res" where
  "on_vm f s = bindE (f (kvm s)) (\<lambda>v. Inr (s\<lparr>kvm := v\<rparr>))"

section \<open>Control flow\<close>

text \<open>A handler returns to its caller, leaves the kernel for user mode (with the trap frame and the
  page table register that \<^verbatim>\<open>return_to_user\<close> is called with), or fails.\<close>

datatype 'a flow = Returns 'a kernel | Resumes uint64 uint64 kernel | Fails kerror

definition lift_res :: "('a \<times> kernel) res \<Rightarrow> 'a flow" where
  "lift_res r = (case r of Inl e \<Rightarrow> Fails e | Inr (x, s) \<Rightarrow> Returns x s)"

fun bindF :: "'a flow \<Rightarrow> ('a \<Rightarrow> kernel \<Rightarrow> 'b flow) \<Rightarrow> 'b flow" where
  "bindF (Returns x s) f = f x s"
| "bindF (Resumes t a s) f = Resumes t a s"
| "bindF (Fails e) f = Fails e"

definition liftS :: "kernel res \<Rightarrow> (kernel \<Rightarrow> 'a flow) \<Rightarrow> 'a flow" where
  "liftS r f = (case r of Inl e \<Rightarrow> Fails e | Inr s \<Rightarrow> f s)"

lemma liftS_simps [simp]: "liftS (Inl e) f = Fails e" "liftS (Inr s) f = f s"
  by (simp_all add: liftS_def)

lemma lift_res_simps [simp]: "lift_res (Inl e) = Fails e" "lift_res (Inr (x, s)) = Returns x s"
  by (simp_all add: lift_res_def)

end
