(* ===== verification/Pke_Sched.thy ===== *)
theory Pke_Sched
  imports Pke_Kstate
begin

text \<open>
  The scheduler of \<^verbatim>\<open>kernel/sched.c\<close> and the switch to user mode of \<^verbatim>\<open>kernel/process.c\<close>. The
  ready queue is a singly linked list through \<^verbatim>\<open>queue_next\<close>; its abstraction is the list of
  process indices, on which insertion appends and \<^verbatim>\<open>schedule\<close> takes the head.
\<close>

section \<open>The operations\<close>

text \<open>The loop of \<^verbatim>\<open>insert_to_ready_queue\<close>: whether \<open>proc\<close> is found, and the process where the
  loop stops. A cyclic queue without \<open>proc\<close> is scanned for ever.\<close>

partial_function (option) queue_scan :: "(nat \<Rightarrow> nat option) \<Rightarrow> nat \<Rightarrow> nat \<Rightarrow> (bool \<times> nat) option" where
  "queue_scan nxt proc p =
     (case nxt p of None \<Rightarrow> Some (p = proc, p)
      | Some q \<Rightarrow> if p = proc then Some (True, p) else queue_scan nxt proc q)"

definition next_of :: "kernel \<Rightarrow> nat \<Rightarrow> nat option" where
  "next_of s i = queue_next (procs s ! i)"

definition insert_to_ready_queue :: "nat \<Rightarrow> kernel \<Rightarrow> kernel res" where
  "insert_to_ready_queue proc s =
     (case ready_queue_head s of
        None \<Rightarrow>
          bindE (proc_upd proc (\<lambda>p. p\<lparr>status := READY, queue_next := None\<rparr>) s) (\<lambda>s.
          Inr (s\<lparr>ready_queue_head := Some proc\<rparr>))
      | Some h \<Rightarrow>
          (case queue_scan (next_of s) proc h of
             None \<Rightarrow> Inl Spin
           | Some (found, p) \<Rightarrow>
               if found then Inr s
               else bindE (proc_upd p (\<lambda>q. q\<lparr>queue_next := Some proc\<rparr>) s) (\<lambda>s.
                    proc_upd proc (\<lambda>q. q\<lparr>status := READY, queue_next := None\<rparr>) s)))"

text \<open>\<^verbatim>\<open>switch_to\<close>, which ends in \<^verbatim>\<open>return_to_user\<close>.\<close>

definition switch_to :: "externs \<Rightarrow> nat option \<Rightarrow> kernel \<Rightarrow> unit flow" where
  "switch_to x proc s =
     (case proc of None \<Rightarrow> Fails (AssertFail ''proc'')
      | Some i \<Rightarrow>
          (case proc_at i s of Inl e \<Rightarrow> Fails e
           | Inr p \<Rightarrow>
               let s = s\<lparr>current := Some i\<rparr>;
                   s = s\<lparr>stvec := x_trap_vector x\<rparr> in
               liftS (tf_upd (tf_ptr p) (\<lambda>t. t\<lparr>kernel_sp := kstack p, kernel_satp := satp s,
                                              kernel_trap := x_trap_handler x\<rparr>) s) (\<lambda>s.
               let v = sstatus_reg (kpmm s);
                   v = v AND NOT SSTATUS_SPP;
                   v = v OR SSTATUS_SPIE;
                   s = s\<lparr>kvm := (kvm s)\<lparr>vpmm := (kpmm s)\<lparr>sstatus_reg := v\<rparr>\<rparr>\<rparr>;
                   s = s\<lparr>sepc := epc (tframes s (tf_ptr p))\<rparr>
               in Resumes (tf_ptr p) (MAKE_SATP (pagetable p)) s)))"

text \<open>\<^verbatim>\<open>schedule\<close>; with an empty queue it shuts the machine down when every process is free or a
  zombie and panics otherwise.\<close>

definition schedule :: "externs \<Rightarrow> kernel \<Rightarrow> unit flow" where
  "schedule x s =
     (case ready_queue_head s of
        None \<Rightarrow>
          let should_shutdown = (\<forall>p \<in> set (procs s). status p = FREE \<or> status p = ZOMBIE) in
          if should_shutdown then Fails (Shutdown 0)
          else Fails (Panic ''Not handled: we should let system wait for unfinished processes.'')
      | Some i \<Rightarrow>
          let s = s\<lparr>current := Some i\<rparr> in
          (case proc_at i s of Inl e \<Rightarrow> Fails e
           | Inr p \<Rightarrow>
               if status p \<noteq> READY then Fails (AssertFail ''current->status == READY'')
               else let s = s\<lparr>ready_queue_head := queue_next p\<rparr> in
                    liftS (proc_upd i (\<lambda>p. p\<lparr>status := RUNNING\<rparr>) s) (\<lambda>s.
                    switch_to x (Some i) s)))"

section \<open>The queue as a list\<close>

fun qpath :: "(nat \<Rightarrow> nat option) \<Rightarrow> nat option \<Rightarrow> nat list \<Rightarrow> bool" where
  "qpath nxt h [] \<longleftrightarrow> h = None"
| "qpath nxt h (i # is) \<longleftrightarrow> h = Some i \<and> qpath nxt (nxt i) is"

text \<open>A process that can be put on the queue, and the queue of a state: distinct ready processes
  linked in this order.\<close>

definition runnable :: "nat \<Rightarrow> kernel \<Rightarrow> bool" where
  "runnable i s \<longleftrightarrow> i < length (procs s) \<and> tf_ptr (procs s ! i) \<noteq> 0"

definition ready_queue :: "nat list \<Rightarrow> kernel \<Rightarrow> bool" where
  "ready_queue is s \<longleftrightarrow> distinct is \<and> (\<forall>i\<in>set is. runnable i s \<and> status (procs s ! i) = READY) \<and>
     qpath (next_of s) (ready_queue_head s) is"

lemma qpath_cong: "(\<And>i. i \<in> set is \<Longrightarrow> nxt' i = nxt i) \<Longrightarrow> qpath nxt' h is = qpath nxt h is"
  by (induction "is" arbitrary: h) auto

lemma qpath_snoc:
  assumes "qpath nxt h is" "is \<noteq> []" "distinct is" "j \<notin> set is"
  shows "qpath (nxt(last is := Some j, j := None)) h (is @ [j])"
  using assms
proof (induction "is" arbitrary: h)
  case (Cons i "is")
  show ?case
  proof (cases "is = []")
    case True
    then show ?thesis using Cons.prems by auto
  next
    case False
    then have "last is \<in> set is" by simp
    then have "i \<noteq> last is" "i \<noteq> j" using Cons.prems by auto
    then show ?thesis using Cons False by auto
  qed
qed simp

lemma queue_scan_None: "nxt p = None \<Longrightarrow> queue_scan nxt proc p = Some (p = proc, p)"
  by (subst queue_scan.simps) simp

lemma queue_scan_Some: "nxt p = Some q \<Longrightarrow> queue_scan nxt proc p = (if p = proc then Some (True, p) else queue_scan nxt proc q)"
  by (subst queue_scan.simps) simp

lemma queue_scan_path:
  assumes "qpath nxt (Some h) (h # is)"
  shows "queue_scan nxt proc h = Some (if proc \<in> set (h # is) then (True, proc) else (False, last (h # is)))"
  using assms
proof (induction "is" arbitrary: h)
  case Nil
  then show ?case by (auto simp: queue_scan_None)
next
  case (Cons j "is")
  then have "queue_scan nxt proc j = Some (if proc \<in> set (j # is) then (True, proc) else (False, last (j # is)))"
    by simp
  then show ?case using Cons.prems by (auto simp: queue_scan_Some)
qed

section \<open>Insertion and dispatch on the list\<close>

lemma proc_upd_ok: "i < length (procs s) \<Longrightarrow> proc_upd i f s = Inr (s\<lparr>procs := (procs s)[i := f (procs s ! i)]\<rparr>)"
  by (simp add: proc_upd_def)

lemma next_of_upd: "i < length (procs s) \<Longrightarrow>
    next_of (s\<lparr>procs := (procs s)[i := p]\<rparr>) = (next_of s)(i := queue_next p)"
  by (auto simp: next_of_def)

lemma insert_absent:
  assumes q: "ready_queue is s" and r: "runnable j s" and new: "j \<notin> set is"
  shows "\<exists>s'. insert_to_ready_queue j s = Inr s' \<and> ready_queue (is @ [j]) s' \<and>
    (\<forall>i. runnable i s' = runnable i s) \<and> current s' = current s \<and> kvm s' = kvm s"
proof (cases "is")
  case Nil
  let ?s = "s\<lparr>procs := (procs s)[j := (procs s ! j)\<lparr>status := READY, queue_next := None\<rparr>]\<rparr>"
  have "insert_to_ready_queue j s = Inr (?s\<lparr>ready_queue_head := Some j\<rparr>)"
    using q r Nil by (simp add: insert_to_ready_queue_def ready_queue_def runnable_def proc_upd_ok)
  then show ?thesis using q r Nil
    by (auto simp: ready_queue_def runnable_def next_of_def nth_list_update)
next
  case (Cons h t)
  let ?l = "last is"
  have qp: "qpath (next_of s) (Some h) (h # t)" and hd: "ready_queue_head s = Some h"
    using q Cons by (auto simp: ready_queue_def)
  have scan: "queue_scan (next_of s) j h = Some (False, ?l)"
    using queue_scan_path [OF qp, of j] new Cons by simp
  have "?l \<in> set is" using Cons by simp
  then have l: "?l < length (procs s)" "?l \<noteq> j" using q new by (auto simp: ready_queue_def runnable_def)
  have j: "j < length (procs s)" using r by (simp add: runnable_def)
  let ?s1 = "s\<lparr>procs := (procs s)[?l := (procs s ! ?l)\<lparr>queue_next := Some j\<rparr>]\<rparr>"
  let ?s2 = "?s1\<lparr>procs := (procs ?s1)[j := (procs ?s1 ! j)\<lparr>status := READY, queue_next := None\<rparr>]\<rparr>"
  have "insert_to_ready_queue j s = Inr ?s2"
    using hd scan l j by (simp add: insert_to_ready_queue_def proc_upd_def)
  moreover have nx: "next_of ?s2 = (next_of s)(?l := Some j, j := None)"
    using next_of_upd [of j ?s1] next_of_upd [OF l(1)] j by simp
  have "qpath (next_of ?s2) (ready_queue_head s) (is @ [j])"
    unfolding nx using q Cons new by (intro qpath_snoc) (auto simp: ready_queue_def)
  moreover have run: "runnable i ?s2 = runnable i s" for i
    using l by (auto simp: runnable_def nth_update_cases)
  moreover have "status (procs ?s2 ! i) = READY" if "i \<in> set (is @ [j])" for i
    using that q l j by (auto simp: ready_queue_def runnable_def nth_list_update)
  ultimately show ?thesis using q r new
    by (intro exI [of _ ?s2]) (auto simp: ready_queue_def)
qed

lemma insert_present:
  assumes "ready_queue is s" "j \<in> set is"
  shows "insert_to_ready_queue j s = Inr s"
proof (cases "is")
  case (Cons h t)
  then have qp: "qpath (next_of s) (Some h) (h # t)" and hd: "ready_queue_head s = Some h"
    using assms(1) by (auto simp: ready_queue_def)
  then show ?thesis using queue_scan_path [OF qp, of j] assms(2) Cons by (simp add: insert_to_ready_queue_def)
qed (use assms in simp)

lemma schedule_head:
  assumes q: "ready_queue (i # is) s"
  shows "\<exists>s'. schedule x s = Resumes (tf_ptr (procs s ! i)) (MAKE_SATP (pagetable (procs s ! i))) s' \<and>
    ready_queue is s' \<and> current s' = Some i \<and> status (procs s' ! i) = RUNNING \<and>
    (\<forall>j. runnable j s' = runnable j s) \<and>
    sepc s' = epc (tframes s (tf_ptr (procs s ! i))) \<and> stvec s' = x_trap_vector x \<and>
    sstatus_reg (kpmm s') AND SSTATUS_SPP = 0 \<and>
    tframes s' (tf_ptr (procs s ! i)) = (tframes s (tf_ptr (procs s ! i)))\<lparr>kernel_sp := kstack (procs s ! i),
      kernel_satp := satp s, kernel_trap := x_trap_handler x\<rparr>"
proof -
  let ?p = "procs s ! i"
  have h: "ready_queue_head s = Some i" and st: "status ?p = READY" and i: "i < length (procs s)"
    and tf: "tf_ptr ?p \<noteq> 0" and rest: "qpath (next_of s) (queue_next ?p) is" and new: "i \<notin> set is"
    using q by (auto simp: ready_queue_def runnable_def next_of_def)
  let ?s1 = "s\<lparr>current := Some i, ready_queue_head := queue_next ?p, procs := (procs s)[i := ?p\<lparr>status := RUNNING\<rparr>]\<rparr>"
  let ?v = "sstatus_reg (kpmm s) AND NOT SSTATUS_SPP OR SSTATUS_SPIE"
  let ?t = "(tframes s (tf_ptr ?p))\<lparr>kernel_sp := kstack ?p, kernel_satp := satp s, kernel_trap := x_trap_handler x\<rparr>"
  let ?s' = "?s1\<lparr>stvec := x_trap_vector x, tframes := (tframes s)(tf_ptr ?p := ?t),
      kvm := (kvm s)\<lparr>vpmm := (kpmm s)\<lparr>sstatus_reg := ?v\<rparr>\<rparr>, sepc := epc ?t\<rparr>"
  have "schedule x s = Resumes (tf_ptr ?p) (MAKE_SATP (pagetable ?p)) ?s'"
    using h st i tf by (simp add: schedule_def switch_to_def proc_at_def proc_upd_def tf_upd_def Let_def)
  moreover have nx: "next_of ?s' j = next_of s j" for j using i by (auto simp: next_of_def nth_list_update)
  then have "qpath (next_of ?s') (queue_next ?p) is" using rest qpath_cong [of "is" "next_of ?s'" "next_of s"] by simp
  moreover have run: "runnable j ?s' = runnable j s" for j by (auto simp: runnable_def nth_update_cases)
  moreover have "status (procs ?s' ! j) = READY" if "j \<in> set is" for j
    using that new q by (auto simp: ready_queue_def nth_update_cases)
  moreover have "SSTATUS_SPIE AND SSTATUS_SPP = 0" by (simp add: SSTATUS_SPP_def SSTATUS_SPIE_def)
  then have "?v AND SSTATUS_SPP = 0" by (simp add: bit.conj_disj_distrib2 and.assoc)
  ultimately show ?thesis using q i by (intro exI [of _ ?s']) (auto simp: ready_queue_def)
qed

section \<open>First in, first out\<close>

text \<open>The interface of a run queue: \<open>rep\<close> relates a state to the processes waiting, in order.\<close>

locale run_queue =
  fixes rep :: "'p list \<Rightarrow> 's \<Rightarrow> bool"
    and valid :: "'p \<Rightarrow> 's \<Rightarrow> bool"
    and enq :: "'p \<Rightarrow> 's \<Rightarrow> 's res"
    and deq :: "'s \<Rightarrow> ('p \<times> 's) option"
  assumes enq_new: "rep xs s \<Longrightarrow> valid x s \<Longrightarrow> x \<notin> set xs \<Longrightarrow>
      \<exists>s'. enq x s = Inr s' \<and> rep (xs @ [x]) s' \<and> (\<forall>y. valid y s' = valid y s)"
    and enq_old: "rep xs s \<Longrightarrow> x \<in> set xs \<Longrightarrow> enq x s = Inr s"
    and deq_head: "rep (x # xs) s \<Longrightarrow> \<exists>s'. deq s = Some (x, s') \<and> rep xs s'"

text \<open>Inserting a list of processes, and dispatching \<open>n\<close> times.\<close>

fun enq_all :: "('p \<Rightarrow> 's \<Rightarrow> 's res) \<Rightarrow> 'p list \<Rightarrow> 's \<Rightarrow> 's res" where
  "enq_all enq [] s = Inr s"
| "enq_all enq (x # xs) s = bindE (enq x s) (enq_all enq xs)"

fun deq_all :: "('s \<Rightarrow> ('p \<times> 's) option) \<Rightarrow> nat \<Rightarrow> 's \<Rightarrow> 'p list" where
  "deq_all deq 0 s = []"
| "deq_all deq (Suc n) s = (case deq s of None \<Rightarrow> [] | Some (x, s) \<Rightarrow> x # deq_all deq n s)"

text \<open>The waiting list after inserting: those already there, then the others at their first
  occurrence.\<close>

fun waiting :: "'p list \<Rightarrow> 'p list \<Rightarrow> 'p list" where
  "waiting xs [] = xs"
| "waiting xs (y # ys) = waiting (if y \<in> set xs then xs else xs @ [y]) ys"

context run_queue
begin

lemma enq_all_rep:
  assumes "rep xs s" "\<forall>y\<in>set ys. valid y s"
  shows "\<exists>s'. enq_all enq ys s = Inr s' \<and> rep (waiting xs ys) s'"
  using assms
proof (induction ys arbitrary: xs s)
  case (Cons y ys)
  show ?case
  proof (cases "y \<in> set xs")
    case True
    then show ?thesis using Cons enq_old by simp
  next
    case False
    from enq_new [OF Cons.prems(1) _ False] Cons.prems(2) obtain s1 where
      "enq y s = Inr s1" "rep (xs @ [y]) s1" "\<forall>z. valid z s1 = valid z s" by auto
    then show ?thesis using Cons False by simp
  qed
qed simp

lemma deq_all_rep: "rep xs s \<Longrightarrow> deq_all deq (length xs) s = xs"
proof (induction xs arbitrary: s)
  case (Cons x xs)
  from deq_head [OF Cons.prems] Cons.IH show ?case by auto
qed simp

lemma fifo:
  assumes "rep xs s" "\<forall>y\<in>set ys. valid y s"
  shows "\<exists>s'. enq_all enq ys s = Inr s' \<and> deq_all deq (length (waiting xs ys)) s' = waiting xs ys"
  using enq_all_rep [OF assms] deq_all_rep by blast

end

text \<open>The ready queue is such a queue; a dispatch is a call of \<^verbatim>\<open>schedule\<close> that resumes a process.\<close>

definition dispatch :: "externs \<Rightarrow> kernel \<Rightarrow> (nat \<times> kernel) option" where
  "dispatch x s = (case schedule x s of Resumes t a s' \<Rightarrow> (case current s' of None \<Rightarrow> None | Some i \<Rightarrow> Some (i, s')) | _ \<Rightarrow> None)"

interpretation sched_queue: run_queue ready_queue runnable insert_to_ready_queue "dispatch x" for x
proof (unfold_locales, goal_cases)
  case (1 xs s y)
  then show ?case using insert_absent by blast
next
  case (2 xs s y)
  then show ?case by (rule insert_present)
next
  case (3 i xs s)
  from schedule_head [OF 3, of x] show ?case by (auto simp: dispatch_def)
qed

section \<open>Theorems\<close>

text \<open>C17: Processes inserted into the ready queue are scheduled first in, first out: after
  inserting any runnable processes, \<^verbatim>\<open>schedule\<close> resumes first those already waiting, in order, and
  then the new ones in the order of their first insertion; inserting a waiting process again
  changes nothing.\<close>

theorem ready_queue_fifo:
  assumes "ready_queue xs s" and "\<forall>y\<in>set ys. runnable y s"
  shows "\<exists>s'. enq_all insert_to_ready_queue ys s = Inr s' \<and>
    deq_all (dispatch x) (length (waiting xs ys)) s' = waiting xs ys"
  by (rule sched_queue.fifo [OF assms])

text \<open>A process table with two runnable processes and an empty queue.\<close>

definition idle_kernel :: kernel where
  "idle_kernel = \<lparr>kvm = \<lparr>vpmm = booted, vmem = (\<lambda>_. 0), g_kernel_pagetable = 0\<rparr>,
     procs = map (\<lambda>i. zero_process\<lparr>pid := word_of_nat i, tf_ptr := (if i < 2 then 0x87000000 else 0)\<rparr>) [0..<NPROC],
     current = None, ready_queue_head = None, tframes = (\<lambda>_. zero_tf), minfos = (\<lambda>_. []),
     stvec = 0, satp = 0, sepc = 0, scause = 0, stval = 0\<rparr>"

lemma idle_facts: "ready_queue [] idle_kernel" "runnable 0 idle_kernel" "runnable 1 idle_kernel"
  by (simp_all add: ready_queue_def runnable_def idle_kernel_def NPROC_def)

theorem ready_queue_fifo_witness:
  "\<exists>s'. enq_all insert_to_ready_queue [1, 0, 1] idle_kernel = Inr s' \<and> deq_all (dispatch sample_externs) 2 s' = [1, 0]"
  using ready_queue_fifo [OF idle_facts(1), of "[1, 0, 1]" sample_externs] idle_facts by (simp add: numeral_2_eq_2)

text \<open>\<^verbatim>\<open>schedule\<close> with an empty queue shuts the machine down when every process is free or
  a zombie, and panics otherwise; with a waiting process it takes the head off the queue, marks it
  running, makes it current and enters user mode with its page table, its saved program counter,
  its kernel stack in the trap frame and the previous privilege set to user.\<close>

lemma schedule_spec:
  assumes "ready_queue xs s"
  shows "(xs = [] \<longrightarrow> schedule x s =
      (if \<forall>p \<in> set (procs s). status p = FREE \<or> status p = ZOMBIE then Fails (Shutdown 0)
       else Fails (Panic ''Not handled: we should let system wait for unfinished processes.''))) \<and>
    (\<forall>i ys. xs = i # ys \<longrightarrow> (let p = procs s ! i in
      \<exists>s'. schedule x s = Resumes (tf_ptr p) (MAKE_SATP (pagetable p)) s' \<and> ready_queue ys s' \<and>
        current s' = Some i \<and> status (procs s' ! i) = RUNNING \<and> sepc s' = epc (tframes s (tf_ptr p)) \<and>
        kernel_sp (tframes s' (tf_ptr p)) = kstack p \<and> sstatus_reg (kpmm s') AND SSTATUS_SPP = 0))"
proof (intro conjI allI impI)
  assume "xs = []"
  then have "ready_queue_head s = None" using assms by (simp add: ready_queue_def)
  then show "schedule x s =
      (if \<forall>p \<in> set (procs s). status p = FREE \<or> status p = ZOMBIE then Fails (Shutdown 0)
       else Fails (Panic ''Not handled: we should let system wait for unfinished processes.''))"
    by (simp add: schedule_def Let_def)
next
  fix i ys assume "xs = i # ys"
  then have "ready_queue (i # ys) s" using assms by simp
  from schedule_head [OF this, of x] show "let p = procs s ! i in
      \<exists>s'. schedule x s = Resumes (tf_ptr p) (MAKE_SATP (pagetable p)) s' \<and> ready_queue ys s' \<and>
        current s' = Some i \<and> status (procs s' ! i) = RUNNING \<and> sepc s' = epc (tframes s (tf_ptr p)) \<and>
        kernel_sp (tframes s' (tf_ptr p)) = kstack p \<and> sstatus_reg (kpmm s') AND SSTATUS_SPP = 0"
    unfolding Let_def by auto
qed

lemma schedule_spec_witness:
  "ready_queue [] idle_kernel \<and> schedule sample_externs idle_kernel = Fails (Shutdown 0)"
  using schedule_spec [OF idle_facts(1), of sample_externs] idle_facts(1) by (simp add: idle_kernel_def zero_process_def)

end
