(* ===== verification/Pke_Process.thy ===== *)
theory Pke_Process
  imports Pke_Sched
begin

text \<open>
  Process management, \<^verbatim>\<open>kernel/process.c\<close>: the process table, creating a process with its address
  space, freeing it, and the copy-on-write \<^verbatim>\<open>do_fork\<close>. The calls of \<^verbatim>\<open>page_walk\<close> with three
  arguments follow its declaration in \<^verbatim>\<open>kernel/vmm.h\<close>: table, address, alloc.
\<close>

section \<open>The process table\<close>

definition init_proc_pool :: "kernel \<Rightarrow> kernel" where
  "init_proc_pool s =
     (let s = s\<lparr>procs := replicate NPROC zero_process\<rparr>
      in s\<lparr>procs := map (\<lambda>i. (procs s ! i)\<lparr>status := FREE, pid := word_of_nat i\<rparr>) [0..<NPROC]\<rparr>)"

text \<open>The first free slot, from \<open>i\<close> on.\<close>

fun find_free :: "nat \<Rightarrow> process list \<Rightarrow> nat option" where
  "find_free i [] = None"
| "find_free i (p # ps) = (if status p = FREE then Some i else find_free (i + 1) ps)"

section \<open>Creating a process\<close>

definition k_alloc_page :: "kernel \<Rightarrow> (uint64 \<times> kernel) res" where
  "k_alloc_page s = with_vm vm_alloc_page s"

definition zero_vm_page :: "uint64 \<Rightarrow> kernel \<Rightarrow> kernel" where
  "zero_vm_page a s = s\<lparr>kvm := (kvm s)\<lparr>vmem := zero_frame a (kmem s)\<rparr>\<rparr>"

definition region_fill :: "uint64 \<Rightarrow> uint32 \<Rightarrow> uint64 \<Rightarrow> uint32 \<Rightarrow> kernel \<Rightarrow> kernel res" where
  "region_fill mi seg va n s =
     region_set mi (unat seg) \<lparr>mr_va = va, mr_npages = n, mr_seg_type = seg\<rparr> s"

text \<open>The pages of a new process: trap frame, page directory, kernel stack, user stack and region
  table.\<close>

definition alloc_proc_pages :: "nat \<Rightarrow> kernel \<Rightarrow> (uint64 \<times> kernel) res" where
  "alloc_proc_pages i s =
     bindE (k_alloc_page s) (\<lambda>(tf, s).
     bindE (proc_upd i (\<lambda>p. p\<lparr>tf_ptr := tf\<rparr>) s) (\<lambda>s.
     bindE (tf_upd tf (\<lambda>_. zero_tf) s) (\<lambda>s.
     bindE (k_alloc_page s) (\<lambda>(dir, s).
     bindE (proc_upd i (\<lambda>p. p\<lparr>pagetable := dir\<rparr>) s) (\<lambda>s.
     let s = zero_vm_page dir s in
     bindE (k_alloc_page s) (\<lambda>(ks, s).
     bindE (proc_upd i (\<lambda>p. p\<lparr>kstack := ks + PGSIZE\<rparr>) s) (\<lambda>s.
     bindE (k_alloc_page s) (\<lambda>(user_stack, s).
     bindE (tf_upd tf (\<lambda>t. t\<lparr>tf_regs := (tf_regs t)\<lparr>r_sp := USER_STACK_TOP\<rparr>\<rparr>) s) (\<lambda>s.
     bindE (k_alloc_page s) (\<lambda>(mi, s).
     bindE (proc_upd i (\<lambda>p. p\<lparr>mapped_info := mi\<rparr>) s) (\<lambda>s.
     Inr (user_stack, s\<lparr>minfos := (minfos s)(mi := replicate REGIONS_PER_PAGE zero_region)\<rparr>))))))))))))"

text \<open>The mappings and regions of a new process: user stack, trap frame, trap vector, heap.\<close>

definition map_proc_regions :: "externs \<Rightarrow> nat \<Rightarrow> uint64 \<Rightarrow> kernel \<Rightarrow> kernel res" where
  "map_proc_regions x i user_stack s =
     bindE (proc_at i s) (\<lambda>p.
     let dir = pagetable p; tf = tf_ptr p; mi = mapped_info p; tv = x_trap_sec_start x in
     bindE (on_vm (user_vm_map dir (USER_STACK_TOP - PGSIZE) PGSIZE user_stack
                     (prot_to_type (PROT_WRITE OR PROT_READ) True)) s) (\<lambda>s.
     bindE (region_fill mi STACK_SEGMENT (USER_STACK_TOP - PGSIZE) 1 s) (\<lambda>s.
     bindE (on_vm (user_vm_map dir tf PGSIZE tf (prot_to_type (PROT_WRITE OR PROT_READ) False)) s) (\<lambda>s.
     bindE (region_fill mi CONTEXT_SEGMENT tf 1 s) (\<lambda>s.
     bindE (on_vm (user_vm_map dir tv PGSIZE tv (prot_to_type (PROT_READ OR PROT_EXEC) False)) s) (\<lambda>s.
     bindE (region_fill mi SYSTEM_SEGMENT tv 1 s) (\<lambda>s.
     bindE (proc_upd i (\<lambda>p. p\<lparr>user_heap := (user_heap p)\<lparr>heap_top := USER_FREE_ADDRESS_START,
                heap_bottom := USER_FREE_ADDRESS_START, free_pages_count := 0\<rparr>\<rparr>) s) (\<lambda>s.
     bindE (region_fill mi HEAP_SEGMENT USER_FREE_ADDRESS_START 0 s) (\<lambda>s.
     proc_upd i (\<lambda>p. p\<lparr>total_mapped_region := 4\<rparr>) s)))))))))"

definition alloc_process :: "externs \<Rightarrow> kernel \<Rightarrow> (nat \<times> kernel) res" where
  "alloc_process x s =
     (case find_free 0 (procs s) of
        None \<Rightarrow> Inl (Panic ''cannot find any free process structure.'')
      | Some i \<Rightarrow>
          bindE (alloc_proc_pages i s) (\<lambda>(user_stack, s).
          bindE (map_proc_regions x i user_stack s) (\<lambda>s.
          Inr (i, s))))"

definition free_process :: "nat \<Rightarrow> kernel \<Rightarrow> (int \<times> kernel) res" where
  "free_process i s = bindE (proc_upd i (\<lambda>p. p\<lparr>status := ZOMBIE\<rparr>) s) (\<lambda>s. Inr (0, s))"

section \<open>Fork\<close>

text \<open>Sharing one page of a stack or heap region copy-on-write: the parent's entry loses its write
  permission, the page is referenced once more and the child's entry becomes the same.\<close>

definition share_page :: "externs \<Rightarrow> uint64 \<Rightarrow> uint64 \<Rightarrow> uint64 \<Rightarrow> kernel \<Rightarrow> kernel res" where
  "share_page x pdir cdir va s =
     bindE (with_vm (page_walk pdir va 0 False) s) (\<lambda>(pte, s).
     bindE (mem_read pte (kvm s)) (\<lambda>e.
     if pte_valid e
     then bindE (if PTE_W AND e \<noteq> 0
                 then on_vm (mem_write pte (e AND NOT PTE_W OR PTE_COW)) s
                 else Inr s) (\<lambda>s.
          bindE (mem_read pte (kvm s)) (\<lambda>e.
          bindE (x_get_page x (PTE2PA e) (kpmm s)) (\<lambda>pm.
          let s = s\<lparr>kvm := (kvm s)\<lparr>vpmm := pm\<rparr>\<rparr> in
          bindE (with_vm (page_walk cdir va 0 True) s) (\<lambda>(c_pte, s).
          if c_pte = 0 then Inl (Panic ''do_fork: page_walk failed to allocate leaf page table.'')
          else bindE (mem_read pte (kvm s)) (\<lambda>e.
               on_vm (mem_write c_pte e) s)))))
     else Inr s))"

text \<open>The offset of a page in its region, \<^verbatim>\<open>page_number * PGSIZE\<close> in 32-bit arithmetic.\<close>

definition page_off :: "nat \<Rightarrow> uint64" where
  "page_off k = ucast ((word_of_nat k :: uint32) * 4096)"

text \<open>The loop over the pages of a region, \<open>n\<close> of which are left from page number \<open>k\<close>.\<close>

fun share_loop :: "externs \<Rightarrow> nat \<Rightarrow> uint64 \<Rightarrow> uint64 \<Rightarrow> uint64 \<Rightarrow> nat \<Rightarrow> kernel \<Rightarrow> kernel res" where
  "share_loop x k pdir cdir va0 0 s = Inr s"
| "share_loop x k pdir cdir va0 (Suc n) s =
     bindE (share_page x pdir cdir (va0 + page_off k) s) (\<lambda>s.
     share_loop x (k + 1) pdir cdir va0 n s)"

text \<open>Mapping the pages of a code segment into the child, read-only and executable.\<close>

fun code_loop :: "nat \<Rightarrow> uint64 \<Rightarrow> uint64 \<Rightarrow> uint64 \<Rightarrow> nat \<Rightarrow> kernel \<Rightarrow> kernel res" where
  "code_loop k pdir cdir va0 0 s = Inr s"
| "code_loop k pdir cdir va0 (Suc n) s =
     (let va = va0 + page_off k in
      bindE (with_vm (lookup_pa pdir va) s) (\<lambda>(pa, s).
      bindE (on_vm (user_vm_map cdir va PGSIZE pa (prot_to_type (PROT_READ OR PROT_EXEC) True)) s) (\<lambda>s.
      code_loop (k + 1) pdir cdir va0 n s)))"

text \<open>One region of the parent; the first call of \<^verbatim>\<open>lookup_pa\<close> for a code segment only prints.\<close>

definition fork_region :: "externs \<Rightarrow> nat \<Rightarrow> nat \<Rightarrow> nat \<Rightarrow> kernel \<Rightarrow> kernel res" where
  "fork_region x pi ci i s =
     bindE (proc_at pi s) (\<lambda>par.
     bindE (proc_at ci s) (\<lambda>chi.
     bindE (region_at (mapped_info par) i s) (\<lambda>r.
     if mr_seg_type r = CONTEXT_SEGMENT
     then if tf_ptr par = 0 then Inl NullDeref
          else tf_upd (tf_ptr chi) (\<lambda>_. tframes s (tf_ptr par)) s
     else if mr_seg_type r = STACK_SEGMENT \<or> mr_seg_type r = HEAP_SEGMENT
     then bindE (share_loop x 0 (pagetable par) (pagetable chi) (mr_va r) (unat (mr_npages r)) s) (\<lambda>s.
          if mr_seg_type r = HEAP_SEGMENT
          then proc_upd ci (\<lambda>c. c\<lparr>user_heap := user_heap par\<rparr>) s
          else Inr s)
     else if mr_seg_type r = CODE_SEGMENT
     then bindE (with_vm (lookup_pa (pagetable par) (mr_va r)) s) (\<lambda>(_, s).
          bindE (code_loop 0 (pagetable par) (pagetable chi) (mr_va r) (unat (mr_npages r)) s) (\<lambda>s.
          bindE (region_set (mapped_info chi) (total_mapped_region chi)
                   \<lparr>mr_va = mr_va r, mr_npages = mr_npages r, mr_seg_type = CODE_SEGMENT\<rparr> s) (\<lambda>s.
          proc_upd ci (\<lambda>c. c\<lparr>total_mapped_region := total_mapped_region c + 1\<rparr>) s)))
     else Inr s)))"

fun fork_regions :: "externs \<Rightarrow> nat \<Rightarrow> nat \<Rightarrow> nat list \<Rightarrow> kernel \<Rightarrow> kernel res" where
  "fork_regions x pi ci [] s = Inr s"
| "fork_regions x pi ci (i # is) s = bindE (fork_region x pi ci i s) (\<lambda>s. fork_regions x pi ci is s)"

text \<open>The whole of \<^verbatim>\<open>do_fork\<close>; the process identifier is returned as an \<^verbatim>\<open>int\<close>.\<close>

definition do_fork :: "externs \<Rightarrow> nat \<Rightarrow> kernel \<Rightarrow> (uint32 \<times> kernel) res" where
  "do_fork x pi s =
     bindE (proc_at pi s) (\<lambda>_.
     bindE (alloc_process x s) (\<lambda>(ci, s).
     bindE (proc_at pi s) (\<lambda>par.
     bindE (fork_regions x pi ci [0..<total_mapped_region par] s) (\<lambda>s.
     bindE (proc_at ci s) (\<lambda>chi.
     bindE (tf_upd (tf_ptr chi) (\<lambda>t. t\<lparr>tf_regs := (tf_regs t)\<lparr>r_tp := x_proc_addr x ci\<rparr>\<rparr>) s) (\<lambda>s.
     bindE (proc_upd ci (\<lambda>c. c\<lparr>status := READY\<rparr>) s) (\<lambda>s.
     bindE (tf_upd (tf_ptr chi) (\<lambda>t. t\<lparr>tf_regs := (tf_regs t)\<lparr>r_a0 := 0\<rparr>\<rparr>) s) (\<lambda>s.
     bindE (proc_upd ci (\<lambda>c. c\<lparr>parent := Some pi\<rparr>) s) (\<lambda>s.
     bindE (insert_to_ready_queue ci s) (\<lambda>s.
     Inr (ucast (pid chi), s)))))))))))"

end
