(* ===== verification/Pke_Elf.thy ===== *)
theory Pke_Elf
  imports Pke_File Pke_Process
begin

text \<open>
  The ELF loader, \<^verbatim>\<open>kernel/elf.c\<close> and \<^verbatim>\<open>kernel/elf.h\<close>: it reads the program of the host file named on
  the command line, maps a page for each loadable segment, fills it and records the segment in the
  region table of the process.
\<close>

section \<open>Headers\<close>

definition MAX_CMDLINE_ARGS :: nat where "MAX_CMDLINE_ARGS = 64"
definition SEGMENT_READABLE :: uint32 where "SEGMENT_READABLE = 4"
definition SEGMENT_EXECUTABLE :: uint32 where "SEGMENT_EXECUTABLE = 1"
definition SEGMENT_WRITABLE :: uint32 where "SEGMENT_WRITABLE = 2"
definition ELF_MAGIC :: uint32 where "ELF_MAGIC = 0x464C457F"
definition ELF_PROG_LOAD :: uint32 where "ELF_PROG_LOAD = 1"
definition HTIFSYS_getmainvars :: uint64 where "HTIFSYS_getmainvars = 2011"

datatype elf_status = EL_OK | EL_EIO | EL_ENOMEM | EL_NOTELF | EL_ERR

record elf_header =
  eh_magic :: uint32
  eh_type :: uint16
  eh_machine :: uint16
  eh_version :: uint32
  eh_entry :: uint64
  eh_phoff :: uint64
  eh_shoff :: uint64
  eh_flags :: uint32
  eh_ehsize :: uint16
  eh_phentsize :: uint16
  eh_phnum :: uint16
  eh_shentsize :: uint16
  eh_shnum :: uint16
  eh_shstrndx :: uint16

record elf_prog_header =
  ph_type :: uint32
  ph_flags :: uint32
  ph_off :: uint64
  ph_vaddr :: uint64
  ph_paddr :: uint64
  ph_filesz :: uint64
  ph_memsz :: uint64
  ph_align :: uint64

text \<open>The structures as they lie in memory, of 64 and 56 bytes; the 12 bytes \<^verbatim>\<open>elf\<close> are not read.\<close>

definition elf_header_at :: "uint64 \<Rightarrow> bytes \<Rightarrow> elf_header" where
  "elf_header_at a m =
     \<lparr>eh_magic = load32 a m, eh_type = load16 (a + 16) m, eh_machine = load16 (a + 18) m, eh_version = load32 (a + 20) m,
      eh_entry = load_word (a + 24) m, eh_phoff = load_word (a + 32) m, eh_shoff = load_word (a + 40) m,
      eh_flags = load32 (a + 48) m, eh_ehsize = load16 (a + 52) m, eh_phentsize = load16 (a + 54) m,
      eh_phnum = load16 (a + 56) m, eh_shentsize = load16 (a + 58) m, eh_shnum = load16 (a + 60) m,
      eh_shstrndx = load16 (a + 62) m\<rparr>"

definition prog_header_at :: "uint64 \<Rightarrow> bytes \<Rightarrow> elf_prog_header" where
  "prog_header_at a m =
     \<lparr>ph_type = load32 a m, ph_flags = load32 (a + 4) m, ph_off = load_word (a + 8) m, ph_vaddr = load_word (a + 16) m,
      ph_paddr = load_word (a + 24) m, ph_filesz = load_word (a + 32) m, ph_memsz = load_word (a + 40) m,
      ph_align = load_word (a + 48) m\<rparr>"

section \<open>The loader\<close>

text \<open>
  The kernel and its files, and the addresses of the locals that the host writes to: \<^verbatim>\<open>ctx->ehdr\<close>,
  \<^verbatim>\<open>ph_addr\<close> and \<^verbatim>\<open>arg_bug_msg\<close>. The byte memory and the cells of the kernel are two views of the same
  memory; \<open>sync_page\<close> copies a page that the host wrote from the first to the second.
\<close>

record 'd loader =
  ld_kernel :: kernel
  ld_files :: "'d ftable"

record elf_frame =
  at_ehdr :: uint64
  at_ph :: uint64
  at_args :: uint64

abbreviation ld_mem :: "'d loader \<Rightarrow> bytes" where
  "ld_mem s \<equiv> hmem (ft_io (ld_files s))"

definition sync_page :: "uint64 \<Rightarrow> bytes \<Rightarrow> kernel \<Rightarrow> kernel" where
  "sync_page a m k = k\<lparr>kvm := (kvm k)\<lparr>vmem := (\<lambda>c. if c - a < PGSIZE then load_word c m else kmem k c)\<rparr>\<rparr>"

definition in_kernel :: "(kernel \<Rightarrow> ('r \<times> kernel) res) \<Rightarrow> 'd loader \<Rightarrow> ('r \<times> 'd loader) outcome" where
  "in_kernel f s = Some (bindE (f (ld_kernel s)) (\<lambda>(r, k). Inr (r, s\<lparr>ld_kernel := k\<rparr>)))"

definition on_kernel :: "(kernel \<Rightarrow> kernel res) \<Rightarrow> 'd loader \<Rightarrow> 'd loader outcome" where
  "on_kernel f s = Some (bindE (f (ld_kernel s)) (\<lambda>k. Inr (s\<lparr>ld_kernel := k\<rparr>)))"

definition elf_alloc_mb :: "nat \<Rightarrow> uint64 \<Rightarrow> uint64 \<Rightarrow> uint64 \<Rightarrow> 'd loader \<Rightarrow> (uint64 \<times> 'd loader) outcome" where
  "elf_alloc_mb p elf_pa elf_va sz s =
     (if \<not> sz < PGSIZE then Some (Inl (AssertFail ''size < PGSIZE''))
      else bindO (in_kernel k_alloc_page s) (\<lambda>(pa, s).
        if pa = 0 then Some (Inl (Panic ''uvmalloc mem alloc falied''))
        else Option.bind (memset pa 0 PGSIZE (ld_mem s)) (\<lambda>(_, m).
          let s = s\<lparr>ld_kernel := zero_vm_page pa (ld_kernel s), ld_files := set_hmem m (ld_files s)\<rparr> in
          bindO (in_kernel (\<lambda>k. bindE (proc_at p k) (\<lambda>pr. Inr (pagetable pr, k))) s) (\<lambda>(pt, s).
          bindO (on_kernel (on_vm (user_vm_map pt elf_va PGSIZE pa (prot_to_type (PROT_WRITE OR PROT_READ OR PROT_EXEC) True))) s)
            (\<lambda>s. returnO (pa, s))))))"

definition elf_fpread :: "'d henv \<Rightarrow> nat \<Rightarrow> uint64 \<Rightarrow> uint64 \<Rightarrow> uint64 \<Rightarrow> 'd loader \<Rightarrow> (uint64 \<times> 'd loader) outcome" where
  "elf_fpread E f dest nb offset s =
     bindO (spike_file_pread E f dest nb offset (ld_files s)) (\<lambda>(r, t). returnO (word_of_int r, s\<lparr>ld_files := t\<rparr>))"

definition elf_init :: "'d henv \<Rightarrow> elf_frame \<Rightarrow> nat \<Rightarrow> 'd loader \<Rightarrow> (elf_status \<times> 'd loader) outcome" where
  "elf_init E F f s =
     bindO (elf_fpread E f (at_ehdr F) 64 0 s) (\<lambda>(n, s).
       if n \<noteq> 64 then returnO (EL_EIO, s)
       else if eh_magic (elf_header_at (at_ehdr F) (ld_mem s)) \<noteq> ELF_MAGIC then returnO (EL_NOTELF, s)
       else returnO (EL_OK, s))"

text \<open>\<^verbatim>\<open>for (j = 0; j < PGSIZE / sizeof(mapped_region); j++) if (mapped_info[j].va == 0x0) break;\<close>\<close>

fun seek_region :: "nat \<Rightarrow> nat \<Rightarrow> mapped_region list \<Rightarrow> nat" where
  "seek_region 0 j rs = j"
| "seek_region (Suc k) j rs = (if mr_va (rs ! j) = 0 then j else seek_region k (Suc j) rs)"

text \<open>The record of a segment in the region table.\<close>

definition record_segment :: "nat \<Rightarrow> elf_prog_header \<Rightarrow> kernel \<Rightarrow> kernel res" where
  "record_segment p ph k =
     bindE (proc_at p k) (\<lambda>pr.
     let mi = mapped_info pr;
         j = seek_region REGIONS_PER_PAGE 0 (minfos k mi) in
     bindE (region_at mi j k) (\<lambda>r.
     bindE (region_set mi j (r\<lparr>mr_va := ph_vaddr ph, mr_npages := 1\<rparr>) k) (\<lambda>k.
     bindE (if ph_flags ph = (SEGMENT_READABLE OR SEGMENT_EXECUTABLE) then Inr CODE_SEGMENT
            else if ph_flags ph = (SEGMENT_READABLE OR SEGMENT_WRITABLE) then Inr DATA_SEGMENT
            else Inl (Panic ''unknown program segment encountered'')) (\<lambda>seg.
     bindE (region_set mi j (r\<lparr>mr_va := ph_vaddr ph, mr_npages := 1, mr_seg_type := seg\<rparr>) k) (\<lambda>k.
     proc_upd p (\<lambda>pr. pr\<lparr>total_mapped_region := total_mapped_region pr + 1\<rparr>) k)))))"

text \<open>
  The loop of \<^verbatim>\<open>elf_load\<close>, for the headers still to be read; \<^verbatim>\<open>off\<close> is a 32-bit \<^verbatim>\<open>int\<close>. A whole segment of
  \<^verbatim>\<open>memsz\<close> bytes is read from the file.
\<close>

fun elf_load_loop ::
  "'d henv \<Rightarrow> elf_frame \<Rightarrow> nat \<Rightarrow> nat \<Rightarrow> nat \<Rightarrow> uint32 \<Rightarrow> 'd loader \<Rightarrow> (elf_status \<times> 'd loader) outcome" where
  "elf_load_loop E F f p 0 off s = returnO (EL_OK, s)"
| "elf_load_loop E F f p (Suc n) off s =
     bindO (elf_fpread E f (at_ph F) 56 (scast off) s) (\<lambda>(r, s).
     if r \<noteq> 56 then returnO (EL_EIO, s)
     else
       let ph = prog_header_at (at_ph F) (ld_mem s) in
       if ph_type ph \<noteq> ELF_PROG_LOAD then elf_load_loop E F f p n (off + 56) s
       else if ph_memsz ph < ph_filesz ph then returnO (EL_ERR, s)
       else if ph_vaddr ph + ph_memsz ph < ph_vaddr ph then returnO (EL_ERR, s)
       else bindO (elf_alloc_mb p (ph_vaddr ph) (ph_vaddr ph) (ph_memsz ph) s) (\<lambda>(dest, s).
         bindO (elf_fpread E f dest (ph_memsz ph) (ph_off ph) s) (\<lambda>(r, s).
         let s = s\<lparr>ld_kernel := sync_page dest (ld_mem s) (ld_kernel s)\<rparr> in
         if r \<noteq> ph_memsz ph then returnO (EL_EIO, s)
         else bindO (on_kernel (record_segment p ph) s) (\<lambda>s. elf_load_loop E F f p n (off + 56) s))))"

definition elf_load :: "'d henv \<Rightarrow> elf_frame \<Rightarrow> nat \<Rightarrow> nat \<Rightarrow> 'd loader \<Rightarrow> (elf_status \<times> 'd loader) outcome" where
  "elf_load E F f p s =
     (let eh = elf_header_at (at_ehdr F) (ld_mem s)
      in elf_load_loop E F f p (unat (eh_phnum eh)) (ucast (eh_phoff eh)) s)"

section \<open>The program on the command line\<close>

text \<open>The loop of \<^verbatim>\<open>parse_args\<close> that moves the arguments after the kernel's to the front; \<open>k\<close> are left.\<close>

fun args_loop :: "uint64 \<Rightarrow> nat \<Rightarrow> nat \<Rightarrow> bytes \<Rightarrow> bytes res" where
  "args_loop a i 0 m = Inr m"
| "args_loop a i (Suc k) m =
     (if i + 2 < MAX_CMDLINE_ARGS
      then args_loop a (Suc i) k (store_word (a + 8 * word_of_nat i) (load_word (a + 8 * word_of_nat (i + 2)) m) m)
      else Inl OutOfBounds)"

definition parse_args :: "'d henv \<Rightarrow> elf_frame \<Rightarrow> 'd loader \<Rightarrow> (uint64 \<times> 'd loader) outcome" where
  "parse_args E F s =
     bindO (file_syscall E HTIFSYS_getmainvars [at_args F, 512, 0, 0, 0, 0, 0] (ld_files s)) (\<lambda>(r, t).
     let s = s\<lparr>ld_files := t\<rparr> in
     if r \<noteq> 0 then Some (Inl (AssertFail ''r == 0''))
     else
       let pk_argc = load_word (at_args F) (ld_mem s) in
       bindO (Some (args_loop (at_args F) 0 (unat pk_argc - 1) (ld_mem s))) (\<lambda>m.
       returnO (pk_argc - 1, s\<lparr>ld_files := set_hmem m (ld_files s)\<rparr>)))"

definition load_bincode_from_host_elf :: "'d henv \<Rightarrow> elf_frame \<Rightarrow> nat \<Rightarrow> 'd loader \<Rightarrow> 'd loader outcome" where
  "load_bincode_from_host_elf E F p s =
     bindO (parse_args E F s) (\<lambda>(argc, s).
     if argc = 0 then Some (Inl (Panic ''You need to specify the application program!''))
     else bindO (spike_file_open E (load_word (at_args F) (ld_mem s)) 0 0 (ld_files s)) (\<lambda>(fp, t).
       let s = s\<lparr>ld_files := t\<rparr> in
       case fp of
         ERR_PTR e \<Rightarrow> Some (Inl (if e \<ge> -4096 then Panic ''Fail on openning the input application program.'' else OutOfBounds))
       | File f \<Rightarrow>
           bindO (elf_init E F f s) (\<lambda>(st, s).
           if st \<noteq> EL_OK then Some (Inl (Panic ''fail to init elfloader.''))
           else bindO (elf_load E F f p s) (\<lambda>(st, s).
             if st \<noteq> EL_OK then Some (Inl (Panic ''Fail on loading elf.''))
             else bindO (on_kernel (\<lambda>k. bindE (proc_at p k) (\<lambda>pr.
                 tf_upd (tf_ptr pr) (\<lambda>tf. tf\<lparr>epc := eh_entry (elf_header_at (at_ehdr F) (ld_mem s))\<rparr>) k)) s) (\<lambda>s.
               bindO (spike_file_close E (Some f) (ld_files s)) (\<lambda>(_, t). returnO (s\<lparr>ld_files := t\<rparr>)))))))"

end
