(* ===== verification/Pke_File_Thms.thy ===== *)
theory Pke_File_Thms
  imports Pke_File
begin

text \<open>
  The host interface is correct for a host that keeps to its protocol: a proxied system call
  returns, with the result of the host and the locks free; and what the file table does with it.
\<close>

section \<open>Locks and messages\<close>

lemma atomics_okD [simp]:
  assumes "atomics_ok at"
  shows "at_read at c = c" "at_set at v c = v" "binop_add at i c = (c, c + i)" "binop_swap at i c = (c, i)"
  using assms by (simp_all add: atomics_ok_def binop_add_def binop_swap_def)

lemma spinlock_lock_free: "atomics_ok at \<Longrightarrow> spinlock_lock at 0 = Some (-1)"
  by (subst spinlock_lock.simps) (simp add: spinlock_trylock_def)

lemma spinlock_lock_held_aux:
  assumes "spinlock_lock at l = Some r"
  shows "atomics_ok at \<longrightarrow> l = 0"
proof (rule spinlock_lock.raw_induct [where P = "\<lambda>at l r. atomics_ok at \<longrightarrow> l = 0", OF _ assms])
  fix f at l r
  assume IH: "\<And>at l r. f at l = Some r \<Longrightarrow> atomics_ok at \<longrightarrow> l = 0"
    and eq: "(if at_read at l \<noteq> 0 then f at l
      else case spinlock_trylock at l of (res, lock) \<Rightarrow> if res \<noteq> 0 then f at lock else Some lock) = Some r"
  show "atomics_ok at \<longrightarrow> l = 0" using eq IH [of at l r] by (auto split: if_splits)
qed

lemma spinlock_lock_held: "atomics_ok at \<Longrightarrow> l \<noteq> 0 \<Longrightarrow> spinlock_lock at l = None"
  using spinlock_lock_held_aux by (metis not_None_eq)

lemma macro_cas_eq: "macro_cas cmp swp st cell = (cell, st, if cell = cmp then swp else cell)"
  using irq_save_restore [of st] by (auto simp: macro_cas_def Let_def split: prod.splits)

lemma take_bit_small: "unat (w :: uint64) < 2 ^ n \<Longrightarrow> take_bit n w = w"
  by (simp add: word_unat_eq_iff unsigned_take_bit_eq take_bit_nat_eq_self)

text \<open>The three parts of a message come back from it, when each fits its field.\<close>

lemma message_roundtrip:
  assumes "dev < 2 ^ 8" "cmd < 2 ^ 8" "payload < 2 ^ 48"
  shows "FROMHOST_DEV (TOHOST_CMD dev cmd payload) = dev" "FROMHOST_CMD (TOHOST_CMD dev cmd payload) = cmd"
    "FROMHOST_DATA (TOHOST_CMD dev cmd payload) = payload"
proof -
  have "take_bit 8 dev = dev" "take_bit 8 cmd = cmd" "take_bit 48 payload = payload"
    using assms by (simp_all add: take_bit_small word_less_nat_alt)
  then have b: "\<And>n. bit dev n \<Longrightarrow> n < 8" "\<And>n. bit cmd n \<Longrightarrow> n < 8" "\<And>n. bit payload n \<Longrightarrow> n < 48"
    by (metis bit_take_bit_iff)+
  show "FROMHOST_DEV (TOHOST_CMD dev cmd payload) = dev"
    by (rule bit_word_eqI) (auto simp: FROMHOST_DEV_def TOHOST_CMD_def bit_simps dest: b)
  show "FROMHOST_CMD (TOHOST_CMD dev cmd payload) = cmd"
    by (rule bit_word_eqI) (auto simp: FROMHOST_CMD_def TOHOST_CMD_def bit_simps dest: b)
  show "FROMHOST_DATA (TOHOST_CMD dev cmd payload) = payload"
    by (rule bit_word_eqI) (auto simp: FROMHOST_DATA_def TOHOST_CMD_def bit_simps dest: b)
qed

section \<open>System calls of the host return\<close>

text \<open>
  The protocol as the host promises it: it leaves an empty mailbox alone; a request, the
  address of the argument block in \<^verbatim>\<open>tohost\<close>, is answered after finitely many of its steps, in
  which nothing shows in \<^verbatim>\<open>fromhost\<close>: then the effects of the system call, \<open>serve\<close>, are there, \<^verbatim>\<open>tohost\<close>
  is cleared and \<^verbatim>\<open>fromhost\<close> holds the answer of device 0. A system call does not touch the locks.
\<close>

definition host_serves :: "('d hstate \<Rightarrow> 'd hstate) \<Rightarrow> uint64 \<Rightarrow> ('d hstate \<Rightarrow> 'd hstate) \<Rightarrow> bool" where
  "host_serves host magic serve \<longleftrightarrow>
     magic \<noteq> 0 \<and>
     (\<forall>s. tohost s = 0 \<longrightarrow> host s = s) \<and>
     (\<forall>s. tohost s = magic \<and> fromhost s = 0 \<longrightarrow>
        (\<exists>k. (\<forall>i \<le> k. fromhost ((host ^^ i) s) = 0) \<and> (host ^^ Suc k) s = (serve s)\<lparr>tohost := 0, fromhost := 1\<rparr>)) \<and>
     (\<forall>s. htif_lock (serve s) = htif_lock s \<and> fe_lock (serve s) = fe_lock s)"

lemma fromhost_loop_wait:
  "fromhost (he_host E s) = 0 \<Longrightarrow> fromhost_loop E dev cmd s = fromhost_loop E dev cmd (he_host E s)"
  by (subst fromhost_loop.simps) (simp add: Let_def)

lemma fromhost_loop_delay:
  "(\<And>i. i \<le> k \<Longrightarrow> fromhost ((he_host E ^^ i) s) = 0) \<Longrightarrow>
     fromhost_loop E dev cmd s = fromhost_loop E dev cmd ((he_host E ^^ k) s)"
proof (induction k)
  case (Suc k)
  have "fromhost (he_host E ((he_host E ^^ k) s)) = 0" using Suc.prems [of "Suc k"] by simp
  from fromhost_loop_wait [OF this] Suc show ?case by simp
qed simp

lemma fromhost_loop_answer:
  assumes "fromhost (he_host E s) = fh" "fh \<noteq> 0" "FROMHOST_DEV fh = dev" "FROMHOST_CMD fh = cmd"
  shows "fromhost_loop E dev cmd s = returnO ((he_host E s)\<lparr>fromhost := 0\<rparr>)"
  by (subst fromhost_loop.simps) (simp add: assms Let_def)

lemma htif_syscall_ok:
  assumes E: "atomics_ok (he_at E)" "host_serves (he_host E) (he_magic E) serve"
    and s: "tohost s = 0" "fromhost s = 0" "htif_lock s = 0"
  shows "htif_syscall E (he_magic E) s =
    returnO ((serve (s\<lparr>htif_lock := -1, tohost := he_magic E\<rparr>))\<lparr>tohost := 0, fromhost := 0, htif_lock := 0\<rparr>)"
proof -
  let ?s = "s\<lparr>htif_lock := -1, tohost := he_magic E\<rparr>"
  let ?a = "(serve ?s)\<lparr>tohost := 0, fromhost := 1\<rparr>"
  have "tohost_loop E (s\<lparr>htif_lock := -1\<rparr>) = returnO (s\<lparr>htif_lock := -1\<rparr>)"
    using E(2) s by (subst tohost_loop.simps) (simp add: host_serves_def Let_def)
  then have set: "set_tohost E 0 0 (he_magic E) (s\<lparr>htif_lock := -1\<rparr>) = returnO ?s"
    by (simp add: set_tohost_def TOHOST_CMD_def)
  obtain k where k: "\<And>i. i \<le> k \<Longrightarrow> fromhost ((he_host E ^^ i) ?s) = 0" "(he_host E ^^ Suc k) ?s = ?a"
    using E(2) s(2) unfolding host_serves_def by (auto dest!: spec [of _ ?s])
  have "FROMHOST_DEV 1 = 0" "FROMHOST_CMD 1 = 0"
    using message_roundtrip [of 0 0 1] by (simp_all add: TOHOST_CMD_def)
  then have "fromhost_loop E 0 0 ((he_host E ^^ k) ?s) = returnO (?a\<lparr>fromhost := 0\<rparr>)"
    using k(2) fromhost_loop_answer [of E "(he_host E ^^ k) ?s" 1 0 0] by simp
  with fromhost_loop_delay [OF k(1), of k 0 0] have "fromhost_loop E 0 0 ?s = returnO (?a\<lparr>fromhost := 0\<rparr>)" by simp
  then show ?thesis
    using E(1) s(3) set by (simp add: htif_syscall_def do_tohost_fromhost_def spinlock_lock_free spinlock_unlock_def)
qed

text \<open>C19: a system call proxied to a host that keeps to the protocol returns, however long the host
  takes: the result is what the host left in the first word of the argument block, the effects are
  those of the host, and both locks and both mailbox words are free again.\<close>

theorem frontend_syscall_returns:
  assumes "atomics_ok (he_at E)" "host_serves (he_host E) (he_magic E) serve"
    "tohost s = 0" "fromhost s = 0" "htif_lock s = 0" "fe_lock s = 0"
  shows "let s' = serve (s\<lparr>fe_lock := -1, magic_mem := n # args, htif_lock := -1, tohost := he_magic E\<rparr>) in
    frontend_syscall E n args s =
      returnO (hd (magic_mem s'), s'\<lparr>tohost := 0, fromhost := 0, htif_lock := 0, fe_lock := 0\<rparr>)"
  using htif_syscall_ok [OF assms(1,2), of "s\<lparr>fe_lock := -1, magic_mem := n # args\<rparr>"] assms
  by (simp add: frontend_syscall_def spinlock_lock_free spinlock_unlock_def Let_def)

text \<open>A host that answers after a delay that it counts: it opens every file as descriptor 5.\<close>

definition slow_host :: "nat hstate \<Rightarrow> nat hstate" where
  "slow_host s =
     (if tohost s = 0 then s
      else case hdev s of
        Suc n \<Rightarrow> s\<lparr>hdev := n\<rparr>
      | 0 \<Rightarrow> s\<lparr>magic_mem := [5], tohost := 0, fromhost := 1\<rparr>)"

definition slow_env :: "nat henv" where
  "slow_env = \<lparr>he_at = \<lparr>at_read = id, at_set = (\<lambda>v _. v), at_binop = (\<lambda>op c. (c, op c))\<rparr>, he_host = slow_host, he_magic = 0x80010000\<rparr>"

lemma slow_atomics: "atomics_ok (he_at slow_env)"
  by (simp add: slow_env_def atomics_ok_def)

lemma slow_host_serves: "host_serves (he_host slow_env) (he_magic slow_env) (\<lambda>s. s\<lparr>hdev := 0, magic_mem := [5]\<rparr>)"
proof -
  have wait: "(slow_host ^^ i) s = s\<lparr>hdev := hdev s - i\<rparr>" if "i \<le> hdev s" "tohost s \<noteq> 0" for i s
    using that by (induction i) (auto simp: slow_host_def split: nat.splits)
  have answer: "(\<forall>i \<le> hdev s. fromhost ((slow_host ^^ i) s) = 0) \<and>
      (slow_host ^^ Suc (hdev s)) s = s\<lparr>hdev := 0, magic_mem := [5], tohost := 0, fromhost := 1\<rparr>"
    if "tohost s \<noteq> 0" "fromhost s = 0" for s
    using wait [of _ s] that by (auto simp: slow_host_def)
  have idle: "slow_host s = s" if "tohost s = 0" for s using that by (simp add: slow_host_def)
  have env: "he_host slow_env = slow_host" "he_magic slow_env = 0x80010000" by (simp_all add: slow_env_def)
  show ?thesis
    unfolding host_serves_def env
  proof (intro conjI allI impI)
    fix s :: "nat hstate"
    assume s: "tohost s = 0x80010000 \<and> fromhost s = 0"
    then have "tohost s \<noteq> 0" "fromhost s = 0" by auto
    from answer [OF this]
    show "\<exists>k. (\<forall>i \<le> k. fromhost ((slow_host ^^ i) s) = 0) \<and>
      (slow_host ^^ Suc k) s = s\<lparr>hdev := 0, magic_mem := [5]\<rparr>\<lparr>tohost := 0, fromhost := 1\<rparr>" by blast
  qed (use idle in simp_all)
qed

definition idle_io :: "nat hstate" where
  "idle_io = \<lparr>tohost = 0, fromhost = 0, htif_console_buf = 0, htif_lock = 0, magic_mem = replicate 8 0, fe_lock = 0,
     hmem = (\<lambda>_. 0), hdev = 3\<rparr>"

theorem frontend_syscall_returns_witness:
  "frontend_syscall slow_env HTIFSYS_openat [0, 0, 0, 0, 0, 0, 0] idle_io =
     returnO (5, idle_io\<lparr>hdev := 0, magic_mem := [5]\<rparr>)"
  using frontend_syscall_returns [OF slow_atomics slow_host_serves, of idle_io HTIFSYS_openat "[0, 0, 0, 0, 0, 0, 0]"]
  by (simp add: idle_io_def Let_def)

section \<open>The file table\<close>

text \<open>The tables have their size, the descriptors point into the file table, and the interface is idle.\<close>

definition files_wf :: "'d ftable \<Rightarrow> bool" where
  "files_wf t \<longleftrightarrow>
     length (spike_files t) = MAX_FILES \<and> length (spike_fds t) = MAX_FDS \<and>
     (\<forall>f. Some f \<in> set (spike_fds t) \<longrightarrow> f < MAX_FILES)"

definition io_idle :: "'d hstate \<Rightarrow> bool" where
  "io_idle s \<longleftrightarrow> tohost s = 0 \<and> fromhost s = 0 \<and> htif_lock s = 0 \<and> fe_lock s = 0"

text \<open>What a system call of the host does to the interface: its result and its effects.\<close>

definition served :: "'d henv \<Rightarrow> ('d hstate \<Rightarrow> 'd hstate) \<Rightarrow> uint64 list \<Rightarrow> 'd hstate \<Rightarrow> uint64 \<times> 'd hstate" where
  "served E serve args s =
     (let s' = serve (s\<lparr>fe_lock := -1, magic_mem := args, htif_lock := -1, tohost := he_magic E\<rparr>)
      in (hd (magic_mem s'), s'\<lparr>tohost := 0, fromhost := 0, htif_lock := 0, fe_lock := 0\<rparr>))"

lemma file_syscall_ok:
  assumes "atomics_ok (he_at E)" "host_serves (he_host E) (he_magic E) serve" "io_idle (ft_io t)"
  shows "file_syscall E n args t =
    returnO (fst (served E serve (n # args) (ft_io t)), t\<lparr>ft_io := snd (served E serve (n # args) (ft_io t))\<rparr>)"
  using htif_syscall_ok [OF assms(1,2), of "(ft_io t)\<lparr>fe_lock := -1, magic_mem := n # args\<rparr>"] assms
  by (simp add: file_syscall_def frontend_syscall_def io_idle_def served_def spinlock_lock_free spinlock_unlock_def Let_def)

lemma served_idle [simp]: "io_idle (snd (served E serve args s))"
  by (simp add: served_def io_idle_def Let_def)

lemma decref_live:
  assumes "atomics_ok (he_at E)" "f < MAX_FILES" "refcnt (spike_files t ! f) \<noteq> 2"
  shows "spike_file_decref E f t = returnO (set_refcnt f (refcnt (spike_files t ! f) - 1) t)"
  using assms by (simp add: spike_file_decref_def Let_def)

lemma set_refcnt_same [simp]: "f < length (spike_files t) \<Longrightarrow> spike_files (set_refcnt f c t) ! f = (spike_files t ! f)\<lparr>refcnt := c\<rparr>"
  by (simp add: set_refcnt_def)

lemma set_refcnt_other [simp]:
  "g \<noteq> f \<Longrightarrow> spike_files (set_refcnt f c t) ! g = spike_files t ! g"
  "length (spike_files (set_refcnt f c t)) = length (spike_files t)"
  "spike_fds (set_refcnt f c t) = spike_fds t" "ft_io (set_refcnt f c t) = ft_io t"
  "ft_sstatus (set_refcnt f c t) = ft_sstatus t"
  by (simp_all add: set_refcnt_def)

lemma set_kfd_simps [simp]:
  "f < length (spike_files t) \<Longrightarrow> spike_files (set_kfd f k t) ! f = (spike_files t ! f)\<lparr>kfd := k\<rparr>"
  "g \<noteq> f \<Longrightarrow> spike_files (set_kfd f k t) ! g = spike_files t ! g"
  "length (spike_files (set_kfd f k t)) = length (spike_files t)"
  "spike_fds (set_kfd f k t) = spike_fds t" "ft_io (set_kfd f k t) = ft_io t"
  "ft_sstatus (set_kfd f k t) = ft_sstatus t"
  by (simp_all add: set_kfd_def)

lemma set_refcnt_wf [simp]: "files_wf (set_refcnt f c t) = files_wf t"
  by (simp add: files_wf_def)

lemma set_kfd_wf [simp]: "files_wf (set_kfd f k t) = files_wf t"
  by (simp add: files_wf_def)

lemma ft_io_wf [simp]: "files_wf (t\<lparr>ft_io := io\<rparr>) = files_wf t"
  by (simp add: files_wf_def)

text \<open>The first entry without references is taken, with three of them.\<close>

definition first_free :: "nat list \<Rightarrow> 'd ftable \<Rightarrow> nat option" where
  "first_free fs t = List.find (\<lambda>f. refcnt (spike_files t ! f) = 0) fs"

lemma get_free_loop_eq:
  assumes "atomics_ok (he_at E)"
  shows "get_free_loop E fs t =
    (case first_free fs t of None \<Rightarrow> (None, t) | Some f \<Rightarrow> (Some f, set_refcnt f INIT_FILE_REF t))"
  using assms by (induction fs) (auto simp: first_free_def macro_cas_eq Let_def)

lemma spike_file_get_free_eq:
  assumes "atomics_ok (he_at E)"
  shows "spike_file_get_free E t =
    (case first_free [0..<MAX_FILES] t of None \<Rightarrow> (None, t) | Some f \<Rightarrow> (Some f, set_refcnt f INIT_FILE_REF t))"
  using get_free_loop_eq [OF assms] by (simp add: spike_file_get_free_def)

lemma first_free_Some: "first_free [0..<MAX_FILES] t = Some f \<Longrightarrow> f < MAX_FILES \<and> refcnt (spike_files t ! f) = 0"
  by (auto simp: first_free_def find_Some_iff)

lemma openat_eq:
  assumes "atomics_ok (he_at E)" "host_serves (he_host E) (he_magic E) serve" "io_idle (ft_io t)" "files_wf t"
    "cstr (hmem (ft_io t)) fn name"
  shows "spike_file_openat E dirfd fn flags mode t =
    (case first_free [0..<MAX_FILES] t of
       None \<Rightarrow> returnO (ERR_PTR (-12), t)
     | Some f \<Rightarrow>
         let (ret, io) = served E serve [HTIFSYS_openat, word_of_int dirfd, fn, word_of_nat (length name + 1),
               word_of_int flags, word_of_int mode, 0, 0] (ft_io t) in
         if sint ret \<ge> 0 then returnO (File f, set_kfd f (sint (ucast ret :: uint32)) (set_refcnt f 3 (t\<lparr>ft_io := io\<rparr>)))
         else returnO (ERR_PTR (sint ret), set_refcnt f 2 (t\<lparr>ft_io := io\<rparr>)))"
proof (cases "first_free [0..<MAX_FILES] t")
  case None
  then show ?thesis using assms(1) by (simp add: spike_file_openat_def spike_file_get_free_eq ENOMEM_def)
next
  case (Some f)
  then have f: "f < MAX_FILES" "f < length (spike_files t)" using first_free_Some assms(4) by (auto simp: files_wf_def)
  have io: "set_refcnt f c t\<lparr>ft_io := x\<rparr> = set_refcnt f c (t\<lparr>ft_io := x\<rparr>)" for c x by (simp add: set_refcnt_def)
  have twice: "set_refcnt f c (set_refcnt f d t') = set_refcnt f c t'" if "f < length (spike_files t')" for c d and t' :: "'a ftable"
    using that by (simp add: set_refcnt_def)
  show ?thesis
    using Some f assms
    by (simp add: spike_file_openat_def spike_file_get_free_eq strlen_ok file_syscall_ok io twice decref_live
        INIT_FILE_REF_def Let_def split_beta add.commute)
qed

text \<open>C20: opening a file of the host, on every branch: without a free entry the result is \<^verbatim>\<open>-ENOMEM\<close> and
  the host is not asked; otherwise the first free entry gets three references and, if the host
  opened the file, its descriptor; if the host failed, its error is returned and two references
  stay, so that the entry is never free again.\<close>

theorem openat_correct:
  assumes "atomics_ok (he_at E)" "host_serves (he_host E) (he_magic E) serve" "io_idle (ft_io t)" "files_wf t"
    "cstr (hmem (ft_io t)) fn name"
  shows "spike_file_openat E dirfd fn flags mode t =
    (case first_free [0..<MAX_FILES] t of
       None \<Rightarrow> returnO (ERR_PTR (-12), t)
     | Some f \<Rightarrow>
         let (ret, io) = served E serve [HTIFSYS_openat, word_of_int dirfd, fn, word_of_nat (length name + 1),
               word_of_int flags, word_of_int mode, 0, 0] (ft_io t) in
         if sint ret \<ge> 0 then returnO (File f, set_kfd f (sint (ucast ret :: uint32)) (set_refcnt f 3 (t\<lparr>ft_io := io\<rparr>)))
         else returnO (ERR_PTR (sint ret), set_refcnt f 2 (t\<lparr>ft_io := io\<rparr>)))"
  by (rule openat_eq [OF assms])

text \<open>Closing a file that was just opened fails, returns -1 and does not reach the host: \<^verbatim>\<open>spike_file_close\<close>
  drops one of the three references, because only \<^verbatim>\<open>spike_file_dup\<close> would have entered the file in \<^verbatim>\<open>spike_fds\<close>.
  The host file stays open and the entry of the table is taken.\<close>

lemma close_after_open_leaks:
  assumes "atomics_ok (he_at E)" "files_wf t" "f < MAX_FILES" "refcnt (spike_files t ! f) = 3"
    "0 \<le> kfd (spike_files t ! f)" "kfd (spike_files t ! f) < 128" "spike_fds t ! nat (kfd (spike_files t ! f)) \<noteq> Some f"
  shows "spike_file_close E (Some f) t = returnO (-1, set_refcnt f 2 t) \<and>
    ft_io (set_refcnt f 2 t) = ft_io t \<and> first_free [0..<MAX_FILES] (set_refcnt f 2 t) \<noteq> Some f"
proof -
  have "t\<lparr>ft_sstatus := ft_sstatus t, spike_fds := (spike_fds t)[nat (kfd (spike_files t ! f)) := spike_fds t ! nat (kfd (spike_files t ! f))]\<rparr> = t"
    by simp
  then have "spike_file_close E (Some f) t = returnO (-1, set_refcnt f 2 t)"
    using assms by (simp add: spike_file_close_def macro_cas_eq decref_live MAX_FDS_def Let_def)
  moreover have "first_free [0..<MAX_FILES] (set_refcnt f 2 t) \<noteq> Some f"
    using assms(2,3) first_free_Some [of "set_refcnt f 2 t" f] by (auto simp: files_wf_def)
  ultimately show ?thesis by simp
qed

section \<open>The tables stay well formed\<close>

lemma bindO_returnO_iff: "bindO r f = returnO y \<longleftrightarrow> (\<exists>x. r = returnO x \<and> f x = returnO y)"
  by (cases r) (auto simp: bindO_def split: sum.splits)

lemma file_syscall_wf: "file_syscall E n args t = returnO (r, t') \<Longrightarrow> files_wf t' = files_wf t"
  by (auto simp: file_syscall_def bindO_returnO_iff)

lemma decref_wf: "spike_file_decref E f t = returnO t' \<Longrightarrow> files_wf t' = files_wf t"
  by (auto simp: spike_file_decref_def Let_def bindO_returnO_iff split: if_splits prod.splits dest!: file_syscall_wf)

lemma incref_wf: "spike_file_incref E f t = Inr t' \<Longrightarrow> files_wf t' = files_wf t"
  by (auto simp: spike_file_incref_def Let_def split: if_splits prod.splits)

lemma fds_update_wf:
  assumes "files_wf t" "\<And>f. e = Some f \<Longrightarrow> f < MAX_FILES"
  shows "files_wf (t\<lparr>ft_sstatus := st, spike_fds := (spike_fds t)[i := e]\<rparr>)"
  using assms set_update_subset_insert [of "spike_fds t" i e] by (fastforce simp: files_wf_def)

lemma get_free_loop_wf:
  "get_free_loop E fs t = (r, t') \<Longrightarrow> set fs \<subseteq> {..<MAX_FILES} \<Longrightarrow>
     files_wf t' = files_wf t \<and> (\<forall>f. r = Some f \<longrightarrow> f < MAX_FILES)"
proof (induction fs arbitrary: t)
  case (Cons f fs)
  have "files_wf (set_refcnt f c (t\<lparr>ft_sstatus := st\<rparr>)) = files_wf t" for c st by (simp add: files_wf_def)
  with Cons show ?case by (auto simp: Let_def split: if_splits prod.splits)
qed simp

lemma get_free_wf:
  "spike_file_get_free E t = (r, t') \<Longrightarrow> files_wf t' = files_wf t \<and> (\<forall>f. r = Some f \<longrightarrow> f < MAX_FILES)"
  unfolding spike_file_get_free_def by (rule get_free_loop_wf) auto

lemma fds_entry_wf: "files_wf t \<Longrightarrow> i < MAX_FDS \<Longrightarrow> spike_fds t ! i = Some f \<Longrightarrow> f < MAX_FILES"
  unfolding files_wf_def by (metis nth_mem)

lemma dup_loop_wf:
  "dup_loop E f is t = Inr (r, t') \<Longrightarrow> files_wf t \<Longrightarrow> f < MAX_FILES \<Longrightarrow> set is \<subseteq> {..<MAX_FDS} \<Longrightarrow> files_wf t'"
proof (induction "is" arbitrary: t)
  case (Cons i "is")
  let ?e = "if spike_fds t ! i = None then Some f else spike_fds t ! i"
  have "files_wf (t\<lparr>ft_sstatus := ft_sstatus t, spike_fds := (spike_fds t)[i := ?e]\<rparr>)"
    using Cons.prems by (intro fds_update_wf) (auto intro: fds_entry_wf split: if_splits)
  moreover have "t\<lparr>spike_fds := (spike_fds t)[i := Some y]\<rparr> = t" if "spike_fds t ! i = Some y" for y
    using list_update_id [of "spike_fds t" i] that by simp
  ultimately show ?case using Cons by (auto simp: macro_cas_eq Let_def res_simps dest!: incref_wf split: if_splits)
qed simp

lemma dup_wf: "spike_file_dup E f t = Inr (r, t') \<Longrightarrow> files_wf t \<Longrightarrow> f < MAX_FILES \<Longrightarrow> files_wf t'"
  unfolding spike_file_dup_def by (erule dup_loop_wf) auto

lemma file_init_loop_wf: "file_init_loop E is t = Inr t' \<Longrightarrow> files_wf t \<Longrightarrow> files_wf t'"
proof (induction "is" arbitrary: t)
  case (Cons i "is")
  then show ?case
    by (auto simp: res_simps split: prod.splits option.splits dest!: get_free_wf) (metis dup_wf set_kfd_wf)
qed simp

lemma openat_wf:
  assumes "spike_file_openat E d fn fl md t = returnO (r, t')"
  shows "files_wf t' = files_wf t \<and> (\<forall>f. r = File f \<longrightarrow> f < MAX_FILES)"
  using assms
  by (auto simp: spike_file_openat_def Let_def bindO_returnO_iff bind_eq_Some_conv split: if_splits prod.splits option.splits
      dest!: file_syscall_wf decref_wf get_free_wf)

lemma close_wf:
  assumes "spike_file_close E p t = returnO (r, t')" "files_wf t"
  shows "files_wf t'"
proof (cases p)
  case None
  then show ?thesis using assms by (simp add: spike_file_close_def)
next
  case (Some f)
  let ?k = "nat (kfd (spike_files t ! f))"
  let ?e = "if spike_fds t ! ?k = Some f then None else spike_fds t ! ?k"
  have "files_wf (t\<lparr>ft_sstatus := ft_sstatus t, spike_fds := (spike_fds t)[?k := ?e]\<rparr>)" if "?k < MAX_FDS"
    using assms(2) that by (intro fds_update_wf) (auto intro: fds_entry_wf split: if_splits)
  with Some assms(1) show ?thesis
    by (auto simp: spike_file_close_def macro_cas_eq Let_def bindO_returnO_iff split: if_splits dest!: decref_wf)
qed


section \<open>The standard streams\<close>

definition std_files :: "nat \<Rightarrow> spike_file list" where
  "std_files n = map (\<lambda>i. \<lparr>kfd = int i, refcnt = 4\<rparr>) [0..<n] @ replicate (MAX_FILES - n) \<lparr>kfd = -1, refcnt = 0\<rparr>"

definition std_fds :: "nat \<Rightarrow> nat option list" where
  "std_fds n = map Some [0..<n] @ replicate (MAX_FDS - n) None"

lemma length_std [simp]: "n \<le> MAX_FILES \<Longrightarrow> length (std_files n) = MAX_FILES" "n \<le> MAX_FDS \<Longrightarrow> length (std_fds n) = MAX_FDS"
  by (simp_all add: std_files_def std_fds_def)

lemma find_upt_first: "n < k \<Longrightarrow> P n \<Longrightarrow> (\<And>i. i < n \<Longrightarrow> \<not> P i) \<Longrightarrow> List.find P [0..<k] = Some n"
  by (auto simp: find_Some_iff intro!: exI [of _ n])

lemma std_files_nth: "i < MAX_FILES \<Longrightarrow> n \<le> MAX_FILES \<Longrightarrow>
    std_files n ! i = (if i < n then \<lparr>kfd = int i, refcnt = 4\<rparr> else \<lparr>kfd = -1, refcnt = 0\<rparr>)"
  by (auto simp: std_files_def nth_append)

lemma std_fds_nth: "i < MAX_FDS \<Longrightarrow> n \<le> MAX_FDS \<Longrightarrow> std_fds n ! i = (if i < n then Some i else None)"
  by (auto simp: std_fds_def nth_append)

lemma std_files_Suc: "n < MAX_FILES \<Longrightarrow> (std_files n)[n := \<lparr>kfd = int n, refcnt = 4\<rparr>] = std_files (Suc n)"
  by (rule nth_equalityI) (auto simp: std_files_nth nth_list_update less_Suc_eq)

lemma std_fds_Suc: "n < MAX_FDS \<Longrightarrow> (std_fds n)[n := Some n] = std_fds (Suc n)"
  by (rule nth_equalityI) (auto simp: std_fds_nth nth_list_update less_Suc_eq)

lemma dup_loop_first:
  assumes "\<And>i. i \<in> set is \<Longrightarrow> spike_fds t ! i \<noteq> None"
  shows "dup_loop E f (is @ js) t = dup_loop E f js t"
  using assms
proof (induction "is")
  case (Cons i "is")
  obtain y where y: "spike_fds t ! i = Some y" using Cons.prems [of i] by auto
  have "(spike_fds t)[i := Some y] = spike_fds t" using list_update_id [of "spike_fds t" i] y by simp
  with Cons y show ?case by (simp add: macro_cas_eq Let_def)
qed simp

lemma init_step:
  assumes at: "atomics_ok (he_at E)" and n: "n < MAX_FILES" "n < MAX_FDS"
    and t: "spike_files t = std_files n" "spike_fds t = std_fds n"
  shows "file_init_loop E (n # is) t = file_init_loop E is (t\<lparr>spike_files := std_files (Suc n), spike_fds := std_fds (Suc n)\<rparr>)"
proof -
  have "first_free [0..<MAX_FILES] t = Some n"
    unfolding first_free_def using n by (intro find_upt_first) (auto simp: t std_files_nth)
  then have g: "spike_file_get_free E t = (Some n, set_refcnt n 3 t)"
    using at by (simp add: spike_file_get_free_eq INIT_FILE_REF_def)
  let ?t = "set_kfd n (int n) (set_refcnt n 3 t)"
  have ups: "[0..<MAX_FDS] = [0..<n] @ n # [Suc n..<MAX_FDS]"
    using n(2) upt_add_eq_append [of 0 n "MAX_FDS - n"] by (simp add: upt_conv_Cons)
  have "spike_file_dup E n ?t = dup_loop E n (n # [Suc n..<MAX_FDS]) ?t"
    unfolding spike_file_dup_def ups using n by (intro dup_loop_first) (auto simp: t std_fds_nth)
  also have "\<dots> = Inr (int n, t\<lparr>spike_files := std_files (Suc n), spike_fds := std_fds (Suc n)\<rparr>)"
    using n at by (simp add: macro_cas_eq Let_def t std_fds_nth std_files_nth spike_file_incref_def
        set_refcnt_def set_kfd_def std_files_Suc [symmetric] std_fds_Suc [symmetric])
  finally show ?thesis using g by simp
qed

text \<open>After \<^verbatim>\<open>spike_file_init\<close> the entries 0, 1 and 2 are the standard streams: descriptor \<^verbatim>\<open>i\<close> of the kernel is
  entry \<^verbatim>\<open>i\<close>, which is descriptor \<^verbatim>\<open>i\<close> of the host and has four references, and all other entries are free.\<close>

lemma spike_file_init_correct:
  assumes "atomics_ok (he_at E)" "spike_files t = spike_files_init" "spike_fds t = replicate MAX_FDS None"
  shows "spike_file_init E t = Inr (t\<lparr>spike_files := std_files 3, spike_fds := std_fds 3\<rparr>)"
proof -
  have "spike_files t = std_files 0" "spike_fds t = std_fds 0"
    using assms by (simp_all add: spike_files_init_def std_files_def std_fds_def)
  then have "file_init_loop E [0, 1, 2] t = Inr (t\<lparr>spike_files := std_files 3, spike_fds := std_fds 3\<rparr>)"
    using init_step [OF assms(1), of 0 t] init_step [OF assms(1), of 1] init_step [OF assms(1), of 2]
    by (simp add: MAX_FILES_def MAX_FDS_def numeral_2_eq_2 numeral_3_eq_3 del: file_init_loop.simps(2))
  moreover have "[0..<3] = [0, 1, 2 :: nat]" by (simp add: upt_rec)
  ultimately show ?thesis by (simp add: spike_file_init_def)
qed

section \<open>A file table\<close>

definition boot_table :: "nat ftable" where
  "boot_table = \<lparr>spike_files = spike_files_init, spike_fds = replicate MAX_FDS None, ft_sstatus = 2, ft_io = idle_io\<rparr>"

lemma boot_table_wf: "files_wf boot_table"
  by (auto simp: boot_table_def files_wf_def spike_files_init_def)

lemma boot_table_free: "first_free [0..<MAX_FILES] boot_table = Some 0"
  unfolding first_free_def by (rule find_upt_first) (simp_all add: boot_table_def spike_files_init_def MAX_FILES_def)

theorem openat_correct_witness:
  "spike_file_openat slow_env AT_FDCWD 0x1000 0 0 boot_table =
     returnO (File 0, set_kfd 0 5 (set_refcnt 0 3 (boot_table\<lparr>ft_io := idle_io\<lparr>hdev := 0, magic_mem := [5]\<rparr>\<rparr>)))"
proof -
  have "io_idle (ft_io boot_table)" "cstr (hmem (ft_io boot_table)) 0x1000 []"
    by (simp_all add: boot_table_def idle_io_def io_idle_def)
  from openat_correct [OF slow_atomics slow_host_serves this(1) boot_table_wf this(2), of AT_FDCWD 0 0] boot_table_free
  show ?thesis by (simp add: served_def Let_def) (simp add: boot_table_def idle_io_def)
qed

lemma close_after_open_leaks_witness:
  "spike_file_close slow_env (Some 0) (set_kfd 0 5 (set_refcnt 0 3 boot_table)) =
     returnO (-1, set_refcnt 0 2 (set_kfd 0 5 (set_refcnt 0 3 boot_table)))"
  using close_after_open_leaks [OF slow_atomics, of "set_kfd 0 5 (set_refcnt 0 3 boot_table)" 0] boot_table_wf
  by (simp add: boot_table_def spike_files_init_def MAX_FILES_def MAX_FDS_def files_wf_def)

lemma spike_file_init_correct_witness:
  "spike_file_init slow_env boot_table = Inr (boot_table\<lparr>spike_files := std_files 3, spike_fds := std_fds 3\<rparr>)"
  by (rule spike_file_init_correct [OF slow_atomics]) (simp_all add: boot_table_def)


end
