(* ===== verification/Pke_Syscall.thy ===== *)
theory Pke_Syscall
  imports Pke_Process
begin

text \<open>
  The system calls, \<^verbatim>\<open>kernel/syscall.c\<close>: the handlers and their dispatch on the number in the first
  argument. A handler returns a value, enters user mode (when it reschedules) or fails. What is
  printed on the console is not part of the state.
\<close>

section \<open>The numbers\<close>

definition SYS_user_base :: uint64 where "SYS_user_base = 64"
definition SYS_user_print :: uint64 where "SYS_user_print = SYS_user_base + 0"
definition SYS_user_exit :: uint64 where "SYS_user_exit = SYS_user_base + 1"
definition SYS_user_allocate_page :: uint64 where "SYS_user_allocate_page = SYS_user_base + 2"
definition SYS_user_free_page :: uint64 where "SYS_user_free_page = SYS_user_base + 3"
definition SYS_user_fork :: uint64 where "SYS_user_fork = SYS_user_base + 4"
definition SYS_user_yield :: uint64 where "SYS_user_yield = SYS_user_base + 5"
definition SYS_user_sem_new :: uint64 where "SYS_user_sem_new = SYS_user_base + 10"
definition SYS_user_sem_P :: uint64 where "SYS_user_sem_P = SYS_user_base + 11"
definition SYS_user_sem_V :: uint64 where "SYS_user_sem_V = SYS_user_base + 12"
definition SYS_user_printpa :: uint64 where "SYS_user_printpa = SYS_user_base + 13"

lemmas sys_numbers = SYS_user_base_def SYS_user_print_def SYS_user_exit_def SYS_user_allocate_page_def
  SYS_user_free_page_def SYS_user_fork_def SYS_user_yield_def SYS_user_sem_new_def SYS_user_sem_P_def
  SYS_user_sem_V_def SYS_user_printpa_def

section \<open>The handlers\<close>

text \<open>The process that \<^verbatim>\<open>current\<close> points to.\<close>

definition cur_proc :: "kernel \<Rightarrow> (nat \<times> process) res" where
  "cur_proc s = (case current s of None \<Rightarrow> Inl NullDeref
     | Some i \<Rightarrow> bindE (proc_at i s) (\<lambda>p. Inr (i, p)))"

text \<open>The console reads the string at the address found, 0 when the buffer is not mapped.\<close>

definition sys_user_print :: "uint64 \<Rightarrow> uint64 \<Rightarrow> kernel \<Rightarrow> (uint64 \<times> kernel) res" where
  "sys_user_print buf n s =
     bindE (guardE (current s \<noteq> None) (AssertFail ''current'')) (\<lambda>_.
     bindE (cur_proc s) (\<lambda>(i, p).
     bindE (with_vm (user_va_to_pa (pagetable p) buf) s) (\<lambda>(pa, s).
     if pa = 0 then Inl NullDeref else Inr (0, s))))"

definition sys_user_exit :: "externs \<Rightarrow> uint64 \<Rightarrow> kernel \<Rightarrow> uint64 flow" where
  "sys_user_exit x code s =
     (case current s of None \<Rightarrow> Fails NullDeref
      | Some i \<Rightarrow>
          bindF (lift_res (free_process i s)) (\<lambda>_ s.
          bindF (schedule x s) (\<lambda>_ s.
          Returns 0 s)))"

text \<open>Choosing the address of a new heap page: a reclaimed one first, else the top of the heap.\<close>

definition heap_take :: "nat \<Rightarrow> kernel \<Rightarrow> (uint64 \<times> kernel) res" where
  "heap_take i s =
     bindE (proc_at i s) (\<lambda>p.
     if free_pages_count (user_heap p) > 0
     then let c = free_pages_count (user_heap p) - 1 in
          bindE (proc_upd i (\<lambda>p. p\<lparr>user_heap := (user_heap p)\<lparr>free_pages_count := c\<rparr>\<rparr>) s) (\<lambda>s.
          if unat c < length (free_pages_address (user_heap p))
          then let va = free_pages_address (user_heap p) ! unat c in
               if va < heap_top (user_heap p) then Inr (va, s)
               else Inl (AssertFail ''va < current->user_heap.heap_top'')
          else Inl OutOfBounds)
     else let va = heap_top (user_heap p) in
          bindE (proc_upd i (\<lambda>p. p\<lparr>user_heap := (user_heap p)\<lparr>heap_top := va + PGSIZE\<rparr>\<rparr>) s) (\<lambda>s.
          bindE (region_at (mapped_info p) (unat HEAP_SEGMENT) s) (\<lambda>r.
          bindE (region_set (mapped_info p) (unat HEAP_SEGMENT) (r\<lparr>mr_npages := mr_npages r + 1\<rparr>) s) (\<lambda>s.
          Inr (va, s)))))"

definition sys_user_allocate_page :: "kernel \<Rightarrow> (uint64 \<times> kernel) res" where
  "sys_user_allocate_page s =
     bindE (k_alloc_page s) (\<lambda>(pa, s).
     bindE (cur_proc s) (\<lambda>(i, p).
     bindE (heap_take i s) (\<lambda>(va, s).
     bindE (on_vm (user_vm_map (pagetable p) va PGSIZE pa (prot_to_type (PROT_WRITE OR PROT_READ) True)) s) (\<lambda>s.
     Inr (va, s)))))"

definition sys_user_free_page :: "uint64 \<Rightarrow> kernel \<Rightarrow> (uint64 \<times> kernel) res" where
  "sys_user_free_page va s =
     bindE (cur_proc s) (\<lambda>(i, p).
     bindE (on_vm (user_vm_unmap (pagetable p) va PGSIZE True) s) (\<lambda>s.
     let c = free_pages_count (user_heap p) in
     if unat c < length (free_pages_address (user_heap p))
     then bindE (proc_upd i (\<lambda>p. p\<lparr>user_heap := (user_heap p)\<lparr>
                   free_pages_address := (free_pages_address (user_heap p))[unat c := va],
                   free_pages_count := c + 1\<rparr>\<rparr>) s) (\<lambda>s.
          Inr (0, s))
     else Inl OutOfBounds))"

definition sys_user_fork :: "externs \<Rightarrow> kernel \<Rightarrow> (uint64 \<times> kernel) res" where
  "sys_user_fork x s =
     (case current s of None \<Rightarrow> Inl NullDeref
      | Some i \<Rightarrow> bindE (do_fork x i s) (\<lambda>(pid, s). Inr (scast pid, s)))"

definition sys_user_yield :: "kernel \<Rightarrow> (uint64 \<times> kernel) res" where
  "sys_user_yield s = Inl (Panic ''You need to implement the yield syscall in lab3_2.'')"

definition sys_user_sem_new :: "uint32 \<Rightarrow> kernel \<Rightarrow> (uint64 \<times> kernel) res" where
  "sys_user_sem_new value s = Inr (0, s)"

definition sys_user_sem_P :: "uint32 \<Rightarrow> kernel \<Rightarrow> (uint64 \<times> kernel) res" where
  "sys_user_sem_P sem_id s = Inr (0, s)"

definition sys_user_sem_V :: "uint32 \<Rightarrow> kernel \<Rightarrow> (uint64 \<times> kernel) res" where
  "sys_user_sem_V sem_id s = Inr (0, s)"

definition sys_user_printpa :: "uint64 \<Rightarrow> kernel \<Rightarrow> (uint64 \<times> kernel) res" where
  "sys_user_printpa va s =
     bindE (cur_proc s) (\<lambda>(i, p).
     bindE (with_vm (page_walk (pagetable p) va 0 False) s) (\<lambda>(pte, s).
     if pte = 0 then Inr (0, s)
     else bindE (mem_read pte (kvm s)) (\<lambda>e.
          if \<not> pte_valid e then Inr (0, s)
          else Inr (PTE2PA e + (va AND (PGSIZE - 1)), s))))"

section \<open>Dispatch\<close>

definition do_syscall :: "externs \<Rightarrow> uint64 \<Rightarrow> uint64 \<Rightarrow> uint64 \<Rightarrow> uint64 \<Rightarrow> uint64 \<Rightarrow> uint64 \<Rightarrow> uint64 \<Rightarrow> uint64 \<Rightarrow>
    kernel \<Rightarrow> uint64 flow" where
  "do_syscall x a0 a1 a2 a3 a4 a5 a6 a7 s =
     (if a0 = SYS_user_print then lift_res (sys_user_print a1 a2 s)
      else if a0 = SYS_user_exit then sys_user_exit x a1 s
      else if a0 = SYS_user_allocate_page then lift_res (sys_user_allocate_page s)
      else if a0 = SYS_user_free_page then lift_res (sys_user_free_page a1 s)
      else if a0 = SYS_user_fork then lift_res (sys_user_fork x s)
      else if a0 = SYS_user_yield then lift_res (sys_user_yield s)
      else if a0 = SYS_user_sem_new then lift_res (sys_user_sem_new (ucast a1) s)
      else if a0 = SYS_user_sem_P then lift_res (sys_user_sem_P (ucast a1) s)
      else if a0 = SYS_user_sem_V then lift_res (sys_user_sem_V (ucast a1) s)
      else if a0 = SYS_user_printpa then lift_res (sys_user_printpa a1 s)
      else Fails (Panic ''Unknown syscall''))"

end
