(* ===== verification/Pke_Strap.thy ===== *)
theory Pke_Strap
  imports Pke_Syscall
begin

text \<open>
  Supervisor traps, \<^verbatim>\<open>kernel/strap.c\<close>: the dispatch on \<^verbatim>\<open>scause\<close>, the system call entry and the
  copy-on-write page fault.
\<close>

section \<open>The handlers\<close>

definition handle_syscall :: "externs \<Rightarrow> uint64 \<Rightarrow> kernel \<Rightarrow> unit flow" where
  "handle_syscall x tf s =
     liftS (tf_upd tf (\<lambda>t. t\<lparr>epc := epc t + 4\<rparr>) s) (\<lambda>s.
     let r = tf_regs (tframes s tf) in
     bindF (do_syscall x (r_a0 r) (r_a1 r) (r_a2 r) (r_a3 r) (r_a4 r) (r_a5 r) (r_a6 r) (r_a7 r) s) (\<lambda>v s.
     liftS (tf_upd tf (\<lambda>t. t\<lparr>tf_regs := (tf_regs t)\<lparr>r_a0 := v\<rparr>\<rparr>) s) (\<lambda>s.
     Returns () s)))"

definition handle_mtimer_trap :: "kernel \<Rightarrow> unit flow" where
  "handle_mtimer_trap s = Fails (Panic ''lab1_3: increase g_ticks by one, and clear SIP field in sip register.'')"

text \<open>\<^verbatim>\<open>memcpy(dst, src, PGSIZE)\<close> of a page.\<close>

definition copy_frame :: "uint64 \<Rightarrow> uint64 \<Rightarrow> (uint64 \<Rightarrow> uint64) \<Rightarrow> uint64 \<Rightarrow> uint64" where
  "copy_frame dst src m = (\<lambda>a. if a - dst < PGSIZE then m (src + (a - dst)) else m a)"

text \<open>Resolving a store to a copy-on-write page with entry \<open>e\<close>: a private copy while the page is
  referenced more than once, else the page itself becomes writable again.\<close>

definition cow_fault :: "externs \<Rightarrow> uint64 \<Rightarrow> pte_t \<Rightarrow> kernel \<Rightarrow> kernel res" where
  "cow_fault x pte e s =
     (let pa = PTE2PA e in
      if x_get_page_ref x pa (kpmm s) > 1
      then bindE (k_alloc_page s) (\<lambda>(new_pa, s).
           if new_pa = 0 then Inl (Panic ''COW: Out of physical memory.'')
           else let s = s\<lparr>kvm := (kvm s)\<lparr>vmem := copy_frame new_pa pa (kmem s)\<rparr>\<rparr> in
                bindE (mem_read pte (kvm s)) (\<lambda>e.
                bindE (on_vm (mem_write pte (PA2PTE new_pa OR ((e AND 0x3ff) AND NOT PTE_COW) OR PTE_W)) s) (\<lambda>s.
                on_vm (vm_pfree pa) s)))
      else bindE (on_vm (mem_write pte (e OR PTE_W)) s) (\<lambda>s.
           bindE (mem_read pte (kvm s)) (\<lambda>e.
           on_vm (mem_write pte (e AND NOT PTE_COW)) s)))"

definition handle_user_page_fault :: "externs \<Rightarrow> uint64 \<Rightarrow> uint64 \<Rightarrow> uint64 \<Rightarrow> kernel \<Rightarrow> kernel res" where
  "handle_user_page_fault x mcause sepc' stval' s =
     (if mcause = CAUSE_STORE_PAGE_FAULT
      then bindE (cur_proc s) (\<lambda>(i, p).
           bindE (with_vm (page_walk (pagetable p) stval' 0 False) s) (\<lambda>(pte, s).
           bindE (if pte = 0 then Inr 0 else mem_read pte (kvm s)) (\<lambda>e.
           if pte \<noteq> 0 \<and> pte_valid e \<and> e AND PTE_COW \<noteq> 0 then cow_fault x pte e s
           else Inl (Panic ''Illegal memory access or Stack Overflow.''))))
      else Inr s)"

definition rrsched :: "kernel \<Rightarrow> unit flow" where
  "rrsched s = Fails (Panic ''You need to further implement the timer handling in lab3_3.'')"

definition smode_trap_handler :: "externs \<Rightarrow> kernel \<Rightarrow> unit flow" where
  "smode_trap_handler x s =
     (if sstatus_reg (kpmm s) AND SSTATUS_SPP \<noteq> 0 then Fails (Panic ''usertrap: not from user mode'')
      else if current s = None then Fails (AssertFail ''current'')
      else case cur_proc s of Inl e \<Rightarrow> Fails e
      | Inr (i, p) \<Rightarrow>
          liftS (tf_upd (tf_ptr p) (\<lambda>t. t\<lparr>epc := sepc s\<rparr>) s) (\<lambda>s.
          let cause = scause s in
          bindF (if cause = CAUSE_USER_ECALL then handle_syscall x (tf_ptr p) s
                 else if cause = CAUSE_MTIMER_S_TRAP then bindF (handle_mtimer_trap s) (\<lambda>_ s. rrsched s)
                 else if cause = CAUSE_STORE_PAGE_FAULT \<or> cause = CAUSE_LOAD_PAGE_FAULT
                 then liftS (handle_user_page_fault x cause (sepc s) (stval s) s) (\<lambda>s. Returns () s)
                 else Fails (Panic ''unexpected exception happened.'')) (\<lambda>_ s.
          switch_to x (current s) s)))"

end
