(* ===== verification/Pke_Process_Thms.thy ===== *)
theory Pke_Process_Thms
  imports Pke_Process
begin

text \<open>
  The theorems on process creation: which pages a new process gets, what its address space and its
  region table contain, and that no other process or address space changes.
\<close>

section \<open>Running the pieces\<close>

lemma vmm_update_swap: "v\<lparr>vmem := m, vpmm := p\<rparr> = v\<lparr>vpmm := p, vmem := m\<rparr>"
  by (cases v) simp

lemma on_vm_ok: "f (kvm s) = Inr v \<Longrightarrow> on_vm f s = Inr (s\<lparr>kvm := v\<rparr>)"
  by (simp add: on_vm_def)

lemma with_vm_ok: "f (kvm s) = Inr (r, v) \<Longrightarrow> with_vm f s = Inr (r, s\<lparr>kvm := v\<rparr>)"
  by (simp add: with_vm_def)

lemma tf_upd_ok: "a \<noteq> 0 \<Longrightarrow> tf_upd a f s = Inr (s\<lparr>tframes := (tframes s)(a := f (tframes s a))\<rparr>)"
  by (simp add: tf_upd_def)

lemma region_set_ok:
  "a \<noteq> 0 \<Longrightarrow> k < length (minfos s a) \<Longrightarrow> region_set a k r s = Inr (s\<lparr>minfos := (minfos s)(a := (minfos s a)[k := r])\<rparr>)"
  by (simp add: region_set_def)

lemma k_alloc_page_cached:
  assumes "pmm_ok (kpmm s)" "cached_pages (kpmm s) = ps @ [f]"
  shows "\<exists>p'. k_alloc_page s = Inr (PFN_TO_ADDR f, s\<lparr>kvm := (kvm s)\<lparr>vpmm := p'\<rparr>\<rparr>) \<and> pmm_ok p' \<and>
    cached_pages p' = ps \<and> drawn (kpmm s) [f] p'"
  using vm_alloc_page_cached [OF assms] by (auto simp: k_alloc_page_def with_vm_def)

lemma find_free_Some:
  assumes "find_free k ps = Some i"
  shows "k \<le> i \<and> i < k + length ps \<and> status (ps ! (i - k)) = FREE \<and> (\<forall>j<i - k. status (ps ! j) \<noteq> FREE)"
  using assms
proof (induction ps arbitrary: k)
  case (Cons p ps)
  show ?case
  proof (cases "status p = FREE")
    case False
    then have *: "k + 1 \<le> i \<and> i < k + 1 + length ps \<and> status (ps ! (i - (k + 1))) = FREE \<and>
        (\<forall>j<i - (k + 1). status (ps ! j) \<noteq> FREE)" using Cons.IH [of "k + 1"] Cons.prems by (simp del: add_Suc_right)
    then obtain d where d: "i - k = Suc d" "i - (k + 1) = d" by (metis Suc_diff_Suc add.commute less_eq_Suc_le plus_1_eq_Suc)
    have "status ((p # ps) ! j) \<noteq> FREE" if "j < Suc d" for j using that * False d by (cases j) auto
    then show ?thesis using * d by auto
  qed (use Cons in auto)
qed simp

lemma find_free_None: "find_free k ps = None \<longleftrightarrow> (\<forall>p\<in>set ps. status p \<noteq> FREE)"
  by (induction ps arbitrary: k) auto

section \<open>The pages of a new process\<close>

text \<open>Memory pages of the machine lie between 2 GiB and the end of the managed memory.\<close>

definition ram_ok :: "pmm \<Rightarrow> bool" where
  "ram_ok p \<longleftrightarrow> nr_pages p \<le> 32768"

lemma cached_page_bounds:
  assumes "pmm_ok p" "ram_ok p" "f \<in> set (cached_pages p)"
  shows "unat (PFN_TO_ADDR f) = unat f * 4096 + 0x80000000" "unat f < 32768" "page_aligned (PFN_TO_ADDR f)"
    "PFN_TO_ADDR f \<noteq> 0" "PFN_TO_ADDR f < MAXVA" "0 < PFN_TO_ADDR f"
proof -
  have "allocated f 0 p" using assms(1,3) by (simp add: pmm_ok_def)
  then have "f < nr_pages p" using block_ok_less by (auto simp: allocated_def word_less_iff_unat)
  then show b: "unat f < 32768" using assms(2) by (simp add: ram_ok_def word_less_iff_unat word_le_iff_unat)
  then show u: "unat (PFN_TO_ADDR f) = unat f * 4096 + 0x80000000" by (intro unat_PFN_TO_ADDR) simp
  show "page_aligned (PFN_TO_ADDR f)" unfolding page_aligned_unat u by (simp add: dvd_add)
  show "PFN_TO_ADDR f \<noteq> 0" using u by auto
  then show "0 < PFN_TO_ADDR f" by (simp add: word_gt_0)
  show "PFN_TO_ADDR f < MAXVA" unfolding unat_less_maxva u using b by simp
qed

lemma PFN_TO_ADDR_inj_cached:
  assumes "pmm_ok p" "ram_ok p" "f \<in> set (cached_pages p)" "g \<in> set (cached_pages p)" "PFN_TO_ADDR f = PFN_TO_ADDR g"
  shows "f = g"
  using cached_page_bounds(1) [OF assms(1-3)] cached_page_bounds(1) [OF assms(1,2,4)] assms(5)
  by (simp add: word_unat_eq_iff)

lemma split_last5: "5 \<le> length xs \<Longrightarrow> \<exists>ps e d c b a. xs = ps @ [e, d, c, b, a]"
proof -
  assume "5 \<le> length xs"
  then have "length (drop (length xs - 5) xs) = Suc (Suc (Suc (Suc (Suc 0))))" by simp
  then obtain e d c b a where "drop (length xs - 5) xs = [e, d, c, b, a]"
    by (auto simp: length_Suc_conv simp del: length_drop)
  then have "xs = take (length xs - 5) xs @ [e, d, c, b, a]" by (metis append_take_drop_id)
  then show ?thesis by blast
qed

lemma zero_tf_regs: "tf_regs zero_tf = zero_regs"
  by (simp add: zero_tf_def)

text \<open>The state once the five pages of process \<open>i\<close> are allocated.\<close>

definition with_pages :: "nat \<Rightarrow> uint64 \<Rightarrow> uint64 \<Rightarrow> uint64 \<Rightarrow> uint64 \<Rightarrow> pmm \<Rightarrow> kernel \<Rightarrow> kernel" where
  "with_pages i tf dir ks mi pm s =
     s\<lparr>tframes := (tframes s)(tf := zero_tf\<lparr>tf_regs := zero_regs\<lparr>r_sp := USER_STACK_TOP\<rparr>\<rparr>),
       kvm := (kvm s)\<lparr>vpmm := pm, vmem := zero_frame dir (kmem s)\<rparr>,
       procs := (procs s)[i := (procs s ! i)\<lparr>tf_ptr := tf, pagetable := dir, kstack := ks + PGSIZE, mapped_info := mi\<rparr>],
       minfos := (minfos s)(mi := replicate REGIONS_PER_PAGE zero_region)\<rparr>"

lemma alloc_proc_pages_ok:
  assumes ok: "pmm_ok (kpmm s)" and i: "i < length (procs s)"
    and c: "cached_pages (kpmm s) = ps @ [mi, us, ks, dir, tf]" and nz: "PFN_TO_ADDR tf \<noteq> 0"
  shows "\<exists>pm. alloc_proc_pages i s = Inr (PFN_TO_ADDR us,
      with_pages i (PFN_TO_ADDR tf) (PFN_TO_ADDR dir) (PFN_TO_ADDR ks) (PFN_TO_ADDR mi) pm s) \<and>
    pmm_ok pm \<and> cached_pages pm = ps \<and> drawn (kpmm s) [mi, us, ks, dir, tf] pm"
proof -
  let ?at = "\<lambda>m p. (kvm s)\<lparr>vpmm := p, vmem := m\<rparr>"
  have step: "\<exists>p'. (\<forall>t. kvm t = ?at m p \<longrightarrow> k_alloc_page t = Inr (PFN_TO_ADDR f, t\<lparr>kvm := ?at m p'\<rparr>)) \<and>
      pmm_ok p' \<and> cached_pages p' = qs \<and> drawn p [f] p'"
    if "pmm_ok p" "cached_pages p = qs @ [f]" for p f qs m
  proof -
    from vm_alloc_page_cached [of "?at m p" qs f] that obtain p' where
      "vm_alloc_page (?at m p) = Inr (PFN_TO_ADDR f, ?at m p')" "pmm_ok p'" "cached_pages p' = qs" "drawn p [f] p'"
      by (auto simp: vmm_update_swap)
    then show ?thesis by (intro exI [of _ p']) (auto simp: k_alloc_page_def with_vm_def)
  qed
  let ?m = "kmem s" and ?z = "zero_frame (PFN_TO_ADDR dir) (kmem s)"
  from step [of "kpmm s" "ps @ [mi, us, ks, dir]" tf ?m] ok c obtain p1 where
    p1: "\<And>t. kvm t = ?at ?m (kpmm s) \<Longrightarrow> k_alloc_page t = Inr (PFN_TO_ADDR tf, t\<lparr>kvm := ?at ?m p1\<rparr>)"
      "pmm_ok p1" "cached_pages p1 = ps @ [mi, us, ks, dir]" "drawn (kpmm s) [tf] p1" by auto
  from step [of p1 "ps @ [mi, us, ks]" dir ?m] p1 obtain p2 where
    p2: "\<And>t. kvm t = ?at ?m p1 \<Longrightarrow> k_alloc_page t = Inr (PFN_TO_ADDR dir, t\<lparr>kvm := ?at ?m p2\<rparr>)"
      "pmm_ok p2" "cached_pages p2 = ps @ [mi, us, ks]" "drawn p1 [dir] p2" by auto
  from step [of p2 "ps @ [mi, us]" ks ?z] p2 obtain p3 where
    p3: "\<And>t. kvm t = ?at ?z p2 \<Longrightarrow> k_alloc_page t = Inr (PFN_TO_ADDR ks, t\<lparr>kvm := ?at ?z p3\<rparr>)"
      "pmm_ok p3" "cached_pages p3 = ps @ [mi, us]" "drawn p2 [ks] p3" by auto
  from step [of p3 "ps @ [mi]" us ?z] p3 obtain p4 where
    p4: "\<And>t. kvm t = ?at ?z p3 \<Longrightarrow> k_alloc_page t = Inr (PFN_TO_ADDR us, t\<lparr>kvm := ?at ?z p4\<rparr>)"
      "pmm_ok p4" "cached_pages p4 = ps @ [mi]" "drawn p3 [us] p4" by auto
  from step [of p4 ps mi ?z] p4 obtain p5 where
    p5: "\<And>t. kvm t = ?at ?z p4 \<Longrightarrow> k_alloc_page t = Inr (PFN_TO_ADDR mi, t\<lparr>kvm := ?at ?z p5\<rparr>)"
      "pmm_ok p5" "cached_pages p5 = ps" "drawn p4 [mi] p5" by auto
  have "drawn (kpmm s) [mi, us, ks, dir, tf] p5"
    using drawn_trans [OF drawn_trans [OF drawn_trans [OF drawn_trans [OF p1(4) p2(4)] p3(4)] p4(4)] p5(4)] by simp
  moreover have "alloc_proc_pages i s = Inr (PFN_TO_ADDR us,
      with_pages i (PFN_TO_ADDR tf) (PFN_TO_ADDR dir) (PFN_TO_ADDR ks) (PFN_TO_ADDR mi) p5 s)"
    using i nz by (simp add: alloc_proc_pages_def p1(1) p2(1) p3(1) p4(1) p5(1) proc_upd_ok tf_upd_ok zero_vm_page_def
        with_pages_def Let_def zero_tf_regs)
  ultimately show ?thesis using p5(2,3) by blast
qed

section \<open>The mappings of a new process\<close>

abbreviation ustack_page :: uint64 where "ustack_page \<equiv> USER_STACK_TOP - PGSIZE"

text \<open>The page table entries of a new process, and its regions.\<close>

definition new_space :: "uint64 \<Rightarrow> uint64 \<Rightarrow> uint64 \<Rightarrow> uint64 \<Rightarrow> pte_t" where
  "new_space tf us tv va =
     (if same_page tv va then PA2PTE tv OR prot_to_type (PROT_READ OR PROT_EXEC) False OR PTE_V
      else if same_page tf va then PA2PTE tf OR prot_to_type (PROT_WRITE OR PROT_READ) False OR PTE_V
      else if same_page ustack_page va then PA2PTE us OR prot_to_type (PROT_WRITE OR PROT_READ) True OR PTE_V
      else 0)"

definition new_regions :: "uint64 \<Rightarrow> uint64 \<Rightarrow> mapped_region list" where
  "new_regions tf tv =
     [\<lparr>mr_va = ustack_page, mr_npages = 1, mr_seg_type = STACK_SEGMENT\<rparr>,
      \<lparr>mr_va = tf, mr_npages = 1, mr_seg_type = CONTEXT_SEGMENT\<rparr>,
      \<lparr>mr_va = tv, mr_npages = 1, mr_seg_type = SYSTEM_SEGMENT\<rparr>,
      \<lparr>mr_va = USER_FREE_ADDRESS_START, mr_npages = 0, mr_seg_type = HEAP_SEGMENT\<rparr>]"

lemma ustack_facts: "page_aligned ustack_page" "0 < ustack_page" "ustack_page < MAXVA" "unat ustack_page = 0x7fffe000"
  by (simp_all add: page_aligned_unat unat_less_maxva USER_STACK_TOP_def PGSIZE_def)

lemma unat_segments: "unat STACK_SEGMENT = 0" "unat CONTEXT_SEGMENT = 1" "unat SYSTEM_SEGMENT = 2" "unat HEAP_SEGMENT = 3"
  by (simp_all add: segment_defs)

lemma user_vm_map_next:
  assumes "vm_ok root s" "page_aligned va" "0 < va" "va < MAXVA" "2 \<le> page_supply s"
    and "\<And>va'. va' < MAXVA \<Longrightarrow> pte_of (vmem s) root va' = f va'" "\<not> pte_valid (f va)"
  shows "\<exists>s'. user_vm_map root va PGSIZE pa perm s = Inr s' \<and> vm_ok root s' \<and>
    (\<forall>va'<MAXVA. pte_of (vmem s') root va' = (if same_page va va' then PA2PTE pa OR perm OR PTE_V else f va')) \<and>
    page_supply s \<le> page_supply s' + 2 \<and> updated root (pte_of (vmem s') root) s s'"
proof -
  have "missing_tables (vmem s) root va \<le> page_supply s" "\<not> pte_valid (pte_of (vmem s) root va)"
    using missing_le_2 [of "vmem s" root va] assms by simp_all
  from user_vm_map_page [OF assms(1-4) this, of pa perm] obtain s' where
    "user_vm_map root va PGSIZE pa perm s = Inr s'" "vm_ok root s'"
    "\<forall>va'<MAXVA. pte_of (vmem s') root va' = (if same_page va va' then PA2PTE pa OR perm OR PTE_V else pte_of (vmem s) root va')"
    "page_supply s' = page_supply s - missing_tables (vmem s) root va" "updated root (pte_of (vmem s') root) s s'" by blast
  then show ?thesis using assms(6) missing_le_2 [of "vmem s" root va] by (intro exI [of _ s']) auto
qed

lemma map_proc_regions_ok:
  assumes i: "i < length (procs s)" and dir: "vm_ok (pagetable (procs s ! i)) (kvm s)"
    and zero: "\<And>va. pte_of (kmem s) (pagetable (procs s ! i)) va = 0" and sup: "6 \<le> page_supply (kvm s)"
    and tf: "tf_ptr (procs s ! i) = tf" "page_aligned tf" "0 < tf" "tf < MAXVA"
    and tv: "x_trap_sec_start x = tv" "page_aligned tv" "0 < tv" "tv < MAXVA"
    and apart: "\<not> same_page ustack_page tf" "\<not> same_page ustack_page tv" "\<not> same_page tf tv"
    and mi: "mapped_info (procs s ! i) = mi" "mi \<noteq> 0" "minfos s mi = a # b # c # d # rs"
  shows "\<exists>v. map_proc_regions x i us s = Inr (s\<lparr>kvm := v, minfos := (minfos s)(mi := new_regions tf tv @ rs),
      procs := (procs s)[i := (procs s ! i)\<lparr>user_heap := (user_heap (procs s ! i))\<lparr>heap_top := USER_FREE_ADDRESS_START,
        heap_bottom := USER_FREE_ADDRESS_START, free_pages_count := 0\<rparr>, total_mapped_region := 4\<rparr>]\<rparr>) \<and>
    updated (pagetable (procs s ! i)) (new_space tf us tv) (kvm s) v \<and> page_supply (kvm s) \<le> page_supply v + 6"
proof -
  let ?dir = "pagetable (procs s ! i)"
  let ?rwu = "prot_to_type (PROT_WRITE OR PROT_READ) True" and ?rw = "prot_to_type (PROT_WRITE OR PROT_READ) False"
    and ?rx = "prot_to_type (PROT_READ OR PROT_EXEC) False"
  from user_vm_map_next [OF dir ustack_facts(1-3), of "\<lambda>_. 0" us ?rwu] zero sup obtain v1 where
    v1: "user_vm_map ?dir ustack_page PGSIZE us ?rwu (kvm s) = Inr v1" "vm_ok ?dir v1"
      "\<And>va. va < MAXVA \<Longrightarrow> pte_of (vmem v1) ?dir va = (if same_page ustack_page va then PA2PTE us OR ?rwu OR PTE_V else 0)"
      "page_supply (kvm s) \<le> page_supply v1 + 2" "updated ?dir (pte_of (vmem v1) ?dir) (kvm s) v1" by auto
  from user_vm_map_next [OF v1(2) tf(2-4) _ v1(3), of tf ?rw] sup v1(4) apart obtain v2 where
    v2: "user_vm_map ?dir tf PGSIZE tf ?rw v1 = Inr v2" "vm_ok ?dir v2"
      "\<And>va. va < MAXVA \<Longrightarrow> pte_of (vmem v2) ?dir va = (if same_page tf va then PA2PTE tf OR ?rw OR PTE_V
         else if same_page ustack_page va then PA2PTE us OR ?rwu OR PTE_V else 0)"
      "page_supply v1 \<le> page_supply v2 + 2" "updated ?dir (pte_of (vmem v2) ?dir) v1 v2" by auto
  from user_vm_map_next [OF v2(2) tv(2-4) _ v2(3), of tv ?rx] sup v1(4) v2(4) apart obtain v3 where
    v3: "user_vm_map ?dir tv PGSIZE tv ?rx v2 = Inr v3" "vm_ok ?dir v3"
      "\<And>va. va < MAXVA \<Longrightarrow> pte_of (vmem v3) ?dir va = new_space tf us tv va"
      "page_supply v2 \<le> page_supply v3 + 2" "updated ?dir (pte_of (vmem v3) ?dir) v2 v3"
    by (auto simp: new_space_def)
  have "updated ?dir (new_space tf us tv) (kvm s) v3"
    using updated_trans [OF updated_trans [OF v1(5) v2(5)] v3(5)] v3(3) by (rule updated_cong)
  moreover have "map_proc_regions x i us s = Inr (s\<lparr>kvm := v3, minfos := (minfos s)(mi := new_regions tf tv @ rs),
      procs := (procs s)[i := (procs s ! i)\<lparr>user_heap := (user_heap (procs s ! i))\<lparr>heap_top := USER_FREE_ADDRESS_START,
        heap_bottom := USER_FREE_ADDRESS_START, free_pages_count := 0\<rparr>, total_mapped_region := 4\<rparr>]\<rparr>)"
    using i tf(1) tv(1) mi v1(1) v2(1) v3(1)
    by (simp add: map_proc_regions_def proc_at_def region_fill_def on_vm_def region_set_ok unat_segments proc_upd_ok
        Let_def new_regions_def numeral_2_eq_2 numeral_3_eq_3)
  ultimately show ?thesis using v1(4) v2(4) v3(4) by (intro exI [of _ v3]) simp
qed

section \<open>Creating a process\<close>

text \<open>The trap section is a page of its own, outside the page cache.\<close>

definition trap_page_ok :: "externs \<Rightarrow> pmm \<Rightarrow> bool" where
  "trap_page_ok x p \<longleftrightarrow> page_aligned (x_trap_sec_start x) \<and> 0 < x_trap_sec_start x \<and> x_trap_sec_start x < MAXVA \<and>
     x_trap_sec_start x \<noteq> ustack_page \<and> x_trap_sec_start x \<notin> PFN_TO_ADDR ` set (cached_pages p)"

text \<open>The frames taken from the cache between two states.\<close>

definition taken :: "vmm \<Rightarrow> vmm \<Rightarrow> uint64 set" where
  "taken s s' = PFN_TO_ADDR ` (set (cached_pages (vpmm s)) - set (cached_pages (vpmm s')))"

lemma same_page_aligned:
  assumes "page_aligned a" "page_aligned b" "a < MAXVA" "b < MAXVA"
  shows "same_page a b \<longleftrightarrow> a = b"
proof -
  have "unat a div 4096 = unat b div 4096 \<longleftrightarrow> unat a = unat b"
    using assms(1,2) by (auto simp: page_aligned_unat elim!: dvdE)
  then show ?thesis using same_page_iff [OF assms(3,4)] by (simp add: word_unat_eq_iff)
qed

lemma taken_drawn:
  assumes "drawn (vpmm s) qs (vpmm s')" "pmm_ok (vpmm s)"
  shows "taken s s' = PFN_TO_ADDR ` set qs"
proof -
  have "cached_pages (vpmm s) = cached_pages (vpmm s') @ qs" using assms(1) by (simp add: drawn_def)
  moreover from this have "set (cached_pages (vpmm s')) \<inter> set qs = {}"
    using assms(2) by (metis distinct_append pmm_ok_def)
  ultimately have "set (cached_pages (vpmm s)) - set (cached_pages (vpmm s')) = set qs" by auto
  then show ?thesis by (simp add: taken_def)
qed

text \<open>Clearing a cached page makes an empty directory and leaves every address space alone.\<close>

lemma zero_frame_directory:
  assumes "page_aligned dir" "dir \<noteq> 0" "pmm_ok pm" "dir \<notin> PFN_TO_ADDR ` set (cached_pages pm)"
  shows "vm_ok dir (v\<lparr>vpmm := pm, vmem := zero_frame dir m\<rparr>)" "tables (zero_frame dir m) dir = {dir}"
    "pte_of (zero_frame dir m) dir va = 0"
  using empty_tree [OF zero_frame_entry assms(1,2), of m] assms(3,4) by (simp_all add: vm_ok_def)

lemma zero_frame_other:
  assumes "vm_ok root s" "page_aligned dir" "dir \<notin> tables (vmem s) root"
  shows "path_ok q \<Longrightarrow> table_at (zero_frame dir (vmem s)) root q = table_at (vmem s) root q"
    "pt_wf (zero_frame dir (vmem s)) root" "tables (zero_frame dir (vmem s)) root = tables (vmem s) root"
    "pte_of (zero_frame dir (vmem s)) root va = pte_of (vmem s) root va"
proof -
  have wf: "pt_wf (vmem s) root" using assms(1) by (simp add: vm_ok_def)
  have "zero_frame dir (vmem s) a = vmem s a" if "t \<in> tables (vmem s) root" "a - t < PGSIZE" for t a
    using frames_apart [OF tables_aligned [OF wf that(1)] assms(2) _ that(2)] that(1) assms(3)
    by (auto simp: zero_frame_def)
  note * = frame_agrees [OF wf this]
  show "path_ok q \<Longrightarrow> table_at (zero_frame dir (vmem s)) root q = table_at (vmem s) root q"
    "pt_wf (zero_frame dir (vmem s)) root" "tables (zero_frame dir (vmem s)) root = tables (vmem s) root"
    "pte_of (zero_frame dir (vmem s)) root va = pte_of (vmem s) root va"
    by (rule *; assumption)+
qed

text \<open>The address space that \<open>f\<close> describes was built at \<open>dir\<close> out of cached pages only.\<close>

definition built :: "uint64 \<Rightarrow> (uint64 \<Rightarrow> pte_t) \<Rightarrow> vmm \<Rightarrow> vmm \<Rightarrow> bool" where
  "built dir f s s' \<longleftrightarrow> vm_ok dir s' \<and> (\<forall>va<MAXVA. pte_of (vmem s') dir va = f va) \<and>
     tables (vmem s') dir \<subseteq> taken s s' \<and> set (cached_pages (vpmm s')) \<subseteq> set (cached_pages (vpmm s)) \<and>
     (\<exists>qs. drawn (vpmm s) qs (vpmm s')) \<and>
     (\<forall>a. (\<forall>t\<in>taken s s'. \<not> a - t < PGSIZE) \<longrightarrow> vmem s' a = vmem s a) \<and>
     (\<forall>root. vm_ok root s \<longrightarrow> vm_ok root s' \<and> tables (vmem s') root = tables (vmem s) root \<and>
        tables (vmem s') dir \<inter> tables (vmem s') root = {} \<and>
        (\<forall>va. pte_of (vmem s') root va = pte_of (vmem s) root va) \<and>
        (\<forall>q. path_ok q \<longrightarrow> table_at (vmem s') root q = table_at (vmem s) root q))"

lemma built_other:
  assumes "built dir f s s'" "vm_ok root s"
  shows "vm_ok root s'" "tables (vmem s') root = tables (vmem s) root" "tables (vmem s') dir \<inter> tables (vmem s') root = {}"
    "pte_of (vmem s') root va = pte_of (vmem s) root va" "path_ok q \<Longrightarrow> table_at (vmem s') root q = table_at (vmem s) root q"
  using assms unfolding built_def by blast+

lemma drawn_ram_ok: "drawn p qs p' \<Longrightarrow> ram_ok p' = ram_ok p"
  by (auto simp: drawn_def ram_ok_def cache_set_def)

lemma built_fresh:
  assumes ok: "pmm_ok (vpmm s)" and d: "drawn (vpmm s) qs pm" "pmm_ok pm"
    and dir: "dir \<in> PFN_TO_ADDR ` set qs" "page_aligned dir" "dir \<noteq> 0" "dir \<notin> PFN_TO_ADDR ` set (cached_pages pm)"
    and up: "updated dir f (s\<lparr>vpmm := pm, vmem := zero_frame dir (vmem s)\<rparr>) s'" (is "updated dir f ?s1 s'")
  shows "built dir f s s'"
proof -
  note z = zero_frame_directory [OF dir(2,3) d(2) dir(4), where m = "vmem s"]
  from up obtain rs where rs: "drawn pm rs (vpmm s')" "tables (vmem s') dir = {dir} \<union> PFN_TO_ADDR ` set rs"
    using z(2) by (auto simp: updated_def)
  have tk: "taken s s' = PFN_TO_ADDR ` set (rs @ qs)" by (rule taken_drawn [OF drawn_trans [OF d(1) rs(1)] ok])
  then have tt: "tables (vmem s') dir \<subseteq> taken s s'" "dir \<in> taken s s'" using rs(2) dir(1) by auto
  have cp: "cached_pages (vpmm s) = cached_pages (vpmm s') @ rs @ qs" "cached_pages (vpmm s) = cached_pages pm @ qs"
    using d(1) drawn_trans [OF d(1) rs(1)] by (simp_all add: drawn_def)
  have "vmem s' a = vmem s a" if "\<forall>t\<in>taken s s'. \<not> a - t < PGSIZE" for a
  proof -
    have "\<forall>t\<in>tables (vmem s') dir. \<not> a - t < PGSIZE" "\<not> a - dir < PGSIZE" using that tt by blast+
    then show ?thesis using up by (simp add: updated_def zero_frame_def)
  qed
  moreover have "vm_ok root s' \<and> tables (vmem s') root = tables (vmem s) root \<and>
      tables (vmem s') dir \<inter> tables (vmem s') root = {} \<and> (\<forall>va. pte_of (vmem s') root va = pte_of (vmem s) root va) \<and>
      (\<forall>q. path_ok q \<longrightarrow> table_at (vmem s') root q = table_at (vmem s) root q)"
    if root: "vm_ok root s" for root
  proof -
    have nd: "dir \<notin> tables (vmem s) root" using root dir(1) cp(2) by (auto simp: vm_ok_def)
    note o = zero_frame_other [OF root dir(2) nd]
    have ok1: "vm_ok root ?s1" using root o(2,3) d(2) cp(2) by (auto simp: vm_ok_def)
    have "tables (vmem ?s1) dir \<inter> tables (vmem ?s1) root = {}" using z(2) o(3) nd by simp
    from other_space [OF up ok1 this] show ?thesis using o(1,3,4) by simp
  qed
  moreover have "vm_ok dir s'" "\<forall>va<MAXVA. pte_of (vmem s') dir va = f va" using up by (simp_all add: updated_def)
  moreover have "set (cached_pages (vpmm s')) \<subseteq> set (cached_pages (vpmm s))" using cp by simp
  moreover have "\<exists>qs. drawn (vpmm s) qs (vpmm s')" using drawn_trans [OF d(1) rs(1)] by blast
  ultimately show ?thesis using tt(1) unfolding built_def by blast
qed

definition new_frame :: trapframe where
  "new_frame = zero_tf\<lparr>tf_regs := zero_regs\<lparr>r_sp := USER_STACK_TOP\<rparr>\<rparr>"

definition new_process :: "uint64 \<Rightarrow> uint64 \<Rightarrow> uint64 \<Rightarrow> uint64 \<Rightarrow> process \<Rightarrow> process" where
  "new_process tf dir ks mi p = p\<lparr>tf_ptr := tf, pagetable := dir, kstack := ks + PGSIZE, mapped_info := mi,
     user_heap := (user_heap p)\<lparr>heap_top := USER_FREE_ADDRESS_START, heap_bottom := USER_FREE_ADDRESS_START,
       free_pages_count := 0\<rparr>, total_mapped_region := 4\<rparr>"

lemma not_image: "(\<And>a b. a \<in> A \<Longrightarrow> b \<in> A \<Longrightarrow> h a = h b \<Longrightarrow> a = b) \<Longrightarrow> x \<in> A \<Longrightarrow> B \<subseteq> A \<Longrightarrow> x \<notin> B \<Longrightarrow> h x \<notin> h ` B"
  by blast

lemma alloc_process_ok:
  assumes ok: "pmm_ok (kpmm s)" "ram_ok (kpmm s)" and sup: "11 \<le> page_supply (kvm s)"
    and i: "find_free 0 (procs s) = Some i" and tv: "trap_page_ok x (kpmm s)"
  shows "\<exists>tf dir ks us mi v. alloc_process x s = Inr (i, s\<lparr>tframes := (tframes s)(tf := new_frame), kvm := v,
       minfos := (minfos s)(mi := new_regions tf (x_trap_sec_start x) @ replicate 252 zero_region),
       procs := (procs s)[i := new_process tf dir ks mi (procs s ! i)]\<rparr>) \<and>
     distinct [tf, dir, ks, us, mi] \<and> set [tf, dir, ks, us, mi] \<subseteq> taken (kvm s) v \<and>
     built dir (new_space tf us (x_trap_sec_start x)) (kvm s) v \<and> page_supply (kvm s) \<le> page_supply v + 11 \<and>
     set [tf, ks, us, mi] \<inter> tables (vmem v) dir = {}"
proof -
  from split_last5 [of "cached_pages (kpmm s)"] sup obtain ps mi us ks dir tf where
    c: "cached_pages (kpmm s) = ps @ [mi, us, ks, dir, tf]" by auto
  let ?A = "PFN_TO_ADDR" and ?tv = "x_trap_sec_start x"
  note b = cached_page_bounds [OF ok] and inj = PFN_TO_ADDR_inj_cached [OF ok]
  have d: "distinct (ps @ [mi, us, ks, dir, tf])" using ok(1) c by (metis pmm_ok_def)
  have "inj_on ?A (set (cached_pages (kpmm s)))" by (rule inj_onI) (rule inj)
  then have "inj_on ?A (set [tf, dir, ks, us, mi])" by (rule inj_on_subset) (simp add: c)
  then have da: "distinct (map ?A [tf, dir, ks, us, mi])" using d by (subst distinct_map) auto
  have il: "i < length (procs s)" using find_free_Some [OF i] by simp
  have mem: "tf \<in> set (cached_pages (kpmm s))" "dir \<in> set (cached_pages (kpmm s))" "mi \<in> set (cached_pages (kpmm s))"
    using c by auto
  from alloc_proc_pages_ok [OF ok(1) il c b(4) [OF mem(1)]] obtain pm where
    pm: "alloc_proc_pages i s = Inr (?A us, with_pages i (?A tf) (?A dir) (?A ks) (?A mi) pm s)"
      "pmm_ok pm" "cached_pages pm = ps" "drawn (kpmm s) [mi, us, ks, dir, tf] pm" by blast
  let ?s1 = "with_pages i (?A tf) (?A dir) (?A ks) (?A mi) pm s"
  have nd: "?A dir \<notin> ?A ` set (cached_pages pm)" 
  proof
    assume "?A dir \<in> ?A ` set (cached_pages pm)"
    then obtain g where g: "g \<in> set ps" "?A dir = ?A g" using pm(3) by auto
    then have "dir = g" using c by (intro inj [OF mem(2)]) simp_all
    then show False using d g(1) by simp
  qed
  note z = zero_frame_directory [OF b(3,4) [OF mem(2)] pm(2) nd, where m = "kmem s"]
  have tvs: "page_aligned ?tv" "0 < ?tv" "?tv < MAXVA" "?tv \<noteq> ustack_page" "?tv \<noteq> ?A tf"
    using tv mem(1) by (auto simp: trap_page_ok_def)
  have "ustack_page \<noteq> ?A tf" using b(1) [OF mem(1)] ustack_facts(4) by (auto simp: word_unat_eq_iff)
  then have apart: "\<not> same_page ustack_page (?A tf)" "\<not> same_page ustack_page ?tv" "\<not> same_page (?A tf) ?tv"
    using same_page_aligned ustack_facts tvs b(3,5) [OF mem(1)] by metis+
  have rl: "replicate REGIONS_PER_PAGE zero_region = zero_region # zero_region # zero_region # zero_region # replicate 252 zero_region"
    by (simp add: REGIONS_PER_PAGE_def flip: replicate_Suc)
  have "\<exists>v. map_proc_regions x i (?A us) ?s1 = Inr (?s1\<lparr>kvm := v, minfos := (minfos ?s1)(?A mi := new_regions (?A tf) ?tv @ replicate 252 zero_region),
      procs := (procs ?s1)[i := (procs ?s1 ! i)\<lparr>user_heap := (user_heap (procs ?s1 ! i))\<lparr>heap_top := USER_FREE_ADDRESS_START,
        heap_bottom := USER_FREE_ADDRESS_START, free_pages_count := 0\<rparr>, total_mapped_region := 4\<rparr>]\<rparr>) \<and>
    updated (pagetable (procs ?s1 ! i)) (new_space (?A tf) (?A us) ?tv) (kvm ?s1) v \<and> page_supply (kvm ?s1) \<le> page_supply v + 6"
    by (rule map_proc_regions_ok [OF _ _ _ _ _ b(3,6,5) [OF mem(1)] refl tvs(1-3) apart _ b(4) [OF mem(3)]])
      (use il z(1,3) rl sup c pm(3) in \<open>simp_all add: with_pages_def\<close>)
  then obtain v where
    v: "map_proc_regions x i (?A us) ?s1 = Inr (s\<lparr>tframes := (tframes s)(?A tf := new_frame), kvm := v,
       minfos := (minfos s)(?A mi := new_regions (?A tf) ?tv @ replicate 252 zero_region),
       procs := (procs s)[i := new_process (?A tf) (?A dir) (?A ks) (?A mi) (procs s ! i)]\<rparr>)"
      "updated (?A dir) (new_space (?A tf) (?A us) ?tv) ((kvm s)\<lparr>vpmm := pm, vmem := zero_frame (?A dir) (kmem s)\<rparr>) v"
      "length ps \<le> page_supply v + 6"
    using il pm(3) by (auto simp: with_pages_def new_process_def new_frame_def)
  have bu: "built (?A dir) (new_space (?A tf) (?A us) ?tv) (kvm s) v"
    by (rule built_fresh [OF ok(1) pm(4,2) _ b(3,4) [OF mem(2)] nd v(2)]) simp
  from v(2) obtain rs where rs: "drawn pm rs (vpmm v)" "tables (vmem v) (?A dir) = {?A dir} \<union> ?A ` set rs"
    using z(2) by (auto simp: updated_def)
  have "set rs \<subseteq> set ps" using rs(1) pm(3) by (auto simp: drawn_def)
  then have nr: "?A f \<notin> ?A ` set rs" if "f \<in> set [mi, us, ks, tf]" for f
    using that d by (intro not_image [of "set (cached_pages (kpmm s))", OF inj]) (auto simp: c)
  then have out: "set [?A tf, ?A ks, ?A us, ?A mi] \<inter> tables (vmem v) (?A dir) = {}" using da rs(2) by auto
  from rs(1) have "taken (kvm s) v = ?A ` set (rs @ [mi, us, ks, dir, tf])"
    by (intro taken_drawn [OF drawn_trans [OF pm(4)] ok(1)])
  moreover have "distinct [?A tf, ?A dir, ?A ks, ?A us, ?A mi]" using da by simp
  moreover have "alloc_process x s = Inr (i, s\<lparr>tframes := (tframes s)(?A tf := new_frame), kvm := v,
       minfos := (minfos s)(?A mi := new_regions (?A tf) ?tv @ replicate 252 zero_region),
       procs := (procs s)[i := new_process (?A tf) (?A dir) (?A ks) (?A mi) (procs s ! i)]\<rparr>)"
    using i pm(1) v(1) by (simp add: alloc_process_def)
  ultimately show ?thesis using bu v(3) c out
    by (intro exI [of _ "?A tf"] exI [of _ "?A dir"] exI [of _ "?A ks"] exI [of _ "?A us"] exI [of _ "?A mi"] exI [of _ v]) simp
qed

section \<open>Theorems\<close>

text \<open>C15: With a free slot and enough cached pages, \<^verbatim>\<open>alloc_process\<close> takes the first free slot of the
  process table and five different pages for it, none but the directory a page table. The new address space, made of pages taken from the
  cache, maps the user stack writable for the user, the trap frame and the trap section at their
  own addresses for the supervisor only, and nothing else; the trap frame is zero but for the stack
  pointer, and the region table lists these regions and an empty heap. Every other process,
  trap frame, region table and address space is as before, and no memory outside the pages taken
  is written.\<close>

theorem alloc_process_correct:
  assumes "pmm_ok (kpmm s)" and "ram_ok (kpmm s)" and "11 \<le> page_supply (kvm s)"
    and "find_free 0 (procs s) = Some i" and "trap_page_ok x (kpmm s)"
  shows "\<exists>tf dir ks us mi v. alloc_process x s = Inr (i, s\<lparr>tframes := (tframes s)(tf := new_frame), kvm := v,
       minfos := (minfos s)(mi := new_regions tf (x_trap_sec_start x) @ replicate 252 zero_region),
       procs := (procs s)[i := new_process tf dir ks mi (procs s ! i)]\<rparr>) \<and>
     status (procs s ! i) = FREE \<and> (\<forall>j<i. status (procs s ! j) \<noteq> FREE) \<and>
     distinct [tf, dir, ks, us, mi] \<and> set [tf, dir, ks, us, mi] \<subseteq> taken (kvm s) v \<and>
     built dir (new_space tf us (x_trap_sec_start x)) (kvm s) v \<and> page_supply (kvm s) \<le> page_supply v + 11 \<and>
     set [tf, ks, us, mi] \<inter> tables (vmem v) dir = {}"
  using alloc_process_ok [OF assms] find_free_Some [OF assms(4)] by auto

text \<open>A kernel with an empty process table on the booted machine.\<close>

definition empty_kernel :: kernel where
  "empty_kernel = init_proc_pool (idle_kernel\<lparr>procs := []\<rparr>)"

lemma empty_procs: "procs empty_kernel = map (\<lambda>i. zero_process\<lparr>status := FREE, pid := word_of_nat i\<rparr>) [0..<NPROC]"
  by (auto simp: empty_kernel_def init_proc_pool_def Let_def)

lemma empty_facts:
  "kvm empty_kernel = boot_vm" "pmm_ok (kpmm empty_kernel)" "ram_ok (kpmm empty_kernel)" "page_supply (kvm empty_kernel) = 32"
  "find_free 0 (procs empty_kernel) = Some 0" "trap_page_ok sample_externs (kpmm empty_kernel)" "ready_queue [] empty_kernel"
proof -
  show v: "kvm empty_kernel = boot_vm"
    by (simp add: empty_kernel_def init_proc_pool_def idle_kernel_def boot_vm_def Let_def)
  show "pmm_ok (kpmm empty_kernel)" "page_supply (kvm empty_kernel) = 32" using v booted_facts by (simp_all add: boot_vm_def)
  show r: "ram_ok (kpmm empty_kernel)" using v booted_facts(4) by (simp add: boot_vm_def ram_ok_def word_le_iff_unat)
  have "[0..<NPROC] = 0 # [1..<NPROC]" by (simp add: NPROC_def upt_conv_Cons)
  then show "find_free 0 (procs empty_kernel) = Some 0" by (simp add: empty_procs)
  have "unat f \<ge> 208" if "f \<in> set (cached_pages booted)" for f using that booted_facts(6) by auto
  then have "(0x80002000 :: uint64) \<notin> PFN_TO_ADDR ` set (cached_pages booted)"
    using cached_page_bounds(1) [OF booted_facts(2)] r v by (fastforce simp: boot_vm_def word_unat_eq_iff)
  then show "trap_page_ok sample_externs (kpmm empty_kernel)"
    using v by (simp add: trap_page_ok_def sample_externs_def boot_vm_def page_aligned_unat unat_less_maxva
        USER_STACK_TOP_def PGSIZE_def)
  show "ready_queue [] empty_kernel"
    by (simp add: ready_queue_def empty_kernel_def init_proc_pool_def idle_kernel_def Let_def)
qed

theorem alloc_process_correct_witness:
  "\<exists>s' us. alloc_process sample_externs empty_kernel = Inr (0, s') \<and>
     pte_of (kmem s') (pagetable (procs s' ! 0)) ustack_page =
       PA2PTE us OR prot_to_type (PROT_WRITE OR PROT_READ) True OR PTE_V \<and>
     pte_of (kmem s') (pagetable (procs s' ! 0)) 0x400000 = 0"
proof -
  from alloc_process_correct [OF empty_facts(2,3) _ empty_facts(5,6)] empty_facts(4) obtain tf dir ks us mi v where
    a: "alloc_process sample_externs empty_kernel = Inr (0, empty_kernel\<lparr>tframes := (tframes empty_kernel)(tf := new_frame), kvm := v,
       minfos := (minfos empty_kernel)(mi := new_regions tf (x_trap_sec_start sample_externs) @ replicate 252 zero_region),
       procs := (procs empty_kernel)[0 := new_process tf dir ks mi (procs empty_kernel ! 0)]\<rparr>)"
      "set [tf, dir, ks, us, mi] \<subseteq> taken (kvm empty_kernel) v"
      "built dir (new_space tf us (x_trap_sec_start sample_externs)) (kvm empty_kernel) v" by auto
  have "tf \<in> PFN_TO_ADDR ` set (cached_pages (kpmm empty_kernel))" using a(2) by (auto simp: taken_def)
  then have tf: "page_aligned tf" "tf < MAXVA" "0x80000000 \<le> unat tf"
    using cached_page_bounds [OF empty_facts(2,3)] by auto
  have al: "page_aligned 0x80002000" "page_aligned 0x400000" "(0x80002000 :: uint64) < MAXVA" by (simp_all add: page_aligned_unat unat_less_maxva)
  have ne: "tf \<noteq> ustack_page" "tf \<noteq> 0x400000" "0x80002000 \<noteq> ustack_page" "ustack_page \<noteq> 0x400000"
    using tf(3) by (auto simp: ustack_facts(4) word_unat_eq_iff)
  have "new_space tf us 0x80002000 ustack_page = PA2PTE us OR prot_to_type (PROT_WRITE OR PROT_READ) True OR PTE_V"
    "new_space tf us 0x80002000 0x400000 = 0"
    using same_page_aligned ne tf al ustack_facts small_va by (simp_all add: new_space_def)
  moreover have "0 < length (procs empty_kernel)" by (simp add: empty_procs NPROC_def)
  ultimately show ?thesis using a(1,3) ustack_facts(3) small_va
    by (auto simp: built_def new_process_def sample_externs_def)
qed

text \<open>Without a free slot \<^verbatim>\<open>alloc_process\<close> panics, and with a free slot but no cached page it waits for
  ever for the allocator's lock; in both cases so does \<^verbatim>\<open>do_fork\<close>.\<close>

lemma alloc_process_fails:
  assumes "pi < length (procs s)"
  shows "((\<forall>p\<in>set (procs s). status p \<noteq> FREE) \<longrightarrow>
      alloc_process x s = Inl (Panic ''cannot find any free process structure.'') \<and>
      do_fork x pi s = Inl (Panic ''cannot find any free process structure.'')) \<and>
    ((\<exists>p\<in>set (procs s). status p = FREE) \<and> pmm_ok (kpmm s) \<and> page_supply (kvm s) = 0 \<longrightarrow>
      alloc_process x s = Inl Spin \<and> do_fork x pi s = Inl Spin)"
proof (intro conjI impI)
  have fork: "do_fork x pi s = Inl e" if "alloc_process x s = Inl e" for e
    using assms that by (simp add: do_fork_def proc_at_def)
  { assume "\<forall>p\<in>set (procs s). status p \<noteq> FREE"
    then have "find_free 0 (procs s) = None" by (simp add: find_free_None)
    then show "alloc_process x s = Inl (Panic ''cannot find any free process structure.'')" by (simp add: alloc_process_def)
    then show "do_fork x pi s = Inl (Panic ''cannot find any free process structure.'')" by (rule fork) }
  { assume a: "(\<exists>p\<in>set (procs s). status p = FREE) \<and> pmm_ok (kpmm s) \<and> page_supply (kvm s) = 0"
    then obtain i where "find_free 0 (procs s) = Some i" using find_free_None [of 0 "procs s"] by auto
    moreover have "vm_alloc_page (kvm s) = Inl Spin" using a vm_alloc_page_empty [of "kvm s"] by simp
    ultimately show "alloc_process x s = Inl Spin"
      by (simp add: alloc_process_def alloc_proc_pages_def k_alloc_page_def with_vm_def)
    then show "do_fork x pi s = Inl Spin" by (rule fork) }
qed

lemma alloc_process_fails_witness:
  "do_fork sample_externs 0 (empty_kernel\<lparr>procs := [zero_process\<lparr>status := RUNNING\<rparr>]\<rparr>) =
     Inl (Panic ''cannot find any free process structure.'')"
  using alloc_process_fails [of 0 "empty_kernel\<lparr>procs := [zero_process\<lparr>status := RUNNING\<rparr>]\<rparr>" sample_externs] by simp

end
