(* ===== verification/Pke_Fork.thy ===== *)
theory Pke_Fork
  imports Pke_Process_Thms
begin

text \<open>
  Fork, \<^verbatim>\<open>do_fork\<close> of \<^verbatim>\<open>kernel/process.c\<close>, refines an operation on two functions from virtual
  addresses to page table entries, the address space of the parent and that of the child: stack and
  heap pages are shared copy-on-write, code pages are mapped read-only.
\<close>

section \<open>The abstract operation\<close>

text \<open>What sharing does to an entry: a writable one becomes read-only and is marked.\<close>

definition cow :: "pte_t \<Rightarrow> pte_t" where
  "cow e = (if PTE_W AND e \<noteq> 0 then e AND NOT PTE_W OR PTE_COW else e)"

type_synonym spaces = "(uint64 \<Rightarrow> pte_t) \<times> (uint64 \<Rightarrow> pte_t)"

definition set_page :: "uint64 \<Rightarrow> pte_t \<Rightarrow> (uint64 \<Rightarrow> pte_t) \<Rightarrow> uint64 \<Rightarrow> pte_t" where
  "set_page va e f = (\<lambda>va'. if same_page va va' then e else f va')"

fun share_spec :: "uint64 list \<Rightarrow> spaces \<Rightarrow> spaces" where
  "share_spec [] (f, g) = (f, g)"
| "share_spec (va # vas) (f, g) =
     (if pte_valid (f va) then share_spec vas (set_page va (cow (f va)) f, set_page va (cow (f va)) g)
      else share_spec vas (f, g))"

text \<open>The frame that \<^verbatim>\<open>lookup_pa\<close> returns for an entry.\<close>

definition readable_pa :: "pte_t \<Rightarrow> uint64" where
  "readable_pa e = (if pte_valid e \<and> (e AND PTE_R \<noteq> 0 \<or> e AND PTE_W \<noteq> 0) then PTE2PA e else 0)"

fun code_spec :: "uint64 list \<Rightarrow> spaces \<Rightarrow> spaces option" where
  "code_spec [] (f, g) = Some (f, g)"
| "code_spec (va # vas) (f, g) =
     (if pte_valid (g va) then None
      else code_spec vas
        (f, set_page va (PA2PTE (readable_pa (f va)) OR prot_to_type (PROT_READ OR PROT_EXEC) True OR PTE_V) g))"

text \<open>The page addresses of a region, and the effect of one region and of all of them. There is no result
  where a code page of the parent is mapped already in the child.\<close>

definition region_vas :: "mapped_region \<Rightarrow> uint64 list" where
  "region_vas r = map (\<lambda>k. mr_va r + page_off k) [0..<unat (mr_npages r)]"

definition shared_seg :: "mapped_region \<Rightarrow> bool" where
  "shared_seg r \<longleftrightarrow> mr_seg_type r = STACK_SEGMENT \<or> mr_seg_type r = HEAP_SEGMENT"

definition region_spec :: "mapped_region \<Rightarrow> spaces \<Rightarrow> spaces option" where
  "region_spec r fg =
     (if shared_seg r then Some (share_spec (region_vas r) fg)
      else if mr_seg_type r = CODE_SEGMENT then code_spec (region_vas r) fg
      else Some fg)"

fun fork_spec :: "mapped_region list \<Rightarrow> spaces \<Rightarrow> spaces option" where
  "fork_spec [] fg = Some fg"
| "fork_spec (r # rs) fg = (case region_spec r fg of None \<Rightarrow> None | Some fg' \<Rightarrow> fork_spec rs fg')"

section \<open>Two address spaces in one memory\<close>

definition forked :: "uint64 \<Rightarrow> uint64 \<Rightarrow> spaces \<Rightarrow> vmm \<Rightarrow> vmm \<Rightarrow> bool" where
  "forked pd cd fg v0 v \<longleftrightarrow> vm_ok pd v \<and> vm_ok cd v \<and> tables (vmem v) pd \<inter> tables (vmem v) cd = {} \<and>
     (\<forall>va<MAXVA. pte_of (vmem v) pd va = fst fg va \<and> pte_of (vmem v) cd va = snd fg va) \<and>
     (\<forall>q. path_ok q \<longrightarrow> table_at (vmem v) pd q = table_at (vmem v0) pd q) \<and>
     tables (vmem v0) cd \<subseteq> tables (vmem v) cd \<and>
     tables (vmem v) cd \<subseteq> tables (vmem v0) cd \<union> PFN_TO_ADDR ` set (cached_pages (vpmm v0)) \<and>
     set (cached_pages (vpmm v)) \<subseteq> set (cached_pages (vpmm v0)) \<and>
     (\<forall>a. (\<forall>t \<in> tables (vmem v) pd \<union> tables (vmem v) cd. \<not> a - t < PGSIZE) \<longrightarrow> vmem v a = vmem v0 a)"

lemma forked_child:
  assumes fk: "forked pd cd (f, g) v0 v" and up: "updated cd g' v v'"
  shows "forked pd cd (f, g') v0 v'"
proof -
  have ok: "vm_ok pd v" and dis: "tables (vmem v) cd \<inter> tables (vmem v) pd = {}"
    using fk by (auto simp: forked_def)
  note o = other_space [OF up ok dis]
  have "vmem v' a = vmem v0 a" if "\<forall>t \<in> tables (vmem v') pd \<union> tables (vmem v') cd. \<not> a - t < PGSIZE" for a
  proof -
    have "tables (vmem v) cd \<subseteq> tables (vmem v') cd" using up by (simp add: updated_def)
    then have "\<forall>t \<in> tables (vmem v) pd \<union> tables (vmem v) cd. \<not> a - t < PGSIZE" using that o(2) by blast
    then have "vmem v a = vmem v0 a" using fk by (simp add: forked_def)
    moreover have "vmem v' a = vmem v a" using that up by (simp add: updated_def)
    ultimately show ?thesis by simp
  qed
  moreover have "tables (vmem v') pd \<inter> tables (vmem v') cd = {}" using o(3) by blast
  moreover obtain qs where "cached_pages (vpmm v) = cached_pages (vpmm v') @ qs"
    "tables (vmem v') cd = tables (vmem v) cd \<union> PFN_TO_ADDR ` set qs" using up by (auto simp: updated_def drawn_def)
  then have "tables (vmem v') cd \<subseteq> tables (vmem v0) cd \<union> PFN_TO_ADDR ` set (cached_pages (vpmm v0))"
    "set (cached_pages (vpmm v')) \<subseteq> set (cached_pages (vpmm v0))" "tables (vmem v0) cd \<subseteq> tables (vmem v') cd"
    using fk by (auto simp: forked_def)
  ultimately show ?thesis using fk up o(1,4,5) unfolding forked_def updated_def by simp
qed

lemma forked_parent:
  assumes fk: "forked pd cd (f, g) v0 v" and t: "table_at (vmem v) pd (leaf_path va) = Some t"
  shows "forked pd cd (set_page va e f, g) v0 (v\<lparr>vmem := (vmem v)(pte_addr t (PX 0 va) := e)\<rparr>)" (is "forked _ _ _ _ ?v'")
proof -
  have okp: "vm_ok pd v" and okc: "vm_ok cd v" and dis: "tables (vmem v) pd \<inter> tables (vmem v) cd = {}"
    using fk by (auto simp: forked_def)
  note w = leaf_write [OF okp t, where v = e]
  note o = other_space [OF w(1) okc dis]
  have tp: "tables (vmem ?v') pd = tables (vmem v) pd" using w(2) by (auto simp: tables_def)
  have "vmem ?v' a = vmem v0 a" if "\<forall>t \<in> tables (vmem ?v') pd \<union> tables (vmem ?v') cd. \<not> a - t < PGSIZE" for a
  proof -
    have "vmem v a = vmem v0 a" using that fk tp o(2) by (auto simp: forked_def)
    moreover have "vmem ?v' a = vmem v a" using that w(1) by (auto simp: updated_def)
    ultimately show ?thesis by simp
  qed
  then show ?thesis using fk w o unfolding forked_def updated_def by (auto simp: set_page_def)
qed

lemma forked_pmm:
  assumes "forked pd cd fg v0 v" "pmm_ok pm" "cached_pages pm = cached_pages (vpmm v)"
  shows "forked pd cd fg v0 (v\<lparr>vpmm := pm\<rparr>)"
  using assms by (simp add: forked_def vm_ok_def)

lemma forked_entry:
  assumes "forked pd cd (f, g) v0 v" "va < MAXVA" "table_at (vmem v0) pd (leaf_path va) = Some t"
  shows "table_at (vmem v) pd (leaf_path va) = Some t" "vmem v (pte_addr t (PX 0 va)) = f va" "pte_addr t (PX 0 va) \<noteq> 0"
proof -
  show t: "table_at (vmem v) pd (leaf_path va) = Some t" using assms by (simp add: forked_def)
  then have "pte_of (vmem v) pd va = vmem v (pte_addr t (PX 0 va))" by (simp add: pte_of_def)
  then show "vmem v (pte_addr t (PX 0 va)) = f va" using assms(1,2) by (simp add: forked_def)
  have "pt_wf (vmem v) pd" using assms(1) by (simp add: forked_def vm_ok_def)
  then show "pte_addr t (PX 0 va) \<noteq> 0" by (rule pte_addr_nz [OF _ leaf_path_ok(1) t PX_less])
qed

section \<open>Sharing a page\<close>

text \<open>What fork needs of \<^verbatim>\<open>get_page\<close>, which takes one more reference to a frame: it succeeds and leaves the
  allocator and its cache as they are.\<close>

definition get_page_ok :: "externs \<Rightarrow> bool" where
  "get_page_ok x \<longleftrightarrow> (\<forall>a p. pmm_ok p \<longrightarrow>
     (\<exists>p'. x_get_page x a p = Inr p' \<and> pmm_ok p' \<and> cached_pages p' = cached_pages p))"

lemma cow_valid [simp]: "pte_valid (cow e) = pte_valid e"
  by (auto simp: cow_def pte_valid_bit bit_or_iff bit_and_iff bit_not_iff PTE_W_def PTE_COW_def bit_push_bit_iff)

lemma share_page_ok:
  assumes fk: "forked pd cd (f, g) v0 (kvm s)" and va: "0 < va" "va < MAXVA"
    and leaf: "table_at (vmem v0) pd (leaf_path va) \<noteq> None" and gp: "get_page_ok x" and sup: "2 \<le> page_supply (kvm s)"
  shows "\<exists>v. share_page x pd cd va s = Inr (s\<lparr>kvm := v\<rparr>) \<and> forked pd cd (share_spec [va] (f, g)) v0 v \<and>
    page_supply (kvm s) \<le> page_supply v + 2"
proof -
  let ?v = "kvm s"
  from leaf obtain t where t0: "table_at (vmem v0) pd (leaf_path va) = Some t" by blast
  let ?a = "pte_addr t (PX 0 va)"
  note en = forked_entry [OF _ va(2) t0]
  have wf: "pt_wf (vmem ?v) pd" using fk by (simp add: forked_def vm_ok_def)
  have walk: "with_vm (page_walk pd va 0 False) s = Inr (?a, s)"
    using page_walk_noalloc [OF wf va] en(1) [OF fk] by (simp add: with_vm_def)
  show ?thesis
  proof (cases "pte_valid (f va)")
    case False
    then have "share_page x pd cd va s = Inr s" using walk en(2,3) [OF fk] by (simp add: share_page_def mem_read_def)
    then show ?thesis using fk False by (intro exI [of _ ?v]) simp
  next
    case True
    let ?v1 = "?v\<lparr>vmem := (vmem ?v)(?a := cow (f va))\<rparr>"
    have v1: "forked pd cd (set_page va (cow (f va)) f, g) v0 ?v1" by (rule forked_parent [OF fk en(1) [OF fk]])
    have same: "PTE_W AND f va = 0 \<Longrightarrow> ?v1 = ?v"
      using en(2) [OF fk] by (cases ?v) (simp add: cow_def fun_upd_idem)
    have pok: "pmm_ok (kpmm s)" using fk by (simp add: forked_def vm_ok_def)
    then obtain pm where pm: "x_get_page x (PTE2PA (cow (f va))) (kpmm s) = Inr pm" "pmm_ok pm"
      "cached_pages pm = cached_pages (kpmm s)" using gp by (auto simp: get_page_ok_def)
    let ?v2 = "?v1\<lparr>vpmm := pm\<rparr>"
    have v2: "forked pd cd (set_page va (cow (f va)) f, g) v0 ?v2" using forked_pmm [OF v1 pm(2)] pm(3) by simp
    have okc: "vm_ok cd ?v2" and g2: "\<And>va'. va' < MAXVA \<Longrightarrow> pte_of (vmem ?v2) cd va' = g va'"
      using v2 by (simp_all add: forked_def)
    have "missing_tables (vmem ?v2) cd va \<le> page_supply ?v2"
      using missing_le_2 [of "vmem ?v2" cd va] sup pm(3) by simp
    from walk_store [OF okc va this, of "cow (f va)"] obtain u v3 where
      v3: "page_walk cd va 0 True ?v2 = Inr (pte_addr u (PX 0 va), v3)" "pte_addr u (PX 0 va) \<noteq> 0" "extends cd ?v2 v3"
        "updated cd (\<lambda>va'. if same_page va va' then cow (f va) else pte_of (vmem ?v2) cd va') ?v2
           (v3\<lparr>vmem := (vmem v3)(pte_addr u (PX 0 va) := cow (f va))\<rparr>)"
        "length (cached_pages (vpmm v3)) = page_supply ?v2 - missing_tables (vmem ?v2) cd va" by (auto simp: Let_def)
    let ?v4 = "v3\<lparr>vmem := (vmem v3)(pte_addr u (PX 0 va) := cow (f va))\<rparr>"
    have "updated cd (set_page va (cow (f va)) g) ?v2 ?v4"
      by (rule updated_cong [OF v3(4)]) (use g2 in \<open>simp add: set_page_def\<close>)
    then have v4: "forked pd cd (set_page va (cow (f va)) f, set_page va (cow (f va)) g) v0 ?v4"
      by (rule forked_child [OF v2])
    have rd: "vmem v3 ?a = cow (f va)"
      using en(2) [OF forked_child [OF v2 extends_updated [OF v3(3)]]] same_page_def by (simp add: set_page_def)
    have body: "share_page x pd cd va s = bindE (Inr (s\<lparr>kvm := ?v1\<rparr>)) (\<lambda>s.
          bindE (mem_read ?a (kvm s)) (\<lambda>e.
          bindE (x_get_page x (PTE2PA e) (kpmm s)) (\<lambda>pm.
          let s = s\<lparr>kvm := (kvm s)\<lparr>vpmm := pm\<rparr>\<rparr> in
          bindE (with_vm (page_walk cd va 0 True) s) (\<lambda>(c_pte, s).
          if c_pte = 0 then Inl (Panic ''do_fork: page_walk failed to allocate leaf page table.'')
          else bindE (mem_read ?a (kvm s)) (\<lambda>e.
               on_vm (mem_write c_pte e) s)))))"
      using walk True en(2,3) [OF fk] same
      by (auto simp: share_page_def mem_read_def on_vm_def mem_write_def cow_def)
    have "share_page x pd cd va s = Inr (s\<lparr>kvm := ?v4\<rparr>)"
      unfolding body using en(3) [OF fk] pm(1) v3(1,2) rd
      by (simp add: mem_read_def with_vm_def on_vm_def mem_write_def Let_def)
    then show ?thesis using v4 True v3(5) missing_le_2 [of "vmem ?v2" cd va] pm(3) by (intro exI [of _ ?v4]) simp
  qed
qed

section \<open>The loops\<close>

lemma share_loop_ok:
  assumes "forked pd cd fg v0 (kvm s)" and "get_page_ok x" and "2 * n \<le> page_supply (kvm s)"
    and "\<And>j. k \<le> j \<Longrightarrow> j < k + n \<Longrightarrow> 0 < va0 + page_off j \<and> va0 + page_off j < MAXVA \<and>
      table_at (vmem v0) pd (leaf_path (va0 + page_off j)) \<noteq> None"
  shows "\<exists>v. share_loop x k pd cd va0 n s = Inr (s\<lparr>kvm := v\<rparr>) \<and>
    forked pd cd (share_spec (map (\<lambda>j. va0 + page_off j) [k..<k + n]) fg) v0 v \<and> page_supply (kvm s) \<le> page_supply v + 2 * n"
  using assms
proof (induction n arbitrary: k s fg)
  case 0
  then show ?case by (cases fg) (auto intro!: exI [of _ "kvm s"])
next
  case (Suc n)
  obtain f g where fg: "fg = (f, g)" by (cases fg)
  let ?va = "va0 + page_off k"
  have va: "0 < ?va" "?va < MAXVA" "table_at (vmem v0) pd (leaf_path ?va) \<noteq> None" using Suc.prems(4) [of k] by simp_all
  from share_page_ok [OF _ va Suc.prems(2), of cd f g s] Suc.prems(1,3) obtain v where
    v: "share_page x pd cd ?va s = Inr (s\<lparr>kvm := v\<rparr>)" "forked pd cd (share_spec [?va] (f, g)) v0 v"
      "page_supply (kvm s) \<le> page_supply v + 2" by (auto simp: fg)
  from Suc.IH [of "share_spec [?va] (f, g)" "s\<lparr>kvm := v\<rparr>" "k + 1"] v Suc.prems(2-4) obtain v' where
    v': "share_loop x (k + 1) pd cd va0 n (s\<lparr>kvm := v\<rparr>) = Inr (s\<lparr>kvm := v'\<rparr>)"
      "forked pd cd (share_spec (map (\<lambda>j. va0 + page_off j) [k + 1..<k + 1 + n]) (share_spec [?va] (f, g))) v0 v'"
      "page_supply v \<le> page_supply v' + 2 * n" by auto
  have "share_spec (map (\<lambda>j. va0 + page_off j) [k..<k + Suc n]) fg =
      share_spec (map (\<lambda>j. va0 + page_off j) [k + 1..<k + 1 + n]) (share_spec [?va] (f, g))"
    by (simp add: fg upt_conv_Cons del: upt_Suc)
  then show ?case using v(1,3) v' by (intro exI [of _ v']) simp
qed

lemma code_loop_ok:
  assumes "forked pd cd fg v0 (kvm s)" and "2 * n \<le> page_supply (kvm s)"
    and "code_spec (map (\<lambda>j. va0 + page_off j) [k..<k + n]) fg = Some fg'"
    and "\<And>j. k \<le> j \<Longrightarrow> j < k + n \<Longrightarrow> 0 < va0 + page_off j \<and> va0 + page_off j < MAXVA \<and> page_aligned (va0 + page_off j)"
  shows "\<exists>v. code_loop k pd cd va0 n s = Inr (s\<lparr>kvm := v\<rparr>) \<and>
    forked pd cd fg' v0 v \<and> page_supply (kvm s) \<le> page_supply v + 2 * n"
  using assms
proof (induction n arbitrary: k s fg)
  case 0
  then show ?case by (cases fg) (auto intro!: exI [of _ "kvm s"])
next
  case (Suc n)
  obtain f g where fg: "fg = (f, g)" by (cases fg)
  let ?va = "va0 + page_off k" and ?rx = "prot_to_type (PROT_READ OR PROT_EXEC) True"
  have va: "page_aligned ?va" "0 < ?va" "?va < MAXVA" using Suc.prems(4) [of k] by simp_all
  let ?g' = "set_page ?va (PA2PTE (readable_pa (f ?va)) OR ?rx OR PTE_V) g"
  have sp: "\<not> pte_valid (g ?va)" "code_spec (map (\<lambda>j. va0 + page_off j) [k + 1..<k + 1 + n]) (f, ?g') = Some fg'"
    using Suc.prems(3) by (simp_all add: fg upt_conv_Cons split: if_splits del: upt_Suc)
  have fk: "vm_ok pd (kvm s)" "vm_ok cd (kvm s)" "\<And>va. va < MAXVA \<Longrightarrow> pte_of (kmem s) pd va = f va"
    "\<And>va. va < MAXVA \<Longrightarrow> pte_of (kmem s) cd va = g va" using Suc.prems(1) by (simp_all add: fg forked_def)
  have look: "lookup_pa pd ?va (kvm s) = Inr (readable_pa (f ?va), kvm s)"
    using lookup_pa_eq [OF fk(1), of ?va] va fk(3) [OF va(3)] by (auto simp: readable_pa_def Let_def)
  from user_vm_map_next [OF fk(2) va _ fk(4) sp(1), of "readable_pa (f ?va)" ?rx] Suc.prems(2) obtain v where
    v: "user_vm_map cd ?va PGSIZE (readable_pa (f ?va)) ?rx (kvm s) = Inr v" "page_supply (kvm s) \<le> page_supply v + 2"
      "\<And>va'. va' < MAXVA \<Longrightarrow> pte_of (vmem v) cd va' = ?g' va'" "updated cd (pte_of (vmem v) cd) (kvm s) v"
    by (auto simp: set_page_def)
  have "forked pd cd (f, ?g') v0 v"
    using Suc.prems(1) updated_cong [OF v(4) v(3)] unfolding fg by (rule forked_child)
  from Suc.IH [of "(f, ?g')" "s\<lparr>kvm := v\<rparr>" "k + 1"] this sp(2) v(2) Suc.prems(2,4) obtain v' where
    v': "code_loop (k + 1) pd cd va0 n (s\<lparr>kvm := v\<rparr>) = Inr (s\<lparr>kvm := v'\<rparr>)"
      "forked pd cd fg' v0 v'" "page_supply v \<le> page_supply v' + 2 * n" by auto
  then show ?case using v(1,2) look by (intro exI [of _ v']) (simp add: with_vm_def on_vm_def Let_def)
qed

section \<open>The regions\<close>

text \<open>A region that can be forked: its pages are user addresses, with a leaf table in the parent when
  they are shared.\<close>

definition region_ok :: "(uint64 \<Rightarrow> uint64) \<Rightarrow> uint64 \<Rightarrow> mapped_region \<Rightarrow> bool" where
  "region_ok m pd r \<longleftrightarrow>
     (shared_seg r \<longrightarrow> (\<forall>va\<in>set (region_vas r). 0 < va \<and> va < MAXVA \<and> table_at m pd (leaf_path va) \<noteq> None)) \<and>
     (mr_seg_type r = CODE_SEGMENT \<longrightarrow> 0 < mr_va r \<and>
        (\<forall>va\<in>set (region_vas r). 0 < va \<and> va < MAXVA \<and> page_aligned va))"

definition context_seg :: "mapped_region \<Rightarrow> bool" where "context_seg r \<longleftrightarrow> mr_seg_type r = CONTEXT_SEGMENT"
definition heap_seg :: "mapped_region \<Rightarrow> bool" where "heap_seg r \<longleftrightarrow> mr_seg_type r = HEAP_SEGMENT"
definition code_seg :: "mapped_region \<Rightarrow> bool" where "code_seg r \<longleftrightarrow> mr_seg_type r = CODE_SEGMENT"

text \<open>The child's process structure after one region, with the heap of the parent.\<close>

definition child_step :: "process_heap_manager \<Rightarrow> mapped_region list \<Rightarrow> process \<Rightarrow> process" where
  "child_step h rs c = c\<lparr>user_heap := (if \<exists>r\<in>set rs. heap_seg r then h else user_heap c),
     total_mapped_region := total_mapped_region c + length (filter code_seg rs)\<rparr>"

definition region_pages :: "mapped_region list \<Rightarrow> nat" where
  "region_pages rs = sum_list (map (\<lambda>r. if shared_seg r \<or> code_seg r then unat (mr_npages r) else 0) rs)"

text \<open>The state after the regions \<open>rs\<close>: the kernel memory \<open>v\<close>, the trap frame copied for a context
  region, the heap manager copied for a heap region, the code regions registered after \<open>A\<close>.\<close>

definition after_regions :: "nat \<Rightarrow> nat \<Rightarrow> mapped_region list \<Rightarrow> mapped_region list \<Rightarrow> mapped_region list \<Rightarrow> vmm \<Rightarrow> kernel \<Rightarrow> kernel" where
  "after_regions pi ci A B rs v s =
     (let par = procs s ! pi; chi = procs s ! ci; n = length (filter code_seg rs) in
      s\<lparr>kvm := v,
        tframes := (if \<exists>r\<in>set rs. context_seg r then (tframes s)(tf_ptr chi := tframes s (tf_ptr par)) else tframes s),
        minfos := (minfos s)(mapped_info chi := A @ filter code_seg rs @ drop n B),
        procs := (procs s)[ci := child_step (user_heap par) rs chi]\<rparr>)"

lemma region_seg_cases:
  "context_seg r \<Longrightarrow> \<not> shared_seg r \<and> \<not> heap_seg r \<and> \<not> code_seg r"
  "code_seg r \<Longrightarrow> \<not> shared_seg r \<and> \<not> heap_seg r \<and> \<not> context_seg r"
  "heap_seg r \<Longrightarrow> shared_seg r"
  by (auto simp: context_seg_def shared_seg_def heap_seg_def code_seg_def segment_defs)

lemma kernel_same: "(s\<lparr>kvm := v, tframes := tframes s, minfos := minfos s, procs := procs s\<rparr> :: kernel) = s\<lparr>kvm := v\<rparr>"
  by (cases s) simp

lemma region_vas_nth: "j < unat (mr_npages r) \<Longrightarrow> mr_va r + page_off j \<in> set (region_vas r)"
  by (auto simp: region_vas_def)

text \<open>The state in which a region of process \<open>pi\<close> is forked to process \<open>ci\<close>.\<close>

definition forking :: "nat \<Rightarrow> nat \<Rightarrow> mapped_region list \<Rightarrow> mapped_region list \<Rightarrow> kernel \<Rightarrow> bool" where
  "forking pi ci A B s \<longleftrightarrow> pi < length (procs s) \<and> ci < length (procs s) \<and> pi \<noteq> ci \<and>
     mapped_info (procs s ! pi) \<noteq> 0 \<and> tf_ptr (procs s ! pi) \<noteq> 0 \<and> tf_ptr (procs s ! ci) \<noteq> 0 \<and>
     mapped_info (procs s ! ci) \<noteq> 0 \<and> mapped_info (procs s ! pi) \<noteq> mapped_info (procs s ! ci) \<and>
     tf_ptr (procs s ! pi) \<noteq> tf_ptr (procs s ! ci) \<and>
     minfos s (mapped_info (procs s ! ci)) = A @ B \<and> length A = total_mapped_region (procs s ! ci)"

lemma forking_same: "forking pi ci A B s \<Longrightarrow> (minfos s)(mapped_info (procs s ! ci) := A @ B) = minfos s"
  by (auto simp: forking_def)

lemma fork_region_shared:
  assumes st: "forking pi ci A B s" and fk: "forked (pagetable (procs s ! pi)) (pagetable (procs s ! ci)) fg v0 (kvm s)"
    and reg: "region_at (mapped_info (procs s ! pi)) i s = Inr r" "region_ok (vmem v0) (pagetable (procs s ! pi)) r"
    and seg: "shared_seg r" and gp: "get_page_ok x" and sup: "2 * unat (mr_npages r) \<le> page_supply (kvm s)"
  shows "\<exists>v. fork_region x pi ci i s = Inr (after_regions pi ci A B [r] v s) \<and>
    forked (pagetable (procs s ! pi)) (pagetable (procs s ! ci)) (share_spec (region_vas r) fg) v0 v \<and>
    page_supply (kvm s) \<le> page_supply v + 2 * unat (mr_npages r)"
proof -
  let ?pd = "pagetable (procs s ! pi)" and ?cd = "pagetable (procs s ! ci)"
  have k: "\<not> context_seg r" "\<not> code_seg r" using seg region_seg_cases(1,2) by auto
  have "0 < mr_va r + page_off j \<and> mr_va r + page_off j < MAXVA \<and>
      table_at (vmem v0) ?pd (leaf_path (mr_va r + page_off j)) \<noteq> None" if "j < 0 + unat (mr_npages r)" for j
    using reg(2) seg region_vas_nth [of j r] that by (simp add: region_ok_def)
  from share_loop_ok [OF fk gp _ this, where k = 0 and n = "unat (mr_npages r)"] sup obtain v where
    v: "share_loop x 0 ?pd ?cd (mr_va r) (unat (mr_npages r)) s = Inr (s\<lparr>kvm := v\<rparr>)"
      "forked ?pd ?cd (share_spec (region_vas r) fg) v0 v" "page_supply (kvm s) \<le> page_supply v + 2 * unat (mr_npages r)"
    by (auto simp: region_vas_def)
  have at: "proc_at pi s = Inr (procs s ! pi)" "proc_at ci s = Inr (procs s ! ci)" "ci < length (procs s)"
    using st by (simp_all add: forking_def proc_at_def)
  have "fork_region x pi ci i s = Inr (after_regions pi ci A B [r] v s)"
    using at reg(1) v(1) k seg forking_same [OF st]
    by (cases "heap_seg r") (simp_all add: fork_region_def context_seg_def shared_seg_def heap_seg_def code_seg_def
        after_regions_def child_step_def Let_def proc_upd_ok)
  then show ?thesis using v(2,3) by (intro exI [of _ v]) simp
qed

lemma fork_region_code:
  assumes st: "forking pi ci A B s" and fk: "forked (pagetable (procs s ! pi)) (pagetable (procs s ! ci)) fg v0 (kvm s)"
    and reg: "region_at (mapped_info (procs s ! pi)) i s = Inr r" "region_ok (vmem v0) (pagetable (procs s ! pi)) r"
    and seg: "code_seg r" "B \<noteq> []" and sup: "2 * unat (mr_npages r) \<le> page_supply (kvm s)"
    and spec: "code_spec (region_vas r) fg = Some fg'"
  shows "\<exists>v. fork_region x pi ci i s = Inr (after_regions pi ci A B [r] v s) \<and>
    forked (pagetable (procs s ! pi)) (pagetable (procs s ! ci)) fg' v0 v \<and>
    page_supply (kvm s) \<le> page_supply v + 2 * unat (mr_npages r)"
proof -
  let ?pd = "pagetable (procs s ! pi)" and ?cd = "pagetable (procs s ! ci)"
  note k = region_seg_cases(2) [OF seg(1)]
  obtain b B' where B: "B = b # B'" using seg(2) by (cases B) auto
  have ok: "vm_ok ?pd (kvm s)" using fk by (simp add: forked_def)
  have pos: "0 < mr_va r" using reg(2) seg(1) by (simp add: region_ok_def code_seg_def)
  have look: "\<exists>pa. with_vm (lookup_pa ?pd (mr_va r)) s = Inr (pa, s)"
    using lookup_pa_eq [OF ok, of "mr_va r"] pos by (auto simp: with_vm_def Let_def)
  have "0 < mr_va r + page_off j \<and> mr_va r + page_off j < MAXVA \<and> page_aligned (mr_va r + page_off j)"
    if "j < 0 + unat (mr_npages r)" for j
    using reg(2) seg(1) region_vas_nth [of j r] that by (simp add: region_ok_def code_seg_def)
  from code_loop_ok [OF fk _ _ this, where k = 0 and n = "unat (mr_npages r)" and fg' = fg'] sup spec obtain v where
    v: "code_loop 0 ?pd ?cd (mr_va r) (unat (mr_npages r)) s = Inr (s\<lparr>kvm := v\<rparr>)" "forked ?pd ?cd fg' v0 v"
      "page_supply (kvm s) \<le> page_supply v + 2 * unat (mr_npages r)" by (auto simp: region_vas_def)
  have rr: "\<lparr>mr_va = mr_va r, mr_npages = mr_npages r, mr_seg_type = CODE_SEGMENT\<rparr> = r"
    using seg(1) by (cases r) (simp add: code_seg_def)
  have at: "proc_at pi s = Inr (procs s ! pi)" "proc_at ci s = Inr (procs s ! ci)" "ci < length (procs s)"
    "minfos s (mapped_info (procs s ! ci)) = A @ b # B'" "length A = total_mapped_region (procs s ! ci)"
    "mapped_info (procs s ! ci) \<noteq> 0" using st B by (simp_all add: forking_def proc_at_def)
  have up: "(A @ b # B')[total_mapped_region (procs s ! ci) :=
      \<lparr>mr_va = mr_va r, mr_npages = mr_npages r, mr_seg_type = CODE_SEGMENT\<rparr>] = A @ r # B'"
    unfolding rr using at(5) by (simp add: list_update_append)
  have lt: "total_mapped_region (procs s ! ci) < length (A @ b # B')" using at(5) by simp
  have "fork_region x pi ci i s = Inr (after_regions pi ci A B [r] v s)"
    using at(1-4,6) reg(1) look v(1) seg(1) k B up lt
    by (auto simp: fork_region_def context_seg_def shared_seg_def code_seg_def heap_seg_def region_set_ok proc_upd_ok
        after_regions_def child_step_def Let_def)
  then show ?thesis using v(2,3) by (intro exI [of _ v]) simp
qed

lemma fork_region_ok:
  assumes st: "forking pi ci A B s" and fk: "forked (pagetable (procs s ! pi)) (pagetable (procs s ! ci)) fg v0 (kvm s)"
    and reg: "region_at (mapped_info (procs s ! pi)) i s = Inr r" "region_ok (vmem v0) (pagetable (procs s ! pi)) r"
    and spec: "region_spec r fg = Some fg'" and gp: "get_page_ok x" and sup: "2 * region_pages [r] \<le> page_supply (kvm s)"
    and B: "length (filter code_seg [r]) \<le> length B"
  shows "\<exists>v. fork_region x pi ci i s = Inr (after_regions pi ci A B [r] v s) \<and>
    forked (pagetable (procs s ! pi)) (pagetable (procs s ! ci)) fg' v0 v \<and>
    page_supply (kvm s) \<le> page_supply v + 2 * region_pages [r]"
proof (cases "shared_seg r \<or> code_seg r")
  case True
  then have pg: "region_pages [r] = unat (mr_npages r)" by (simp add: region_pages_def)
  show ?thesis
  proof (cases "shared_seg r")
    case True
    then show ?thesis using fork_region_shared [OF st fk reg True gp] sup pg spec by (simp add: region_spec_def)
  next
    case False
    then have c: "code_seg r" "B \<noteq> []" "code_spec (region_vas r) fg = Some fg'"
      using True B spec by (auto simp: region_spec_def code_seg_def)
    then show ?thesis using fork_region_code [OF st fk reg c(1,2) _ c(3)] sup pg by simp
  qed
next
  case False
  have at: "proc_at pi s = Inr (procs s ! pi)" "proc_at ci s = Inr (procs s ! ci)"
    "tf_ptr (procs s ! pi) \<noteq> 0" "tf_ptr (procs s ! ci) \<noteq> 0" using st by (simp_all add: forking_def proc_at_def)
  have "fork_region x pi ci i s = Inr (after_regions pi ci A B [r] (kvm s) s)"
    using at reg(1) False region_seg_cases(3) [of r] forking_same [OF st]
    by (auto simp: fork_region_def context_seg_def shared_seg_def code_seg_def tf_upd_ok after_regions_def child_step_def Let_def)
  moreover have "fg' = fg" using spec False by (simp add: region_spec_def code_seg_def)
  ultimately show ?thesis using fk by (intro exI [of _ "kvm s"]) simp
qed

text \<open>All regions: the effects compose.\<close>

lemma after_regions_procs:
  assumes "forking pi ci A B s"
  shows "procs (after_regions pi ci A B rs v s) ! pi = procs s ! pi"
    "procs (after_regions pi ci A B rs v s) ! ci = child_step (user_heap (procs s ! pi)) rs (procs s ! ci)"
    "minfos (after_regions pi ci A B rs v s) (mapped_info (procs s ! pi)) = minfos s (mapped_info (procs s ! pi))"
    "kvm (after_regions pi ci A B rs v s) = v"
  using assms by (auto simp: after_regions_def forking_def Let_def)

lemma child_step_fields [simp]:
  "pagetable (child_step h rs c) = pagetable c" "tf_ptr (child_step h rs c) = tf_ptr c"
  "mapped_info (child_step h rs c) = mapped_info c" "pid (child_step h rs c) = pid c" "status (child_step h rs c) = status c"
  "total_mapped_region (child_step h rs c) = total_mapped_region c + length (filter code_seg rs)"
  by (simp_all add: child_step_def)

lemma after_regions_forking:
  assumes "forking pi ci A B s"
  shows "forking pi ci (A @ filter code_seg rs) (drop (length (filter code_seg rs)) B) (after_regions pi ci A B rs v s)"
  using assms after_regions_procs [OF assms, of rs v] by (simp add: forking_def after_regions_def Let_def)

lemma after_regions_Cons:
  assumes "forking pi ci A B s"
  shows "after_regions pi ci (A @ filter code_seg [r]) (drop (length (filter code_seg [r])) B) rs v' (after_regions pi ci A B [r] v s) =
    after_regions pi ci A B (r # rs) v' s"
  using assms after_regions_procs [OF assms, of "[r]" v]
  by (auto simp: after_regions_def child_step_def forking_def Let_def)

lemma region_pages_Cons: "region_pages (r # rs) = region_pages [r] + region_pages rs"
  by (simp add: region_pages_def)

lemma after_regions_Nil: "forking pi ci A B s \<Longrightarrow> after_regions pi ci A B [] (kvm s) s = s"
  using forking_same [of pi ci A B s] by (simp add: after_regions_def child_step_def Let_def)

lemma fork_regions_ok:
  assumes "forking pi ci A B s" and "forked (pagetable (procs s ! pi)) (pagetable (procs s ! ci)) fg v0 (kvm s)"
    and "\<forall>i\<in>set is. i < length (minfos s (mapped_info (procs s ! pi)))"
    and "rs = map ((!) (minfos s (mapped_info (procs s ! pi)))) is"
    and "\<forall>r\<in>set rs. region_ok (vmem v0) (pagetable (procs s ! pi)) r" and "fork_spec rs fg = Some fg'"
    and "get_page_ok x" and "2 * region_pages rs \<le> page_supply (kvm s)" and "length (filter code_seg rs) \<le> length B"
  shows "\<exists>v. fork_regions x pi ci is s = Inr (after_regions pi ci A B rs v s) \<and>
    forked (pagetable (procs s ! pi)) (pagetable (procs s ! ci)) fg' v0 v \<and>
    page_supply (kvm s) \<le> page_supply v + 2 * region_pages rs"
  using assms
proof (induction "is" arbitrary: s A B rs fg)
  case Nil
  then show ?case using after_regions_Nil by (intro exI [of _ "kvm s"]) (simp add: region_pages_def)
next
  case (Cons i "is")
  let ?mi = "mapped_info (procs s ! pi)" and ?pd = "pagetable (procs s ! pi)" and ?cd = "pagetable (procs s ! ci)"
  let ?r = "minfos s ?mi ! i" and ?rs = "map ((!) (minfos s ?mi)) is"
  have rs: "rs = ?r # ?rs" using Cons.prems(4) by simp
  obtain fg1 where fg1: "region_spec ?r fg = Some fg1" "fork_spec ?rs fg1 = Some fg'"
    using Cons.prems(6) rs by (auto split: option.splits)
  have at: "region_at ?mi i s = Inr ?r" using Cons.prems(1,3) by (simp add: region_at_def forking_def)
  have rok: "region_ok (vmem v0) ?pd ?r" using Cons.prems(5) rs by simp
  have sup: "2 * region_pages [?r] \<le> page_supply (kvm s)" "length (filter code_seg [?r]) \<le> length B"
    using Cons.prems(8,9) rs region_pages_Cons [of ?r ?rs] by (auto split: if_splits)
  from fork_region_ok [OF Cons.prems(1,2) at rok fg1(1) Cons.prems(7) sup] obtain v where
    v: "fork_region x pi ci i s = Inr (after_regions pi ci A B [?r] v s)" "forked ?pd ?cd fg1 v0 v"
      "page_supply (kvm s) \<le> page_supply v + 2 * region_pages [?r]" by blast
  let ?s = "after_regions pi ci A B [?r] v s"
  let ?A = "A @ filter code_seg [?r]" and ?B = "drop (length (filter code_seg [?r])) B"
  note pr = after_regions_procs [OF Cons.prems(1), of "[?r]" v]
  have "\<exists>v'. fork_regions x pi ci is ?s = Inr (after_regions pi ci ?A ?B ?rs v' ?s) \<and>
    forked (pagetable (procs ?s ! pi)) (pagetable (procs ?s ! ci)) fg' v0 v' \<and>
    page_supply (kvm ?s) \<le> page_supply v' + 2 * region_pages ?rs"
    by (rule Cons.IH [OF after_regions_forking [OF Cons.prems(1)] _ _ _ _ fg1(2) Cons.prems(7)])
      (use pr v Cons.prems(3,5,8,9) rs region_pages_Cons [of ?r ?rs] in \<open>auto split: if_splits\<close>)
  then obtain v' where v': "fork_regions x pi ci is ?s = Inr (after_regions pi ci ?A ?B ?rs v' ?s)"
    "forked ?pd ?cd fg' v0 v'" "page_supply v \<le> page_supply v' + 2 * region_pages ?rs" using pr by auto
  then show ?case using v(1,3) after_regions_Cons [OF Cons.prems(1)] region_pages_Cons [of ?r ?rs] rs
    by (intro exI [of _ v']) simp
qed

section \<open>The abstract operation, page by page\<close>

definition shared_vas :: "mapped_region list \<Rightarrow> uint64 list" where
  "shared_vas rs = concat (map region_vas (filter shared_seg rs))"

definition code_vas :: "mapped_region list \<Rightarrow> uint64 list" where
  "code_vas rs = concat (map region_vas (filter code_seg rs))"

definition off_pages :: "uint64 list \<Rightarrow> uint64 \<Rightarrow> bool" where
  "off_pages vas va \<longleftrightarrow> (\<forall>va'\<in>set vas. \<not> same_page va' va)"

text \<open>The code pages are different from each other, from the shared pages, and not mapped by \<open>g\<close>.\<close>

definition code_apart :: "mapped_region list \<Rightarrow> (uint64 \<Rightarrow> pte_t) \<Rightarrow> bool" where
  "code_apart rs g \<longleftrightarrow> distinct (code_vas rs) \<and> (\<forall>va\<in>set (code_vas rs). page_aligned va \<and> va < MAXVA \<and>
     off_pages (shared_vas rs) va \<and> \<not> pte_valid (g va))"

lemma share_spec_off: "off_pages vas va \<Longrightarrow> fst (share_spec vas (f, g)) va = f va \<and> snd (share_spec vas (f, g)) va = g va"
  by (induction vas "(f, g)" arbitrary: f g rule: share_spec.induct) (auto simp: off_pages_def set_page_def)

lemma code_spec_Some:
  assumes "distinct vas" "\<forall>va\<in>set vas. page_aligned va \<and> va < MAXVA \<and> \<not> pte_valid (g va)"
  shows "\<exists>g'. code_spec vas (f, g) = Some (f, g') \<and> (\<forall>va. off_pages vas va \<longrightarrow> g' va = g va)"
  using assms
proof (induction vas arbitrary: g)
  case (Cons va vas)
  let ?g = "set_page va (PA2PTE (readable_pa (f va)) OR prot_to_type (PROT_READ OR PROT_EXEC) True OR PTE_V) g"
  have "\<not> same_page va va'" if "va' \<in> set vas" for va'
    using that Cons.prems same_page_aligned [of va va'] by auto
  then have "\<forall>va'\<in>set vas. page_aligned va' \<and> va' < MAXVA \<and> \<not> pte_valid (?g va')"
    using Cons.prems by (simp add: set_page_def)
  with Cons.IH [of ?g] Cons.prems(1) obtain g' where
    "code_spec vas (f, ?g) = Some (f, g')" "\<forall>va. off_pages vas va \<longrightarrow> g' va = ?g va" by auto
  then show ?case using Cons.prems(2) by (intro exI [of _ g']) (simp add: off_pages_def set_page_def)
qed simp

lemma code_spec_fst: "code_spec vas (f, g) = Some (f', g') \<Longrightarrow> f' = f"
  by (induction vas "(f, g)" arbitrary: g rule: code_spec.induct) (auto split: if_splits)

lemma code_spec_off: "code_spec vas (f, g) = Some (f', g') \<Longrightarrow> off_pages vas va \<Longrightarrow> g' va = g va"
  by (induction vas "(f, g)" arbitrary: g rule: code_spec.induct) (auto simp: off_pages_def set_page_def split: if_splits)

lemma vas_Cons:
  "shared_vas (r # rs) = (if shared_seg r then region_vas r else []) @ shared_vas rs"
  "code_vas (r # rs) = (if code_seg r then region_vas r else []) @ code_vas rs"
  by (simp_all add: shared_vas_def code_vas_def)

lemma off_pages_append [simp]: "off_pages (xs @ ys) va \<longleftrightarrow> off_pages xs va \<and> off_pages ys va"
  by (auto simp: off_pages_def)

lemma off_pages_aligned:
  assumes "page_aligned va" "va < MAXVA" "\<forall>va'\<in>set vas. page_aligned va' \<and> va' < MAXVA" "va \<notin> set vas"
  shows "off_pages vas va"
  using assms same_page_aligned [of _ va] by (auto simp: off_pages_def)

lemma fork_spec_Some:
  assumes "code_apart rs g"
  shows "\<exists>f' g'. fork_spec rs (f, g) = Some (f', g')"
  using assms
proof (induction rs arbitrary: f g)
  case (Cons r rs)
  have ap: "code_apart rs g'" if "\<And>va. va \<in> set (code_vas rs) \<Longrightarrow> g' va = g va" for g'
    using Cons.prems that by (auto simp: code_apart_def vas_Cons)
  consider (sh) "shared_seg r" | (code) "code_seg r" "\<not> shared_seg r" | (other) "\<not> shared_seg r" "\<not> code_seg r" by blast
  then show ?case
  proof cases
    case sh
    obtain f1 g1 where fg: "share_spec (region_vas r) (f, g) = (f1, g1)" by fastforce
    have "g1 va = g va" if "va \<in> set (code_vas rs)" for va
      using Cons.prems that sh share_spec_off [of "region_vas r" va f g] fg by (auto simp: code_apart_def vas_Cons)
    from Cons.IH [OF ap [OF this]] fg sh show ?thesis by (auto simp: region_spec_def)
  next
    case code
    from Cons.prems code have "\<exists>g'. code_spec (region_vas r) (f, g) = Some (f, g') \<and> (\<forall>va. off_pages (region_vas r) va \<longrightarrow> g' va = g va)"
      by (intro code_spec_Some) (auto simp: code_apart_def vas_Cons)
    then obtain g1 where g1: "code_spec (region_vas r) (f, g) = Some (f, g1)" "\<And>va. off_pages (region_vas r) va \<Longrightarrow> g1 va = g va"
      by blast
    have "off_pages (region_vas r) va" if "va \<in> set (code_vas rs)" for va
      using Cons.prems that code by (intro off_pages_aligned) (auto simp: code_apart_def vas_Cons)
    from Cons.IH [OF ap [OF g1(2) [OF this]]] g1(1) code show ?thesis by (auto simp: region_spec_def code_seg_def)
  next
    case other
    then show ?thesis using Cons.IH [OF ap] by (auto simp: region_spec_def code_seg_def)
  qed
qed simp

text \<open>A shared page ends copy-on-write in both spaces; pages in no shared region keep the parent's
  entry.\<close>

lemma PTE_bits: "bit PTE_W n \<longleftrightarrow> n = 2" "bit PTE_COW n \<longleftrightarrow> n = 8"
proof -
  have e: "PTE_W = 2 ^ 2" "PTE_COW = 2 ^ 8" by (simp_all add: PTE_W_def PTE_COW_def)
  show "bit PTE_W n \<longleftrightarrow> n = 2" "bit PTE_COW n \<longleftrightarrow> n = 8"
    unfolding e bit_exp_iff by (auto simp: possible_bit_word)
qed

lemma cow_idem [simp]: "cow (cow e) = cow e"
proof -
  have "PTE_W AND (e AND NOT PTE_W OR PTE_COW) = 0"
    by (rule bit_eqI) (auto simp: bit_and_iff bit_or_iff bit_not_iff PTE_bits)
  then show ?thesis by (simp add: cow_def)
qed

lemma cow_readonly: "PTE_W AND cow e = 0"
proof -
  have "PTE_W AND (e AND NOT PTE_W OR PTE_COW) = 0"
    by (rule bit_eqI) (auto simp: bit_and_iff bit_or_iff bit_not_iff PTE_bits)
  then show ?thesis by (simp add: cow_def)
qed

text \<open>The progress of one page with entry \<open>e\<close>: not shared yet, or shared.\<close>

definition page_shared :: "uint64 \<Rightarrow> pte_t \<Rightarrow> spaces \<Rightarrow> bool" where
  "page_shared va e fg \<longleftrightarrow> fst fg va = cow e \<and> snd fg va = cow e"

lemma share_spec_shared:
  assumes "pte_valid e" "\<And>a b. same_page a b \<Longrightarrow> f a = f b" "f va = e \<or> page_shared va e (f, g)"
  shows "(fst (share_spec vas (f, g)) va = e \<or> page_shared va e (share_spec vas (f, g))) \<and>
    (page_shared va e (f, g) \<or> \<not> off_pages vas va \<longrightarrow> page_shared va e (share_spec vas (f, g))) \<and>
    (\<forall>a b. same_page a b \<longrightarrow> fst (share_spec vas (f, g)) a = fst (share_spec vas (f, g)) b)"
  using assms(2,3)
proof (induction vas arbitrary: f g)
  case (Cons v vas)
  show ?case
  proof (cases "pte_valid (f v)")
    case True
    let ?f = "set_page v (cow (f v)) f" and ?g = "set_page v (cow (f v)) g"
    have resp: "?f a = ?f b" if "same_page a b" for a b
      using that Cons.prems(1) [OF that] by (auto simp: set_page_def same_page_def)
    have here: "page_shared va e (?f, ?g)" if sp: "same_page v va"
    proof -
      have "f va = e \<or> f va = cow e" using Cons.prems(2) by (auto simp: page_shared_def)
      then have "cow (f va) = cow e" by auto
      then have "cow (f v) = cow e" unfolding Cons.prems(1) [OF sp] .
      then show ?thesis using sp by (simp add: page_shared_def set_page_def)
    qed
    have there: "?f va = f va" "?g va = g va" if "\<not> same_page v va" using that by (simp_all add: set_page_def)
    have "?f va = e \<or> page_shared va e (?f, ?g)" using here there Cons.prems(2) by (cases "same_page v va") (auto simp: page_shared_def)
    note IH = Cons.IH [OF resp this]
    have "page_shared va e (?f, ?g)" if "page_shared va e (f, g)"
      using that here there by (cases "same_page v va") (auto simp: page_shared_def)
    then show ?thesis using IH here True by (auto simp: off_pages_def)
  next
    case False
    have "\<not> same_page v va"
    proof
      assume "same_page v va"
      then have "f v = f va" by (rule Cons.prems(1))
      then have "f v = e \<or> f v = cow e" using Cons.prems(2) by (auto simp: page_shared_def)
      then show False using False assms(1) by auto
    qed
    then show ?thesis using Cons.IH [OF Cons.prems] False by (simp add: off_pages_def)
  qed
qed (auto simp: off_pages_def)

lemma fork_spec_shared:
  assumes "pte_valid e" "\<And>a b. same_page a b \<Longrightarrow> f a = f b" "f va = e \<or> page_shared va e (f, g)"
    and "off_pages (code_vas rs) va" "fork_spec rs (f, g) = Some fg'"
  shows "page_shared va e (f, g) \<or> \<not> off_pages (shared_vas rs) va \<longrightarrow> page_shared va e fg'"
  using assms(2-5)
proof (induction rs arbitrary: f g)
  case Nil
  then show ?case by (auto simp: shared_vas_def off_pages_def)
next
  case (Cons r rs)
  obtain f1 g1 where fg1: "region_spec r (f, g) = Some (f1, g1)" "fork_spec rs (f1, g1) = Some fg'"
    using Cons.prems(4) by (auto split: option.splits)
  have off: "off_pages (code_vas rs) va" "code_seg r \<Longrightarrow> off_pages (region_vas r) va"
    using Cons.prems(3) by (auto simp: vas_Cons)
  show ?case
  proof (cases "shared_seg r")
    case True
    then have e: "share_spec (region_vas r) (f, g) = (f1, g1)" using fg1(1) by (simp add: region_spec_def)
    note * = share_spec_shared [OF assms(1) Cons.prems(1,2), of "region_vas r", unfolded e]
    have "page_shared va e (f1, g1) \<or> \<not> off_pages (shared_vas rs) va \<longrightarrow> page_shared va e fg'"
      by (rule Cons.IH [OF _ _ off(1) fg1(2)]) (use * in auto)
    then show ?thesis using * True by (auto simp: vas_Cons)
  next
    case False
    have f1: "f1 = f" "g1 va = g va"
      using fg1(1) False off(2) code_spec_fst [of "region_vas r" f g f1 g1] code_spec_off [of "region_vas r" f g f1 g1 va]
      by (auto simp: region_spec_def code_seg_def split: if_splits)
    have "page_shared va e (f1, g1) \<or> \<not> off_pages (shared_vas rs) va \<longrightarrow> page_shared va e fg'"
      by (rule Cons.IH [OF _ _ off(1) fg1(2)]) (use f1 Cons.prems(1,2) in \<open>auto simp: page_shared_def\<close>)
    then show ?thesis using f1 False by (simp add: vas_Cons page_shared_def)
  qed
qed

lemma fork_spec_off:
  assumes "off_pages (shared_vas rs) va" "fork_spec rs (f, g) = Some fg'"
  shows "fst fg' va = f va" "off_pages (code_vas rs) va \<Longrightarrow> snd fg' va = g va"
  using assms
proof (induction rs arbitrary: f g)
  case (Cons r rs)
  case 1
  obtain f1 g1 where fg1: "region_spec r (f, g) = Some (f1, g1)" "fork_spec rs (f1, g1) = Some fg'"
    using 1 by (auto split: option.splits)
  have "f1 va = f va" using fg1(1) 1(1) share_spec_off [of "region_vas r" va f g] code_spec_fst [of "region_vas r" f g f1 g1]
    by (auto simp: region_spec_def vas_Cons split: if_splits)
  then show ?case using Cons.IH(1) [OF _ fg1(2)] 1(1) by (simp add: vas_Cons)
next
  case (Cons r rs)
  case 2
  obtain f1 g1 where fg1: "region_spec r (f, g) = Some (f1, g1)" "fork_spec rs (f1, g1) = Some fg'"
    using 2 by (auto split: option.splits)
  have "g1 va = g va" using fg1(1) 2(1,2) share_spec_off [of "region_vas r" va f g] code_spec_off [of "region_vas r" f g f1 g1 va]
    by (auto simp: region_spec_def vas_Cons code_seg_def split: if_splits)
  then show ?case using Cons.IH(2) [OF _ _ fg1(2)] 2(1,2) by (simp add: vas_Cons)
qed auto

text \<open>What was mapped in the parent stays mapped.\<close>

lemma share_spec_valid: "pte_valid (f va) \<Longrightarrow> pte_valid (fst (share_spec vas (f, g)) va)"
proof (induction vas arbitrary: f g)
  case (Cons a vas)
  have "pte_valid (set_page a (cow (f a)) f va)" if "pte_valid (f a)" using Cons.prems that by (simp add: set_page_def)
  then show ?case using Cons by simp
qed simp

lemma fork_spec_valid: "fork_spec rs fg = Some (f', g') \<Longrightarrow> pte_valid (fst fg va) \<Longrightarrow> pte_valid (f' va)"
proof (induction rs arbitrary: fg)
  case (Cons r rs)
  obtain f g where fg: "fg = (f, g)" by (cases fg)
  from Cons.prems(1) obtain f1 g1 where 1: "region_spec r (f, g) = Some (f1, g1)" "fork_spec rs (f1, g1) = Some (f', g')"
    unfolding fg by (auto split: option.splits)
  have "pte_valid (f1 va)"
    using 1(1) Cons.prems(2) fg share_spec_valid [of f va "region_vas r" g] code_spec_fst [of "region_vas r" f g f1 g1]
    by (auto simp: region_spec_def split: if_splits)
  then show ?case using Cons.IH [OF 1(2)] by simp
qed simp

section \<open>The whole of fork\<close>

lemma ready_queue_cong:
  assumes "ready_queue xs s" "ready_queue_head s' = ready_queue_head s" "length (procs s') = length (procs s)"
    and "\<And>i. i \<in> set xs \<Longrightarrow> procs s' ! i = procs s ! i"
  shows "ready_queue xs s'"
  using assms qpath_cong [of xs "next_of s'" "next_of s" "ready_queue_head s"]
  by (simp add: ready_queue_def runnable_def next_of_def)

text \<open>Insertion into the ready queue changes nothing but the links and the status of the new process.\<close>

lemma insert_frame:
  assumes "insert_to_ready_queue j s = Inr s'"
  shows "kvm s' = kvm s" "tframes s' = tframes s" "minfos s' = minfos s" "length (procs s') = length (procs s)"
    "\<exists>st qn. procs s' ! i = (procs s ! i)\<lparr>status := st, queue_next := qn\<rparr> \<and> (i \<noteq> j \<longrightarrow> st = status (procs s ! i))"
proof -
  have self: "\<exists>st qn. p = p\<lparr>status := st, queue_next := qn\<rparr> \<and> (i \<noteq> j \<longrightarrow> st = status p)" for p :: process
    by (rule exI [of _ "status p"], rule exI [of _ "queue_next p"]) simp
  have q: "\<exists>st qn'. p\<lparr>queue_next := qn\<rparr> = p\<lparr>status := st, queue_next := qn'\<rparr> \<and> (i \<noteq> j \<longrightarrow> st = status p)" for p :: process and qn
    by (rule exI [of _ "status p"], rule exI [of _ qn]) simp
  have upd: "\<exists>st' qn'. p\<lparr>status := st, queue_next := qn\<rparr> = p\<lparr>status := st', queue_next := qn'\<rparr> \<and> (j \<noteq> j \<longrightarrow> st' = status p)"
    "\<exists>st' qn'. p\<lparr>queue_next := qn2, status := st, queue_next := qn\<rparr> = p\<lparr>status := st', queue_next := qn'\<rparr> \<and> (j \<noteq> j \<longrightarrow> st' = status p)"
    for p :: process and st qn qn2 by auto
  show "kvm s' = kvm s" "tframes s' = tframes s" "minfos s' = minfos s" "length (procs s') = length (procs s)"
    using assms by (auto simp: insert_to_ready_queue_def proc_upd_def bindE_Inr_iff split: option.splits if_splits prod.splits)
  show "\<exists>st qn. procs s' ! i = (procs s ! i)\<lparr>status := st, queue_next := qn\<rparr> \<and> (i \<noteq> j \<longrightarrow> st = status (procs s ! i))"
    using assms self q upd
    by (auto simp: insert_to_ready_queue_def proc_upd_def bindE_Inr_iff nth_list_update split: option.splits if_splits prod.splits)
qed

text \<open>What fork relies on: the parent is a process with an address space, its trap frame and region
  table are not cached pages, its regions can be forked, and the cache can supply the pages.\<close>

definition regions_of :: "nat \<Rightarrow> kernel \<Rightarrow> mapped_region list" where
  "regions_of i s = take (total_mapped_region (procs s ! i)) (minfos s (mapped_info (procs s ! i)))"

definition code_low :: "externs \<Rightarrow> mapped_region list \<Rightarrow> bool" where
  "code_low x rs \<longleftrightarrow> distinct (code_vas rs) \<and> (\<forall>va\<in>set (code_vas rs). page_aligned va \<and> unat va < 0x80000000 \<and>
     off_pages (shared_vas rs) va \<and> va \<noteq> ustack_page \<and> va \<noteq> x_trap_sec_start x)"

definition fork_pre :: "externs \<Rightarrow> nat \<Rightarrow> kernel \<Rightarrow> bool" where
  "fork_pre x pi s \<longleftrightarrow> pi < length (procs s) \<and>
     (let p = procs s ! pi; rs = regions_of pi s; cached = PFN_TO_ADDR ` set (cached_pages (kpmm s)) in
      status p \<noteq> FREE \<and> vm_ok (pagetable p) (kvm s) \<and> ram_ok (kpmm s) \<and> trap_page_ok x (kpmm s) \<and>
      tf_ptr p \<noteq> 0 \<and> mapped_info p \<noteq> 0 \<and> tf_ptr p \<notin> cached \<and> mapped_info p \<notin> cached \<and>
      total_mapped_region p \<le> length (minfos s (mapped_info p)) \<and>
      (\<forall>r\<in>set rs. region_ok (kmem s) (pagetable p) r) \<and> code_low x rs \<and>
      length (filter code_seg rs) \<le> 252 \<and> 11 + 2 * region_pages rs \<le> page_supply (kvm s))"

lemma code_low_apart:
  assumes "code_low x rs" "trap_page_ok x p" "pmm_ok p" "ram_ok p" "tf \<in> PFN_TO_ADDR ` set (cached_pages p)"
  shows "code_apart rs (new_space tf us (x_trap_sec_start x))"
proof -
  have tf: "page_aligned tf" "tf < MAXVA" "0x80000000 \<le> unat tf"
    using assms(5) cached_page_bounds [OF assms(3,4)] by auto
  have tv: "page_aligned (x_trap_sec_start x)" "x_trap_sec_start x < MAXVA" using assms(2) by (simp_all add: trap_page_ok_def)
  have "\<not> pte_valid (new_space tf us (x_trap_sec_start x) va) \<and> va < MAXVA" if "va \<in> set (code_vas rs)" for va
  proof -
    have va: "page_aligned va" "unat va < 0x80000000" "va \<noteq> ustack_page" "va \<noteq> x_trap_sec_start x"
      using assms(1) that by (simp_all add: code_low_def)
    have m: "va < MAXVA" using va(2) by (simp add: unat_less_maxva)
    have "va \<noteq> tf" using va(2) tf(3) by auto
    then have "\<not> same_page tf va" "\<not> same_page (x_trap_sec_start x) va" "\<not> same_page ustack_page va"
      using same_page_aligned va m tf tv ustack_facts by metis+
    then show ?thesis using m by (simp add: new_space_def)
  qed
  then show ?thesis using assms(1) by (simp add: code_apart_def code_low_def)
qed

lemma fork_child_space:
  assumes "built dir g (kvm s) v" "vm_ok pd (kvm s)"
  shows "forked pd dir (pte_of (kmem s) pd, g) v v"
  using built_other [OF assms] assms(1) by (auto simp: built_def forked_def)

text \<open>The last steps of fork, once the regions are copied.\<close>

definition finish_fork :: "externs \<Rightarrow> nat \<Rightarrow> nat \<Rightarrow> kernel \<Rightarrow> kernel" where
  "finish_fork x pi ci s =
     (let c = procs s ! ci; t = tframes s (tf_ptr c) in
      s\<lparr>tframes := (tframes s)(tf_ptr c := t\<lparr>tf_regs := (tf_regs t)\<lparr>r_tp := x_proc_addr x ci, r_a0 := 0\<rparr>\<rparr>),
        procs := (procs s)[ci := c\<lparr>status := READY, parent := Some pi\<rparr>]\<rparr>)"

lemma do_fork_steps:
  assumes "pi < length (procs s)" "alloc_process x s = Inr (ci, s1)" "pi < length (procs s1)" "ci < length (procs s1)"
    and "fork_regions x pi ci [0..<total_mapped_region (procs s1 ! pi)] s1 = Inr s2" "length (procs s2) = length (procs s1)"
    and "tf_ptr (procs s2 ! ci) \<noteq> 0" "insert_to_ready_queue ci (finish_fork x pi ci s2) = Inr s3"
  shows "do_fork x pi s = Inr (ucast (pid (procs s2 ! ci)), s3)"
proof -
  let ?s = "s2\<lparr>tframes := (tframes s2)(tf_ptr (procs s2 ! ci) := (tframes s2 (tf_ptr (procs s2 ! ci)))\<lparr>tf_regs :=
      (tf_regs (tframes s2 (tf_ptr (procs s2 ! ci))))\<lparr>r_tp := x_proc_addr x ci, r_a0 := 0\<rparr>\<rparr>),
    procs := (procs s2)[ci := (procs s2 ! ci)\<lparr>status := READY, parent := Some pi\<rparr>]\<rparr>"
  have "do_fork x pi s = bindE (insert_to_ready_queue ci ?s) (\<lambda>s. Inr (ucast (pid (procs s2 ! ci)), s))"
    using assms(1-7) by (simp add: do_fork_def proc_at_def proc_upd_ok tf_upd_ok)
  then show ?thesis using assms(8) by (simp add: finish_fork_def Let_def)
qed

text \<open>The child in the state \<open>s1\<close> before the regions are copied, with memory \<open>v\<close>.\<close>

definition fork_start :: "externs \<Rightarrow> nat \<Rightarrow> nat \<Rightarrow> kernel \<Rightarrow> uint64 \<Rightarrow> uint64 \<Rightarrow> uint64 \<Rightarrow> uint64 \<Rightarrow> vmm \<Rightarrow> kernel \<Rightarrow> bool" where
  "fork_start x pi ci s tf dir us mi v s1 \<longleftrightarrow> alloc_process x s = Inr (ci, s1) \<and> pi \<noteq> ci \<and> ci < length (procs s) \<and>
     forking pi ci (new_regions tf (x_trap_sec_start x)) (replicate 252 zero_region) s1 \<and>
     built dir (new_space tf us (x_trap_sec_start x)) (kvm s) v \<and> page_supply (kvm s) \<le> page_supply v + 11 \<and>
     {tf, dir, us, mi} \<subseteq> PFN_TO_ADDR ` set (cached_pages (kpmm s)) \<and> tf \<noteq> 0 \<and> tf_ptr (procs s ! pi) \<noteq> tf \<and>
     mapped_info (procs s ! pi) \<noteq> mi \<and>
     (\<exists>ks. s1 = s\<lparr>tframes := (tframes s)(tf := new_frame), kvm := v,
       minfos := (minfos s)(mi := new_regions tf (x_trap_sec_start x) @ replicate 252 zero_region),
       procs := (procs s)[ci := new_process tf dir ks mi (procs s ! ci)]\<rparr>)"

lemma fork_preD:
  assumes "fork_pre x pi s"
  shows "pi < length (procs s)" "status (procs s ! pi) \<noteq> FREE" "vm_ok (pagetable (procs s ! pi)) (kvm s)" "ram_ok (kpmm s)"
    "trap_page_ok x (kpmm s)" "pmm_ok (kpmm s)" "11 \<le> page_supply (kvm s)"
    "tf_ptr (procs s ! pi) \<noteq> 0" "mapped_info (procs s ! pi) \<noteq> 0"
    "tf_ptr (procs s ! pi) \<notin> PFN_TO_ADDR ` set (cached_pages (kpmm s))"
    "mapped_info (procs s ! pi) \<notin> PFN_TO_ADDR ` set (cached_pages (kpmm s))"
  using assms by (auto simp: fork_pre_def Let_def vm_ok_def)

lemma fork_started:
  assumes pre: "fork_pre x pi s" and free: "find_free 0 (procs s) = Some ci"
  shows "\<exists>tf dir us mi v s1. fork_start x pi ci s tf dir us mi v s1"
proof -
  let ?p = "procs s ! pi"
  note p = fork_preD [OF pre]
  have ci: "ci < length (procs s)" "pi \<noteq> ci" using find_free_Some [OF free] p(2) by auto
  from alloc_process_ok [OF p(6,4,7) free p(5)] obtain tf dir ks us mi v where
    a: "alloc_process x s = Inr (ci, s\<lparr>tframes := (tframes s)(tf := new_frame), kvm := v,
       minfos := (minfos s)(mi := new_regions tf (x_trap_sec_start x) @ replicate 252 zero_region),
       procs := (procs s)[ci := new_process tf dir ks mi (procs s ! ci)]\<rparr>)" (is "_ = Inr (ci, ?s1)")
      "set [tf, dir, ks, us, mi] \<subseteq> taken (kvm s) v" "built dir (new_space tf us (x_trap_sec_start x)) (kvm s) v"
      "page_supply (kvm s) \<le> page_supply v + 11" by blast
  have cached: "{tf, dir, us, mi} \<subseteq> PFN_TO_ADDR ` set (cached_pages (kpmm s))" using a(2) by (auto simp: taken_def)
  then have nz: "tf \<noteq> 0" "mi \<noteq> 0" "tf_ptr ?p \<noteq> tf" "mapped_info ?p \<noteq> mi"
    using cached_page_bounds(4) [OF p(6,4)] p(10,11) by auto
  have "forking pi ci (new_regions tf (x_trap_sec_start x)) (replicate 252 zero_region) ?s1"
    using p(1,8,9) ci nz by (simp add: forking_def new_process_def new_regions_def)
  then have "fork_start x pi ci s tf dir us mi v ?s1"
    using a(1,3,4) ci cached nz unfolding fork_start_def by blast
  then show ?thesis by blast
qed

lemma fork_start_state:
  assumes "fork_start x pi ci s tf dir us mi v s1"
  shows "procs s1 ! pi = procs s ! pi" "pagetable (procs s1 ! ci) = dir" "tf_ptr (procs s1 ! ci) = tf" "mapped_info (procs s1 ! ci) = mi"
    "total_mapped_region (procs s1 ! ci) = 4" "pid (procs s1 ! ci) = pid (procs s ! ci)" "kvm s1 = v"
    "length (procs s1) = length (procs s)" "minfos s1 (mapped_info (procs s ! pi)) = minfos s (mapped_info (procs s ! pi))"
    "ready_queue_head s1 = ready_queue_head s" "tframes s1 (tf_ptr (procs s ! pi)) = tframes s (tf_ptr (procs s ! pi))"
    "\<And>i. i \<noteq> ci \<Longrightarrow> procs s1 ! i = procs s ! i"
proof -
  from assms obtain ks where
    "s1 = s\<lparr>tframes := (tframes s)(tf := new_frame), kvm := v,
       minfos := (minfos s)(mi := new_regions tf (x_trap_sec_start x) @ replicate 252 zero_region),
       procs := (procs s)[ci := new_process tf dir ks mi (procs s ! ci)]\<rparr>"
    "pi \<noteq> ci" "ci < length (procs s)" "tf_ptr (procs s ! pi) \<noteq> tf" "mapped_info (procs s ! pi) \<noteq> mi"
    unfolding fork_start_def by blast
  then show "procs s1 ! pi = procs s ! pi" "pagetable (procs s1 ! ci) = dir" "tf_ptr (procs s1 ! ci) = tf" "mapped_info (procs s1 ! ci) = mi"
    "total_mapped_region (procs s1 ! ci) = 4" "pid (procs s1 ! ci) = pid (procs s ! ci)" "kvm s1 = v"
    "length (procs s1) = length (procs s)" "minfos s1 (mapped_info (procs s ! pi)) = minfos s (mapped_info (procs s ! pi))"
    "ready_queue_head s1 = ready_queue_head s" "tframes s1 (tf_ptr (procs s ! pi)) = tframes s (tf_ptr (procs s ! pi))"
    "\<And>i. i \<noteq> ci \<Longrightarrow> procs s1 ! i = procs s ! i"
    by (simp_all add: new_process_def)
qed

abbreviation copied :: "externs \<Rightarrow> nat \<Rightarrow> nat \<Rightarrow> kernel \<Rightarrow> uint64 \<Rightarrow> vmm \<Rightarrow> kernel \<Rightarrow> kernel" where
  "copied x pi ci s tf v' s1 \<equiv>
     after_regions pi ci (new_regions tf (x_trap_sec_start x)) (replicate 252 zero_region) (regions_of pi s) v' s1"

lemma fork_copied:
  assumes pre: "fork_pre x pi s" and st: "fork_start x pi ci s tf dir us mi v s1" and gp: "get_page_ok x"
  shows "\<exists>v' f' g'. fork_regions x pi ci [0..<total_mapped_region (procs s ! pi)] s1 = Inr (copied x pi ci s tf v' s1) \<and>
    fork_spec (regions_of pi s) (pte_of (kmem s) (pagetable (procs s ! pi)), new_space tf us (x_trap_sec_start x)) = Some (f', g') \<and>
    forked (pagetable (procs s ! pi)) dir (f', g') v v'"
proof -
  let ?p = "procs s ! pi" and ?rs = "regions_of pi s" and ?tv = "x_trap_sec_start x"
  note p = fork_preD [OF pre] and s1 = fork_start_state [OF st]
  have q: "total_mapped_region ?p \<le> length (minfos s (mapped_info ?p))" "\<forall>r\<in>set ?rs. region_ok (kmem s) (pagetable ?p) r"
    "code_low x ?rs" "length (filter code_seg ?rs) \<le> 252" "11 + 2 * region_pages ?rs \<le> page_supply (kvm s)"
    using pre by (auto simp: fork_pre_def Let_def)
  have f: "forking pi ci (new_regions tf ?tv) (replicate 252 zero_region) s1" "built dir (new_space tf us ?tv) (kvm s) v"
    "page_supply (kvm s) \<le> page_supply v + 11" "tf \<in> PFN_TO_ADDR ` set (cached_pages (kpmm s))"
    using st by (simp_all add: fork_start_def)
  obtain f' g' where fg: "fork_spec ?rs (pte_of (kmem s) (pagetable ?p), new_space tf us ?tv) = Some (f', g')"
    using fork_spec_Some [OF code_low_apart [OF q(3) p(5,6,4) f(4)]] by blast
  have "\<exists>v'. fork_regions x pi ci [0..<total_mapped_region ?p] s1 = Inr (copied x pi ci s tf v' s1) \<and>
    forked (pagetable (procs s1 ! pi)) (pagetable (procs s1 ! ci)) (f', g') v v' \<and>
    page_supply (kvm s1) \<le> page_supply v' + 2 * region_pages ?rs"
  proof (rule fork_regions_ok [OF f(1) _ _ _ _ fg gp])
    show "?rs = map ((!) (minfos s1 (mapped_info (procs s1 ! pi)))) [0..<total_mapped_region ?p]"
      using q(1) s1(1,9) by (simp add: regions_of_def list_eq_iff_nth_eq)
    show "\<forall>r\<in>set ?rs. region_ok (vmem v) (pagetable (procs s1 ! pi)) r"
      using q(2) built_other(5) [OF f(2) p(3) leaf_path_ok(1)] s1(1) by (simp add: region_ok_def)
  qed (use q(1,4,5) f fork_child_space [OF f(2) p(3)] s1 in simp_all)
  then show ?thesis using fg s1(1,2) by auto
qed

lemma new_regions_length: "length (new_regions tf tv) = 4"
  by (simp add: new_regions_def)

lemma tables_cong: "(\<And>q. path_ok q \<Longrightarrow> table_at m' root q = table_at m root q) \<Longrightarrow> tables m' root = tables m root"
  by (auto simp: tables_def)

lemma copied_state:
  fixes v' :: vmm
  assumes st: "fork_start x pi ci s tf dir us mi v s1"
  defines "s2 \<equiv> copied x pi ci s tf v' s1" and "rs \<equiv> regions_of pi s"
  shows "procs s2 ! ci = child_step (user_heap (procs s ! pi)) rs (procs s1 ! ci)" "length (procs s2) = length (procs s)"
    "kvm s2 = v'" "ready_queue_head s2 = ready_queue_head s" "\<And>i. i \<noteq> ci \<Longrightarrow> procs s2 ! i = procs s ! i"
    "take (4 + length (filter code_seg rs)) (minfos s2 mi) = new_regions tf (x_trap_sec_start x) @ filter code_seg rs"
    "\<exists>r\<in>set rs. context_seg r \<Longrightarrow> tframes s2 tf = tframes s (tf_ptr (procs s ! pi))"
    "tframes s2 (tf_ptr (procs s ! pi)) = tframes s (tf_ptr (procs s ! pi))"
proof -
  have f: "forking pi ci (new_regions tf (x_trap_sec_start x)) (replicate 252 zero_region) s1" "tf_ptr (procs s ! pi) \<noteq> tf"
    using st by (simp_all add: fork_start_def)
  note pr = after_regions_procs [OF f(1), of rs v'] and s1 = fork_start_state [OF st]
  show "procs s2 ! ci = child_step (user_heap (procs s ! pi)) rs (procs s1 ! ci)" "kvm s2 = v'"
    using pr s1(1) by (simp_all add: s2_def rs_def)
  show "length (procs s2) = length (procs s)" "ready_queue_head s2 = ready_queue_head s"
    "\<And>i. i \<noteq> ci \<Longrightarrow> procs s2 ! i = procs s ! i"
    using s1(8,10,12) by (simp_all add: s2_def after_regions_def Let_def)
  show "take (4 + length (filter code_seg rs)) (minfos s2 mi) = new_regions tf (x_trap_sec_start x) @ filter code_seg rs"
    using s1(4) by (simp add: s2_def rs_def after_regions_def Let_def new_regions_length)
  show "\<exists>r\<in>set rs. context_seg r \<Longrightarrow> tframes s2 tf = tframes s (tf_ptr (procs s ! pi))"
    "tframes s2 (tf_ptr (procs s ! pi)) = tframes s (tf_ptr (procs s ! pi))"
    using s1(1,3,11) f(2) by (simp_all add: s2_def rs_def after_regions_def Let_def)
qed

lemma finish_fork_state:
  fixes x :: externs and pi :: nat
  assumes "ci < length (procs s)"
  defines "s' \<equiv> finish_fork x pi ci s" and "c \<equiv> procs s ! ci"
  shows "procs s' ! ci = c\<lparr>status := READY, parent := Some pi\<rparr>" "length (procs s') = length (procs s)" "kvm s' = kvm s"
    "minfos s' = minfos s" "ready_queue_head s' = ready_queue_head s" "\<And>i. i \<noteq> ci \<Longrightarrow> procs s' ! i = procs s ! i"
    "tframes s' (tf_ptr c) = (tframes s (tf_ptr c))\<lparr>tf_regs := (tf_regs (tframes s (tf_ptr c)))\<lparr>r_tp := x_proc_addr x ci, r_a0 := 0\<rparr>\<rparr>"
    "\<And>a. a \<noteq> tf_ptr c \<Longrightarrow> tframes s' a = tframes s a"
  using assms(1) by (simp_all add: s'_def c_def finish_fork_def Let_def)

text \<open>Memory outside the parent's page tables and the pages that were free is not written.\<close>

lemma fork_memory:
  assumes st: "fork_start x pi ci s tf dir us mi v s1" and fk: "forked pd dir fg v v'" and ok: "vm_ok pd (kvm s)"
    and far: "\<forall>t \<in> tables (kmem s) pd \<union> PFN_TO_ADDR ` set (cached_pages (kpmm s)). \<not> a - t < PGSIZE"
  shows "vmem v' a = kmem s a"
proof -
  have b: "built dir (new_space tf us (x_trap_sec_start x)) (kvm s) v" using st by (simp add: fork_start_def)
  have tk: "taken (kvm s) v \<subseteq> PFN_TO_ADDR ` set (cached_pages (kpmm s))" by (auto simp: taken_def)
  have tp: "tables (vmem v') pd = tables (kmem s) pd"
    using tables_cong [of "vmem v'" pd "vmem v"] fk built_other(2) [OF b ok] by (simp add: forked_def)
  have "tables (vmem v') dir \<subseteq> tables (vmem v) dir \<union> PFN_TO_ADDR ` set (cached_pages (vpmm v))"
    using fk by (simp add: forked_def)
  moreover have "tables (vmem v) dir \<subseteq> taken (kvm s) v" "set (cached_pages (vpmm v)) \<subseteq> set (cached_pages (kpmm s))"
    using b by (simp_all add: built_def)
  ultimately have "tables (vmem v') dir \<subseteq> PFN_TO_ADDR ` set (cached_pages (kpmm s))" using tk by blast
  then have "\<forall>t \<in> tables (vmem v') pd \<union> tables (vmem v') dir. \<not> a - t < PGSIZE" using far tp by blast
  then have "vmem v' a = vmem v a" using fk unfolding forked_def by blast
  moreover have "\<forall>t\<in>taken (kvm s) v. \<not> a - t < PGSIZE" using far tk by blast
  then have "vmem v a = kmem s a" using b unfolding built_def by blast
  ultimately show ?thesis by simp
qed

lemma do_fork_ok:
  assumes pre: "fork_pre x pi s" and free: "find_free 0 (procs s) = Some ci" and gp: "get_page_ok x" and q: "ready_queue xs s"
  shows "\<exists>s' us f' g'. do_fork x pi s = Inr (ucast (pid (procs s ! ci)), s') \<and>
    (let p = procs s ! pi; c = procs s' ! ci; rs = regions_of pi s; t = tframes s (tf_ptr p) in
     fork_spec rs (pte_of (kmem s) (pagetable p), new_space (tf_ptr c) us (x_trap_sec_start x)) = Some (f', g') \<and>
     vm_ok (pagetable p) (kvm s') \<and> vm_ok (pagetable c) (kvm s') \<and>
     (\<forall>va<MAXVA. pte_of (kmem s') (pagetable p) va = f' va \<and> pte_of (kmem s') (pagetable c) va = g' va) \<and>
     {tf_ptr c, pagetable c, mapped_info c, us} \<subseteq> PFN_TO_ADDR ` set (cached_pages (kpmm s)) \<and> parent c = Some pi \<and>
     ((\<exists>r\<in>set rs. heap_seg r) \<longrightarrow> user_heap c = user_heap p) \<and>
     regions_of ci s' = new_regions (tf_ptr c) (x_trap_sec_start x) @ filter code_seg rs \<and>
     ((\<exists>r\<in>set rs. context_seg r) \<longrightarrow> tframes s' (tf_ptr c) = t\<lparr>tf_regs := (tf_regs t)\<lparr>r_tp := x_proc_addr x ci, r_a0 := 0\<rparr>\<rparr>) \<and>
     tframes s' (tf_ptr p) = t \<and> ready_queue (xs @ [ci]) s' \<and> current s' = current s \<and>
     length (procs s') = length (procs s) \<and> (\<exists>st qn. procs s' ! pi = p\<lparr>status := st, queue_next := qn\<rparr>) \<and>
     (\<forall>a. (\<forall>t \<in> tables (kmem s) (pagetable p) \<union> PFN_TO_ADDR ` set (cached_pages (kpmm s)). \<not> a - t < PGSIZE) \<longrightarrow>
       kmem s' a = kmem s a))"
proof -
  let ?p = "procs s ! pi" and ?rs = "regions_of pi s"
  note p = fork_preD [OF pre]
  from fork_started [OF pre free] obtain tf dir us mi v s1 where st: "fork_start x pi ci s tf dir us mi v s1" by blast
  from fork_copied [OF pre st gp] obtain v' f' g' where
    cp: "fork_regions x pi ci [0..<total_mapped_region ?p] s1 = Inr (copied x pi ci s tf v' s1)"
      "fork_spec ?rs (pte_of (kmem s) (pagetable ?p), new_space tf us (x_trap_sec_start x)) = Some (f', g')"
      "forked (pagetable ?p) dir (f', g') v v'" by blast
  have f: "alloc_process x s = Inr (ci, s1)" "ci < length (procs s)" "tf \<noteq> 0" "tf_ptr ?p \<noteq> tf"
    "{tf, dir, us, mi} \<subseteq> PFN_TO_ADDR ` set (cached_pages (kpmm s))" using st by (simp_all add: fork_start_def)
  let ?s2 = "copied x pi ci s tf v' s1" let ?s3 = "finish_fork x pi ci ?s2"
  note s1 = fork_start_state [OF st] and s2 = copied_state [OF st, where v' = v']
  have tf2: "tf_ptr (procs ?s2 ! ci) = tf" using s2(1) s1(3) by simp
  have ci2: "ci < length (procs ?s2)" using f(2) s2(2) by simp
  note s3 = finish_fork_state [OF ci2, where x = x and pi = pi, unfolded tf2]
  obtain ks where "s1 = s\<lparr>tframes := (tframes s)(tf := new_frame), kvm := v,
       minfos := (minfos s)(mi := new_regions tf (x_trap_sec_start x) @ replicate 252 zero_region),
       procs := (procs s)[ci := new_process tf dir ks mi (procs s ! ci)]\<rparr>" using st unfolding fork_start_def by blast
  then have s2cur: "current ?s2 = current s" by (simp add: after_regions_def Let_def)
  have s3cur: "current ?s3 = current ?s2" by (simp add: finish_fork_def Let_def)
  have nq: "ci \<notin> set xs" using q find_free_Some [OF free] by (auto simp: ready_queue_def)
  have "ready_queue xs ?s3"
  proof (rule ready_queue_cong [OF q])
    show "procs ?s3 ! i = procs s ! i" if "i \<in> set xs" for i using that nq s3(6) [of i] s2(5) [of i] by metis
  qed (use s3(2,5) s2(2,4) in simp_all)
  moreover have "runnable ci ?s3" using s3(1,2) f(2,3) s2(2) tf2 by (simp add: runnable_def)
  ultimately obtain s4 where s4: "insert_to_ready_queue ci ?s3 = Inr s4" "ready_queue (xs @ [ci]) s4" "kvm s4 = v'" "current s4 = current ?s3"
    using insert_absent [of xs ?s3 ci] nq s3(3) s2(3) by auto
  note fr = insert_frame [OF s4(1)]
  from fr(5) [of ci] obtain stt qn where "procs s4 ! ci = (procs ?s3 ! ci)\<lparr>status := stt, queue_next := qn\<rparr>" by blast
  then have c4: "pagetable (procs s4 ! ci) = dir" "tf_ptr (procs s4 ! ci) = tf" "mapped_info (procs s4 ! ci) = mi"
    "parent (procs s4 ! ci) = Some pi" "total_mapped_region (procs s4 ! ci) = 4 + length (filter code_seg ?rs)"
    "(\<exists>r\<in>set ?rs. heap_seg r) \<longrightarrow> user_heap (procs s4 ! ci) = user_heap ?p"
    using s3(1) s2(1) s1 by (auto simp: child_step_def)
  have "do_fork x pi s = Inr (ucast (pid (procs ?s2 ! ci)), s4)"
    by (rule do_fork_steps [OF p(1) f(1) _ _ _ _ _ s4(1)]) (use p(1) f(2,3) s1 s2(2) tf2 cp(1) in simp_all)
  moreover have "pid (procs ?s2 ! ci) = pid (procs s ! ci)" using s2(1) s1(6) by simp
  moreover have "regions_of ci s4 = new_regions tf (x_trap_sec_start x) @ filter code_seg ?rs"
    using c4(3,5) fr(3) s3(4) s2(6) by (simp add: regions_of_def)
  moreover have "tframes s4 (tf_ptr ?p) = tframes s (tf_ptr ?p)" using fr(2) s3(8) [OF f(4)] s2(8) by simp
  moreover have "(\<exists>r\<in>set ?rs. context_seg r) \<longrightarrow> tframes s4 tf = (tframes s (tf_ptr ?p))
      \<lparr>tf_regs := (tf_regs (tframes s (tf_ptr ?p)))\<lparr>r_tp := x_proc_addr x ci, r_a0 := 0\<rparr>\<rparr>"
    using fr(2) s3(7) s2(7) by simp
  moreover have "vm_ok (pagetable ?p) (kvm s4)" "vm_ok dir (kvm s4)"
    "\<forall>va<MAXVA. pte_of (kmem s4) (pagetable ?p) va = f' va \<and> pte_of (kmem s4) dir va = g' va"
    using cp(3) s4(3) by (simp_all add: forked_def)
  moreover note fork_memory [OF st cp(3) p(3)]
  moreover have "\<exists>st qn. procs s4 ! pi = ?p\<lparr>status := st, queue_next := qn\<rparr>"
  proof -
    have "pi \<noteq> ci" using st by (simp add: fork_start_def)
    then have "procs ?s3 ! pi = ?p" using s3(6) [of pi] s2(5) [of pi] by simp
    with fr(5) [of pi] show ?thesis by force
  qed
  moreover have "length (procs s4) = length (procs s)" "current s4 = current s"
    using fr(4) s3(2) s2(2) s4(4) s3cur s2cur by simp_all
  ultimately show ?thesis using cp(2) f(5) c4 s4(2,3)
    by (intro exI [of _ s4] exI [of _ us] exI [of _ f'] exI [of _ g']) (simp add: Let_def)
qed

end
