(* ===== verification/Pke_Fork_Thms.thy ===== *)
theory Pke_Fork_Thms
  imports Pke_Fork
begin

text \<open>
  The theorems on \<^verbatim>\<open>do_fork\<close>: the refinement of the operation on two address spaces, and the
  copy-on-write property it gives.
\<close>

section \<open>A running process\<close>

text \<open>The booted machine with one running process, made by \<^verbatim>\<open>alloc_process\<close>.\<close>

definition running_kernel :: kernel where
  "running_kernel = (case alloc_process sample_externs empty_kernel of
     Inr (i, s) \<Rightarrow> s\<lparr>procs := (procs s)[i := (procs s ! i)\<lparr>status := RUNNING\<rparr>], current := Some i\<rparr>
   | Inl e \<Rightarrow> empty_kernel)"

definition is_running :: "uint64 \<Rightarrow> uint64 \<Rightarrow> uint64 \<Rightarrow> uint64 \<Rightarrow> uint64 \<Rightarrow> vmm \<Rightarrow> bool" where
  "is_running tf dir ks us mi v \<longleftrightarrow> {tf, dir, ks, us, mi} \<subseteq> taken boot_vm v \<and> {tf, ks, mi} \<inter> tables (vmem v) dir = {} \<and> distinct [tf, dir, ks, us, mi] \<and>
     built dir (new_space tf us 0x80002000) boot_vm v \<and> 21 \<le> page_supply v \<and> kvm running_kernel = v \<and>
     length (procs running_kernel) = 32 \<and> current running_kernel = Some 0 \<and> ready_queue_head running_kernel = None \<and>
     procs running_kernel ! 0 = (new_process tf dir ks mi zero_process)\<lparr>status := RUNNING\<rparr> \<and>
     (\<forall>i. 0 < i \<longrightarrow> procs running_kernel ! i = procs empty_kernel ! i) \<and>
     minfos running_kernel mi = new_regions tf 0x80002000 @ replicate 252 zero_region"

lemma empty_zero: "procs empty_kernel ! 0 = zero_process" "length (procs empty_kernel) = 32"
  "\<And>i. i < 32 \<Longrightarrow> status (procs empty_kernel ! i) = FREE"
  by (simp_all add: empty_procs NPROC_def zero_process_def)

lemma running_facts: "\<exists>tf dir ks us mi v. is_running tf dir ks us mi v"
proof -
  have tv: "x_trap_sec_start sample_externs = 0x80002000" by (simp add: sample_externs_def)
  from alloc_process_ok [OF empty_facts(2,3) _ empty_facts(5,6), unfolded tv] empty_facts(4) obtain tf dir ks us mi v where
    a: "alloc_process sample_externs empty_kernel = Inr (0, empty_kernel\<lparr>tframes := (tframes empty_kernel)(tf := new_frame), kvm := v,
       minfos := (minfos empty_kernel)(mi := new_regions tf 0x80002000 @ replicate 252 zero_region),
       procs := (procs empty_kernel)[0 := new_process tf dir ks mi (procs empty_kernel ! 0)]\<rparr>)"
      "distinct [tf, dir, ks, us, mi]" "set [tf, dir, ks, us, mi] \<subseteq> taken boot_vm v"
      "built dir (new_space tf us 0x80002000) boot_vm v" "32 \<le> page_supply v + 11"
      "set [tf, ks, us, mi] \<inter> tables (vmem v) dir = {}" by (auto simp: empty_facts(1))
  have h: "ready_queue_head empty_kernel = None"
    by (simp add: empty_kernel_def init_proc_pool_def idle_kernel_def Let_def)
  have "is_running tf dir ks us mi v"
    unfolding is_running_def using a h empty_zero(1,2) by (simp add: running_kernel_def)
  then show ?thesis by blast
qed

lemma same_page_refl: "same_page a a"
  by (simp add: same_page_def)

lemma running_space:
  assumes "is_running tf dir ks us mi v"
  shows "vm_ok dir v" "ram_ok (vpmm v)" "trap_page_ok sample_externs (vpmm v)" "tf \<noteq> 0" "mi \<noteq> 0"
    "tf \<notin> PFN_TO_ADDR ` set (cached_pages (vpmm v))" "mi \<notin> PFN_TO_ADDR ` set (cached_pages (vpmm v))"
    "pte_of (vmem v) dir ustack_page = PA2PTE us OR prot_to_type (PROT_WRITE OR PROT_READ) True OR PTE_V"
    "\<And>va. va < MAXVA \<Longrightarrow> page_aligned va \<Longrightarrow> unat va < 0x7fffe000 \<Longrightarrow> pte_of (vmem v) dir va = 0"
proof -
  have r: "{tf, dir, us, mi} \<subseteq> taken boot_vm v" "built dir (new_space tf us 0x80002000) boot_vm v"
    using assms by (simp_all add: is_running_def)
  have ok: "pmm_ok (vpmm boot_vm)" "ram_ok (vpmm boot_vm)" "trap_page_ok sample_externs (vpmm boot_vm)" using empty_facts by simp_all
  have sub: "set (cached_pages (vpmm v)) \<subseteq> set (cached_pages (vpmm boot_vm))"
    "\<And>va. va < MAXVA \<Longrightarrow> pte_of (vmem v) dir va = new_space tf us 0x80002000 va" using r(2) by (simp_all add: built_def)
  show "vm_ok dir v" "ram_ok (vpmm v)" using r(2) drawn_ram_ok ok(2) by (auto simp: built_def)
  show "trap_page_ok sample_externs (vpmm v)" using ok(3) sub(1) by (auto simp: trap_page_ok_def)
  have cached: "{tf, dir, us, mi} \<subseteq> PFN_TO_ADDR ` set (cached_pages (vpmm boot_vm))" using r(1) by (auto simp: taken_def)
  have tf: "page_aligned tf" "tf < MAXVA" "0x80000000 \<le> unat tf" and nz: "tf \<noteq> 0" "mi \<noteq> 0"
    using cached cached_page_bounds [OF ok(1,2)] by auto
  show "tf \<noteq> 0" "mi \<noteq> 0" by (fact nz)+
  have inj: "a \<notin> PFN_TO_ADDR ` set (cached_pages (vpmm v))" if "a \<in> taken boot_vm v" for a
  proof
    assume "a \<in> PFN_TO_ADDR ` set (cached_pages (vpmm v))"
    then obtain f where f: "a = PFN_TO_ADDR f" "f \<in> set (cached_pages (vpmm v))" by auto
    from that obtain g where g: "a = PFN_TO_ADDR g" "g \<in> set (cached_pages (vpmm boot_vm))" "g \<notin> set (cached_pages (vpmm v))"
      by (auto simp: taken_def)
    have "f \<in> set (cached_pages (vpmm boot_vm))" using f(2) sub(1) by blast
    then have "f = g" using PFN_TO_ADDR_inj_cached [OF ok(1,2) _ g(2), of f] f(1) g(1) by simp
    with f g show False by simp
  qed
  show "tf \<notin> PFN_TO_ADDR ` set (cached_pages (vpmm v))" "mi \<notin> PFN_TO_ADDR ` set (cached_pages (vpmm v))"
    using inj r(1) by auto
  have al: "page_aligned 0x80002000" "(0x80002000 :: uint64) < MAXVA" by (simp_all add: page_aligned_unat unat_less_maxva)
  have off: "\<not> same_page tf va" "\<not> same_page 0x80002000 va" if "page_aligned va" "va < MAXVA" "unat va < 0x80000000" for va
    using same_page_aligned [OF tf(1) that(1) tf(2) that(2)] same_page_aligned [OF al(1) that(1) al(2) that(2)] that(3) tf(3)
    by (auto simp: word_unat_eq_iff)
  show "pte_of (vmem v) dir ustack_page = PA2PTE us OR prot_to_type (PROT_WRITE OR PROT_READ) True OR PTE_V"
    using sub(2) off [OF ustack_facts(1,3)] ustack_facts(3,4) by (simp add: new_space_def same_page_refl)
  show "pte_of (vmem v) dir va = 0" if "va < MAXVA" "page_aligned va" "unat va < 0x7fffe000" for va
    using sub(2) [OF that(1)] off [OF that(2,1)] same_page_aligned [OF ustack_facts(1) that(2) ustack_facts(3) that(1)] that(3) ustack_facts(4)
    by (auto simp: new_space_def word_unat_eq_iff)
qed

lemma running_regions:
  assumes "is_running tf dir ks us mi v"
  shows "regions_of 0 running_kernel = new_regions tf 0x80002000" "shared_vas (new_regions tf 0x80002000) = [ustack_page]"
    "filter code_seg (new_regions tf 0x80002000) = []" "region_pages (new_regions tf 0x80002000) = 1"
    "\<forall>r\<in>set (new_regions tf 0x80002000). region_ok (vmem v) dir r"
proof -
  show "regions_of 0 running_kernel = new_regions tf 0x80002000"
    using assms by (simp add: is_running_def regions_of_def new_process_def new_regions_length)
  show "shared_vas (new_regions tf 0x80002000) = [ustack_page]"
    by (simp add: shared_vas_def new_regions_def shared_seg_def segment_defs region_vas_def page_off_def)
  show "filter code_seg (new_regions tf 0x80002000) = []" "region_pages (new_regions tf 0x80002000) = 1"
    by (simp_all add: new_regions_def code_seg_def shared_seg_def segment_defs region_pages_def)
  have "table_at (vmem v) dir (leaf_path ustack_page) \<noteq> None"
    using running_space(8) [OF assms] pte_or_valid(2) [of "PA2PTE us"] not_valid_0 by (metis option.simps(4) pte_of_def)
  then show "\<forall>r\<in>set (new_regions tf 0x80002000). region_ok (vmem v) dir r"
    using ustack_facts by (simp add: new_regions_def region_ok_def shared_seg_def segment_defs region_vas_def page_off_def)
qed

lemma running_fork:
  "fork_pre sample_externs 0 running_kernel" "find_free 0 (procs running_kernel) = Some 1" "get_page_ok sample_externs"
  "ready_queue [] running_kernel" "\<not> off_pages (shared_vas (regions_of 0 running_kernel)) ustack_page"
  "\<exists>us. pte_of (kmem running_kernel) (pagetable (procs running_kernel ! 0)) ustack_page =
     PA2PTE us OR prot_to_type (PROT_WRITE OR PROT_READ) True OR PTE_V"
proof -
  from running_facts obtain tf dir ks us mi v where r: "is_running tf dir ks us mi v" by blast
  note sp = running_space [OF r] and rg = running_regions [OF r]
  have k: "kvm running_kernel = v" "length (procs running_kernel) = 32" "ready_queue_head running_kernel = None" "21 \<le> page_supply v"
    "\<And>i. 0 < i \<Longrightarrow> procs running_kernel ! i = procs empty_kernel ! i"
    "procs running_kernel ! 0 = (new_process tf dir ks mi zero_process)\<lparr>status := RUNNING\<rparr>"
    "minfos running_kernel mi = new_regions tf 0x80002000 @ replicate 252 zero_region"
    using r by (simp_all add: is_running_def)
  show "get_page_ok sample_externs" by (simp add: get_page_ok_def sample_externs_def)
  show "ready_queue [] running_kernel" using k(3) by (simp add: ready_queue_def)
  show "\<not> off_pages (shared_vas (regions_of 0 running_kernel)) ustack_page"
    using rg(1,2) by (simp add: off_pages_def same_page_refl)
  show "\<exists>us. pte_of (kmem running_kernel) (pagetable (procs running_kernel ! 0)) ustack_page =
     PA2PTE us OR prot_to_type (PROT_WRITE OR PROT_READ) True OR PTE_V"
    using sp(8) k(1,6) by (auto simp: new_process_def)
  have p: "pagetable (procs running_kernel ! 0) = dir" "tf_ptr (procs running_kernel ! 0) = tf" "mapped_info (procs running_kernel ! 0) = mi"
    "status (procs running_kernel ! 0) = RUNNING" "total_mapped_region (procs running_kernel ! 0) = 4"
    using k(6) by (simp_all add: new_process_def)
  show "fork_pre sample_externs 0 running_kernel"
    unfolding fork_pre_def Let_def using p k rg sp by (simp add: code_low_def code_vas_def new_regions_length)
  obtain a b l where l: "procs running_kernel = a # b # l"
    using k(2) by (cases "procs running_kernel" rule: list.exhaust; cases "tl (procs running_kernel)") auto
  then have "status a = RUNNING" "status b = FREE" using p(4) k(5) [of 1] empty_zero(3) [of 1] by simp_all
  then show "find_free 0 (procs running_kernel) = Some 1" using l by simp
qed

section \<open>Theorems\<close>

text \<open>C1: \<^verbatim>\<open>do_fork\<close> of a process whose regions are mapped, with a free slot and enough cached pages,
  returns the process identifier of the first free slot. The page tables of parent and child are
  then exactly those of the abstract fork of the parent's regions into the new address space. The child has the
  parent's trap frame with 0 as the result of the system call, the parent's heap and, after its
  four regions, the parent's code regions; it is at the end of the ready queue. The parent's trap
  frame is unchanged, and so is all memory outside the parent's page tables and the pages that were
  in the cache.\<close>

theorem do_fork_refines:
  assumes "fork_pre x pi s" and "find_free 0 (procs s) = Some ci" and "get_page_ok x" and "ready_queue xs s"
  shows "\<exists>s' us f' g'. do_fork x pi s = Inr (ucast (pid (procs s ! ci)), s') \<and>
    (let p = procs s ! pi; c = procs s' ! ci; rs = regions_of pi s; t = tframes s (tf_ptr p) in
     fork_spec rs (pte_of (kmem s) (pagetable p), new_space (tf_ptr c) us (x_trap_sec_start x)) = Some (f', g') \<and>
     vm_ok (pagetable p) (kvm s') \<and> vm_ok (pagetable c) (kvm s') \<and>
     (\<forall>va<MAXVA. pte_of (kmem s') (pagetable p) va = f' va \<and> pte_of (kmem s') (pagetable c) va = g' va) \<and>
     {tf_ptr c, pagetable c, mapped_info c, us} \<subseteq> PFN_TO_ADDR ` set (cached_pages (kpmm s)) \<and> parent c = Some pi \<and>
     ((\<exists>r\<in>set rs. heap_seg r) \<longrightarrow> user_heap c = user_heap p) \<and>
     regions_of ci s' = new_regions (tf_ptr c) (x_trap_sec_start x) @ filter code_seg rs \<and>
     ((\<exists>r\<in>set rs. context_seg r) \<longrightarrow> tframes s' (tf_ptr c) = t\<lparr>tf_regs := (tf_regs t)\<lparr>r_tp := x_proc_addr x ci, r_a0 := 0\<rparr>\<rparr>) \<and>
     tframes s' (tf_ptr p) = t \<and> ready_queue (xs @ [ci]) s' \<and> current s' = current s \<and>
     length (procs s') = length (procs s) \<and> (\<exists>st qn. procs s' ! pi = p\<lparr>status := st, queue_next := qn\<rparr>) \<and>
     (\<forall>a. (\<forall>t \<in> tables (kmem s) (pagetable p) \<union> PFN_TO_ADDR ` set (cached_pages (kpmm s)). \<not> a - t < PGSIZE) \<longrightarrow>
       kmem s' a = kmem s a))"
  by (rule do_fork_ok [OF assms])

theorem do_fork_refines_witness:
  "\<exists>s'. do_fork sample_externs 0 running_kernel = Inr (1, s') \<and> ready_queue [1] s' \<and> parent (procs s' ! 1) = Some 0 \<and>
     vm_ok (pagetable (procs s' ! 1)) (kvm s')"
proof -
  have "pid (procs running_kernel ! 1) = 1"
  proof -
    from running_facts obtain tf dir ks us mi v where "is_running tf dir ks us mi v" by blast
    then have "procs running_kernel ! 1 = procs empty_kernel ! 1" by (simp add: is_running_def)
    then show ?thesis by (simp add: empty_procs NPROC_def)
  qed
  then show ?thesis using do_fork_refines [OF running_fork(1-4)] by (auto simp: Let_def)
qed

section \<open>Copy on write\<close>

lemma PTE2PA_cow: "PTE2PA (cow e) = PTE2PA e"
proof -
  have "bit (drop_bit 10 (e AND NOT PTE_W OR PTE_COW)) n = bit (drop_bit 10 e) n" for n
    by (auto simp: bit_drop_bit_eq bit_or_iff bit_and_iff bit_not_iff PTE_bits dest: bit_imp_possible_bit)
  then have "drop_bit 10 (e AND NOT PTE_W OR PTE_COW) = drop_bit 10 e" by (simp add: bit_eq_iff)
  then show ?thesis by (simp add: cow_def PTE2PA_def)
qed

lemma same_page_via: "same_page a c \<Longrightarrow> same_page b c \<Longrightarrow> same_page a b"
  by (simp add: same_page_def)

lemma shared_off_code:
  assumes "code_low x rs" "\<not> off_pages (shared_vas rs) va"
  shows "off_pages (code_vas rs) va"
  unfolding off_pages_def
proof
  fix a assume a: "a \<in> set (code_vas rs)"
  from assms(2) obtain b where b: "b \<in> set (shared_vas rs)" "same_page b va" by (auto simp: off_pages_def)
  have "\<not> same_page b a" using assms(1) a b(1) by (auto simp: code_low_def off_pages_def)
  then show "\<not> same_page a va" using b(2) same_page_via [of b va a] by blast
qed

text \<open>C9: After \<^verbatim>\<open>do_fork\<close> every page of the parent's stack and heap that was mapped is mapped in parent and child
  to the same frame, with the same entry, and is writable in neither; the entry is marked for
  copy-on-write when the page was writable. Every other page of the parent is mapped as before.\<close>

theorem do_fork_copy_on_write:
  assumes "fork_pre x pi s" and "find_free 0 (procs s) = Some ci" and "get_page_ok x" and "ready_queue xs s"
  shows "\<exists>pid s'. do_fork x pi s = Inr (pid, s') \<and>
    (\<forall>va<MAXVA. let e = pte_of (kmem s) (pagetable (procs s ! pi)) va; shared = \<not> off_pages (shared_vas (regions_of pi s)) va;
       pe = pte_of (kmem s') (pagetable (procs s ! pi)) va; ce = pte_of (kmem s') (pagetable (procs s' ! ci)) va in
     (shared \<and> pte_valid e \<longrightarrow> pe = ce \<and> pte_valid pe \<and> PTE2PA pe = PTE2PA e \<and> PTE_W AND pe = 0 \<and>
        (PTE_W AND e \<noteq> 0 \<longrightarrow> pe = e AND NOT PTE_W OR PTE_COW)) \<and>
     (\<not> shared \<longrightarrow> pe = e))"
proof -
  let ?p = "procs s ! pi" and ?rs = "regions_of pi s"
  let ?f = "pte_of (kmem s) (pagetable ?p)"
  from do_fork_ok [OF assms] obtain s' us f' g' where
    d: "do_fork x pi s = Inr (ucast (pid (procs s ! ci)), s')"
      "fork_spec ?rs (?f, new_space (tf_ptr (procs s' ! ci)) us (x_trap_sec_start x)) = Some (f', g')"
      "\<forall>va<MAXVA. pte_of (kmem s') (pagetable ?p) va = f' va \<and> pte_of (kmem s') (pagetable (procs s' ! ci)) va = g' va"
    by (auto simp: Let_def)
  have low: "code_low x ?rs" using assms(1) by (simp add: fork_pre_def Let_def)
  have resp: "?f a = ?f b" if "same_page a b" for a b using same_page_entry [OF that] by simp
  have "page_shared va (?f va) (f', g')" if "\<not> off_pages (shared_vas ?rs) va" "pte_valid (?f va)" for va
    using fork_spec_shared [OF that(2) resp _ shared_off_code [OF low that(1)] d(2)] that(1) by blast
  then have sh: "f' va = cow (?f va) \<and> g' va = cow (?f va)" if "\<not> off_pages (shared_vas ?rs) va" "pte_valid (?f va)" for va
    using that by (simp add: page_shared_def)
  have off: "f' va = ?f va" if "off_pages (shared_vas ?rs) va" for va
    using fork_spec_off(1) [OF that d(2)] by simp
  have "\<forall>va<MAXVA. let e = ?f va; shared = \<not> off_pages (shared_vas ?rs) va;
       pe = pte_of (kmem s') (pagetable ?p) va; ce = pte_of (kmem s') (pagetable (procs s' ! ci)) va in
     (shared \<and> pte_valid e \<longrightarrow> pe = ce \<and> pte_valid pe \<and> PTE2PA pe = PTE2PA e \<and> PTE_W AND pe = 0 \<and>
        (PTE_W AND e \<noteq> 0 \<longrightarrow> pe = e AND NOT PTE_W OR PTE_COW)) \<and>
     (\<not> shared \<longrightarrow> pe = e)"
  proof (intro allI impI)
    fix va :: uint64 assume va: "va < MAXVA"
    show "let e = ?f va; shared = \<not> off_pages (shared_vas ?rs) va;
       pe = pte_of (kmem s') (pagetable ?p) va; ce = pte_of (kmem s') (pagetable (procs s' ! ci)) va in
     (shared \<and> pte_valid e \<longrightarrow> pe = ce \<and> pte_valid pe \<and> PTE2PA pe = PTE2PA e \<and> PTE_W AND pe = 0 \<and>
        (PTE_W AND e \<noteq> 0 \<longrightarrow> pe = e AND NOT PTE_W OR PTE_COW)) \<and>
     (\<not> shared \<longrightarrow> pe = e)"
      using d(3) va sh [of va] off [of va] PTE2PA_cow [of "?f va"] cow_readonly [of "?f va"] cow_valid [of "?f va"]
      unfolding Let_def by (auto simp: cow_def [of "?f va"])
  qed
  then show ?thesis using d(1) by blast
qed

theorem do_fork_copy_on_write_witness:
  "\<exists>pid s'. do_fork sample_externs 0 running_kernel = Inr (pid, s') \<and>
     pte_of (kmem s') (pagetable (procs running_kernel ! 0)) ustack_page = pte_of (kmem s') (pagetable (procs s' ! 1)) ustack_page \<and>
     pte_valid (pte_of (kmem s') (pagetable (procs s' ! 1)) ustack_page) \<and>
     PTE_W AND pte_of (kmem s') (pagetable (procs running_kernel ! 0)) ustack_page = 0"
proof -
  from running_fork(6) obtain us where
    "pte_of (kmem running_kernel) (pagetable (procs running_kernel ! 0)) ustack_page =
       PA2PTE us OR prot_to_type (PROT_WRITE OR PROT_READ) True OR PTE_V" by blast
  then have "pte_valid (pte_of (kmem running_kernel) (pagetable (procs running_kernel ! 0)) ustack_page)" by simp
  then show ?thesis
    using do_fork_copy_on_write [OF running_fork(1-4)] running_fork(5) ustack_facts(3) unfolding Let_def by metis
qed

end
