(* ===== verification/Pke_Syscall_Thms.thy ===== *)
theory Pke_Syscall_Thms
  imports Pke_Strap Pke_Fork_Thms
begin

text \<open>
  The theorems on the system calls of \<^verbatim>\<open>kernel/syscall.c\<close>: the heap pages, the translation of
  addresses, and what the allocator's cache does to the heap.
\<close>

section \<open>Preliminaries\<close>

lemma cur_proc_ok: "current s = Some i \<Longrightarrow> i < length (procs s) \<Longrightarrow> cur_proc s = Inr (i, procs s ! i)"
  by (simp add: cur_proc_def proc_at_def)

text \<open>Mapping a page where the leaf table exists takes no page from the allocator.\<close>

lemma page_walk_present:
  assumes wf: "pt_wf (vmem s) root" and va: "0 < va" "va < MAXVA" and t: "table_at (vmem s) root (leaf_path va) = Some t"
  shows "page_walk root va 0 al s = Inr (pte_addr t (PX 0 va), s)"
proof -
  obtain u where u: "sub_table (vmem s) root (PX 2 va) = Some u" "sub_table (vmem s) u (PX 1 va) = Some t"
    using t by (auto simp: leaf_path_def split: option.splits)
  have "walk_step 2 va al root s = Inr (Some u, s)"
    by (rule walk_step_valid [OF wf, of Dir root]) (use u in simp_all)
  moreover have "walk_step 1 va al u s = Inr (Some t, s)"
    by (rule walk_step_valid [OF wf, of "Mid (PX 2 va)" u]) (use u PX_less in simp_all)
  ultimately show ?thesis using va by (simp add: page_walk_def walk_loop_unroll)
qed

lemma user_vm_map_present:
  assumes wf: "pt_wf (vmem s) root" and va: "page_aligned va" "0 < va" "va < MAXVA"
    and t: "table_at (vmem s) root (leaf_path va) = Some t" and inv: "\<not> pte_valid (pte_of (vmem s) root va)"
  shows "user_vm_map root va PGSIZE pa perm s = Inr (s\<lparr>vmem := (vmem s)(pte_addr t (PX 0 va) := PA2PTE pa OR perm OR PTE_V)\<rparr>)"
proof -
  note r = range_one_page [OF va] and b = range_bounds [OF range_one_page(1) [OF va]]
  have l: "ROUNDDOWN (va + PGSIZE - 1) PGSIZE = va" using b(2) r(2,3) by (simp add: word_unat_eq_iff)
  have nz: "pte_addr t (PX 0 va) \<noteq> 0" by (rule pte_addr_nz [OF wf leaf_path_ok(1) t PX_less])
  have rd: "vmem s (pte_addr t (PX 0 va)) = pte_of (vmem s) root va" using t by (simp add: pte_of_def)
  have "\<not> va + PGSIZE \<le> va" using page_step [OF va(3)] by (simp add: word_le_iff_unat)
  then have "map_pages root va PGSIZE pa perm s =
      Inr (0, s\<lparr>vmem := (vmem s)(pte_addr t (PX 0 va) := PA2PTE pa OR perm OR PTE_V)\<rparr>)"
    using page_walk_present [OF wf va(2,3) t] nz rd inv unfolding map_pages_def r(3) l
    by (simp add: map_loop.simps mem_read_def mem_write_def)
  then show ?thesis by (simp add: user_vm_map_def)
qed

section \<open>Translation\<close>

lemma page_offset_or: "page_aligned p \<Longrightarrow> p + (va AND (PGSIZE - 1)) = p OR (va AND (PGSIZE - 1))"
  by (rule disjunctive_add) (auto simp: page_aligned_bit PGSIZE_mask bit_and_iff bit_mask_iff)

text \<open>The system call \<^verbatim>\<open>SYS_user_printpa\<close> returns for every address what \<^verbatim>\<open>user_va_to_pa\<close> computes
  for the current process, errors included, and changes nothing.\<close>

lemma printpa_translates:
  assumes "current s = Some i" and "i < length (procs s)"
  shows "sys_user_printpa va s = with_vm (user_va_to_pa (pagetable (procs s ! i)) va) s"
  using cur_proc_ok [OF assms] page_offset_or [OF page_aligned_PTE2PA]
  by (cases "page_walk (pagetable (procs s ! i)) va 0 False (kvm s)")
    (auto simp: sys_user_printpa_def with_vm_def user_va_to_pa_def mem_read_def)

lemma printpa_translates_witness:
  "sys_user_printpa 0x400000 running_kernel = with_vm (user_va_to_pa (pagetable (procs running_kernel ! 0)) 0x400000) running_kernel"
proof -
  from running_facts obtain tf dir ks us mi v where "is_running tf dir ks us mi v" by blast
  then have "current running_kernel = Some 0" "0 < length (procs running_kernel)" by (simp_all add: is_running_def)
  then show ?thesis by (rule printpa_translates)
qed

section \<open>The heap\<close>

text \<open>The address of the next heap page and the heap manager after it is taken.\<close>

definition heap_next :: "process_heap_manager \<Rightarrow> uint64 \<times> process_heap_manager" where
  "heap_next h =
     (if free_pages_count h > 0
      then (free_pages_address h ! unat (free_pages_count h - 1), h\<lparr>free_pages_count := free_pages_count h - 1\<rparr>)
      else (heap_top h, h\<lparr>heap_top := heap_top h + PGSIZE\<rparr>))"

text \<open>A heap manager in order: the free list is inside the array and below the top.\<close>

definition heap_ok :: "process_heap_manager \<Rightarrow> bool" where
  "heap_ok h \<longleftrightarrow> length (free_pages_address h) = MAX_HEAP_PAGES \<and> unat (free_pages_count h) \<le> MAX_HEAP_PAGES \<and>
     (\<forall>k<unat (free_pages_count h). free_pages_address h ! k < heap_top h)"

definition region_grown :: "process_heap_manager \<Rightarrow> mapped_region \<Rightarrow> mapped_region" where
  "region_grown h r = (if free_pages_count h > 0 then r else r\<lparr>mr_npages := mr_npages r + 1\<rparr>)"

lemma unat_pred32_pos: "(0 :: uint32) < c \<Longrightarrow> unat (c - 1) = unat c - 1"
  by (simp add: unat_sub_le word_le_iff_unat word_less_iff_unat)

lemma heap_take_ok:
  assumes i: "i < length (procs s)" and h: "heap_ok (user_heap (procs s ! i))"
    and mi: "mapped_info (procs s ! i) \<noteq> 0" "3 < length (minfos s (mapped_info (procs s ! i)))"
  defines "p \<equiv> procs s ! i"
  shows "heap_take i s = Inr (fst (heap_next (user_heap p)),
    s\<lparr>procs := (procs s)[i := p\<lparr>user_heap := snd (heap_next (user_heap p))\<rparr>],
      minfos := (minfos s)(mapped_info p := (minfos s (mapped_info p))[3 := region_grown (user_heap p) (minfos s (mapped_info p) ! 3)])\<rparr>)"
proof (cases "free_pages_count (user_heap p) > 0")
  case True
  then have c: "unat (free_pages_count (user_heap p) - 1) < unat (free_pages_count (user_heap p))"
    using unat_pred32_pos [OF True] by (simp add: word_less_iff_unat)
  then have "unat (free_pages_count (user_heap p) - 1) < length (free_pages_address (user_heap p))"
    "free_pages_address (user_heap p) ! unat (free_pages_count (user_heap p) - 1) < heap_top (user_heap p)"
    using h by (auto simp: heap_ok_def p_def)
  then show ?thesis using True i mi
    by (simp add: heap_take_def proc_at_def proc_upd_ok Let_def p_def heap_next_def region_grown_def)
next
  case False
  then show ?thesis using i mi
    by (simp add: heap_take_def proc_at_def proc_upd_ok region_at_def region_set_ok Let_def p_def heap_next_def region_grown_def unat_segments)
qed

lemma built_alloc:
  "vm_ok root s \<Longrightarrow> cached_pages (vpmm s) = ps @ [f] \<Longrightarrow>
   \<exists>pm. vm_alloc_page s = Inr (PFN_TO_ADDR f, s\<lparr>vpmm := pm\<rparr>) \<and> vm_ok root (s\<lparr>vpmm := pm\<rparr>) \<and> cached_pages pm = ps \<and>
     drawn (vpmm s) [f] pm"
  using vm_alloc_page_cached [of s ps f] by (auto simp: vm_ok_def)

text \<open>A process with a heap: an address space, a region table and a heap manager in order.\<close>

definition heap_process :: "nat \<Rightarrow> kernel \<Rightarrow> bool" where
  "heap_process i s \<longleftrightarrow> current s = Some i \<and> i < length (procs s) \<and> vm_ok (pagetable (procs s ! i)) (kvm s) \<and>
     heap_ok (user_heap (procs s ! i)) \<and> mapped_info (procs s ! i) \<noteq> 0 \<and> 3 < length (minfos s (mapped_info (procs s ! i)))"

lemma allocate_page_ok:
  assumes hp: "heap_process i s"
  defines "p \<equiv> procs s ! i"
  defines "va \<equiv> fst (heap_next (user_heap p))"
  assumes va: "page_aligned va" "0 < va" "va < MAXVA" and un: "\<not> pte_valid (pte_of (kmem s) (pagetable p) va)"
    and c: "cached_pages (kpmm s) = ps @ [f]" and sup: "missing_tables (kmem s) (pagetable p) va \<le> length ps"
  shows "\<exists>v pm. sys_user_allocate_page s = Inr (va, s\<lparr>kvm := v, procs := (procs s)[i := p\<lparr>user_heap := snd (heap_next (user_heap p))\<rparr>],
      minfos := (minfos s)(mapped_info p := (minfos s (mapped_info p))[3 := region_grown (user_heap p) (minfos s (mapped_info p) ! 3)])\<rparr>) \<and>
    drawn (kpmm s) [f] pm \<and>
    updated (pagetable p) (\<lambda>va'. if same_page va va' then PA2PTE (PFN_TO_ADDR f) OR prot_to_type (PROT_WRITE OR PROT_READ) True OR PTE_V
       else pte_of (kmem s) (pagetable p) va') ((kvm s)\<lparr>vpmm := pm\<rparr>) v \<and>
    page_supply v = length ps - missing_tables (kmem s) (pagetable p) va"
proof -
  let ?rwu = "prot_to_type (PROT_WRITE OR PROT_READ) True"
  have h: "current s = Some i" "i < length (procs s)" "vm_ok (pagetable p) (kvm s)" "heap_ok (user_heap p)"
    "mapped_info p \<noteq> 0" "3 < length (minfos s (mapped_info p))" using hp by (simp_all add: heap_process_def p_def)
  from built_alloc [OF h(3) c] obtain pm where
    pm: "vm_alloc_page (kvm s) = Inr (PFN_TO_ADDR f, (kvm s)\<lparr>vpmm := pm\<rparr>)" "vm_ok (pagetable p) ((kvm s)\<lparr>vpmm := pm\<rparr>)"
      "cached_pages pm = ps" "drawn (kpmm s) [f] pm" by blast
  from user_vm_map_page [OF pm(2) va, of "PFN_TO_ADDR f" ?rwu] un sup pm(3) obtain v where
    v: "user_vm_map (pagetable p) va PGSIZE (PFN_TO_ADDR f) ?rwu ((kvm s)\<lparr>vpmm := pm\<rparr>) = Inr v"
      "\<And>va'. va' < MAXVA \<Longrightarrow> pte_of (vmem v) (pagetable p) va' = (if same_page va va' then PA2PTE (PFN_TO_ADDR f) OR ?rwu OR PTE_V
         else pte_of (kmem s) (pagetable p) va')"
      "page_supply v = length ps - missing_tables (kmem s) (pagetable p) va"
      "updated (pagetable p) (pte_of (vmem v) (pagetable p)) ((kvm s)\<lparr>vpmm := pm\<rparr>) v" by auto
  let ?s1 = "s\<lparr>kvm := (kvm s)\<lparr>vpmm := pm\<rparr>\<rparr>"
  have "heap_take i ?s1 = Inr (va, ?s1\<lparr>procs := (procs s)[i := p\<lparr>user_heap := snd (heap_next (user_heap p))\<rparr>],
      minfos := (minfos s)(mapped_info p := (minfos s (mapped_info p))[3 := region_grown (user_heap p) (minfos s (mapped_info p) ! 3)])\<rparr>)"
    using heap_take_ok [of i ?s1] h by (simp add: p_def va_def)
  then have "sys_user_allocate_page s = Inr (va, s\<lparr>kvm := v, procs := (procs s)[i := p\<lparr>user_heap := snd (heap_next (user_heap p))\<rparr>],
      minfos := (minfos s)(mapped_info p := (minfos s (mapped_info p))[3 := region_grown (user_heap p) (minfos s (mapped_info p) ! 3)])\<rparr>)"
    using pm(1) h(1,2) v(1) by (simp add: sys_user_allocate_page_def k_alloc_page_def with_vm_def cur_proc_def proc_at_def on_vm_def p_def)
  moreover have "updated (pagetable p) (\<lambda>va'. if same_page va va' then PA2PTE (PFN_TO_ADDR f) OR ?rwu OR PTE_V
       else pte_of (kmem s) (pagetable p) va') ((kvm s)\<lparr>vpmm := pm\<rparr>) v"
    using v(4) by (rule updated_cong) (use v(2) in blast)
  ultimately show ?thesis using pm(4) v(3) by blast
qed

text \<open>C24: \<^verbatim>\<open>sys_user_allocate_page\<close> returns the last reclaimed heap page, or the top of the heap when there is
  none, and maps it writable for the user to the page taken from the top of the cache. Every other
  address of the process is mapped as before; the heap manager is advanced, the heap region grows by a
  page only when the top moved, and no other process or region table changes.\<close>

theorem allocate_page_correct:
  assumes "heap_process i s" and "fst (heap_next (user_heap (procs s ! i))) = va"
    and "page_aligned va" and "0 < va" and "va < MAXVA" and "\<not> pte_valid (pte_of (kmem s) (pagetable (procs s ! i)) va)"
    and "cached_pages (kpmm s) = ps @ [f]" and "missing_tables (kmem s) (pagetable (procs s ! i)) va \<le> length ps"
  shows "\<exists>s'. sys_user_allocate_page s = Inr (va, s') \<and>
    (let p = procs s ! i; mi = mapped_info p in
     vm_ok (pagetable p) (kvm s') \<and>
     (\<forall>va'<MAXVA. pte_of (kmem s') (pagetable p) va' =
        (if same_page va va' then PA2PTE (PFN_TO_ADDR f) OR prot_to_type (PROT_WRITE OR PROT_READ) True OR PTE_V
         else pte_of (kmem s) (pagetable p) va')) \<and>
     procs s' = (procs s)[i := p\<lparr>user_heap := snd (heap_next (user_heap p))\<rparr>] \<and>
     minfos s' = (minfos s)(mi := (minfos s mi)[3 := region_grown (user_heap p) (minfos s mi ! 3)]) \<and>
     page_supply (kvm s') = length ps - missing_tables (kmem s) (pagetable p) va)"
proof -
  from allocate_page_ok [OF assms(1)] assms(2-8) obtain v pm where
    "sys_user_allocate_page s = Inr (va, s\<lparr>kvm := v, procs := (procs s)[i := (procs s ! i)\<lparr>user_heap := snd (heap_next (user_heap (procs s ! i)))\<rparr>],
      minfos := (minfos s)(mapped_info (procs s ! i) := (minfos s (mapped_info (procs s ! i)))
        [3 := region_grown (user_heap (procs s ! i)) (minfos s (mapped_info (procs s ! i)) ! 3)])\<rparr>)"
    "updated (pagetable (procs s ! i)) (\<lambda>va'. if same_page va va' then PA2PTE (PFN_TO_ADDR f) OR prot_to_type (PROT_WRITE OR PROT_READ) True OR PTE_V
       else pte_of (kmem s) (pagetable (procs s ! i)) va') ((kvm s)\<lparr>vpmm := pm\<rparr>) v"
    "page_supply v = length ps - missing_tables (kmem s) (pagetable (procs s ! i)) va" by fastforce
  then show ?thesis by (auto simp: Let_def updated_def)
qed

lemma running_heap:
  "heap_process 0 running_kernel" "fst (heap_next (user_heap (procs running_kernel ! 0))) = 0x400000"
  "pte_of (kmem running_kernel) (pagetable (procs running_kernel ! 0)) 0x400000 = 0"
  "free_pages_count (user_heap (procs running_kernel ! 0)) = 0" "21 \<le> page_supply (kvm running_kernel)"
  "page_aligned 0x400000" "0 < (0x400000 :: uint64)" "(0x400000 :: uint64) < MAXVA"
proof -
  from running_facts obtain tf dir ks us mi v where r: "is_running tf dir ks us mi v" by blast
  note sp = running_space [OF r]
  have k: "kvm running_kernel = v" "length (procs running_kernel) = 32" "current running_kernel = Some 0" "21 \<le> page_supply v"
    "procs running_kernel ! 0 = (new_process tf dir ks mi zero_process)\<lparr>status := RUNNING\<rparr>"
    "minfos running_kernel mi = new_regions tf 0x80002000 @ replicate 252 zero_region"
    using r by (simp_all add: is_running_def)
  show al: "page_aligned 0x400000" "0 < (0x400000 :: uint64)" "(0x400000 :: uint64) < MAXVA"
    by (simp_all add: page_aligned_unat unat_less_maxva)
  show "heap_process 0 running_kernel"
    using k sp(1,5) by (simp add: heap_process_def new_process_def heap_ok_def zero_process_def zero_heap_def MAX_HEAP_PAGES_def new_regions_length)
  show "fst (heap_next (user_heap (procs running_kernel ! 0))) = 0x400000"
    "free_pages_count (user_heap (procs running_kernel ! 0)) = 0"
    using k(5) by (simp_all add: new_process_def heap_next_def USER_FREE_ADDRESS_START_def PGSIZE_def)
  show "pte_of (kmem running_kernel) (pagetable (procs running_kernel ! 0)) 0x400000 = 0"
    using sp(9) [OF al(3,1)] k(1,5) by (simp add: new_process_def)
  show "21 \<le> page_supply (kvm running_kernel)" using k(1,4) by simp
qed

theorem allocate_page_correct_witness:
  "\<exists>s' f. sys_user_allocate_page running_kernel = Inr (0x400000, s') \<and>
     pte_of (kmem s') (pagetable (procs running_kernel ! 0)) 0x400000 =
       PA2PTE (PFN_TO_ADDR f) OR prot_to_type (PROT_WRITE OR PROT_READ) True OR PTE_V"
proof -
  note r = running_heap
  obtain ps f where c: "cached_pages (kpmm running_kernel) = ps @ [f]"
    using r(5) by (cases "cached_pages (kpmm running_kernel)" rule: rev_cases) auto
  have "missing_tables (kmem running_kernel) (pagetable (procs running_kernel ! 0)) 0x400000 \<le> length ps"
    using missing_le_2 [of "kmem running_kernel" "pagetable (procs running_kernel ! 0)" "0x400000"] r(5) c by simp
  from allocate_page_correct [OF r(1,2,6,7,8) _ c this] r(3,8) show ?thesis by (auto simp: Let_def same_page_def)
qed

section \<open>Freeing a heap page\<close>

lemma user_vm_unmap_one:
  assumes wf: "pt_wf (vmem s) root" and va: "page_aligned va" "0 < va" "va < MAXVA"
    and t: "table_at (vmem s) root (leaf_path va) = Some t" and v: "pte_valid (pte_of (vmem s) root va)"
    and free: "pfree (PTE2PA (pte_of (vmem s) root va)) (vpmm s) = Inr pm"
  shows "user_vm_unmap root va PGSIZE True s = Inr (s\<lparr>vpmm := pm, vmem := (vmem s)(pte_addr t (PX 0 va) := 0)\<rparr>)"
proof -
  have r: "ROUNDDOWN va PGSIZE = va" by (rule range_one_page(3) [OF va])
  have nz: "pte_addr t (PX 0 va) \<noteq> 0" by (rule pte_addr_nz [OF wf leaf_path_ok(1) t PX_less])
  have rd: "vmem s (pte_addr t (PX 0 va)) = pte_of (vmem s) root va" using t by (simp add: pte_of_def)
  have "unmap_one root va True s = Inr (s\<lparr>vpmm := pm, vmem := (vmem s)(pte_addr t (PX 0 va) := 0)\<rparr>)"
    using page_walk_present [OF wf va(2,3) t] nz rd v free
    by (simp add: unmap_one_def mem_read_def mem_write_def vm_pfree_def)
  moreover have "va < va + PGSIZE" using page_step [OF va(3)] by (simp add: word_less_iff_unat)
  ultimately show ?thesis unfolding user_vm_unmap_def r by (simp add: unmap_loop.simps)
qed

definition heap_push :: "uint64 \<Rightarrow> process_heap_manager \<Rightarrow> process_heap_manager" where
  "heap_push va h = h\<lparr>free_pages_address := (free_pages_address h)[unat (free_pages_count h) := va],
     free_pages_count := free_pages_count h + 1\<rparr>"

lemma free_page_ok:
  assumes cur: "current s = Some i" "i < length (procs s)"
    and unmap: "user_vm_unmap (pagetable (procs s ! i)) va PGSIZE True (kvm s) = Inr v"
    and room: "unat (free_pages_count (user_heap (procs s ! i))) < length (free_pages_address (user_heap (procs s ! i)))"
  shows "sys_user_free_page va s = Inr (0, s\<lparr>kvm := v,
    procs := (procs s)[i := (procs s ! i)\<lparr>user_heap := heap_push va (user_heap (procs s ! i))\<rparr>]\<rparr>)"
  using assms by (simp add: sys_user_free_page_def cur_proc_ok on_vm_def proc_upd_ok Let_def heap_push_def)

lemma heap_push_next:
  assumes "heap_ok h" "unat (free_pages_count h) < MAX_HEAP_PAGES"
  shows "fst (heap_next (heap_push va h)) = va" "va < heap_top h \<Longrightarrow> heap_ok (heap_push va h)"
    "free_pages_count (snd (heap_next (heap_push va h))) = free_pages_count h" "free_pages_count (heap_push va h) > 0"
proof -
  have c: "unat (free_pages_count h + 1) = Suc (unat (free_pages_count h))"
    using assms(2) unat_succ32 [of "free_pages_count h"] by (simp add: MAX_HEAP_PAGES_def)
  then have "0 < free_pages_count h + 1" by (simp add: word_less_iff_unat)
  then show "fst (heap_next (heap_push va h)) = va" "free_pages_count (snd (heap_next (heap_push va h))) = free_pages_count h"
    "free_pages_count (heap_push va h) > 0"
    using assms by (simp_all add: heap_next_def heap_push_def heap_ok_def)
  show "va < heap_top h \<Longrightarrow> heap_ok (heap_push va h)"
    using assms c by (auto simp: heap_ok_def heap_push_def nth_list_update less_Suc_eq)
qed

text \<open>A heap page that is freed is the next one allocated: whatever the state, when the free and the
  allocation after it succeed, the allocation returns the address just freed.\<close>

lemma free_then_allocate:
  assumes "heap_process i s" and "unat (free_pages_count (user_heap (procs s ! i))) < MAX_HEAP_PAGES"
    and "sys_user_free_page va s = Inr (r, s1)" and "sys_user_allocate_page s1 = Inr (va', s2)"
  shows "va' = va"
proof -
  have h: "current s = Some i" "i < length (procs s)" "heap_ok (user_heap (procs s ! i))"
    using assms(1) by (simp_all add: heap_process_def)
  let ?p = "procs s ! i"
  from assms(3) obtain v where v: "user_vm_unmap (pagetable ?p) va PGSIZE True (kvm s) = Inr v"
    by (auto simp: sys_user_free_page_def cur_proc_ok [OF h(1,2)] on_vm_def bindE_Inr_iff)
  have "unat (free_pages_count (user_heap ?p)) < length (free_pages_address (user_heap ?p))"
    using assms(2) h(3) by (simp add: heap_ok_def)
  from free_page_ok [OF h(1,2) v this] assms(3) have
    s1: "s1 = s\<lparr>kvm := v, procs := (procs s)[i := ?p\<lparr>user_heap := heap_push va (user_heap ?p)\<rparr>]\<rparr>" by simp
  from assms(4) obtain pa t where t: "k_alloc_page s1 = Inr (pa, t)" "\<exists>u. heap_take i t = Inr (va', u)" "procs t = procs s1"
    using h(1,2) s1 by (auto simp: sys_user_allocate_page_def bindE_Inr_iff cur_proc_def proc_at_def k_alloc_page_def with_vm_def)
  have "free_pages_count (heap_push va (user_heap ?p)) > 0" "fst (heap_next (heap_push va (user_heap ?p))) = va"
    using heap_push_next [OF h(3) assms(2)] by simp_all
  then show ?thesis using t(2,3) s1 h(2)
    by (auto simp: heap_take_def proc_at_def proc_upd_def bindE_Inr_iff heap_next_def Let_def split: if_splits)
qed

section \<open>The heap and the page cache\<close>

text \<open>The slot above the top of the cache still holds the page drawn last.\<close>

lemma drawn_stale:
  assumes ok: "pmm_ok p" "pmm_ok p'" and d: "drawn p (q # qs) p'"
  shows "objs (pcpu_caches p' ! 0) ! length (cached_pages p') = Some q" "pages p' = pages p" "nr_pages p' = nr_pages p"
    "Suc (length (cached_pages p') + length qs) = length (cached_pages p)"
proof -
  have c: "cached_pages p = cached_pages p' @ q # qs" using d by (simp add: drawn_def)
  have wf: "cache_wf (pcpu_caches p ! 0)" and len: "length (pcpu_caches p) = 1" using ok(1) by (auto simp: pmm_ok_def NCPU_def)
  obtain n where p': "p' = cache_set 0 ((pcpu_caches p ! 0)\<lparr>pc_count := n\<rparr>) p" using d by (auto simp: drawn_def)
  have "objs (pcpu_caches p' ! 0) = objs (pcpu_caches p ! 0)" using len unfolding p' by simp
  moreover have "objs (pcpu_caches p ! 0) ! length (cached_pages p') = Some q"
    using cached_nth [OF wf, of "length (cached_pages p')"] c by (simp add: nth_append)
  ultimately show "objs (pcpu_caches p' ! 0) ! length (cached_pages p') = Some q" by simp
  show "pages p' = pages p" "nr_pages p' = nr_pages p" unfolding p' by (simp_all add: cache_set_def)
  show "Suc (length (cached_pages p') + length qs) = length (cached_pages p)" using c by simp
qed

text \<open>A cached page is a frame of order 0 below the end of memory.\<close>

lemma cached_freeable:
  assumes "pmm_ok p" "ram_ok p" "f \<in> set (cached_pages p)"
  shows "ADDR_TO_PFN (PFN_TO_ADDR f) = f" "f < nr_pages p" "pg_order (pages p f) = 0"
proof -
  have al: "allocated f 0 p" using assms by (simp add: pmm_ok_def)
  then show "f < nr_pages p" "pg_order (pages p f) = 0"
    using block_ok_less by (auto simp: allocated_def word_less_iff_unat unat_eq_zero)
  show "ADDR_TO_PFN (PFN_TO_ADDR f) = f" using cached_page_bounds(2) [OF assms] by (intro ADDR_TO_PFN_TO_ADDR) simp
qed

lemma cache_size:
  assumes "pmm_ok p"
  shows "length (cached_pages p) \<le> PCPU_CACHE_SIZE"
proof -
  have wf: "cache_wf (pcpu_caches p ! 0)" using assms by (simp add: pmm_ok_def)
  then show ?thesis unfolding cache_wf_count [OF wf, symmetric] by (simp add: cache_wf_def)
qed

lemma rwu_flags: "prot_to_type (PROT_WRITE OR PROT_READ) True OR PTE_V = 0xd7"
  by code_simp

lemma rwu_frame: "page_aligned pa \<Longrightarrow> PTE2PA (PA2PTE pa OR prot_to_type (PROT_WRITE OR PROT_READ) True OR PTE_V) = pa"
  using PTE2PA_PA2PTE [of pa "0xd7"] rwu_flags by (simp add: or.assoc)

text \<open>The current process \<open>i\<close> has the page \<open>f\<close> mapped at \<open>va\<close>, through the leaf table \<open>t\<close>, and the slot above the
  top of the cache holds the page table \<open>q\<close>.\<close>

definition exposed :: "nat \<Rightarrow> uint64 \<Rightarrow> uint64 \<Rightarrow> uint64 \<Rightarrow> uint64 \<Rightarrow> kernel \<Rightarrow> bool" where
  "exposed i va f q t s \<longleftrightarrow> heap_process i s \<and> free_pages_count (user_heap (procs s ! i)) = 0 \<and> va < heap_top (user_heap (procs s ! i)) \<and>
     page_aligned va \<and> 0 < va \<and> va < MAXVA \<and> table_at (kmem s) (pagetable (procs s ! i)) (leaf_path va) = Some t \<and>
     pte_valid (pte_of (kmem s) (pagetable (procs s ! i)) va) \<and> PTE2PA (pte_of (kmem s) (pagetable (procs s ! i)) va) = PFN_TO_ADDR f \<and>
     ADDR_TO_PFN (PFN_TO_ADDR f) = f \<and> f < nr_pages (kpmm s) \<and> pg_order (pages (kpmm s) f) = 0 \<and>
     PFN_TO_ADDR q \<in> tables (kmem s) (pagetable (procs s ! i)) \<and>
     objs (pcpu_caches (kpmm s) ! 0) ! length (cached_pages (kpmm s)) = Some q \<and>
     Suc (length (cached_pages (kpmm s))) < PCPU_CACHE_SIZE"

lemma allocate_exposes:
  assumes hp: "heap_process i s" and ram: "ram_ok (kpmm s)" and h0: "free_pages_count (user_heap (procs s ! i)) = 0"
    "heap_top (user_heap (procs s ! i)) = va" and va: "page_aligned va" "0 < va" "va < MAXVA"
    and un: "\<not> pte_valid (pte_of (kmem s) (pagetable (procs s ! i)) va)"
    and mt: "0 < missing_tables (kmem s) (pagetable (procs s ! i)) va"
      "missing_tables (kmem s) (pagetable (procs s ! i)) va < page_supply (kvm s)"
  shows "\<exists>s1 f q t. sys_user_allocate_page s = Inr (va, s1) \<and> exposed i va f q t s1 \<and> pagetable (procs s1 ! i) = pagetable (procs s ! i)"
proof -
  let ?p = "procs s ! i" and ?rwu = "prot_to_type (PROT_WRITE OR PROT_READ) True"
  let ?dir = "pagetable ?p" and ?h = "user_heap ?p" and ?mi = "mapped_info ?p"
  have h: "current s = Some i" "i < length (procs s)" "vm_ok ?dir (kvm s)" "heap_ok ?h" "?mi \<noteq> 0" "3 < length (minfos s ?mi)"
    using hp by (simp_all add: heap_process_def)
  have pok: "pmm_ok (kpmm s)" using h(3) by (simp add: vm_ok_def)
  obtain ps f where c: "cached_pages (kpmm s) = ps @ [f]" using mt(2) by (cases "cached_pages (kpmm s)" rule: rev_cases) auto
  have hn: "heap_next ?h = (va, ?h\<lparr>heap_top := va + PGSIZE\<rparr>)" using h0 by (simp add: heap_next_def)
  let ?h1 = "?h\<lparr>heap_top := va + PGSIZE\<rparr>"
  from allocate_page_ok [OF hp] hn va un mt(2) c obtain v pm where
    a: "sys_user_allocate_page s = Inr (va, s\<lparr>kvm := v, procs := (procs s)[i := ?p\<lparr>user_heap := ?h1\<rparr>],
        minfos := (minfos s)(?mi := (minfos s ?mi)[3 := region_grown ?h (minfos s ?mi ! 3)])\<rparr>)" (is "_ = Inr (va, ?s1)")
      "drawn (kpmm s) [f] pm"
      "updated ?dir (\<lambda>va'. if same_page va va' then PA2PTE (PFN_TO_ADDR f) OR ?rwu OR PTE_V else pte_of (kmem s) ?dir va')
        ((kvm s)\<lparr>vpmm := pm\<rparr>) v" "page_supply v = length ps - missing_tables (kmem s) ?dir va" by auto
  have okv: "vm_ok ?dir v" "pmm_ok (vpmm v)" using a(3) by (simp_all add: updated_def vm_ok_def)
  from a(3) obtain rs where rs: "drawn pm rs (vpmm v)" "tables (vmem v) ?dir = tables (kmem s) ?dir \<union> PFN_TO_ADDR ` set rs"
    by (auto simp: updated_def)
  have "cached_pages pm = ps" using a(2) c by (simp add: drawn_def)
  then have "rs \<noteq> []" using rs(1) a(4) mt c by (auto simp: drawn_def)
  then obtain q qs where q: "rs = q # qs" by (cases rs) auto
  have dr: "drawn (kpmm s) (q # qs @ [f]) (vpmm v)" using drawn_trans [OF a(2) rs(1)] q by simp
  note st = drawn_stale [OF pok okv(2) dr] and fr = cached_freeable [OF pok ram, of f]
  have e: "pte_of (vmem v) ?dir va = PA2PTE (PFN_TO_ADDR f) OR ?rwu OR PTE_V"
    using a(3) va(3) by (simp add: updated_def same_page_refl)
  moreover have "PTE2PA (PA2PTE (PFN_TO_ADDR f) OR ?rwu OR PTE_V) = PFN_TO_ADDR f"
    using rwu_frame cached_page_bounds(3) [OF pok ram] c by simp
  moreover obtain t where "table_at (vmem v) ?dir (leaf_path va) = Some t"
    using e pte_or_valid(2) [of "PA2PTE (PFN_TO_ADDR f)" ?rwu] by (cases "table_at (vmem v) ?dir (leaf_path va)") (auto simp: pte_of_def)
  moreover have "Suc (length (cached_pages (vpmm v))) < PCPU_CACHE_SIZE" using st(4) cache_size [OF pok] by simp
  moreover have "va < va + PGSIZE" using page_step [OF va(3)] by (simp add: word_less_iff_unat)
  moreover have "heap_ok ?h1" using h(4) h0 by (simp add: heap_ok_def)
  ultimately have "exposed i va f q t ?s1"
    using h okv(1) h0(1) va fr c st rs(2) q by (simp add: exposed_def heap_process_def)
  then show ?thesis using a(1) h(2) by (intro exI [of _ ?s1] exI [of _ f] exI [of _ q] exI [of _ t]) simp
qed

lemma exposed_reuse:
  assumes ex: "exposed i va f q t s"
  shows "\<exists>s2 s3. sys_user_free_page va s = Inr (0, s2) \<and> sys_user_allocate_page s2 = Inr (va, s3) \<and>
    PFN_TO_ADDR q \<in> tables (kmem s3) (pagetable (procs s ! i)) \<and>
    pte_of (kmem s3) (pagetable (procs s ! i)) va = PA2PTE (PFN_TO_ADDR q) OR prot_to_type (PROT_WRITE OR PROT_READ) True OR PTE_V"
proof -
  let ?p = "procs s ! i" and ?rwu = "prot_to_type (PROT_WRITE OR PROT_READ) True" and ?v = "kvm s"
  let ?dir = "pagetable ?p" and ?h = "user_heap ?p"
  have h: "current s = Some i" "i < length (procs s)" "vm_ok ?dir ?v" "heap_ok ?h" "mapped_info ?p \<noteq> 0" "3 < length (minfos s (mapped_info ?p))"
    and va: "page_aligned va" "0 < va" "va < MAXVA" and t: "table_at (vmem ?v) ?dir (leaf_path va) = Some t"
    and fc: "free_pages_count ?h = 0" "va < heap_top ?h" and q: "PFN_TO_ADDR q \<in> tables (vmem ?v) ?dir"
    and pe: "pte_valid (pte_of (vmem ?v) ?dir va)" "PTE2PA (pte_of (vmem ?v) ?dir va) = PFN_TO_ADDR f"
    using ex by (simp_all add: exposed_def heap_process_def)
  have wf: "pt_wf (vmem ?v) ?dir" and pok: "pmm_ok (vpmm ?v)" using h(3) by (simp_all add: vm_ok_def)
  have "\<exists>s2 s3. pfree (PFN_TO_ADDR f) (vpmm ?v) = Inr s2 \<and> alloc_page s2 = Inr (PFN_TO_ADDR q, s3)"
    by (rule pfree_then_alloc [OF pok]) (use ex in \<open>simp_all add: exposed_def\<close>)
  then obtain p2 p3 where p: "pfree (PFN_TO_ADDR f) (vpmm ?v) = Inr p2" "alloc_page p2 = Inr (PFN_TO_ADDR q, p3)" by blast
  let ?cell = "pte_addr t (PX 0 va)"
  let ?m2 = "(vmem ?v)(?cell := 0)" let ?v2 = "?v\<lparr>vpmm := p2, vmem := ?m2\<rparr>"
  have un: "user_vm_unmap ?dir va PGSIZE True ?v = Inr ?v2"
    by (rule user_vm_unmap_one [OF wf va t pe(1)]) (use pe(2) p(1) in simp)
  have hl: "unat (free_pages_count ?h) < length (free_pages_address ?h)" "unat (free_pages_count ?h) < MAX_HEAP_PAGES"
    using h(4) fc(1) by (simp_all add: heap_ok_def MAX_HEAP_PAGES_def)
  let ?s2 = "s\<lparr>kvm := ?v2, procs := (procs s)[i := ?p\<lparr>user_heap := heap_push va ?h\<rparr>]\<rparr>"
  have f2: "sys_user_free_page va s = Inr (0, ?s2)" by (rule free_page_ok [OF h(1,2) un hl(1)])
  note hp = heap_push_next(1) [OF h(4) hl(2), of va] heap_push_next(2) [OF h(4) hl(2) fc(2)]
  let ?v3 = "?v\<lparr>vpmm := p3, vmem := ?m2\<rparr>"
  have tb: "table_at ?m2 ?dir q' = table_at (vmem ?v) ?dir q'" if "path_ok q'" for q' by (rule leaf_write(2) [OF h(3) t that])
  have wf3: "pt_wf (vmem ?v3) ?dir" using leaf_store_wf [OF wf leaf_path_ok t PX_less] by simp
  have t3: "table_at (vmem ?v3) ?dir (leaf_path va) = Some t" using tb [OF leaf_path_ok(1)] t by simp
  have un3: "\<not> pte_valid (pte_of (vmem ?v3) ?dir va)"
    using leaf_store_pte_of [OF wf t] by (simp add: same_page_refl)
  let ?v4 = "?v3\<lparr>vmem := (vmem ?v3)(?cell := PA2PTE (PFN_TO_ADDR q) OR ?rwu OR PTE_V)\<rparr>"
  have mp: "user_vm_map ?dir va PGSIZE (PFN_TO_ADDR q) ?rwu ?v3 = Inr ?v4"
    by (rule user_vm_map_present [OF wf3 va t3 un3])
  have "\<exists>u. heap_take i (?s2\<lparr>kvm := ?v3\<rparr>) = Inr (va, u) \<and> kvm u = ?v3"
    using heap_take_ok [of i "?s2\<lparr>kvm := ?v3\<rparr>"] h hp by simp
  then obtain u where "heap_take i (?s2\<lparr>kvm := ?v3\<rparr>) = Inr (va, u)" "kvm u = ?v3" by blast
  then have "sys_user_allocate_page ?s2 = Inr (va, u\<lparr>kvm := ?v4\<rparr>)"
    using p(2) mp h(1,2)
    by (simp add: sys_user_allocate_page_def k_alloc_page_def with_vm_def vm_alloc_page_def cur_proc_def proc_at_def on_vm_def
        vmm_update_swap)
  moreover have "pte_of (vmem ?v4) ?dir va = PA2PTE (PFN_TO_ADDR q) OR ?rwu OR PTE_V"
    using leaf_store_pte_of [OF wf3 t3] by (simp add: same_page_refl)
  moreover have "tables (vmem ?v4) ?dir = tables (vmem ?v) ?dir"
    by (rule tables_cong) (simp add: leaf_write(2) [OF h(3) t])
  ultimately show ?thesis using f2 q by (intro exI [of _ ?s2] exI [of _ "u\<lparr>kvm := ?v4\<rparr>"]) simp
qed

text \<open>C29: A process that allocates its first heap page, frees it and allocates again gets back the same
  address, but mapped to one of its own page tables, writable in user mode: \<^verbatim>\<open>pfree\<close> pushed the freed
  page one slot too high and the next \<^verbatim>\<open>alloc_page\<close> hands out the page that the first allocation had turned
  into a page table.\<close>

theorem heap_reuse_exposes_page_table:
  assumes "heap_process i s" and "ram_ok (kpmm s)" and "free_pages_count (user_heap (procs s ! i)) = 0"
    and "heap_top (user_heap (procs s ! i)) = va" and "page_aligned va" and "0 < va" and "va < MAXVA"
    and "\<not> pte_valid (pte_of (kmem s) (pagetable (procs s ! i)) va)"
    and "0 < missing_tables (kmem s) (pagetable (procs s ! i)) va"
    and "missing_tables (kmem s) (pagetable (procs s ! i)) va < page_supply (kvm s)"
  shows "\<exists>s1 s2 s3 t. sys_user_allocate_page s = Inr (va, s1) \<and> sys_user_free_page va s1 = Inr (0, s2) \<and>
    sys_user_allocate_page s2 = Inr (va, s3) \<and> t \<in> tables (kmem s3) (pagetable (procs s ! i)) \<and>
    pte_of (kmem s3) (pagetable (procs s ! i)) va = PA2PTE t OR prot_to_type (PROT_WRITE OR PROT_READ) True OR PTE_V"
  using allocate_exposes [OF assms] exposed_reuse by metis

text \<open>A process whose page directory is empty.\<close>

lemma bare_process:
  "\<exists>s. heap_process 0 s \<and> ram_ok (kpmm s) \<and> free_pages_count (user_heap (procs s ! 0)) = 0 \<and> heap_top (user_heap (procs s ! 0)) = 0x400000 \<and>
     pte_of (kmem s) (pagetable (procs s ! 0)) 0x400000 = 0 \<and> missing_tables (kmem s) (pagetable (procs s ! 0)) 0x400000 = 2 \<and>
     page_supply (kvm s) = 31"
proof -
  have ok: "pmm_ok (vpmm boot_vm)" "ram_ok (vpmm boot_vm)" "page_supply boot_vm = 32" using empty_facts by simp_all
  obtain ps f where c: "cached_pages (vpmm boot_vm) = ps @ [f]" using ok(3) by (cases "cached_pages (vpmm boot_vm)" rule: rev_cases) auto
  from vm_alloc_page_cached [OF ok(1) c] obtain pm where
    pm: "pmm_ok pm" "cached_pages pm = ps" "drawn (vpmm boot_vm) [f] pm" "page_aligned (PFN_TO_ADDR f)" "PFN_TO_ADDR f \<noteq> 0"
      "PFN_TO_ADDR f \<notin> PFN_TO_ADDR ` set ps" by blast
  let ?d = "PFN_TO_ADDR f" let ?v = "boot_vm\<lparr>vpmm := pm, vmem := zero_frame ?d (vmem boot_vm)\<rparr>"
  let ?p = "zero_process\<lparr>pagetable := ?d, mapped_info := 0x87000000, user_heap := zero_heap\<lparr>heap_top := 0x400000\<rparr>\<rparr>"
  let ?s = "empty_kernel\<lparr>kvm := ?v, procs := [?p], current := Some 0, minfos := (\<lambda>_. replicate REGIONS_PER_PAGE zero_region)\<rparr>"
  have vm: "vm_ok ?d ?v" "pte_of (vmem ?v) ?d 0x400000 = 0" using zero_frame_directory [OF pm(4,5,1)] pm(2,6) by simp_all
  have "table_at (vmem ?v) ?d (Mid (PX 2 0x400000)) = None" "table_at (vmem ?v) ?d (leaf_path 0x400000) = None"
    using empty_tables [OF zero_frame_entry, of "Mid (PX 2 0x400000)" ?d "vmem boot_vm"] PX_less [of 2 "0x400000"]
      empty_tables [OF zero_frame_entry leaf_path_ok(1), of ?d "vmem boot_vm" "0x400000"]
    by (simp_all add: leaf_path_def del: table_at.simps)
  then have "missing_tables (vmem ?v) ?d 0x400000 = 2"
    by (simp add: missing_tables_def missing_def del: table_at.simps)
  moreover have "heap_process 0 ?s"
    using vm(1) by (simp add: heap_process_def heap_ok_def zero_heap_def MAX_HEAP_PAGES_def REGIONS_PER_PAGE_def)
  moreover have "ram_ok pm" using drawn_ram_ok [OF pm(3)] ok(2) by simp
  moreover have "length ps = 31" using ok(3) c by simp
  ultimately show ?thesis using vm(2) pm(2) by (intro exI [of _ ?s]) (simp add: zero_heap_def)
qed

theorem heap_reuse_exposes_page_table_witness:
  "\<exists>s s1 s2 s3 t. heap_process 0 s \<and> sys_user_allocate_page s = Inr (0x400000, s1) \<and> sys_user_free_page 0x400000 s1 = Inr (0, s2) \<and>
     sys_user_allocate_page s2 = Inr (0x400000, s3) \<and> t \<in> tables (kmem s3) (pagetable (procs s ! 0)) \<and>
     pte_of (kmem s3) (pagetable (procs s ! 0)) 0x400000 = PA2PTE t OR prot_to_type (PROT_WRITE OR PROT_READ) True OR PTE_V"
proof -
  from bare_process obtain s where s: "heap_process 0 s" "ram_ok (kpmm s)" "free_pages_count (user_heap (procs s ! 0)) = 0"
    "heap_top (user_heap (procs s ! 0)) = 0x400000" "pte_of (kmem s) (pagetable (procs s ! 0)) 0x400000 = 0"
    "missing_tables (kmem s) (pagetable (procs s ! 0)) 0x400000 = 2" "page_supply (kvm s) = 31" by blast
  have "\<not> pte_valid (pte_of (kmem s) (pagetable (procs s ! 0)) 0x400000)" using s(5) by simp
  from heap_reuse_exposes_page_table [OF s(1-4) running_heap(6-8) this] s(6,7) have
    "\<exists>s1 s2 s3 t. sys_user_allocate_page s = Inr (0x400000, s1) \<and> sys_user_free_page 0x400000 s1 = Inr (0, s2) \<and>
     sys_user_allocate_page s2 = Inr (0x400000, s3) \<and> t \<in> tables (kmem s3) (pagetable (procs s ! 0)) \<and>
     pte_of (kmem s3) (pagetable (procs s ! 0)) 0x400000 = PA2PTE t OR prot_to_type (PROT_WRITE OR PROT_READ) True OR PTE_V"
    by simp
  then show ?thesis using s(1) by blast
qed

lemma free_then_allocate_witness:
  "\<exists>s s1 s2. heap_process 0 s \<and> sys_user_free_page 0x400000 s = Inr (0, s1) \<and> sys_user_allocate_page s1 = Inr (0x400000, s2)"
proof -
  from bare_process obtain s where s: "heap_process 0 s" "ram_ok (kpmm s)" "free_pages_count (user_heap (procs s ! 0)) = 0"
    "heap_top (user_heap (procs s ! 0)) = 0x400000" "pte_of (kmem s) (pagetable (procs s ! 0)) 0x400000 = 0"
    "missing_tables (kmem s) (pagetable (procs s ! 0)) 0x400000 = 2" "page_supply (kvm s) = 31" by blast
  have "\<not> pte_valid (pte_of (kmem s) (pagetable (procs s ! 0)) 0x400000)" using s(5) by simp
  from allocate_exposes [OF s(1-4) running_heap(6-8) this] s(6,7) obtain s1 f q t where e: "exposed 0 0x400000 f q t s1" by auto
  then have h: "heap_process 0 s1" "unat (free_pages_count (user_heap (procs s1 ! 0))) < MAX_HEAP_PAGES"
    by (simp_all add: exposed_def MAX_HEAP_PAGES_def)
  from exposed_reuse [OF e] obtain s2 s3 where
    r: "sys_user_free_page 0x400000 s1 = Inr (0, s2)" "sys_user_allocate_page s2 = Inr (0x400000, s3)" by blast
  from free_then_allocate [OF h r] h(1) r show ?thesis by blast
qed

end
