(* ===== verification/Pke_Elf_Thms.thy ===== *)
theory Pke_Elf_Thms
  imports Pke_Elf Pke_File_Thms Pke_Syscall_Thms
begin

text \<open>
  What the ELF loader does with a file that the host serves: loading an aligned segment, the errors,
  segments that the file does not hold completely, and segments that are not page-aligned.
\<close>

section \<open>Reading the file\<close>

definition put_bytes :: "uint64 \<Rightarrow> uint8 list \<Rightarrow> bytes \<Rightarrow> bytes" where
  "put_bytes a bs m = (\<lambda>b. if unat (b - a) < length bs then bs ! unat (b - a) else m b)"

text \<open>The bytes of the file image that a read gets, and a host that serves reads of descriptor \<open>fd\<close> from it.\<close>

definition chunk :: "uint8 list \<Rightarrow> uint64 \<Rightarrow> uint64 \<Rightarrow> uint8 list" where
  "chunk img nb off = take (unat nb) (drop (unat off) img)"

definition serves_file :: "('d hstate \<Rightarrow> 'd hstate) \<Rightarrow> int \<Rightarrow> uint8 list \<Rightarrow> bool" where
  "serves_file serve fd img \<longleftrightarrow> length img < 2 ^ 63 \<and>
     (\<forall>s buf nb off. magic_mem s = [HTIFSYS_pread, word_of_int fd, buf, nb, off, 0, 0, 0] \<longrightarrow>
        serve s = s\<lparr>hmem := put_bytes buf (chunk img nb off) (hmem s),
          magic_mem := [word_of_nat (length (chunk img nb off)), word_of_int fd, buf, nb, off, 0, 0, 0]\<rparr>)"

text \<open>A loader whose files are those of \<open>t\<close>, with the byte memory \<open>m\<close> and an idle host interface.\<close>

definition files_now :: "'d ftable \<Rightarrow> bytes \<Rightarrow> 'd ftable \<Rightarrow> bool" where
  "files_now t m t' \<longleftrightarrow> spike_files t' = spike_files t \<and> spike_fds t' = spike_fds t \<and> ft_sstatus t' = ft_sstatus t \<and>
     io_idle (ft_io t') \<and> hmem (ft_io t') = m"

lemma length_chunk: "length (chunk img nb off) \<le> unat nb"
  by (simp add: chunk_def)

lemma fpread_ok:
  assumes at: "atomics_ok (he_at E)" and host: "host_serves (he_host E) (he_magic E) serve" and img: "serves_file serve fd img"
    and f: "f < MAX_FILES" "kfd (spike_files (ld_files s) ! f) = fd" and idle: "io_idle (ft_io (ld_files s))"
  shows "\<exists>t. elf_fpread E f dest nb off s = returnO (word_of_nat (length (chunk img nb off)), s\<lparr>ld_files := t\<rparr>) \<and>
    files_now (ld_files s) (put_bytes dest (chunk img nb off) (ld_mem s)) t"
proof -
  let ?t = "ld_files s"
  let ?args = "[HTIFSYS_pread, word_of_int fd, dest, nb, off, 0, 0, 0]"
  let ?n = "length (chunk img nb off)"
  let ?io = "(ft_io ?t)\<lparr>hmem := put_bytes dest (chunk img nb off) (ld_mem s), magic_mem := (word_of_nat ?n # tl ?args)\<rparr>"
  have sv: "served E serve ?args (ft_io ?t) = (word_of_nat ?n, ?io)"
    using img idle by (simp add: served_def serves_file_def io_idle_def Let_def)
  have "?n \<le> length img" by (simp add: chunk_def)
  then have "?n < 2 ^ 63" using img by (simp add: serves_file_def)
  then have n: "sint (word_of_nat ?n :: uint64) = int ?n"
    by (simp add: signed_of_nat signed_take_bit_int_eq_self)
  have "spike_file_pread E f dest nb off ?t = returnO (int ?n, ?t\<lparr>ft_io := ?io\<rparr>)"
    using f file_syscall_ok [OF at host idle] sv n by (simp add: spike_file_pread_def file_call_def)
  then show ?thesis
    using idle by (intro exI [of _ "?t\<lparr>ft_io := ?io\<rparr>"]) (simp add: elf_fpread_def files_now_def io_idle_def)
qed

lemma put_bytes_nth: "k < length bs \<Longrightarrow> length bs < 2 ^ 64 \<Longrightarrow> put_bytes a bs m (a + word_of_nat k) = bs ! k"
  by (simp add: put_bytes_def unat_of_nat)

text \<open>The headers in a list of bytes.\<close>

definition prog_header_of :: "uint8 list \<Rightarrow> elf_prog_header" where
  "prog_header_of bs = prog_header_at 0 (put_bytes 0 bs (\<lambda>_. 0))"

definition elf_header_of :: "uint8 list \<Rightarrow> elf_header" where
  "elf_header_of bs = elf_header_at 0 (put_bytes 0 bs (\<lambda>_. 0))"

lemma put_bytes_shift: "unat k < length bs \<Longrightarrow> put_bytes a bs m (a + k) = put_bytes 0 bs (\<lambda>_. 0) k"
  by (simp add: put_bytes_def)

lemma prog_header_put: "length bs = 56 \<Longrightarrow> prog_header_at a (put_bytes a bs m) = prog_header_of bs"
  using put_bytes_shift [of 0 bs a m]
  by (simp add: prog_header_of_def prog_header_at_def load32_def load_word_def add.assoc put_bytes_shift)

lemma elf_header_put: "length bs = 64 \<Longrightarrow> elf_header_at a (put_bytes a bs m) = elf_header_of bs"
  using put_bytes_shift [of 0 bs a m]
  by (simp add: elf_header_of_def elf_header_at_def load32_def load16_def load_word_def add.assoc put_bytes_shift)

section \<open>Loading a segment\<close>

definition rwxu :: uint64 where
  "rwxu = prot_to_type (PROT_WRITE OR PROT_READ OR PROT_EXEC) True"

lemma frame_change:
  assumes ok: "vm_ok root v" and pa: "page_aligned pa" "pa \<notin> tables (vmem v) root"
    and out: "\<And>a. \<not> a - pa < PGSIZE \<Longrightarrow> m a = vmem v a"
  shows "vm_ok root (v\<lparr>vmem := m\<rparr>)" "tables m root = tables (vmem v) root" "pte_of m root va = pte_of (vmem v) root va"
    "path_ok q \<Longrightarrow> table_at m root q = table_at (vmem v) root q"
proof -
  have wf: "pt_wf (vmem v) root" using ok by (simp add: vm_ok_def)
  have "m a = vmem v a" if "t \<in> tables (vmem v) root" "a - t < PGSIZE" for t a
    using frames_apart [OF tables_aligned [OF wf that(1)] pa(1) _ that(2)] that(1) pa(2) by (intro out) blast
  note * = frame_agrees [OF wf this]
  show "tables m root = tables (vmem v) root" "pte_of m root va = pte_of (vmem v) root va"
    "path_ok q \<Longrightarrow> table_at m root q = table_at (vmem v) root q" by (rule *; assumption)+
  show "vm_ok root (v\<lparr>vmem := m\<rparr>)" using ok *(2,3) by (simp add: vm_ok_def)
qed

lemma missing_tables_cong:
  "(\<And>q. path_ok q \<Longrightarrow> table_at m root q = table_at m' root q) \<Longrightarrow> missing_tables m root va = missing_tables m' root va"
  unfolding missing_tables_def missing_def by (simp add: PX_less leaf_path_def del: table_at.simps)

text \<open>
  A frame that is neither a page table below \<open>root\<close> nor in the page cache, and steps that leave such frames alone.
\<close>

definition held :: "uint64 \<Rightarrow> vmm \<Rightarrow> uint64 \<Rightarrow> bool" where
  "held root v a \<longleftrightarrow> page_aligned a \<and> a \<notin> tables (vmem v) root \<and> a \<notin> PFN_TO_ADDR ` set (cached_pages (vpmm v))"

definition keeps_frames :: "uint64 \<Rightarrow> vmm \<Rightarrow> vmm \<Rightarrow> bool" where
  "keeps_frames root v v' \<longleftrightarrow>
     (\<forall>a. held root v a \<longrightarrow> held root v' a \<and> (\<forall>c. c - a < PGSIZE \<longrightarrow> vmem v' c = vmem v c))"

lemma keeps_frames_refl [simp]: "keeps_frames root v v"
  by (simp add: keeps_frames_def)

lemma keeps_frames_trans: "keeps_frames root u v \<Longrightarrow> keeps_frames root v w \<Longrightarrow> keeps_frames root u w"
  unfolding keeps_frames_def by metis

lemma updated_keeps_frames:
  assumes "updated root g v v'"
  shows "keeps_frames root v v'"
proof -
  from assms obtain qs where t: "cached_pages (vpmm v) = cached_pages (vpmm v') @ qs"
    "tables (vmem v') root = tables (vmem v) root \<union> PFN_TO_ADDR ` set qs" by (auto simp: updated_def drawn_def)
  have wf: "pt_wf (vmem v') root" using assms by (simp add: updated_def vm_ok_def)
  have "held root v' a \<and> (\<forall>c. c - a < PGSIZE \<longrightarrow> vmem v' c = vmem v c)" if h: "held root v a" for a
  proof -
    have a: "page_aligned a" "a \<notin> tables (vmem v') root" using h t by (auto simp: held_def)
    have "\<not> c - u < PGSIZE" if "c - a < PGSIZE" "u \<in> tables (vmem v') root" for c u
      using frames_apart [OF a(1) tables_aligned [OF wf that(2)] _ that(1)] a(2) that(2) by blast
    then have "\<forall>c. c - a < PGSIZE \<longrightarrow> vmem v' c = vmem v c" using assms by (simp add: updated_def)
    then show ?thesis using h a t(1) by (auto simp: held_def)
  qed
  then show ?thesis by (simp add: keeps_frames_def)
qed

text \<open>Writing to a frame that was in the page cache.\<close>

lemma drawn_keeps_frames:
  assumes "keeps_frames root v v'" "page_aligned pa" "\<not> held root v pa"
    and "\<And>a. \<not> a - pa < PGSIZE \<Longrightarrow> m a = vmem v' a" and "tables m root = tables (vmem v') root"
  shows "keeps_frames root v (v'\<lparr>vmem := m\<rparr>)"
proof -
  have "m c = vmem v c" if "held root v a" "c - a < PGSIZE" for a c
  proof -
    have "a \<noteq> pa" "page_aligned a" using that(1) assms(3) by (auto simp: held_def)
    then have "\<not> c - pa < PGSIZE" using frames_apart [OF _ assms(2) _ that(2)] by blast
    then show ?thesis using assms(1,4) that by (simp add: keeps_frames_def)
  qed
  then show ?thesis using assms(1,5) by (simp add: keeps_frames_def held_def)
qed

text \<open>The page of a segment before it is mapped: taken from the cache and cleared.\<close>

lemma alloc_mb_zeroed:
  fixes s :: "'d loader"
  defines "k \<equiv> ld_kernel s"
  assumes p: "p < length (procs k)" and ok: "vm_ok (pagetable (procs k ! p)) (kvm k)" and sz: "sz < PGSIZE"
    and c: "cached_pages (kpmm k) = ps @ [fr]" and ram: "ram_ok (kpmm k)"
  defines "pa \<equiv> PFN_TO_ADDR fr" and "root \<equiv> pagetable (procs k ! p)"
  shows "\<exists>v. (\<forall>v'. user_vm_map root va PGSIZE pa rwxu v = Inr v' \<longrightarrow> elf_alloc_mb p epa va sz s =
      returnO (pa, s\<lparr>ld_kernel := k\<lparr>kvm := v'\<rparr>, ld_files := set_hmem (filled pa 4096 0 (ld_mem s)) (ld_files s)\<rparr>)) \<and>
    vm_ok root v \<and> pa \<notin> tables (vmem v) root \<and> page_aligned pa \<and> pa \<noteq> 0 \<and> cached_pages (vpmm v) = ps \<and>
    pa \<notin> PFN_TO_ADDR ` set ps \<and> (\<forall>va. pte_of (vmem v) root va = pte_of (kmem k) root va) \<and>
    (\<forall>q. path_ok q \<longrightarrow> table_at (vmem v) root q = table_at (kmem k) root q) \<and>
    ram_ok (vpmm v) \<and> keeps_frames root (kvm k) v"
proof -
  have pm_ok: "pmm_ok (kpmm k)" using ok by (simp add: vm_ok_def)
  from vm_alloc_page_cached [OF pm_ok c] obtain pm where
    pm: "vm_alloc_page (kvm k) = Inr (pa, (kvm k)\<lparr>vpmm := pm\<rparr>)" "pmm_ok pm" "cached_pages pm = ps"
      "page_aligned pa" "pa \<noteq> 0" "pa \<notin> PFN_TO_ADDR ` set ps" "drawn (kpmm k) [fr] pm" unfolding pa_def by blast
  have notin: "pa \<notin> tables (kmem k) root" using ok c by (auto simp: vm_ok_def root_def pa_def)
  let ?w = "(kvm k)\<lparr>vpmm := pm\<rparr>"
  let ?v = "?w\<lparr>vmem := zero_frame pa (kmem k)\<rparr>"
  have ok0: "vm_ok root ?w" using ok pm(2,3) c by (auto simp: vm_ok_def root_def)
  have z: "zero_frame pa (kmem k) a = vmem ?w a" if "\<not> a - pa < PGSIZE" for a using that by (simp add: zero_frame_def)
  note fc = frame_change [OF ok0 pm(4) _ z]
  have "unat pa + unat PGSIZE < 2 ^ 64"
    using cached_page_bounds(1,2) [OF pm_ok ram, of fr] c by (simp add: pa_def)
  then have ms0: "memset pa 0 PGSIZE m = Some (pa, filled pa 4096 0 m)" for m
    using memset_correct [of pa PGSIZE 0 m] by simp
  have "elf_alloc_mb p epa va sz s =
      returnO (pa, s\<lparr>ld_kernel := k\<lparr>kvm := v'\<rparr>, ld_files := set_hmem (filled pa 4096 0 (ld_mem s)) (ld_files s)\<rparr>)"
    if "user_vm_map root va PGSIZE pa rwxu ?v = Inr v'" for v'
    using p sz pm(1,5) that ms0 [of "ld_mem s"]
    by (simp add: elf_alloc_mb_def in_kernel_def on_kernel_def k_alloc_page_def with_vm_def on_vm_def zero_vm_page_def
        proc_at_def k_def root_def rwxu_def)
  moreover have "keeps_frames root (kvm k) ?w" using c pm(3) by (auto simp: keeps_frames_def held_def)
  then have "keeps_frames root (kvm k) ?v"
    by (rule drawn_keeps_frames [OF _ pm(4)]) (use c fc(2) notin z in \<open>auto simp: held_def pa_def\<close>)
  moreover have "ram_ok pm" using drawn_ram_ok [OF pm(7)] ram by simp
  ultimately show ?thesis using fc notin pm(3-6) by (intro exI [of _ ?v]) simp
qed

lemma drawn_not_table:
  assumes "updated root g v v'" "pa \<notin> tables (vmem v) root" "pa \<notin> PFN_TO_ADDR ` set (cached_pages (vpmm v))"
  shows "pa \<notin> tables (vmem v') root"
proof -
  from assms(1) obtain qs where "drawn (vpmm v) qs (vpmm v')" "tables (vmem v') root = tables (vmem v) root \<union> PFN_TO_ADDR ` set qs"
    by (auto simp: updated_def)
  then show ?thesis using assms(2,3) by (auto simp: drawn_def)
qed

lemma alloc_mb_ok:
  fixes s :: "'d loader"
  defines "k \<equiv> ld_kernel s"
  assumes p: "p < length (procs k)" and ok: "vm_ok (pagetable (procs k ! p)) (kvm k)"
    and va: "page_aligned va" "0 < va" "va < MAXVA" and sz: "sz < PGSIZE"
    and un: "\<not> pte_valid (pte_of (kmem k) (pagetable (procs k ! p)) va)"
    and c: "cached_pages (kpmm k) = ps @ [fr]" and sup: "missing_tables (kmem k) (pagetable (procs k ! p)) va \<le> length ps"
    and ram: "ram_ok (kpmm k)"
  defines "pa \<equiv> PFN_TO_ADDR fr" and "root \<equiv> pagetable (procs k ! p)"
  shows "\<exists>v. elf_alloc_mb p epa va sz s =
      returnO (pa, s\<lparr>ld_kernel := k\<lparr>kvm := v\<rparr>, ld_files := set_hmem (filled pa 4096 0 (ld_mem s)) (ld_files s)\<rparr>) \<and>
    vm_ok root v \<and> pa \<notin> tables (vmem v) root \<and> page_aligned pa \<and> pa \<noteq> 0 \<and>
    (\<forall>va'<MAXVA. pte_of (vmem v) root va' = (if same_page va va' then PA2PTE pa OR rwxu OR PTE_V else pte_of (kmem k) root va')) \<and>
    page_supply v = length ps - missing_tables (kmem k) root va \<and> ram_ok (vpmm v) \<and> keeps_frames root (kvm k) v \<and> held root v pa \<and>
    set (cached_pages (vpmm v)) \<subseteq> set ps"
proof -
  from alloc_mb_zeroed [of p s sz ps fr va epa] p ok sz c ram obtain w where
    w: "\<And>v'. user_vm_map root va PGSIZE pa rwxu w = Inr v' \<Longrightarrow> elf_alloc_mb p epa va sz s =
        returnO (pa, s\<lparr>ld_kernel := k\<lparr>kvm := v'\<rparr>, ld_files := set_hmem (filled pa 4096 0 (ld_mem s)) (ld_files s)\<rparr>)"
      "vm_ok root w" "pa \<notin> tables (vmem w) root" "page_aligned pa" "pa \<noteq> 0" "cached_pages (vpmm w) = ps"
      "pa \<notin> PFN_TO_ADDR ` set ps" "\<And>va. pte_of (vmem w) root va = pte_of (kmem k) root va"
      "\<And>q. path_ok q \<Longrightarrow> table_at (vmem w) root q = table_at (kmem k) root q"
      "ram_ok (vpmm w)" "keeps_frames root (kvm k) w"
    unfolding k_def pa_def root_def by blast
  have ms: "missing_tables (vmem w) root va = missing_tables (kmem k) root va"
    by (rule missing_tables_cong) (rule w(9))
  have "missing_tables (vmem w) root va \<le> page_supply w" "\<not> pte_valid (pte_of (vmem w) root va)"
    using sup un ms w(6,8) by (simp_all add: root_def)
  from user_vm_map_page [OF w(2) va this, of pa rwxu] obtain v where
    v: "user_vm_map root va PGSIZE pa rwxu w = Inr v" "vm_ok root v"
      "\<forall>va'<MAXVA. pte_of (vmem v) root va' = (if same_page va va' then PA2PTE pa OR rwxu OR PTE_V else pte_of (vmem w) root va')"
      "page_supply v = page_supply w - missing_tables (vmem w) root va" "updated root (pte_of (vmem v) root) w v"
    by blast
  have "held root w pa" using w(3,4,6,7) by (simp add: held_def)
  then have h: "held root v pa" using updated_keeps_frames [OF v(5)] by (simp add: keeps_frames_def)
  have k: "keeps_frames root (kvm k) v" by (rule keeps_frames_trans [OF w(11) updated_keeps_frames [OF v(5)]])
  have "ram_ok (vpmm v)" using v(5) w(10) drawn_ram_ok by (auto simp: updated_def)
  moreover have "set (cached_pages (vpmm v)) \<subseteq> set ps" using v(5) w(6) by (auto simp: updated_def drawn_def)
  ultimately show ?thesis using w(1) [OF v(1)] v(2-4) w(4-6,8) ms h k by (auto simp: held_def)
qed

lemma seek_region_first:
  "i \<le> j \<Longrightarrow> j < i + n \<Longrightarrow> mr_va (rs ! j) = 0 \<Longrightarrow> (\<And>h. h < j \<Longrightarrow> mr_va (rs ! h) \<noteq> 0) \<Longrightarrow> seek_region n i rs = j"
proof (induction n arbitrary: i)
  case (Suc n)
  then show ?case by (cases "i = j") auto
qed simp

definition seg_kind :: "uint32 \<Rightarrow> uint32 option" where
  "seg_kind flags = (if flags = 5 then Some CODE_SEGMENT else if flags = 6 then Some DATA_SEGMENT else None)"

text \<open>The region table of a process has room: entry \<open>j\<close> is its first free one.\<close>

definition first_region :: "nat \<Rightarrow> kernel \<Rightarrow> nat \<Rightarrow> bool" where
  "first_region p k j \<longleftrightarrow>
     (let rs = minfos k (mapped_info (procs k ! p)) in
      p < length (procs k) \<and> mapped_info (procs k ! p) \<noteq> 0 \<and> length rs = REGIONS_PER_PAGE \<and> j < REGIONS_PER_PAGE \<and>
      mr_va (rs ! j) = 0 \<and> (\<forall>h<j. mr_va (rs ! h) \<noteq> 0))"

definition with_segment :: "nat \<Rightarrow> nat \<Rightarrow> uint64 \<Rightarrow> uint32 \<Rightarrow> kernel \<Rightarrow> kernel" where
  "with_segment p j va kind k =
     (let pr = procs k ! p; mi = mapped_info pr in
      k\<lparr>procs := (procs k)[p := pr\<lparr>total_mapped_region := total_mapped_region pr + 1\<rparr>],
        minfos := (minfos k)(mi := (minfos k mi)[j := \<lparr>mr_va = va, mr_npages = 1, mr_seg_type = kind\<rparr>])\<rparr>)"

lemma record_segment_ok:
  assumes "first_region p k j" "seg_kind (ph_flags ph) = Some kind"
  shows "record_segment p ph k = Inr (with_segment p j (ph_vaddr ph) kind k)"
proof -
  let ?mi = "mapped_info (procs k ! p)"
  have r: "p < length (procs k)" "?mi \<noteq> 0" "length (minfos k ?mi) = REGIONS_PER_PAGE" "j < REGIONS_PER_PAGE"
    "mr_va (minfos k ?mi ! j) = 0" "\<And>h. h < j \<Longrightarrow> mr_va (minfos k ?mi ! h) \<noteq> 0"
    using assms(1) by (simp_all add: first_region_def Let_def)
  have j: "seek_region REGIONS_PER_PAGE 0 (minfos k ?mi) = j" using r(4-6) by (intro seek_region_first) simp_all
  have "(SEGMENT_READABLE OR SEGMENT_EXECUTABLE) = 5" "(SEGMENT_READABLE OR SEGMENT_WRITABLE) = 6"
    by (simp_all add: SEGMENT_READABLE_def SEGMENT_EXECUTABLE_def SEGMENT_WRITABLE_def)
  then show ?thesis
    using r(1-4) j assms(2)
    by (cases "minfos k ?mi ! j")
      (auto simp: record_segment_def proc_at_def proc_upd_def region_at_def region_set_ok with_segment_def seg_kind_def Let_def
        split: if_splits)
qed

text \<open>The cells of a page filled with zeros and then with the bytes of a segment.\<close>

lemma loaded_cells:
  assumes "i < 512" "length seg \<le> 4096"
  shows "load_word (pte_addr pa i) (put_bytes pa seg (filled pa 4096 0 m)) = load_word (8 * i) (put_bytes 0 seg (\<lambda>_. 0))"
proof -
  let ?m = "put_bytes pa seg (filled pa 4096 0 m)"
  have *: "?m (pa + q) = put_bytes 0 seg (\<lambda>_. 0) q" if "unat q < 4096" for q
    using that assms(2) by (simp add: put_bytes_def filled_def)
  have i: "unat (8 * i) = 8 * unat i"
    using assms(1) by (subst unat_mult_noof) (simp_all add: word_less_iff_unat)
  have "unat (8 * i + j) < 4096" if "unat j < 8" for j
  proof -
    have "unat (8 * i + j) = 8 * unat i + unat j" using that assms(1) i by (subst unat_add_noof) (simp_all add: word_less_iff_unat)
    then show ?thesis using that assms(1) by (simp add: word_less_iff_unat)
  qed
  then have "?m (pa + (8 * i + j)) = put_bytes 0 seg (\<lambda>_. 0) (8 * i + j)" if "unat j < 8" for j using that by (intro *) blast
  from this [of 0] this [of 1] this [of 2] this [of 3] this [of 4] this [of 5] this [of 6] this [of 7]
  show ?thesis by (simp add: load_word_def pte_addr_def add.assoc)
qed

text \<open>Reading a header to \<open>a\<close> and a segment to a cleared page writes nothing else.\<close>

lemma segment_elsewhere:
  assumes "length seg \<le> 4096" "length hdr = 56" "\<not> q - a < 56" "\<not> q - pa < PGSIZE"
  shows "put_bytes pa seg (filled pa 4096 0 (put_bytes a hdr m)) q = m q"
proof -
  have "56 \<le> unat (q - a)" "4096 \<le> unat (q - pa)" using assms(3,4) by (simp_all add: word_less_iff_unat not_less)
  then show ?thesis using assms(1,2) by (simp add: put_bytes_def filled_def)
qed

text \<open>A file of the host that the loader can read.\<close>

definition readable :: "'d henv \<Rightarrow> nat \<Rightarrow> uint8 list \<Rightarrow> 'd ftable \<Rightarrow> bool" where
  "readable E f img t \<longleftrightarrow> atomics_ok (he_at E) \<and> f < MAX_FILES \<and> io_idle (ft_io t) \<and>
     (\<exists>serve. host_serves (he_host E) (he_magic E) serve \<and> serves_file serve (kfd (spike_files t ! f)) img)"

lemma readable_read:
  assumes "readable E f img (ld_files s)"
  shows "\<exists>t. elf_fpread E f dest nb off s = returnO (word_of_nat (length (chunk img nb off)), s\<lparr>ld_files := t\<rparr>) \<and>
    files_now (ld_files s) (put_bytes dest (chunk img nb off) (ld_mem s)) t"
  using assms fpread_ok unfolding readable_def by blast

lemma readable_now: "readable E f img t \<Longrightarrow> files_now t m t' \<Longrightarrow> readable E f img t'"
  by (auto simp: readable_def files_now_def)

lemma set_hmem_now: "io_idle (ft_io t) \<Longrightarrow> files_now t m (set_hmem m t)"
  by (simp add: files_now_def set_hmem_def io_idle_def)

lemma files_now_trans: "files_now t m t' \<Longrightarrow> files_now t' m' t'' \<Longrightarrow> files_now t m' t''"
  by (simp add: files_now_def)

lemma sync_page_ok:
  assumes ok: "vm_ok root (kvm k)" and pa: "page_aligned pa" "pa \<notin> tables (kmem k) root"
  shows "vm_ok root (kvm (sync_page pa m k))" "pte_of (kmem (sync_page pa m k)) root va = pte_of (kmem k) root va"
    "c - pa < PGSIZE \<Longrightarrow> kmem (sync_page pa m k) c = load_word c m" "kpmm (sync_page pa m k) = kpmm k"
    "procs (sync_page pa m k) = procs k" "minfos (sync_page pa m k) = minfos k"
  using frame_change [OF ok pa, of "\<lambda>c. if c - pa < PGSIZE then load_word c m else kmem k c"]
  by (simp_all add: sync_page_def)

lemma sync_page_keeps:
  assumes "keeps_frames root u (kvm k)" "\<not> held root u pa" "vm_ok root (kvm k)" "held root (kvm k) pa"
  shows "keeps_frames root u (kvm (sync_page pa m k))" "held root (kvm (sync_page pa m k)) pa"
proof -
  have pa: "page_aligned pa" "pa \<notin> tables (kmem k) root" using assms(4) by (simp_all add: held_def)
  let ?m = "\<lambda>c. if c - pa < PGSIZE then load_word c m else kmem k c"
  have t: "tables ?m root = tables (kmem k) root" by (rule frame_change(2) [OF assms(3) pa]) simp
  then show "held root (kvm (sync_page pa m k)) pa" using assms(4) by (simp add: sync_page_def held_def)
  have "keeps_frames root u ((kvm k)\<lparr>vmem := ?m\<rparr>)" by (rule drawn_keeps_frames [OF assms(1) pa(1) assms(2)]) (use t in simp_all)
  then show "keeps_frames root u (kvm (sync_page pa m k))" by (simp add: sync_page_def)
qed

lemma with_segment_simps [simp]:
  "kvm (with_segment p j va kind k) = kvm k"
  by (simp add: with_segment_def Let_def)

lemma segment_end:
  assumes "va < MAXVA" "sz < PGSIZE"
  shows "\<not> va + sz < va"
proof -
  have "unat (va + sz) = unat va + unat sz"
    using assms(2) assms(1) [unfolded unat_less_maxva] by (intro unat_add_noof) (simp add: word_less_iff_unat)
  then show ?thesis by (simp add: word_less_iff_unat)
qed

text \<open>A segment that the loader accepts: loadable, smaller than a page, with a page-aligned address, present in the
  file and either code or data.\<close>

definition good_segment :: "uint8 list \<Rightarrow> elf_prog_header \<Rightarrow> bool" where
  "good_segment img ph \<longleftrightarrow> ph_type ph = ELF_PROG_LOAD \<and> ph_filesz ph \<le> ph_memsz ph \<and> ph_memsz ph < PGSIZE \<and>
     page_aligned (ph_vaddr ph) \<and> 0 < ph_vaddr ph \<and> ph_vaddr ph < MAXVA \<and>
     length (chunk img (ph_memsz ph) (ph_off ph)) = unat (ph_memsz ph) \<and> seg_kind (ph_flags ph) \<noteq> None"

text \<open>Loading one segment.\<close>

lemma load_segment_ok:
  assumes file_ok: "readable E f img (ld_files s)"
    and hdr: "length (chunk img 56 (scast off)) = 56" "prog_header_of (chunk img 56 (scast off)) = ph" and ph: "good_segment img ph"
    and k: "ld_kernel s = k" "procs k ! p = pr" "first_region p k j" "vm_ok (pagetable pr) (kvm k)" "ram_ok (kpmm k)"
    and un: "\<not> pte_valid (pte_of (kmem k) (pagetable pr) (ph_vaddr ph))"
    and c: "cached_pages (kpmm k) = ps @ [fr]" "missing_tables (kmem k) (pagetable pr) (ph_vaddr ph) \<le> length ps"
  shows "\<exists>s'. elf_load_loop E F f p (Suc n) off s = elf_load_loop E F f p n (off + 56) s' \<and>
    files_now (ld_files s) (ld_mem s') (ld_files s') \<and>
    (let k' = ld_kernel s'; va = ph_vaddr ph; pa = PFN_TO_ADDR fr; mi = mapped_info pr in
     vm_ok (pagetable pr) (kvm k') \<and>
     (\<forall>va'<MAXVA. pte_of (kmem k') (pagetable pr) va' =
        (if same_page va va' then PA2PTE pa OR rwxu OR PTE_V else pte_of (kmem k) (pagetable pr) va')) \<and>
     (\<forall>i<512. kmem k' (pte_addr pa i) = load_word (8 * i) (put_bytes 0 (chunk img (ph_memsz ph) (ph_off ph)) (\<lambda>_. 0))) \<and>
     procs k' = (procs k)[p := pr\<lparr>total_mapped_region := total_mapped_region pr + 1\<rparr>] \<and>
     minfos k' = (minfos k)(mi := (minfos k mi)[j := \<lparr>mr_va = va, mr_npages = 1, mr_seg_type = the (seg_kind (ph_flags ph))\<rparr>]) \<and>
     page_supply (kvm k') = length ps - missing_tables (kmem k) (pagetable pr) va \<and>
     ram_ok (kpmm k') \<and> keeps_frames (pagetable pr) (kvm k) (kvm k') \<and> held (pagetable pr) (kvm k') pa \<and> tframes k' = tframes k \<and>
     set (cached_pages (kpmm k')) \<subseteq> set ps \<and>
     (\<forall>q. \<not> q - at_ph F < 56 \<longrightarrow> \<not> q - pa < PGSIZE \<longrightarrow> ld_mem s' q = ld_mem s q))"
proof -
  let ?root = "pagetable pr" and ?va = "ph_vaddr ph" and ?pa = "PFN_TO_ADDR fr"
  let ?seg = "chunk img (ph_memsz ph) (ph_off ph)"
  obtain kind where kind: "seg_kind (ph_flags ph) = Some kind" using ph by (auto simp: good_segment_def)
  have g: "ph_type ph = ELF_PROG_LOAD" "\<not> ph_memsz ph < ph_filesz ph" "ph_memsz ph < PGSIZE" "page_aligned ?va" "0 < ?va" "?va < MAXVA"
    "length ?seg = unat (ph_memsz ph)" using ph by (simp_all add: good_segment_def not_less)
  have nowrap: "\<not> ?va + ph_memsz ph < ?va" by (rule segment_end [OF g(6,3)])
  obtain t1 where t1: "elf_fpread E f (at_ph F) 56 (scast off) s = returnO (56, s\<lparr>ld_files := t1\<rparr>)"
    "files_now (ld_files s) (put_bytes (at_ph F) (chunk img 56 (scast off)) (ld_mem s)) t1"
    using readable_read [OF file_ok, of "at_ph F" 56 "scast off"] hdr(1) by auto
  let ?s1 = "s\<lparr>ld_files := t1\<rparr>"
  have m1: "prog_header_at (at_ph F) (ld_mem ?s1) = ph" using t1(2) prog_header_put [OF hdr(1)] hdr(2) by (simp add: files_now_def)
  have r1: "readable E f img t1" by (rule readable_now [OF file_ok t1(2)])
  have p: "p < length (procs k)" using k(3) by (simp add: first_region_def Let_def)
  from alloc_mb_ok [of p ?s1 ?va "ph_memsz ph" ps fr ?va] p k c un g obtain v where
    v: "elf_alloc_mb p ?va ?va (ph_memsz ph) ?s1 =
        returnO (?pa, ?s1\<lparr>ld_kernel := k\<lparr>kvm := v\<rparr>, ld_files := set_hmem (filled ?pa 4096 0 (ld_mem ?s1)) t1\<rparr>)"
      "vm_ok ?root v" "?pa \<notin> tables (vmem v) ?root" "page_aligned ?pa" "?pa \<noteq> 0"
      "\<forall>va'<MAXVA. pte_of (vmem v) ?root va' = (if same_page ?va va' then PA2PTE ?pa OR rwxu OR PTE_V else pte_of (kmem k) ?root va')"
      "page_supply v = length ps - missing_tables (kmem k) ?root ?va"
      "ram_ok (vpmm v)" "keeps_frames ?root (kvm k) v" "held ?root v ?pa"
      "set (cached_pages (vpmm v)) \<subseteq> set ps" by auto
  let ?s2 = "?s1\<lparr>ld_kernel := k\<lparr>kvm := v\<rparr>, ld_files := set_hmem (filled ?pa 4096 0 (ld_mem ?s1)) t1\<rparr>"
  have i1: "io_idle (ft_io t1)" using t1(2) by (simp add: files_now_def)
  have now2: "files_now t1 (filled ?pa 4096 0 (ld_mem ?s1)) (ld_files ?s2)" using set_hmem_now [OF i1] by simp
  obtain t3 where t3: "elf_fpread E f ?pa (ph_memsz ph) (ph_off ph) ?s2 = returnO (ph_memsz ph, ?s2\<lparr>ld_files := t3\<rparr>)"
    "files_now (ld_files ?s2) (put_bytes ?pa ?seg (ld_mem ?s2)) t3"
    using readable_read [OF readable_now [OF r1 now2], of ?pa "ph_memsz ph" "ph_off ph"] g(7) by auto
  have mem3: "hmem (ft_io t3) = put_bytes ?pa ?seg (filled ?pa 4096 0 (ld_mem ?s1))"
    using t3(2) now2 by (simp add: files_now_def)
  let ?k3 = "sync_page ?pa (hmem (ft_io t3)) (k\<lparr>kvm := v\<rparr>)"
  note sy = sync_page_ok [where root = ?root and k = "k\<lparr>kvm := v\<rparr>" and pa = ?pa and m = "hmem (ft_io t3)"]
  have fr3: "first_region p ?k3 j" using k(3) v(2-4) sy by (simp add: first_region_def)
  let ?s' = "?s2\<lparr>ld_files := t3, ld_kernel := with_segment p j ?va kind ?k3\<rparr>"
  have "elf_load_loop E F f p (Suc n) off s = elf_load_loop E F f p n (off + 56) ?s'"
    using t1(1) m1 g(1,2) nowrap v(1) t3(1) record_segment_ok [OF fr3 kind]
    by (simp add: Let_def on_kernel_def)
  moreover have "files_now (ld_files s) (ld_mem ?s') (ld_files ?s')"
    using files_now_trans [OF files_now_trans [OF t1(2) now2] t3(2)] by (simp add: files_now_def)
  moreover have "vm_ok ?root (kvm (ld_kernel ?s'))" using sy(1) v(2-4) by simp
  moreover have "\<forall>va'<MAXVA. pte_of (kmem (ld_kernel ?s')) ?root va' =
      (if same_page ?va va' then PA2PTE ?pa OR rwxu OR PTE_V else pte_of (kmem k) ?root va')"
    using sy(2) v(2-4,6) by simp
  moreover have "kmem (ld_kernel ?s') (pte_addr ?pa i) = load_word (8 * i) (put_bytes 0 ?seg (\<lambda>_. 0))" if "i < 512" for i
    using sy(3) [of "pte_addr ?pa i"] v(2-4) pte_addr_offset [OF that] loaded_cells [OF that, of ?seg] mem3 g(3,7)
    by (simp add: word_less_iff_unat)
  moreover have "page_supply (kvm (ld_kernel ?s')) = length ps - missing_tables (kmem k) ?root ?va"
    using sy(4) v(2-4,7) by simp
  moreover have "procs (ld_kernel ?s') = (procs k)[p := pr\<lparr>total_mapped_region := total_mapped_region pr + 1\<rparr>]"
    "minfos (ld_kernel ?s') = (minfos k)(mapped_info pr := (minfos k (mapped_info pr))
      [j := \<lparr>mr_va = ?va, mr_npages = 1, mr_seg_type = the (seg_kind (ph_flags ph))\<rparr>])"
    using k(2) kind sy(5,6) v(2-4) by (simp_all add: with_segment_def Let_def)
  moreover have "keeps_frames ?root (kvm k) (kvm (ld_kernel ?s')) \<and> held ?root (kvm (ld_kernel ?s')) ?pa \<and> ram_ok (kpmm (ld_kernel ?s')) \<and>
      tframes (ld_kernel ?s') = tframes k \<and> set (cached_pages (kpmm (ld_kernel ?s'))) \<subseteq> set ps"
    using sync_page_keeps [of ?root "kvm k" "k\<lparr>kvm := v\<rparr>" ?pa "hmem (ft_io t3)"] v(2,8-11) c(1) by (simp add: held_def sync_page_def with_segment_def Let_def)
  moreover have "ld_mem ?s' q = ld_mem s q" if "\<not> q - at_ph F < 56" "\<not> q - ?pa < PGSIZE" for q
    using segment_elsewhere [of ?seg "chunk img 56 (scast off)" q "at_ph F" ?pa "ld_mem s"] that g(3,7) hdr(1) mem3 t1(2)
    by (simp add: files_now_def word_less_iff_unat)
  ultimately show ?thesis by (intro exI [of _ ?s']) (simp add: Let_def)
qed

section \<open>Segments that are not loaded\<close>

text \<open>The errors of the loader. A header that is not in the file ends it with \<^verbatim>\<open>EL_EIO\<close>; a segment that is larger in the
  file than in memory, or whose end wraps around, with \<^verbatim>\<open>EL_ERR\<close>; the kernel is unchanged in these cases. A segment of
  a page or more trips the assertion of \<^verbatim>\<open>elf_alloc_mb\<close>, and a segment of another type is skipped.\<close>

lemma elf_load_errors:
  assumes file_ok: "readable E f img (ld_files s)"
    and hdr: "chunk img 56 (scast off) = bs" "prog_header_of bs = ph"
  shows "(length bs < 56 \<longrightarrow> (\<exists>t. elf_load_loop E F f p (Suc n) off s = returnO (EL_EIO, s\<lparr>ld_files := t\<rparr>))) \<and>
    (length bs = 56 \<longrightarrow> ph_type ph \<noteq> ELF_PROG_LOAD \<longrightarrow>
       (\<exists>t. elf_load_loop E F f p (Suc n) off s = elf_load_loop E F f p n (off + 56) (s\<lparr>ld_files := t\<rparr>))) \<and>
    (length bs = 56 \<longrightarrow> ph_type ph = ELF_PROG_LOAD \<longrightarrow> ph_memsz ph < ph_filesz ph \<or> ph_vaddr ph + ph_memsz ph < ph_vaddr ph \<longrightarrow>
       (\<exists>t. elf_load_loop E F f p (Suc n) off s = returnO (EL_ERR, s\<lparr>ld_files := t\<rparr>))) \<and>
    (length bs = 56 \<longrightarrow> ph_type ph = ELF_PROG_LOAD \<longrightarrow> ph_filesz ph \<le> ph_memsz ph \<longrightarrow> ph_vaddr ph \<le> ph_vaddr ph + ph_memsz ph \<longrightarrow>
       PGSIZE \<le> ph_memsz ph \<longrightarrow> elf_load_loop E F f p (Suc n) off s = Some (Inl (AssertFail ''size < PGSIZE'')))"
proof -
  obtain t where t: "elf_fpread E f (at_ph F) 56 (scast off) s = returnO (word_of_nat (length bs), s\<lparr>ld_files := t\<rparr>)"
    "files_now (ld_files s) (put_bytes (at_ph F) bs (ld_mem s)) t"
    using readable_read [OF file_ok, of "at_ph F" 56 "scast off"] hdr(1) by auto
  have "hmem (ft_io t) = put_bytes (at_ph F) bs (ld_mem s)" using t(2) by (simp add: files_now_def)
  then have m: "prog_header_at (at_ph F) (hmem (ft_io t)) = ph" if "length bs = 56"
    using that prog_header_put [of bs "at_ph F" "ld_mem s"] hdr(2) by simp
  have short: "(word_of_nat (length bs) :: uint64) \<noteq> 56" if "length bs < 56"
  proof
    assume "(word_of_nat (length bs) :: uint64) = 56"
    then have "unat (word_of_nat (length bs) :: uint64) = 56" by simp
    with that show False by (simp add: unat_of_nat)
  qed
  show ?thesis
    using t(1) m short
    by (auto simp: Let_def elf_alloc_mb_def not_less)
qed

text \<open>C40: a segment with uninitialised data at the end of the file is not loaded: the loader asks for \<^verbatim>\<open>memsz\<close> bytes of the
  file instead of \<^verbatim>\<open>filesz\<close>, so that when the file ends before, it gives up with \<^verbatim>\<open>EL_EIO\<close>, although all bytes the
  segment has in the file are there.\<close>

theorem elf_bss_fails:
  assumes file_ok: "readable E f img (ld_files s)"
    and hdr: "length (chunk img 56 (scast off)) = 56" "prog_header_of (chunk img 56 (scast off)) = ph"
    and ph: "ph_type ph = ELF_PROG_LOAD" "ph_filesz ph < ph_memsz ph" "ph_memsz ph < PGSIZE"
      "page_aligned (ph_vaddr ph)" "0 < ph_vaddr ph" "ph_vaddr ph < MAXVA"
    and bss: "unat (ph_off ph) + unat (ph_filesz ph) \<le> length img" "length img < unat (ph_off ph) + unat (ph_memsz ph)"
    and k: "ld_kernel s = k" "procs k ! p = pr" "p < length (procs k)" "vm_ok (pagetable pr) (kvm k)" "ram_ok (kpmm k)"
    and un: "\<not> pte_valid (pte_of (kmem k) (pagetable pr) (ph_vaddr ph))"
    and c: "cached_pages (kpmm k) = ps @ [fr]" "missing_tables (kmem k) (pagetable pr) (ph_vaddr ph) \<le> length ps"
  shows "\<exists>s'. elf_load_loop E F f p (Suc n) off s = returnO (EL_EIO, s')"
proof -
  let ?seg = "chunk img (ph_memsz ph) (ph_off ph)"
  have len: "length ?seg < unat (ph_memsz ph)" using bss by (simp add: chunk_def)
  have nowrap: "\<not> ph_vaddr ph + ph_memsz ph < ph_vaddr ph" by (rule segment_end [OF ph(6,3)])
  obtain t1 where t1: "elf_fpread E f (at_ph F) 56 (scast off) s = returnO (56, s\<lparr>ld_files := t1\<rparr>)"
    "files_now (ld_files s) (put_bytes (at_ph F) (chunk img 56 (scast off)) (ld_mem s)) t1"
    using readable_read [OF file_ok, of "at_ph F" 56 "scast off"] hdr(1) by auto
  let ?s1 = "s\<lparr>ld_files := t1\<rparr>"
  have m1: "prog_header_at (at_ph F) (ld_mem ?s1) = ph" using t1(2) prog_header_put [OF hdr(1)] hdr(2) by (simp add: files_now_def)
  from alloc_mb_ok [of p ?s1 "ph_vaddr ph" "ph_memsz ph" ps fr "ph_vaddr ph"] k c un ph obtain v where
    v: "elf_alloc_mb p (ph_vaddr ph) (ph_vaddr ph) (ph_memsz ph) ?s1 = returnO (PFN_TO_ADDR fr, ?s1\<lparr>ld_kernel := k\<lparr>kvm := v\<rparr>,
        ld_files := set_hmem (filled (PFN_TO_ADDR fr) 4096 0 (ld_mem ?s1)) t1\<rparr>)" by auto
  let ?s2 = "?s1\<lparr>ld_kernel := k\<lparr>kvm := v\<rparr>, ld_files := set_hmem (filled (PFN_TO_ADDR fr) 4096 0 (ld_mem ?s1)) t1\<rparr>"
  have i1: "io_idle (ft_io t1)" using t1(2) by (simp add: files_now_def)
  have "readable E f img (ld_files ?s2)"
    using readable_now [OF readable_now [OF file_ok t1(2)] set_hmem_now [OF i1]] by simp
  from readable_read [OF this, of "PFN_TO_ADDR fr" "ph_memsz ph" "ph_off ph"] obtain t3 where
    t3: "elf_fpread E f (PFN_TO_ADDR fr) (ph_memsz ph) (ph_off ph) ?s2 = returnO (word_of_nat (length ?seg), ?s2\<lparr>ld_files := t3\<rparr>)" by blast
  have "word_of_nat (length ?seg) \<noteq> ph_memsz ph"
  proof
    assume "word_of_nat (length ?seg) = ph_memsz ph"
    then have "unat (word_of_nat (length ?seg) :: uint64) = unat (ph_memsz ph)" by simp
    moreover have "length ?seg < 2 ^ 64" using len ph(3) by (simp add: word_less_iff_unat)
    ultimately show False using len by (simp add: unat_of_nat)
  qed
  then show ?thesis using t1(1) m1 ph(1,2) nowrap v t3 by (auto simp: Let_def)
qed

section \<open>Segments that are not aligned\<close>

lemma rwxu_flags: "rwxu OR PTE_V = 0xdf"
  by code_simp

lemma rwxu_frame: "page_aligned pa \<Longrightarrow> PTE2PA (PA2PTE pa OR rwxu OR PTE_V) = pa"
  using PTE2PA_PA2PTE [of pa "0xdf"] rwxu_flags by (simp add: or.assoc)

lemma range_two_pages:
  assumes "\<not> page_aligned va"
  shows "range_pages va PGSIZE = 2"
proof -
  let ?q = "unat va div 4096" and ?r = "unat va mod 4096"
  have r: "0 < ?r" using assms by (simp add: page_aligned_unat dvd_eq_mod_eq_0)
  have "unat va + 4096 - 1 = 4096 * (?q + 1) + (?r - 1)" using r by simp
  moreover have "?r - 1 < 4096" by (simp add: less_imp_diff_less)
  ultimately have "(unat va + 4096 - 1) div 4096 = ?q + 1" by (simp add: div_nat_eqI)
  then show ?thesis by (simp add: range_pages_def)
qed

lemma needs_two_pages: "needs m root [a, b] \<le> 4"
proof -
  have "needs m root [a, b] \<le> card {Mid (PX 2 a), leaf_path a, Mid (PX 2 b), leaf_path b}"
    unfolding needs_def by (intro card_mono) (auto simp: walk_paths_def)
  also have "\<dots> \<le> 4" by (simp add: card_insert_if)
  finally show ?thesis .
qed

lemma page_offset_nz: "\<not> page_aligned va \<Longrightarrow> page_aligned pa \<Longrightarrow> pa OR (va AND (PGSIZE - 1)) \<noteq> pa"
proof
  assume va: "\<not> page_aligned va" and pa: "page_aligned pa" and eq: "pa OR (va AND (PGSIZE - 1)) = pa"
  then have "pa + (va AND (PGSIZE - 1)) = pa" using page_offset_or [OF pa] by simp
  then show False using va by (simp add: page_aligned_def PGSIZE_mask)
qed


section \<open>A program file\<close>

text \<open>A host that serves reads from a file image at once.\<close>

definition file_serve :: "uint8 list \<Rightarrow> unit hstate \<Rightarrow> unit hstate" where
  "file_serve img s =
     (let args = magic_mem s; bs = chunk img (args ! 3) (args ! 4) in
      if hd args = HTIFSYS_pread
      then s\<lparr>hmem := put_bytes (args ! 2) bs (hmem s), magic_mem := word_of_nat (length bs) # tl args\<rparr> else s)"

definition file_env :: "uint8 list \<Rightarrow> unit henv" where
  "file_env img = \<lparr>he_at = \<lparr>at_read = id, at_set = (\<lambda>v _. v), at_binop = (\<lambda>op c. (c, op c))\<rparr>,
     he_host = (\<lambda>s. if tohost s = 0 then s else (file_serve img s)\<lparr>tohost := 0, fromhost := 1\<rparr>), he_magic = 0x80010000\<rparr>"

definition elf_files :: "unit ftable" where
  "elf_files = \<lparr>spike_files = spike_files_init[3 := \<lparr>kfd = 5, refcnt = 3\<rparr>], spike_fds = replicate MAX_FDS None, ft_sstatus = 2,
     ft_io = \<lparr>tohost = 0, fromhost = 0, htif_console_buf = 0, htif_lock = 0, magic_mem = replicate 8 0, fe_lock = 0,
       hmem = (\<lambda>_. 0), hdev = ()\<rparr>\<rparr>"

lemma prompt_host:
  assumes "magic \<noteq> 0" "\<And>s. htif_lock (serve s) = htif_lock s \<and> fe_lock (serve s) = fe_lock s"
  shows "host_serves (\<lambda>s. if tohost s = 0 then s else (serve s)\<lparr>tohost := 0, fromhost := 1\<rparr>) magic serve"
  unfolding host_serves_def using assms by (auto intro!: exI [of _ "0 :: nat"])

lemma elf_files_readable:
  assumes "length img < 2 ^ 63"
  shows "readable (file_env img) 3 img elf_files"
proof -
  have "host_serves (he_host (file_env img)) (he_magic (file_env img)) (file_serve img)"
    by (simp add: file_env_def prompt_host file_serve_def Let_def)
  moreover have "serves_file (file_serve img) 5 img"
    using assms by (simp add: serves_file_def file_serve_def Let_def)
  moreover have "kfd (spike_files elf_files ! 3) = 5" "io_idle (ft_io elf_files)"
    by (simp_all add: elf_files_def spike_files_init_def MAX_FILES_def io_idle_def)
  ultimately show ?thesis by (auto simp: readable_def file_env_def atomics_ok_def MAX_FILES_def)
qed

definition le32 :: "uint32 \<Rightarrow> uint8 list" where
  "le32 w = [ucast w, ucast (drop_bit 8 w), ucast (drop_bit 16 w), ucast (drop_bit 24 w)]"

definition le64 :: "uint64 \<Rightarrow> uint8 list" where
  "le64 w = le32 (ucast w) @ le32 (ucast (drop_bit 32 w))"

text \<open>A file with one program header, for a code segment of \<open>memsz\<close> bytes of which four are in the file.\<close>

definition sample_image :: "uint64 \<Rightarrow> uint8 list" where
  "sample_image memsz = le32 1 @ le32 5 @ le64 56 @ le64 0x10000 @ le64 0 @ le64 4 @ le64 memsz @ le64 0x1000 @ [0x13, 0, 0, 0]"

definition sample_header :: "uint64 \<Rightarrow> elf_prog_header" where
  "sample_header memsz = \<lparr>ph_type = 1, ph_flags = 5, ph_off = 56, ph_vaddr = 0x10000, ph_paddr = 0, ph_filesz = 4,
     ph_memsz = memsz, ph_align = 0x1000\<rparr>"

lemma sample_image_headers:
  "prog_header_of (chunk (sample_image 4) 56 0) = sample_header 4" "prog_header_of (chunk (sample_image 8) 56 0) = sample_header 8"
  "length (chunk (sample_image 4) 56 0) = 56" "length (chunk (sample_image 8) 56 0) = 56"
  "length (chunk (sample_image 4) 4 56) = 4" "length (sample_image 4) = 60" "length (sample_image 8) = 60"
  by code_simp+

definition elf_start :: "unit loader" where
  "elf_start = \<lparr>ld_kernel = running_kernel, ld_files = elf_files\<rparr>"

definition sample_frame :: elf_frame where
  "sample_frame = \<lparr>at_ehdr = 0x7000, at_ph = 0x8000, at_args = 0x9000\<rparr>"

lemma running_elf:
  obtains pr ps fr where "procs running_kernel ! 0 = pr" "first_region 0 running_kernel 4" "0 < length (procs running_kernel)"
    "vm_ok (pagetable pr) (kvm running_kernel)" "ram_ok (kpmm running_kernel)" "cached_pages (kpmm running_kernel) = ps @ [fr]"
    "20 \<le> length ps" "\<And>va. va < MAXVA \<Longrightarrow> unat va < 0x7fff0000 \<Longrightarrow> \<not> pte_valid (pte_of (kmem running_kernel) (pagetable pr) va)"
proof -
  from running_facts obtain tf dir ks us mi v where r: "is_running tf dir ks us mi v" by blast
  note sp = running_space [OF r]
  have k: "kvm running_kernel = v" "length (procs running_kernel) = 32" "21 \<le> page_supply v"
    "procs running_kernel ! 0 = (new_process tf dir ks mi zero_process)\<lparr>status := RUNNING\<rparr>"
    "minfos running_kernel mi = new_regions tf 0x80002000 @ replicate 252 zero_region"
    using r by (simp_all add: is_running_def)
  have p: "pagetable (procs running_kernel ! 0) = dir" "mapped_info (procs running_kernel ! 0) = mi"
    using k(4) by (simp_all add: new_process_def)
  obtain ps fr where c: "cached_pages (vpmm v) = ps @ [fr]" using k(3) by (cases "cached_pages (vpmm v)" rule: rev_cases) auto
  have un: "\<not> pte_valid (pte_of (vmem v) dir va)" if "va < MAXVA" "unat va < 0x7fff0000" for va
  proof -
    let ?f = "ROUNDDOWN va PGSIZE"
    have f: "unat ?f \<le> unat va" "unat va < unat ?f + 4096" by (simp_all add: unat_ROUNDDOWN_page)
    then have m: "?f < MAXVA" "unat ?f < 0x7fffe000" using that unfolding unat_less_maxva by simp_all
    have "same_page ?f va" using same_page_range [OF page_aligned_ROUNDDOWN m(1) that(1)] f by simp
    from same_page_entry [OF this, of "vmem v" dir] sp(9) [OF m(1) page_aligned_ROUNDDOWN m(2)] show ?thesis by simp
  qed
  let ?rs = "new_regions tf 0x80002000 @ replicate 252 zero_region"
  have len: "length (new_regions tf 0x80002000) = 4" by (simp add: new_regions_def)
  have "\<forall>r \<in> set (new_regions tf 0x80002000). mr_va r \<noteq> 0"
    using sp(4) ustack_facts(2) by (auto simp: new_regions_def USER_FREE_ADDRESS_START_def PGSIZE_def)
  then have "mr_va (?rs ! h) \<noteq> 0" if "h < 4" for h
    using that len nth_mem [of h "new_regions tf 0x80002000"] by (auto simp: nth_append)
  moreover have "mr_va (?rs ! 4) = 0" using len by (simp add: nth_append zero_region_def)
  ultimately have "first_region 0 running_kernel 4"
    using k(2,5) p(2) sp(5) len by (simp add: first_region_def REGIONS_PER_PAGE_def Let_def)
  then show thesis using that [of "procs running_kernel ! 0" ps fr] k sp(1,2) p c un by simp
qed

lemma elf_load_errors_witness:
  "\<exists>t. elf_load_loop (file_env []) sample_frame 3 0 (Suc 0) 0 elf_start = returnO (EL_EIO, elf_start\<lparr>ld_files := t\<rparr>)"
proof -
  have "readable (file_env []) 3 [] (ld_files elf_start)" using elf_files_readable [of "[]"] by (simp add: elf_start_def)
  from elf_load_errors [OF this, of 0 "[]" "prog_header_of []" sample_frame 0 0] show ?thesis
    by (simp add: chunk_def del: elf_load_loop.simps(2))
qed

theorem elf_bss_fails_witness:
  "\<exists>s'. elf_load_loop (file_env (sample_image 8)) sample_frame 3 0 (Suc 0) 0 elf_start = returnO (EL_EIO, s')"
proof (rule running_elf)
  fix pr ps fr
  assume r: "procs running_kernel ! 0 = pr" "first_region 0 running_kernel 4" "0 < length (procs running_kernel)"
    "vm_ok (pagetable pr) (kvm running_kernel)" "ram_ok (kpmm running_kernel)" "cached_pages (kpmm running_kernel) = ps @ [fr]"
    "20 \<le> length ps" "\<And>va. va < MAXVA \<Longrightarrow> unat va < 0x7fff0000 \<Longrightarrow> \<not> pte_valid (pte_of (kmem running_kernel) (pagetable pr) va)"
  have f: "readable (file_env (sample_image 8)) 3 (sample_image 8) (ld_files elf_start)"
    using elf_files_readable sample_image_headers(7) by (simp add: elf_start_def)
  have va: "(0x10000 :: uint64) < MAXVA" "page_aligned 0x10000" by (simp_all add: unat_less_maxva page_aligned_unat)
  have "missing_tables (kmem running_kernel) (pagetable pr) 0x10000 \<le> length ps"
    using missing_le_2 [of "kmem running_kernel" "pagetable pr" "0x10000"] r(7) by simp
  then show ?thesis
    using elf_bss_fails [OF f, of 0 "sample_header 8" running_kernel 0 pr ps fr
        sample_frame 0]
      sample_image_headers(2,4,7) r va
    by (simp add: elf_start_def sample_header_def ELF_PROG_LOAD_def PGSIZE_def del: elf_load_loop.simps(2))
qed


end
