(* ===== verification/Pke_Load.thy ===== *)
theory Pke_Load
  imports Pke_Elf_Thms
begin

text \<open>
  Loading a whole program, \<^verbatim>\<open>load_bincode_from_host_elf\<close> of \<^verbatim>\<open>kernel/elf.c\<close>: the arguments, the file, its header, and
  every segment of its program headers in turn. The lemmas end with \<open>load_bincode_ok\<close>, which says where each segment of
  a file that the loader accepts is afterwards.
\<close>

section \<open>Loading a program\<close>

text \<open>A file with the program headers \<open>phs\<close> from an offset on.\<close>

fun has_headers :: "uint8 list \<Rightarrow> uint32 \<Rightarrow> elf_prog_header list \<Rightarrow> bool" where
  "has_headers img off [] = True"
| "has_headers img off (ph # phs) =
     (length (chunk img 56 (scast off)) = 56 \<and> prog_header_of (chunk img 56 (scast off)) = ph \<and> has_headers img (off + 56) phs)"

abbreviation loads :: "elf_prog_header list \<Rightarrow> elf_prog_header list" where
  "loads \<equiv> filter (\<lambda>ph. ph_type ph = ELF_PROG_LOAD)"

text \<open>The frame \<open>pa\<close> holds the bytes \<open>bs\<close> and then zeros; the segment \<open>ph\<close> is mapped to such a frame.\<close>

definition frame_holds :: "uint8 list \<Rightarrow> kernel \<Rightarrow> uint64 \<Rightarrow> bool" where
  "frame_holds bs k pa \<longleftrightarrow> (\<forall>i<512. kmem k (pte_addr pa i) = load_word (8 * i) (put_bytes 0 bs (\<lambda>_. 0)))"

definition loaded_at :: "uint8 list \<Rightarrow> uint64 \<Rightarrow> kernel \<Rightarrow> elf_prog_header \<Rightarrow> uint64 \<Rightarrow> bool" where
  "loaded_at img root k ph pa \<longleftrightarrow> pte_of (kmem k) root (ph_vaddr ph) = PA2PTE pa OR rwxu OR PTE_V \<and>
     frame_holds (chunk img (ph_memsz ph) (ph_off ph)) k pa"

definition seg_region :: "elf_prog_header \<Rightarrow> mapped_region" where
  "seg_region ph = \<lparr>mr_va = ph_vaddr ph, mr_npages = 1, mr_seg_type = the (seg_kind (ph_flags ph))\<rparr>"

text \<open>The region table of a process: the entries below \<open>j\<close> are used, the others free, and \<open>n\<close> more fit.\<close>

definition region_room :: "nat \<Rightarrow> kernel \<Rightarrow> nat \<Rightarrow> nat \<Rightarrow> bool" where
  "region_room p k j n \<longleftrightarrow>
     (let rs = minfos k (mapped_info (procs k ! p)) in
      p < length (procs k) \<and> mapped_info (procs k ! p) \<noteq> 0 \<and> length rs = REGIONS_PER_PAGE \<and> j + n \<le> REGIONS_PER_PAGE \<and>
      (\<forall>h<j. mr_va (rs ! h) \<noteq> 0) \<and> (\<forall>h<REGIONS_PER_PAGE. j \<le> h \<longrightarrow> mr_va (rs ! h) = 0))"

lemma region_room_first: "region_room p k j (Suc n) \<Longrightarrow> first_region p k j"
  by (simp add: region_room_def first_region_def Let_def)

lemma keeps_frame_holds:
  assumes "keeps_frames root (kvm k) (kvm k')" "held root (kvm k) pa" "frame_holds bs k pa"
  shows "frame_holds bs k' pa"
  using assms pte_addr_offset [of _ pa] by (simp add: keeps_frames_def frame_holds_def)

text \<open>The segments \<open>phs\<close> of a file loaded into the process \<open>p\<close>, to the frames \<open>pas\<close>.\<close>

definition program_loaded ::
  "uint8 list \<Rightarrow> nat \<Rightarrow> nat \<Rightarrow> elf_prog_header list \<Rightarrow> uint64 list \<Rightarrow> kernel \<Rightarrow> kernel \<Rightarrow> bool" where
  "program_loaded img p j phs pas k k' \<longleftrightarrow>
     (let pr = procs k ! p; root = pagetable pr; mi = mapped_info pr in
      vm_ok root (kvm k') \<and> distinct pas \<and> list_all2 (loaded_at img root k') phs pas \<and>
      (\<forall>pa\<in>set pas. page_aligned pa \<and> held root (kvm k') pa \<and> \<not> held root (kvm k) pa) \<and> keeps_frames root (kvm k) (kvm k') \<and>
      (\<forall>va<MAXVA. (\<forall>ph\<in>set phs. \<not> same_page (ph_vaddr ph) va) \<longrightarrow> pte_of (kmem k') root va = pte_of (kmem k) root va) \<and>
      procs k' = (procs k)[p := pr\<lparr>total_mapped_region := total_mapped_region pr + length phs\<rparr>] \<and>
      minfos k' = (minfos k)(mi := take j (minfos k mi) @ map seg_region phs @ drop (j + length phs) (minfos k mi)) \<and>
      tframes k' = tframes k)"


text \<open>The bytes of memory that the loader does not write: neither the program header nor a free frame.\<close>

definition scratch_apart :: "elf_frame \<Rightarrow> kernel \<Rightarrow> uint64 \<Rightarrow> bool" where
  "scratch_apart F k q \<longleftrightarrow> \<not> q - at_ph F < 56 \<and> (\<forall>fr\<in>set (cached_pages (kpmm k)). \<not> q - PFN_TO_ADDR fr < PGSIZE)"

lemma scratch_apart_mono:
  "scratch_apart F k q \<Longrightarrow> set (cached_pages (kpmm k')) \<subseteq> set (cached_pages (kpmm k)) \<Longrightarrow> scratch_apart F k' q"
  by (auto simp: scratch_apart_def)

text \<open>One segment, as \<open>program_loaded\<close> and the hypotheses of the next one state it.\<close>

lemma load_one:
  fixes E :: "'d henv"
  assumes file_ok: "readable E f img (ld_files s)"
    and hdr: "length (chunk img 56 (scast off)) = 56" "prog_header_of (chunk img 56 (scast off)) = ph" and ph: "good_segment img ph"
    and k: "ld_kernel s = k" "region_room p k j (Suc n)" "vm_ok root (kvm k)" "ram_ok (kpmm k)" "root = pagetable (procs k ! p)"
    and un: "\<not> pte_valid (pte_of (kmem k) root (ph_vaddr ph))" and c: "3 \<le> page_supply (kvm k)"
  shows "\<exists>s' pa. elf_load_loop E F f p (Suc m) off s = elf_load_loop E F f p m (off + 56) s' \<and>
    files_now (ld_files s) (ld_mem s') (ld_files s') \<and> program_loaded img p j [ph] [pa] k (ld_kernel s') \<and>
    region_room p (ld_kernel s') (Suc j) n \<and> ram_ok (kpmm (ld_kernel s')) \<and>
    page_supply (kvm k) \<le> page_supply (kvm (ld_kernel s')) + 3 \<and>
    (\<forall>va<MAXVA. \<not> same_page (ph_vaddr ph) va \<longrightarrow> pte_of (kmem (ld_kernel s')) root va = pte_of (kmem k) root va) \<and>
    set (cached_pages (kpmm (ld_kernel s'))) \<subseteq> set (cached_pages (kpmm k)) \<and>
    (\<forall>q. scratch_apart F k q \<longrightarrow> ld_mem s' q = ld_mem s q)"
proof -
  let ?pr = "procs k ! p" and ?va = "ph_vaddr ph"
  obtain ps fr where ps: "cached_pages (kpmm k) = ps @ [fr]" using c by (cases "cached_pages (kpmm k)" rule: rev_cases) auto
  have ms: "missing_tables (kmem k) root ?va \<le> 2" by (rule missing_le_2)
  let ?pa = "PFN_TO_ADDR fr"
  from load_segment_ok [OF file_ok hdr ph k(1) refl region_room_first [OF k(2)], of ps fr F m] k(3-5) un ps ms c obtain s' where
    s': "elf_load_loop E F f p (Suc m) off s = elf_load_loop E F f p m (off + 56) s'" "files_now (ld_files s) (ld_mem s') (ld_files s')"
    and v: "vm_ok root (kvm (ld_kernel s'))"
      "\<forall>va'<MAXVA. pte_of (kmem (ld_kernel s')) root va' = (if same_page ?va va' then PA2PTE ?pa OR rwxu OR PTE_V else pte_of (kmem k) root va')"
      "frame_holds (chunk img (ph_memsz ph) (ph_off ph)) (ld_kernel s') ?pa"
      "procs (ld_kernel s') = (procs k)[p := ?pr\<lparr>total_mapped_region := total_mapped_region ?pr + 1\<rparr>]"
      "minfos (ld_kernel s') = (minfos k)(mapped_info ?pr := (minfos k (mapped_info ?pr))[j := seg_region ph])"
      "page_supply (kvm (ld_kernel s')) = length ps - missing_tables (kmem k) root ?va" "ram_ok (kpmm (ld_kernel s'))"
      "keeps_frames root (kvm k) (kvm (ld_kernel s'))" "held root (kvm (ld_kernel s')) ?pa" "tframes (ld_kernel s') = tframes k"
      "set (cached_pages (kpmm (ld_kernel s'))) \<subseteq> set ps"
      "\<forall>q. \<not> q - at_ph F < 56 \<longrightarrow> \<not> q - ?pa < PGSIZE \<longrightarrow> ld_mem s' q = ld_mem s q"
    unfolding Let_def seg_region_def frame_holds_def by auto
  have rm: "p < length (procs k)" "length (minfos k (mapped_info ?pr)) = REGIONS_PER_PAGE" "j < REGIONS_PER_PAGE"
    using k(2) by (simp_all add: region_room_def Let_def)
  have g: "0 < ?va" "?va < MAXVA" using ph by (simp_all add: good_segment_def)
  have "loaded_at img root (ld_kernel s') ph ?pa" using v(2,3) g(2) same_page_refl by (simp add: loaded_at_def)
  moreover have "\<not> held root (kvm k) ?pa" "page_aligned ?pa" using ps v(9) by (auto simp: held_def)
  moreover have "take j rs @ seg_region ph # drop (Suc j) rs = rs[j := seg_region ph]" if "j < length rs" for rs
    using that by (simp add: upd_conv_take_nth_drop)
  ultimately have "program_loaded img p j [ph] [?pa] k (ld_kernel s')"
    using v k(5) rm by (simp add: program_loaded_def Let_def)
  moreover have "region_room p (ld_kernel s') (Suc j) n"
    using k(2) v(4,5) g(1) rm by (auto simp: region_room_def Let_def nth_list_update less_Suc_eq seg_region_def)
  moreover have "page_supply (kvm k) \<le> page_supply (kvm (ld_kernel s')) + 3" using v(6) ps ms by simp
  moreover have "\<forall>q. scratch_apart F k q \<longrightarrow> ld_mem s' q = ld_mem s q" using v(12) ps by (simp add: scratch_apart_def)
  moreover have "set (cached_pages (kpmm (ld_kernel s'))) \<subseteq> set (cached_pages (kpmm k))" using v(11) ps by auto
  ultimately show ?thesis using s' v(2,7) by (intro exI [of _ s'] exI [of _ ?pa]) simp
qed

lemma program_loaded_Nil [simp]: "program_loaded img p j [] [] k k \<longleftrightarrow> vm_ok (pagetable (procs k ! p)) (kvm k)"
  by (simp add: program_loaded_def Let_def)

lemma program_loaded_Cons:
  assumes a: "program_loaded img p j [ph] [pa] k k1" and b: "program_loaded img p (Suc j) phs pas k1 k'"
    and r: "region_room p k j (Suc (length phs))" and d: "ph_vaddr ph < MAXVA" "\<forall>q\<in>set phs. \<not> same_page (ph_vaddr q) (ph_vaddr ph)"
  shows "program_loaded img p j (ph # phs) (pa # pas) k k'"
proof -
  let ?pr = "procs k ! p"
  let ?root = "pagetable ?pr" and ?mi = "mapped_info ?pr"
  have rm: "p < length (procs k)" "length (minfos k ?mi) = REGIONS_PER_PAGE" "j + Suc (length phs) \<le> REGIONS_PER_PAGE"
    using r by (simp_all add: region_room_def Let_def)
  have p1: "procs k1 ! p = ?pr\<lparr>total_mapped_region := total_mapped_region ?pr + 1\<rparr>"
    using a rm by (simp add: program_loaded_def Let_def)
  have A: "loaded_at img ?root k1 ph pa" "held ?root (kvm k1) pa" "\<not> held ?root (kvm k) pa" "page_aligned pa"
    "keeps_frames ?root (kvm k) (kvm k1)" "procs k1 = (procs k)[p := ?pr\<lparr>total_mapped_region := total_mapped_region ?pr + 1\<rparr>]"
    "minfos k1 = (minfos k)(?mi := take j (minfos k ?mi) @ seg_region ph # drop (Suc j) (minfos k ?mi))" "tframes k1 = tframes k"
    "\<forall>va<MAXVA. \<not> same_page (ph_vaddr ph) va \<longrightarrow> pte_of (kmem k1) ?root va = pte_of (kmem k) ?root va"
    using a by (simp_all add: program_loaded_def Let_def)
  have B: "vm_ok ?root (kvm k')" "distinct pas" "list_all2 (loaded_at img ?root k') phs pas"
    "\<forall>pa\<in>set pas. page_aligned pa \<and> held ?root (kvm k') pa \<and> \<not> held ?root (kvm k1) pa" "keeps_frames ?root (kvm k1) (kvm k')"
    "\<forall>va<MAXVA. (\<forall>q\<in>set phs. \<not> same_page (ph_vaddr q) va) \<longrightarrow> pte_of (kmem k') ?root va = pte_of (kmem k1) ?root va"
    "procs k' = (procs k1)[p := (procs k1 ! p)\<lparr>total_mapped_region := total_mapped_region (procs k1 ! p) + length phs\<rparr>]"
    "minfos k' = (minfos k1)(?mi := take (Suc j) (minfos k1 ?mi) @ map seg_region phs @ drop (Suc j + length phs) (minfos k1 ?mi))"
    "tframes k' = tframes k1"
    using b p1 by (simp_all add: program_loaded_def Let_def)
  have "keeps_frames ?root (kvm k) (kvm k')" by (rule keeps_frames_trans [OF A(5) B(5)])
  moreover have "held ?root (kvm k') pa" using A(2) B(5) by (simp add: keeps_frames_def)
  moreover have "pa \<notin> set pas" using A(2) B(4) by blast
  moreover have "\<not> held ?root (kvm k) q" if "q \<in> set pas" for q using B(4) A(5) that by (auto simp: keeps_frames_def)
  moreover have "loaded_at img ?root k' ph pa"
    using A(1) B(6) d keeps_frame_holds [OF B(5) A(2)] by (simp add: loaded_at_def)
  moreover have "procs k' = (procs k)[p := ?pr\<lparr>total_mapped_region := total_mapped_region ?pr + length (ph # phs)\<rparr>]"
    using B(7) A(6) p1 by simp
  moreover have "minfos k' = (minfos k)(?mi := take j (minfos k ?mi) @ map seg_region (ph # phs) @ drop (j + length (ph # phs)) (minfos k ?mi))"
    using B(8) A(7) rm by (simp add: add.commute)
  ultimately show ?thesis using A B by (simp add: program_loaded_def Let_def)
qed

text \<open>The program headers of a file that the loader accepts: the segments to load have one page each, all different.\<close>

definition good_program :: "uint8 list \<Rightarrow> elf_prog_header list \<Rightarrow> bool" where
  "good_program img phs \<longleftrightarrow> (\<forall>ph\<in>set (loads phs). good_segment img ph) \<and> distinct (map ph_vaddr (loads phs))"

lemma good_pages_differ:
  assumes "good_segment img ph" "good_segment img q" "ph_vaddr ph \<noteq> ph_vaddr q"
  shows "\<not> same_page (ph_vaddr q) (ph_vaddr ph)"
  using assms same_page_aligned [of "ph_vaddr q" "ph_vaddr ph"] by (auto simp: good_segment_def)

text \<open>A header of another type is skipped.\<close>

lemma skip_header:
  assumes "readable E f img (ld_files s)" "length (chunk img 56 (scast off)) = 56" "prog_header_of (chunk img 56 (scast off)) = ph"
    and "ph_type ph \<noteq> ELF_PROG_LOAD"
  shows "\<exists>t. elf_load_loop E F f p (Suc n) off s = elf_load_loop E F f p n (off + 56) (s\<lparr>ld_files := t\<rparr>) \<and>
    files_now (ld_files s) (hmem (ft_io t)) t \<and> (\<forall>q. scratch_apart F (ld_kernel s) q \<longrightarrow> hmem (ft_io t) q = ld_mem s q)"
proof -
  from readable_read [OF assms(1), of "at_ph F" 56 "scast off"] assms(2) obtain t where
    t: "elf_fpread E f (at_ph F) 56 (scast off) s = returnO (56, s\<lparr>ld_files := t\<rparr>)"
      "files_now (ld_files s) (put_bytes (at_ph F) (chunk img 56 (scast off)) (ld_mem s)) t" by auto
  have "prog_header_at (at_ph F) (hmem (ft_io t)) = ph" using t(2) prog_header_put [OF assms(2)] assms(3) by (simp add: files_now_def)
  then have "elf_load_loop E F f p (Suc n) off s = elf_load_loop E F f p n (off + 56) (s\<lparr>ld_files := t\<rparr>)"
    using t(1) assms(4) by (simp add: Let_def)
  moreover have "hmem (ft_io t) q = ld_mem s q" if "scratch_apart F (ld_kernel s) q" for q
    using t(2) assms(2) that by (simp add: files_now_def put_bytes_def scratch_apart_def word_less_iff_unat)
  ultimately show ?thesis using t(2) by (intro exI [of _ t]) (simp add: files_now_def del: elf_load_loop.simps)
qed

lemma load_headers_ok:
  fixes E :: "'d henv"
  assumes "readable E f img (ld_files s)" "has_headers img off phs" "good_program img phs"
    and "region_room p (ld_kernel s) j (length (loads phs))" "root = pagetable (procs (ld_kernel s) ! p)"
    and "vm_ok root (kvm (ld_kernel s))" "ram_ok (kpmm (ld_kernel s))"
    and "\<forall>ph\<in>set (loads phs). \<not> pte_valid (pte_of (kmem (ld_kernel s)) root (ph_vaddr ph))"
    and "3 * length (loads phs) \<le> page_supply (kvm (ld_kernel s))"
  shows "\<exists>s' pas. elf_load_loop E F f p (length phs) off s = returnO (EL_OK, s') \<and>
    files_now (ld_files s) (ld_mem s') (ld_files s') \<and> program_loaded img p j (loads phs) pas (ld_kernel s) (ld_kernel s') \<and>
    (\<forall>q. scratch_apart F (ld_kernel s) q \<longrightarrow> ld_mem s' q = ld_mem s q)"
  using assms
proof (induction phs arbitrary: off s j)
  case Nil
  then have "files_now (ld_files s) (ld_mem s) (ld_files s)" by (simp add: readable_def files_now_def)
  then show ?case using Nil.prems by (intro exI [of _ s] exI [of _ "[]"]) simp
next
  case (Cons ph phs)
  have h: "length (chunk img 56 (scast off)) = 56" "prog_header_of (chunk img 56 (scast off)) = ph" "has_headers img (off + 56) phs"
    using Cons.prems(2) by simp_all
  show ?case
  proof (cases "ph_type ph = ELF_PROG_LOAD")
    case False
    from skip_header [OF Cons.prems(1) h(1,2) False, of F p "length phs"] obtain t where
      t: "elf_load_loop E F f p (Suc (length phs)) off s = elf_load_loop E F f p (length phs) (off + 56) (s\<lparr>ld_files := t\<rparr>)"
        "files_now (ld_files s) (hmem (ft_io t)) t" "\<forall>q. scratch_apart F (ld_kernel s) q \<longrightarrow> hmem (ft_io t) q = ld_mem s q" by blast
    let ?s = "s\<lparr>ld_files := t\<rparr>"
    have "readable E f img (ld_files ?s)" using readable_now [OF Cons.prems(1) t(2)] by simp
    from Cons.IH [OF this h(3), of j] Cons.prems(3-) False obtain s' pas where
      "elf_load_loop E F f p (length phs) (off + 56) ?s = returnO (EL_OK, s')" "files_now t (ld_mem s') (ld_files s')"
      "program_loaded img p j (loads phs) pas (ld_kernel s) (ld_kernel s')"
      "\<forall>q. scratch_apart F (ld_kernel s) q \<longrightarrow> ld_mem s' q = ld_mem ?s q" by (auto simp: good_program_def)
    then show ?thesis using False t(1,3) files_now_trans [OF t(2)]
      by (intro exI [of _ s'] exI [of _ pas]) (simp del: elf_load_loop.simps)
  next
    case True
    have g: "good_segment img ph" "good_program img phs" "\<forall>q\<in>set (loads phs). good_segment img q \<and> ph_vaddr ph \<noteq> ph_vaddr q"
      using Cons.prems(3) True by (auto simp: good_program_def)
    have room: "region_room p (ld_kernel s) j (Suc (length (loads phs)))" "\<not> pte_valid (pte_of (kmem (ld_kernel s)) root (ph_vaddr ph))"
      "3 \<le> page_supply (kvm (ld_kernel s))" using Cons.prems True by simp_all
    from load_one [OF Cons.prems(1) h(1,2) g(1) refl room(1) Cons.prems(6,7,5) room(2,3), of F "length phs"] obtain s1 pa where
      one: "elf_load_loop E F f p (Suc (length phs)) off s = elf_load_loop E F f p (length phs) (off + 56) s1"
        "files_now (ld_files s) (ld_mem s1) (ld_files s1)" "program_loaded img p j [ph] [pa] (ld_kernel s) (ld_kernel s1)"
        "region_room p (ld_kernel s1) (Suc j) (length (loads phs))" "ram_ok (kpmm (ld_kernel s1))"
        "page_supply (kvm (ld_kernel s)) \<le> page_supply (kvm (ld_kernel s1)) + 3"
        "\<forall>va<MAXVA. \<not> same_page (ph_vaddr ph) va \<longrightarrow> pte_of (kmem (ld_kernel s1)) root va = pte_of (kmem (ld_kernel s)) root va"
        "set (cached_pages (kpmm (ld_kernel s1))) \<subseteq> set (cached_pages (kpmm (ld_kernel s)))"
        "\<forall>q. scratch_apart F (ld_kernel s) q \<longrightarrow> ld_mem s1 q = ld_mem s q"
      by blast
    have p: "p < length (procs (ld_kernel s))" using room(1) by (simp add: region_room_def Let_def)
    have r1: "root = pagetable (procs (ld_kernel s1) ! p)" "vm_ok root (kvm (ld_kernel s1))"
      using one(3) Cons.prems(5) p by (auto simp: program_loaded_def Let_def)
    have apart: "\<forall>q\<in>set (loads phs). \<not> same_page (ph_vaddr q) (ph_vaddr ph) \<and> \<not> same_page (ph_vaddr ph) (ph_vaddr q)"
      using good_pages_differ g(1,3) by metis
    have "\<forall>q\<in>set (loads phs). \<not> pte_valid (pte_of (kmem (ld_kernel s1)) root (ph_vaddr q))"
      using one(7) apart Cons.prems(8) g(3) by (auto simp: good_segment_def)
    from Cons.IH [OF readable_now [OF Cons.prems(1) one(2)] h(3) g(2) one(4) r1 one(5) this] one(6) Cons.prems(9) True obtain s' pas where
      s': "elf_load_loop E F f p (length phs) (off + 56) s1 = returnO (EL_OK, s')" "files_now (ld_files s1) (ld_mem s') (ld_files s')"
        "program_loaded img p (Suc j) (loads phs) pas (ld_kernel s1) (ld_kernel s')"
        "\<forall>q. scratch_apart F (ld_kernel s1) q \<longrightarrow> ld_mem s' q = ld_mem s1 q" by auto
    have "program_loaded img p j (ph # loads phs) (pa # pas) (ld_kernel s) (ld_kernel s')"
      by (rule program_loaded_Cons [OF one(3) s'(3) room(1)]) (use g(1) apart in \<open>auto simp: good_segment_def\<close>)
    moreover have "\<forall>q. scratch_apart F (ld_kernel s) q \<longrightarrow> ld_mem s' q = ld_mem s q"
      using s'(4) one(9) scratch_apart_mono [OF _ one(8)] by simp
    ultimately show ?thesis using one(1) s'(1) True files_now_trans [OF one(2) s'(2)]
      by (intro exI [of _ s'] exI [of _ "pa # pas"]) (simp del: elf_load_loop.simps)
  qed
qed

section \<open>The program on the command line\<close>

text \<open>What \<^verbatim>\<open>parse_args\<close> does to the argument vector: the entries move down by two words.\<close>

definition moved_args :: "uint64 \<Rightarrow> nat \<Rightarrow> nat \<Rightarrow> bytes \<Rightarrow> bytes" where
  "moved_args a i n m = (\<lambda>q. if 8 * i \<le> unat (q - a) \<and> unat (q - a) < 8 * n then m (q + 16) else m q)"

lemma args_step:
  assumes "i < n" "n \<le> 62"
  shows "moved_args a (Suc i) n (store_word (a + 8 * word_of_nat i) (load_word (a + 8 * word_of_nat (i + 2)) m) m) = moved_args a i n m"
proof
  fix q
  let ?d = "a + 8 * word_of_nat i" and ?u = "unat (q - a)"
  have off: "unat (8 * word_of_nat i :: uint64) = 8 * i" using assms by (subst unat_mult_noof) (simp_all add: unat_of_nat)
  have s: "a + 8 * word_of_nat (i + 2) = ?d + 16" by (simp add: algebra_simps)
  have here: "unat (p - ?d) < 8 \<longleftrightarrow> 8 * i \<le> unat (p - a) \<and> unat (p - a) < 8 * i + 8" for p
  proof -
    have d: "p - ?d = (p - a) - 8 * word_of_nat i" by simp
    show ?thesis
    proof (cases "8 * word_of_nat i \<le> p - a")
      case True
      then have "unat (p - ?d) = unat (p - a) - 8 * i" unfolding d using off by (subst unat_sub) simp_all
      then show ?thesis using True off by (auto simp: word_le_iff_unat)
    next
      case False
      then have "unat (p - ?d) = 2 ^ 64 + unat (p - a) - 8 * i" unfolding d using off
        by (subst unat_sub_if') (simp add: word_le_iff_unat)
      then show ?thesis using False off assms by (auto simp: word_le_iff_unat)
    qed
  qed
  have sl: "store_word ?d (load_word (?d + 16) m) m p = (if unat (p - ?d) < 8 then m (p + 16) else m p)" for p
    using fun_cong [OF store_loaded [of ?d "?d + 16" m], of p] by (simp add: copied_def algebra_simps)
  have "unat (q + 16 - a) = ?u + 16" if "?u < 8 * n"
  proof -
    have "unat (q - a + 16) = unat (q - a) + unat (16 :: uint64)" using that assms(2) by (intro unat_add_noof) simp
    then show ?thesis unfolding diff_add_eq by simp
  qed
  then show "moved_args a (Suc i) n (store_word ?d (load_word (a + 8 * word_of_nat (i + 2)) m) m) q = moved_args a i n m q"
    unfolding s using assms by (auto simp: moved_args_def sl here)
qed

lemma args_loop_ok: "i + n \<le> 62 \<Longrightarrow> args_loop a i n m = Inr (moved_args a i (i + n) m)"
proof (induction n arbitrary: i m)
  case 0
  then show ?case by (auto simp: moved_args_def fun_eq_iff)
next
  case (Suc n)
  have "i + 2 < MAX_CMDLINE_ARGS" using Suc.prems by (simp add: MAX_CMDLINE_ARGS_def)
  then show ?case using Suc.IH [of "Suc i"] Suc.prems args_step [of i "Suc i + n" a m] by simp
qed

lemma load_word_cong: "(\<And>i. unat i < 8 \<Longrightarrow> m (a + i) = m' (b + i)) \<Longrightarrow> load_word a m = load_word b m'"
proof -
  assume *: "\<And>i. unat i < 8 \<Longrightarrow> m (a + i) = m' (b + i)"
  from *[of 0] *[of 1] *[of 2] *[of 3] *[of 4] *[of 5] *[of 6] *[of 7] show ?thesis by (simp add: load_word_def)
qed

lemma moved_first: "0 < n \<Longrightarrow> load_word a (moved_args a 0 n m) = load_word (a + 16) m"
  by (rule load_word_cong) (simp add: moved_args_def ac_simps)

text \<open>
  The arguments as the host leaves them at \<open>a\<close>: their number, the argument vector, in which the second entry points to
  the name of the program, and the name, behind the vector.
\<close>

definition args_given :: "uint64 \<Rightarrow> uint64 \<Rightarrow> bytes \<Rightarrow> bool" where
  "args_given a fn m \<longleftrightarrow> 2 \<le> unat (load_word a m) \<and> unat (load_word a m) \<le> 63 \<and> load_word (a + 16) m = fn \<and>
     (\<exists>name. cstr (moved_args a 0 (unat (load_word a m) - 1) m) fn name)"

definition serves_args :: "('d hstate \<Rightarrow> 'd hstate) \<Rightarrow> uint64 \<Rightarrow> uint64 \<Rightarrow> bool" where
  "serves_args serve a fn \<longleftrightarrow> (\<forall>s. magic_mem s = [HTIFSYS_getmainvars, a, 512, 0, 0, 0, 0, 0] \<longrightarrow>
     (\<exists>m r. serve s = s\<lparr>hmem := m, magic_mem := 0 # r\<rparr> \<and> args_given a fn m))"

text \<open>The host opens the program \<open>fn\<close> as \<open>fd\<close>.\<close>

definition serves_open :: "('d hstate \<Rightarrow> 'd hstate) \<Rightarrow> uint64 \<Rightarrow> int \<Rightarrow> bool" where
  "serves_open serve fn fd \<longleftrightarrow> 0 \<le> fd \<and> fd < 128 \<and>
     (\<forall>s n. magic_mem s = [HTIFSYS_openat, word_of_int AT_FDCWD, fn, n, 0, 0, 0, 0] \<longrightarrow>
        (\<exists>r. serve s = s\<lparr>magic_mem := word_of_int fd # r\<rparr>))"

lemma parse_args_ok:
  assumes "atomics_ok (he_at E)" "host_serves (he_host E) (he_magic E) serve" "io_idle (ft_io (ld_files s))"
    and "serves_args serve (at_args F) fn"
  shows "\<exists>argc t m name. parse_args E F s = returnO (argc, s\<lparr>ld_files := t\<rparr>) \<and> argc \<noteq> 0 \<and> files_now (ld_files s) m t \<and>
    load_word (at_args F) m = fn \<and> cstr m fn name"
proof -
  let ?args = "[HTIFSYS_getmainvars, at_args F, 512, 0, 0, 0, 0, 0]"
  let ?io = "(ft_io (ld_files s))\<lparr>fe_lock := -1, magic_mem := ?args, htif_lock := -1, tohost := he_magic E\<rparr>"
  from assms(4) obtain m r where m: "serve ?io = ?io\<lparr>hmem := m, magic_mem := 0 # r\<rparr>" "args_given (at_args F) fn m"
    unfolding serves_args_def by (elim allE [of _ ?io]) auto
  let ?n = "load_word (at_args F) m"
  let ?t = "(ld_files s)\<lparr>ft_io := snd (served E serve ?args (ft_io (ld_files s)))\<rparr>"
  have sv: "fst (served E serve ?args (ft_io (ld_files s))) = 0" "hmem (ft_io ?t) = m" using m(1) by (simp_all add: served_def Let_def)
  have n: "2 \<le> unat ?n" "unat ?n \<le> 63" using m(2) by (simp_all add: args_given_def)
  let ?m = "moved_args (at_args F) 0 (unat ?n - 1) m"
  have "args_loop (at_args F) 0 (unat ?n - 1) m = Inr ?m" using args_loop_ok [of 0 "unat ?n - 1"] n by simp
  then have p: "parse_args E F s = returnO (?n - 1, s\<lparr>ld_files := set_hmem ?m ?t\<rparr>)"
    using file_syscall_ok [OF assms(1-3)] sv by (simp add: parse_args_def Let_def)
  have "?n - 1 \<noteq> 0" using n(1) by auto
  moreover have "files_now (ld_files s) ?m (set_hmem ?m ?t)" by (simp add: files_now_def set_hmem_def io_idle_def served_def Let_def)
  moreover have "load_word (at_args F) ?m = fn" "\<exists>name. cstr ?m fn name" using moved_first m(2) n(1) by (simp_all add: args_given_def)
  ultimately show ?thesis using p by blast
qed

text \<open>A host that passes a program on the command line, with room for one more open file.\<close>

definition program_host :: "'d henv \<Rightarrow> elf_frame \<Rightarrow> uint8 list \<Rightarrow> 'd ftable \<Rightarrow> bool" where
  "program_host E F img t \<longleftrightarrow> atomics_ok (he_at E) \<and> files_wf t \<and> io_idle (ft_io t) \<and>
     (\<exists>serve fn fd f. host_serves (he_host E) (he_magic E) serve \<and> serves_args serve (at_args F) fn \<and> serves_open serve fn fd \<and>
        serves_file serve fd img \<and> first_free [0..<MAX_FILES] t = Some f \<and> spike_fds t ! nat fd \<noteq> Some f)"

text \<open>An ELF file with an entry point and program headers that the loader accepts.\<close>

definition elf_program :: "uint8 list \<Rightarrow> uint64 \<Rightarrow> elf_prog_header list \<Rightarrow> bool" where
  "elf_program img entry phs \<longleftrightarrow>
     (let h = elf_header_of (chunk img 64 0) in
      length (chunk img 64 0) = 64 \<and> eh_magic h = ELF_MAGIC \<and> eh_entry h = entry \<and> unat (eh_phnum h) = length phs \<and>
      has_headers img (ucast (eh_phoff h)) phs \<and> good_program img phs)"

lemma elf_header_cong:
  assumes "\<And>i. i < 64 \<Longrightarrow> m' (a + i) = m (a + i)"
  shows "eh_entry (elf_header_at a m') = eh_entry (elf_header_at a m)"
proof -
  have "m' (a + 24 + i) = m (a + 24 + i)" if "unat i < 8" for i
  proof -
    have "unat (24 + i) = 24 + unat i" using that by (subst unat_add_noof) simp_all
    then show ?thesis using assms [of "24 + i"] that by (simp add: add.assoc word_less_iff_unat)
  qed
  then have "load_word (a + 24) m' = load_word (a + 24) m" by (rule load_word_cong)
  then show ?thesis by (simp add: elf_header_at_def)
qed

lemma small_fd:
  assumes "0 \<le> fd" "fd < 128"
  shows "sint (word_of_int fd :: uint64) = fd" "sint (ucast (word_of_int fd :: uint64) :: uint32) = fd"
proof -
  show "sint (word_of_int fd :: uint64) = fd" using assms by (subst sint_sbintrunc') (simp add: signed_take_bit_int_eq_self)
  have "uint (word_of_int fd :: uint64) = fd" using assms by (subst uint_word_of_int_eq) (simp add: take_bit_int_eq_self)
  then have "ucast (word_of_int fd :: uint64) = (word_of_int fd :: uint32)" by (simp only: ucast_eq)
  moreover have "sint (word_of_int fd :: uint32) = fd" using assms by (subst sint_sbintrunc') (simp add: signed_take_bit_int_eq_self)
  ultimately show "sint (ucast (word_of_int fd :: uint64) :: uint32) = fd" by simp
qed

lemma open_program_ok:
  assumes "program_host E F img (ld_files s)"
  shows "\<exists>argc t f t'. parse_args E F s = returnO (argc, s\<lparr>ld_files := t\<rparr>) \<and> argc \<noteq> 0 \<and>
    spike_file_open E (load_word (at_args F) (hmem (ft_io t))) 0 0 t = returnO (File f, t') \<and>
    readable E f img t' \<and> f < MAX_FILES \<and> files_wf t' \<and> refcnt (spike_files t' ! f) = 3 \<and>
    0 \<le> kfd (spike_files t' ! f) \<and> kfd (spike_files t' ! f) < 128 \<and> spike_fds t' ! nat (kfd (spike_files t' ! f)) \<noteq> Some f"
proof -
  from assms obtain serve fn fd f where
    h: "atomics_ok (he_at E)" "host_serves (he_host E) (he_magic E) serve" "io_idle (ft_io (ld_files s))" "files_wf (ld_files s)"
    and sv: "serves_args serve (at_args F) fn" "serves_open serve fn fd" "serves_file serve fd img"
    and f: "first_free [0..<MAX_FILES] (ld_files s) = Some f" "spike_fds (ld_files s) ! nat fd \<noteq> Some f"
    by (auto simp: program_host_def)
  from parse_args_ok [OF h(1-3) sv(1)] obtain argc t m name where
    p: "parse_args E F s = returnO (argc, s\<lparr>ld_files := t\<rparr>)" "argc \<noteq> 0" "files_now (ld_files s) m t"
      "load_word (at_args F) m = fn" "cstr m fn name" by blast
  have t: "spike_files t = spike_files (ld_files s)" "spike_fds t = spike_fds (ld_files s)" "io_idle (ft_io t)" "hmem (ft_io t) = m" "files_wf t"
    using p(3) h(4) by (simp_all add: files_now_def files_wf_def)
  have ff: "first_free [0..<MAX_FILES] t = Some f" using f(1) t(1) by (simp add: first_free_def)
  then have fl: "f < MAX_FILES" "f < length (spike_files t)" using first_free_Some t(5) by (auto simp: files_wf_def)
  have fd: "0 \<le> fd" "fd < 128" using sv(2) by (simp_all add: serves_open_def)
  let ?args = "[HTIFSYS_openat, word_of_int AT_FDCWD, fn, word_of_nat (length name + 1), word_of_int 0, word_of_int 0, 0, 0]"
  let ?io = "(ft_io t)\<lparr>fe_lock := -1, magic_mem := ?args, htif_lock := -1, tohost := he_magic E\<rparr>"
  from sv(2) obtain r where r: "serve ?io = ?io\<lparr>magic_mem := word_of_int fd # r\<rparr>"
    unfolding serves_open_def by (elim conjE allE [of _ ?io]) auto
  then have fst: "fst (served E serve ?args (ft_io t)) = word_of_int fd" by (simp add: served_def Let_def)
  have si: "sint (word_of_int fd :: uint64) = fd" "sint (ucast (word_of_int fd :: uint64) :: uint32) = fd"
    by (rule small_fd [OF fd])+
  let ?t' = "set_kfd f fd (set_refcnt f 3 (t\<lparr>ft_io := snd (served E serve ?args (ft_io t))\<rparr>))"
  have "spike_file_open E (load_word (at_args F) (hmem (ft_io t))) 0 0 t = returnO (File f, ?t')"
  proof -
    have "load_word (at_args F) (hmem (ft_io t)) = fn" "cstr (hmem (ft_io t)) fn name" using p(4,5) t(4) by simp_all
    then show ?thesis using openat_eq [OF h(1,2) t(3,5), of fn name AT_FDCWD 0 0] ff fd
      unfolding spike_file_open_def split_beta Let_def fst si by simp
  qed
  moreover have "readable E f img ?t'" using h(1,2) sv(3) fl by (auto simp: readable_def)
  moreover have "files_wf ?t'" using t(5) by simp
  ultimately show ?thesis using p(1,2) fl fd f(2) t(2) by (intro exI [of _ argc] exI [of _ t] exI [of _ f] exI [of _ ?t']) simp
qed

lemma load_bincode_ok:
  fixes E :: "'d henv" and s :: "'d loader" and p :: nat
  defines "k \<equiv> ld_kernel s"
  defines "root \<equiv> pagetable (procs k ! p)" and "tf \<equiv> tf_ptr (procs k ! p)"
  assumes host: "program_host E F img (ld_files s)" and prog: "elf_program img entry phs" and ap: "\<forall>i<64. scratch_apart F k (at_ehdr F + i)"
    and room: "region_room p k j (length (loads phs))" and ok: "vm_ok root (kvm k)" "ram_ok (kpmm k)" "tf \<noteq> 0"
    and un: "\<forall>ph\<in>set (loads phs). \<not> pte_valid (pte_of (kmem k) root (ph_vaddr ph))"
    and sup: "3 * length (loads phs) \<le> page_supply (kvm k)"
  shows "\<exists>s' k' pas. load_bincode_from_host_elf E F p s = returnO s' \<and> program_loaded img p j (loads phs) pas k k' \<and>
    ld_kernel s' = k'\<lparr>tframes := (tframes k)(tf := (tframes k tf)\<lparr>epc := entry\<rparr>)\<rparr>"
proof -
  from open_program_ok [OF host] obtain argc t f t1 where
    o: "parse_args E F s = returnO (argc, s\<lparr>ld_files := t\<rparr>)" "argc \<noteq> 0"
      "spike_file_open E (load_word (at_args F) (hmem (ft_io t))) 0 0 t = returnO (File f, t1)"
      "readable E f img t1" "f < MAX_FILES" "files_wf t1" "refcnt (spike_files t1 ! f) = 3"
      "0 \<le> kfd (spike_files t1 ! f)" "kfd (spike_files t1 ! f) < 128" "spike_fds t1 ! nat (kfd (spike_files t1 ! f)) \<noteq> Some f" by blast
  let ?h = "elf_header_of (chunk img 64 0)" and ?s1 = "s\<lparr>ld_files := t1\<rparr>"
  have h: "length (chunk img 64 0) = 64" "eh_magic ?h = ELF_MAGIC" "eh_entry ?h = entry" "unat (eh_phnum ?h) = length phs"
    "has_headers img (ucast (eh_phoff ?h)) phs" "good_program img phs" using prog by (simp_all add: elf_program_def Let_def)
  from readable_read [of E f img ?s1 "at_ehdr F" 64 0] o(4) h(1) obtain t2 where
    r: "elf_fpread E f (at_ehdr F) 64 0 ?s1 = returnO (64, s\<lparr>ld_files := t2\<rparr>)"
      "files_now t1 (put_bytes (at_ehdr F) (chunk img 64 0) (hmem (ft_io t1))) t2" by auto
  let ?s2 = "s\<lparr>ld_files := t2\<rparr>"
  have hd: "elf_header_at (at_ehdr F) (ld_mem ?s2) = ?h" using elf_header_put [OF h(1)] r(2) by (simp add: files_now_def)
  have init: "elf_init E F f ?s1 = returnO (EL_OK, ?s2)" using r(1) hd h(2) by (simp add: elf_init_def)
  have rd: "readable E f img (ld_files ?s2)" using readable_now [OF o(4) r(2)] by simp
  from load_headers_ok [OF rd h(5,6), of p j root F] room ok un sup obtain s3 pas where
    l: "elf_load E F f p ?s2 = returnO (EL_OK, s3)" "files_now t2 (ld_mem s3) (ld_files s3)"
      "program_loaded img p j (loads phs) pas k (ld_kernel s3)"
      "\<forall>q. scratch_apart F k q \<longrightarrow> ld_mem s3 q = ld_mem ?s2 q"
    using h(4) hd unfolding k_def root_def by (auto simp: elf_load_def Let_def)
  have e: "eh_entry (elf_header_at (at_ehdr F) (ld_mem s3)) = entry"
    using elf_header_cong [of "ld_mem s3" "at_ehdr F" "ld_mem ?s2"] l(4) ap hd h(3) by simp
  have p: "p < length (procs k)" using room by (simp add: region_room_def Let_def)
  have pr: "p < length (procs (ld_kernel s3))" "tf_ptr (procs (ld_kernel s3) ! p) = tf" "tframes (ld_kernel s3) = tframes k"
    using l(3) p by (simp_all add: program_loaded_def Let_def tf_def)
  let ?k = "(ld_kernel s3)\<lparr>tframes := (tframes k)(tf := (tframes k tf)\<lparr>epc := entry\<rparr>)\<rparr>"
  have t3: "files_wf (ld_files s3)" "spike_files (ld_files s3) = spike_files t1" "spike_fds (ld_files s3) = spike_fds t1"
    using l(2) r(2) o(6) by (simp_all add: files_now_def files_wf_def)
  have "\<exists>t4. spike_file_close E (Some f) (ld_files s3) = returnO (-1, t4)"
    using close_after_open_leaks [of E "ld_files s3" f] t3 o(5,7-10) rd by (simp add: readable_def)
  then obtain t4 where t4: "spike_file_close E (Some f) (ld_files s3) = returnO (-1, t4)" ..
  have "load_bincode_from_host_elf E F p s = returnO (s3\<lparr>ld_kernel := ?k, ld_files := t4\<rparr>)"
    using o(1-3) init l(1) e pr ok(3) t4
    by (simp add: load_bincode_from_host_elf_def on_kernel_def proc_at_def tf_upd_ok Let_def)
  then show ?thesis using l(3) by (intro exI [of _ "s3\<lparr>ld_kernel := ?k, ld_files := t4\<rparr>"] exI [of _ "ld_kernel s3"] exI [of _ pas]) simp
qed

end
