(* ===== verification/Pke_Strap_Thms.thy ===== *)
theory Pke_Strap_Thms
  imports Pke_Syscall_Thms
begin

text \<open>
  The theorems on the trap handler of \<^verbatim>\<open>kernel/strap.c\<close>: the system calls \<^verbatim>\<open>fork\<close> and \<^verbatim>\<open>exit\<close> from
  the \<^verbatim>\<open>ecall\<close> to the return to user mode, the copy-on-write fault, and the traps the kernel does
  not survive.
\<close>

section \<open>Leaving and entering the kernel\<close>

text \<open>The state in which \<^verbatim>\<open>switch_to\<close> leaves the kernel for process \<open>i\<close>.\<close>

definition resumed :: "externs \<Rightarrow> nat \<Rightarrow> kernel \<Rightarrow> kernel" where
  "resumed x i s = (let p = procs s ! i; t = tframes s (tf_ptr p) in
     s\<lparr>current := Some i, stvec := x_trap_vector x,
       tframes := (tframes s)(tf_ptr p := t\<lparr>kernel_sp := kstack p, kernel_satp := satp s, kernel_trap := x_trap_handler x\<rparr>),
       kvm := (kvm s)\<lparr>vpmm := (kpmm s)\<lparr>sstatus_reg := sstatus_reg (kpmm s) AND NOT SSTATUS_SPP OR SSTATUS_SPIE\<rparr>\<rparr>,
       sepc := epc t\<rparr>)"

lemma switch_to_ok:
  assumes "i < length (procs s)" "tf_ptr (procs s ! i) \<noteq> 0"
  shows "switch_to x (Some i) s = Resumes (tf_ptr (procs s ! i)) (MAKE_SATP (pagetable (procs s ! i))) (resumed x i s)"
  using assms by (simp add: switch_to_def proc_at_def tf_upd_ok resumed_def Let_def)

lemma resumed_simps [simp]:
  "procs (resumed x i s) = procs s" "minfos (resumed x i s) = minfos s" "kmem (resumed x i s) = kmem s"
  "ready_queue_head (resumed x i s) = ready_queue_head s" "current (resumed x i s) = Some i"
  "sepc (resumed x i s) = epc (tframes s (tf_ptr (procs s ! i)))"
  "tf_regs (tframes (resumed x i s) a) = tf_regs (tframes s a)" "epc (tframes (resumed x i s) a) = epc (tframes s a)"
  "scause (resumed x i s) = scause s" "stval (resumed x i s) = stval s"
  by (simp_all add: resumed_def Let_def)

lemma ready_queue_same: "procs s' = procs s \<Longrightarrow> ready_queue_head s' = ready_queue_head s \<Longrightarrow> ready_queue xs s' = ready_queue xs s"
  by (simp add: ready_queue_def runnable_def next_of_def [abs_def])

text \<open>A trap from user mode while process \<open>i\<close> runs, and the state after its program counter is saved.\<close>

definition user_trap :: "uint64 \<Rightarrow> nat \<Rightarrow> kernel \<Rightarrow> bool" where
  "user_trap cause i s \<longleftrightarrow> sstatus_reg (kpmm s) AND SSTATUS_SPP = 0 \<and> scause s = cause \<and> current s = Some i \<and>
     i < length (procs s) \<and> tf_ptr (procs s ! i) \<noteq> 0"

definition saved_pc :: "nat \<Rightarrow> uint64 \<Rightarrow> kernel \<Rightarrow> kernel" where
  "saved_pc i pc s = s\<lparr>tframes := (tframes s)(tf_ptr (procs s ! i) := (tframes s (tf_ptr (procs s ! i)))\<lparr>epc := pc\<rparr>)\<rparr>"

lemma saved_pc_simps [simp]:
  "procs (saved_pc i pc s) = procs s" "kvm (saved_pc i pc s) = kvm s" "minfos (saved_pc i pc s) = minfos s"
  "ready_queue_head (saved_pc i pc s) = ready_queue_head s" "current (saved_pc i pc s) = current s"
  "sepc (saved_pc i pc s) = sepc s" "stval (saved_pc i pc s) = stval s" "scause (saved_pc i pc s) = scause s"
  "tframes (saved_pc i pc s) = (tframes s)(tf_ptr (procs s ! i) := (tframes s (tf_ptr (procs s ! i)))\<lparr>epc := pc\<rparr>)"
  "saved_pc i pc (saved_pc i pc' s) = saved_pc i pc s"
  by (simp_all add: saved_pc_def)

lemma trap_ecall:
  assumes "user_trap CAUSE_USER_ECALL i s"
  shows "smode_trap_handler x s = bindF (let r = tf_regs (tframes s (tf_ptr (procs s ! i))) in
      do_syscall x (r_a0 r) (r_a1 r) (r_a2 r) (r_a3 r) (r_a4 r) (r_a5 r) (r_a6 r) (r_a7 r) (saved_pc i (sepc s + 4) s))
    (\<lambda>v s'. liftS (tf_upd (tf_ptr (procs s ! i)) (\<lambda>t. t\<lparr>tf_regs := (tf_regs t)\<lparr>r_a0 := v\<rparr>\<rparr>) s') (\<lambda>s'. switch_to x (current s') s'))"
proof -
  have a: "bindF (bindF m f) g = bindF m (\<lambda>y s. bindF (f y s) g)" for m :: "uint64 flow" and f :: "uint64 \<Rightarrow> kernel \<Rightarrow> unit flow" and g :: "unit \<Rightarrow> kernel \<Rightarrow> unit flow"
    by (cases m) simp_all
  have b: "bindF (liftS m Q) g = liftS m (\<lambda>s. bindF (Q s) g)" for m and Q :: "kernel \<Rightarrow> unit flow" and g :: "unit \<Rightarrow> kernel \<Rightarrow> unit flow"
    by (cases m) simp_all
  have u: "sstatus_reg (kpmm s) AND SSTATUS_SPP = 0" "scause s = CAUSE_USER_ECALL" "current s = Some i" "i < length (procs s)"
    "tf_ptr (procs s ! i) \<noteq> 0" using assms by (simp_all add: user_trap_def)
  show ?thesis using u
    by (simp add: smode_trap_handler_def cur_proc_ok tf_upd_ok handle_syscall_def Let_def a b saved_pc_def)
qed

lemma trap_page_fault:
  assumes "user_trap CAUSE_STORE_PAGE_FAULT i s \<or> user_trap CAUSE_LOAD_PAGE_FAULT i s"
  shows "smode_trap_handler x s =
    liftS (handle_user_page_fault x (scause s) (sepc s) (stval s) (saved_pc i (sepc s) s)) (\<lambda>s. switch_to x (current s) s)"
  using assms
  by (cases "handle_user_page_fault x (scause s) (sepc s) (stval s) (saved_pc i (sepc s) s)")
    (auto simp: user_trap_def smode_trap_handler_def cur_proc_ok tf_upd_ok Let_def cause_defs saved_pc_def)

section \<open>Fork returns twice\<close>

lemma sstatus_irrelevant [simp]:
  "cached_pages (p\<lparr>sstatus_reg := v\<rparr>) = cached_pages p" "pmm_ok (p\<lparr>sstatus_reg := v\<rparr>) = pmm_ok p"
  "ram_ok (p\<lparr>sstatus_reg := v\<rparr>) = ram_ok p" "trap_page_ok x (p\<lparr>sstatus_reg := v\<rparr>) = trap_page_ok x p"
  by (simp_all add: pmm_ok_def ram_ok_def trap_page_ok_def)

lemma fork_pre_same:
  "procs s' = procs s \<Longrightarrow> kvm s' = kvm s \<Longrightarrow> minfos s' = minfos s \<Longrightarrow> fork_pre x i s' = fork_pre x i s"
  by (simp add: fork_pre_def regions_of_def Let_def)

lemma fork_trap_ok:
  assumes "user_trap CAUSE_USER_ECALL i s" and "r_a0 (tf_regs (tframes s (tf_ptr (procs s ! i)))) = SYS_user_fork"
    and "fork_pre x i s" and "find_free 0 (procs s) = Some ci" and "get_page_ok x" and "ready_queue xs s"
    and "\<exists>r\<in>set (regions_of i s). context_seg r"
  shows "\<exists>s'. let p = procs s ! i; r = tf_regs (tframes s (tf_ptr p)); c = procs s' ! ci in
    smode_trap_handler x s = Resumes (tf_ptr p) (MAKE_SATP (pagetable p)) s' \<and> current s' = Some i \<and> sepc s' = sepc s + 4 \<and>
    tf_regs (tframes s' (tf_ptr p)) = r\<lparr>r_a0 := scast (ucast (pid (procs s ! ci)) :: uint32)\<rparr> \<and>
    ready_queue (xs @ [ci]) s' \<and> parent c = Some i \<and> epc (tframes s' (tf_ptr c)) = sepc s + 4 \<and>
    tf_regs (tframes s' (tf_ptr c)) = r\<lparr>r_tp := x_proc_addr x ci, r_a0 := 0\<rparr> \<and>
    procs s' ! i = p\<lparr>status := status (procs s' ! i), queue_next := queue_next (procs s' ! i)\<rparr> \<and> length (procs s') = length (procs s) \<and>
    vm_ok (pagetable p) (kvm s') \<and>
    (\<forall>va<MAXVA. pte_valid (pte_of (kmem s) (pagetable p) va) \<longrightarrow> pte_valid (pte_of (kmem s') (pagetable p) va)) \<and>
    (\<forall>a. (\<forall>t \<in> tables (kmem s) (pagetable p) \<union> PFN_TO_ADDR ` set (cached_pages (kpmm s)). \<not> a - t < PGSIZE) \<longrightarrow>
       kmem s' a = kmem s a)"
proof -
  let ?p = "procs s ! i" and ?s1 = "saved_pc i (sepc s + 4) s"
  have u: "current s = Some i" "tf_ptr ?p \<noteq> 0" "i < length (procs s)" using assms(1) by (simp_all add: user_trap_def)
  have pre: "fork_pre x i ?s1" "ready_queue xs ?s1" "find_free 0 (procs ?s1) = Some ci"
    using assms(3,4,6) fork_pre_same [of ?s1 s] ready_queue_same [of ?s1 s] by simp_all
  have rg: "regions_of i ?s1 = regions_of i s" by (simp add: regions_of_def)
  from do_fork_ok [OF pre(1,3) assms(5) pre(2)] assms(7) rg obtain s2 st qn where
    d: "do_fork x i ?s1 = Inr (ucast (pid (procs s ! ci)), s2)"
      "tf_ptr (procs s2 ! ci) \<in> PFN_TO_ADDR ` set (cached_pages (kpmm s))" "parent (procs s2 ! ci) = Some i"
      "tframes s2 (tf_ptr (procs s2 ! ci)) = (tframes ?s1 (tf_ptr ?p))\<lparr>tf_regs := (tf_regs (tframes s (tf_ptr ?p)))\<lparr>r_tp := x_proc_addr x ci, r_a0 := 0\<rparr>\<rparr>"
      "tframes s2 (tf_ptr ?p) = tframes ?s1 (tf_ptr ?p)" "ready_queue (xs @ [ci]) s2" "current s2 = Some i"
      "length (procs s2) = length (procs s)" "procs s2 ! i = ?p\<lparr>status := st, queue_next := qn\<rparr>"
      "vm_ok (pagetable ?p) (kvm s2)" "\<forall>a. (\<forall>t \<in> tables (kmem s) (pagetable ?p) \<union> PFN_TO_ADDR ` set (cached_pages (kpmm s)). \<not> a - t < PGSIZE) \<longrightarrow>
       kmem s2 a = kmem s a" and
    f: "\<forall>va<MAXVA. pte_valid (pte_of (kmem s) (pagetable ?p) va) \<longrightarrow> pte_valid (pte_of (kmem s2) (pagetable ?p) va)"
    using u(1) fork_spec_valid by (auto simp: Let_def)
  have ne: "tf_ptr (procs s2 ! ci) \<noteq> tf_ptr ?p" using d(2) assms(3) by (auto simp: fork_pre_def Let_def)
  let ?v = "scast (ucast (pid (procs s ! ci)) :: uint32) :: uint64"
  let ?t = "(tframes s2 (tf_ptr ?p))\<lparr>tf_regs := (tf_regs (tframes s2 (tf_ptr ?p)))\<lparr>r_a0 := ?v\<rparr>\<rparr>"
  let ?s3 = "s2\<lparr>tframes := (tframes s2)(tf_ptr ?p := ?t)\<rparr>"
  have sys: "do_syscall x SYS_user_fork a1 a2 a3 a4 a5 a6 a7 ?s1 = Returns ?v s2" for a1 a2 a3 a4 a5 a6 a7
    using d(1) u(1) by (simp add: do_syscall_def sys_user_fork_def sys_numbers)
  have "smode_trap_handler x s = switch_to x (Some i) ?s3"
    using trap_ecall [OF assms(1)] assms(2) sys u(2) d(7) by (simp add: tf_upd_ok Let_def)
  then have "smode_trap_handler x s = Resumes (tf_ptr ?p) (MAKE_SATP (pagetable ?p)) (resumed x i ?s3)"
    using switch_to_ok [of i ?s3] u d(8,9) by simp
  moreover have "ready_queue (xs @ [ci]) (resumed x i ?s3)" using d(6) ready_queue_same [of "resumed x i ?s3" s2] by simp
  moreover have "vm_ok (pagetable ?p) (kvm (resumed x i ?s3))" using d(10) by (simp add: resumed_def Let_def vm_ok_def)
  ultimately show ?thesis using d ne f by (intro exI [of _ "resumed x i ?s3"]) (simp add: Let_def)
qed


text \<open>C10: The \<^verbatim>\<open>fork\<close> system call, from the \<^verbatim>\<open>ecall\<close> to user mode: the parent is resumed after the
  \<^verbatim>\<open>ecall\<close> with the identifier of the child as result, and a new process waits at the end of the
  ready queue with the registers of the parent, the same program counter and the result 0 (only the
  register \<^verbatim>\<open>tp\<close> differs).\<close>

theorem fork_returns_twice:
  assumes "user_trap CAUSE_USER_ECALL i s" and "r_a0 (tf_regs (tframes s (tf_ptr (procs s ! i)))) = SYS_user_fork"
    and "fork_pre x i s" and "find_free 0 (procs s) = Some ci" and "get_page_ok x" and "ready_queue xs s"
    and "\<exists>r\<in>set (regions_of i s). context_seg r"
  shows "\<exists>s'. let p = procs s ! i; r = tf_regs (tframes s (tf_ptr p)); c = procs s' ! ci in
    smode_trap_handler x s = Resumes (tf_ptr p) (MAKE_SATP (pagetable p)) s' \<and> current s' = Some i \<and> sepc s' = sepc s + 4 \<and>
    tf_regs (tframes s' (tf_ptr p)) = r\<lparr>r_a0 := scast (ucast (pid (procs s ! ci)) :: uint32)\<rparr> \<and>
    ready_queue (xs @ [ci]) s' \<and> parent c = Some i \<and> epc (tframes s' (tf_ptr c)) = sepc s + 4 \<and>
    tf_regs (tframes s' (tf_ptr c)) = r\<lparr>r_tp := x_proc_addr x ci, r_a0 := 0\<rparr>"
  using fork_trap_ok [OF assms] unfolding Let_def by blast

text \<open>The running process trapping from user mode.\<close>

definition trapping :: "uint64 \<Rightarrow> uint64 \<Rightarrow> uint64 \<Rightarrow> kernel \<Rightarrow> kernel" where
  "trapping cause va n s = s\<lparr>kvm := (kvm s)\<lparr>vpmm := (kpmm s)\<lparr>sstatus_reg := 0\<rparr>\<rparr>, scause := cause, sepc := 0x1000, stval := va,
     tframes := (\<lambda>a. (tframes s a)\<lparr>tf_regs := (tf_regs (tframes s a))\<lparr>r_a0 := n\<rparr>\<rparr>)\<rparr>"

lemma trapping_simps [simp]:
  "procs (trapping cause va n s) = procs s" "minfos (trapping cause va n s) = minfos s" "kmem (trapping cause va n s) = kmem s"
  "regions_of i (trapping cause va n s) = regions_of i s" "current (trapping cause va n s) = current s"
  "ready_queue xs (trapping cause va n s) = ready_queue xs s" "stval (trapping cause va n s) = va" "sepc (trapping cause va n s) = 0x1000"
  "cached_pages (kpmm (trapping cause va n s)) = cached_pages (kpmm s)" "ram_ok (kpmm (trapping cause va n s)) = ram_ok (kpmm s)"
  "trap_page_ok x (kpmm (trapping cause va n s)) = trap_page_ok x (kpmm s)"
  "vm_ok root (kvm (trapping cause va n s)) = vm_ok root (kvm s)" "fork_pre x i (trapping cause va n s) = fork_pre x i s"
  "r_a0 (tf_regs (tframes (trapping cause va n s) a)) = n"
  by (simp_all add: trapping_def regions_of_def ready_queue_def runnable_def next_of_def [abs_def] vm_ok_def fork_pre_def Let_def)

lemma running_trap: "user_trap cause 0 (trapping cause va n running_kernel)"
proof -
  from running_facts obtain tf dir ks us mi v where r: "is_running tf dir ks us mi v" by blast
  then show ?thesis using running_space(4) [OF r] by (simp add: user_trap_def trapping_def is_running_def new_process_def)
qed

lemma running_context: "\<exists>r\<in>set (regions_of 0 running_kernel). context_seg r"
proof -
  from running_facts obtain tf dir ks us mi v where "is_running tf dir ks us mi v" by blast
  from running_regions(1) [OF this] show ?thesis by (simp add: new_regions_def context_seg_def segment_defs)
qed

theorem fork_returns_twice_witness:
  "\<exists>s' t. smode_trap_handler sample_externs (trapping CAUSE_USER_ECALL 0 SYS_user_fork running_kernel) =
      Resumes (tf_ptr (procs running_kernel ! 0)) t s' \<and> sepc s' = 0x1004 \<and> ready_queue [1] s' \<and>
      epc (tframes s' (tf_ptr (procs s' ! 1))) = 0x1004 \<and> r_a0 (tf_regs (tframes s' (tf_ptr (procs s' ! 1)))) = 0"
proof -
  let ?s = "trapping CAUSE_USER_ECALL 0 SYS_user_fork running_kernel"
  have "fork_pre sample_externs 0 ?s" "find_free 0 (procs ?s) = Some 1" "ready_queue [] ?s" "\<exists>r\<in>set (regions_of 0 ?s). context_seg r"
    using running_fork running_context by simp_all
  from fork_returns_twice [OF running_trap _ this(1,2) running_fork(3) this(3,4)] show ?thesis by (auto simp: Let_def)
qed

section \<open>Exit\<close>

lemma schedule_next:
  assumes "ready_queue (j # ys) s"
  shows "schedule x s = Resumes (tf_ptr (procs s ! j)) (MAKE_SATP (pagetable (procs s ! j)))
     (resumed x j (s\<lparr>ready_queue_head := queue_next (procs s ! j), procs := (procs s)[j := (procs s ! j)\<lparr>status := RUNNING\<rparr>]\<rparr>))"
proof -
  have "ready_queue_head s = Some j" "status (procs s ! j) = READY" "j < length (procs s)" "tf_ptr (procs s ! j) \<noteq> 0"
    using assms by (simp_all add: ready_queue_def runnable_def)
  then show ?thesis by (simp add: schedule_def proc_at_def proc_upd_ok Let_def switch_to_def tf_upd_ok resumed_def)
qed

lemma switch_to_leaves: "switch_to x p s \<noteq> Returns u s'"
  by (auto simp: switch_to_def tf_upd_def Let_def split: option.splits sum.splits)

lemma schedule_leaves: "schedule x s \<noteq> Returns u s'"
  by (auto simp: schedule_def proc_upd_def switch_to_leaves Let_def split: option.splits sum.splits)

lemma trap_exit:
  assumes "user_trap CAUSE_USER_ECALL i s" "r_a0 (tf_regs (tframes s (tf_ptr (procs s ! i)))) = SYS_user_exit"
  shows "smode_trap_handler x s =
    schedule x ((saved_pc i (sepc s + 4) s)\<lparr>procs := (procs s)[i := (procs s ! i)\<lparr>status := ZOMBIE\<rparr>]\<rparr>)"
proof -
  have u: "current s = Some i" "i < length (procs s)" using assms(1) by (simp_all add: user_trap_def)
  let ?z = "(saved_pc i (sepc s + 4) s)\<lparr>procs := (procs s)[i := (procs s ! i)\<lparr>status := ZOMBIE\<rparr>]\<rparr>"
  have "do_syscall x SYS_user_exit a1 a2 a3 a4 a5 a6 a7 (saved_pc i (sepc s + 4) s) = bindF (schedule x ?z) (\<lambda>_ s. Returns 0 s)"
    for a1 a2 a3 a4 a5 a6 a7
    using u by (simp add: do_syscall_def sys_user_exit_def sys_numbers free_process_def proc_upd_ok)
  then show ?thesis using trap_ecall [OF assms(1)] assms(2) by (cases "schedule x ?z") (simp_all add: Let_def schedule_leaves)
qed

text \<open>C16: The \<^verbatim>\<open>exit\<close> system call makes the process a zombie and resumes the process at the head of the
  ready queue where it was interrupted, with the registers it had; without one the machine is shut
  down if all other processes are free or zombies, and the kernel panics otherwise. The exiting process is
  not resumed.\<close>

theorem exit_resumes_next:
  assumes "user_trap CAUSE_USER_ECALL i s" and "r_a0 (tf_regs (tframes s (tf_ptr (procs s ! i)))) = SYS_user_exit"
    and "ready_queue xs s" and "i \<notin> set xs" and "\<forall>j\<in>set xs. tf_ptr (procs s ! j) \<noteq> tf_ptr (procs s ! i)"
  shows "(case xs of
      [] \<Rightarrow> smode_trap_handler x s =
        (if \<forall>j<length (procs s). j \<noteq> i \<longrightarrow> status (procs s ! j) = FREE \<or> status (procs s ! j) = ZOMBIE then Fails (Shutdown 0)
         else Fails (Panic ''Not handled: we should let system wait for unfinished processes.''))
    | j # ys \<Rightarrow> \<exists>s'. let q = procs s ! j; t = tframes s (tf_ptr q) in
        smode_trap_handler x s = Resumes (tf_ptr q) (MAKE_SATP (pagetable q)) s' \<and> current s' = Some j \<and>
        status (procs s' ! j) = RUNNING \<and> status (procs s' ! i) = ZOMBIE \<and> ready_queue ys s' \<and>
        sepc s' = epc t \<and> tf_regs (tframes s' (tf_ptr q)) = tf_regs t \<and> kmem s' = kmem s)"
proof -
  let ?p = "procs s ! i"
  let ?z = "(saved_pc i (sepc s + 4) s)\<lparr>procs := (procs s)[i := ?p\<lparr>status := ZOMBIE\<rparr>]\<rparr>"
  have i: "i < length (procs s)" using assms(1) by (simp add: user_trap_def)
  note trap = trap_exit [OF assms(1,2), where x = x]
  show ?thesis
  proof (cases xs)
    case Nil
    then have "ready_queue_head ?z = None" using assms(3) by (simp add: ready_queue_def)
    then have sch: "schedule x ?z = (if \<forall>q\<in>set (procs ?z). status q = FREE \<or> status q = ZOMBIE then Fails (Shutdown 0)
         else Fails (Panic ''Not handled: we should let system wait for unfinished processes.''))"
      by (simp add: schedule_def Let_def)
    have "(\<forall>q\<in>set (procs ?z). status q = FREE \<or> status q = ZOMBIE) =
        (\<forall>j<length (procs s). j \<noteq> i \<longrightarrow> status (procs s ! j) = FREE \<or> status (procs s ! j) = ZOMBIE)"
      using i by (auto simp: all_set_conv_all_nth nth_list_update)
    then show ?thesis using trap sch Nil by simp
  next
    case (Cons j ys)
    have j: "j \<noteq> i" "tf_ptr (procs s ! j) \<noteq> tf_ptr ?p" "j \<in> set xs" "j < length (procs s)"
      using assms(3-5) Cons by (auto simp: ready_queue_def runnable_def)
    have "ready_queue xs ?z"
    proof (rule ready_queue_cong [OF assms(3)])
      show "procs ?z ! k = procs s ! k" if "k \<in> set xs" for k using that assms(4) by (cases "k = i") simp_all
    qed simp_all
    then have q: "ready_queue (j # ys) ?z" using Cons by simp
    let ?s' = "resumed x j (?z\<lparr>ready_queue_head := queue_next (procs ?z ! j), procs := (procs ?z)[j := (procs ?z ! j)\<lparr>status := RUNNING\<rparr>]\<rparr>)"
    note sch = schedule_next [OF q, of x]
    from schedule_head [OF q, of x] sch have "ready_queue ys ?s'" by auto
    moreover have "procs ?z ! j = procs s ! j" using j(1) by simp
    ultimately show ?thesis using trap sch Cons j i by (simp add: Let_def nth_list_update)
  qed
qed

theorem exit_resumes_next_witness:
  "smode_trap_handler sample_externs (trapping CAUSE_USER_ECALL 0 SYS_user_exit running_kernel) = Fails (Shutdown 0)"
proof -
  from running_facts obtain tf dir ks us mi v where r: "is_running tf dir ks us mi v" by blast
  have "status (procs running_kernel ! j) = FREE" if "j < length (procs running_kernel)" "j \<noteq> 0" for j
    using r that empty_zero(3) [of j] by (simp add: is_running_def)
  then show ?thesis
    using exit_resumes_next [of 0 "trapping CAUSE_USER_ECALL 0 SYS_user_exit running_kernel" "[]" sample_externs]
      running_trap running_fork(4) by simp
qed

section \<open>The copy-on-write fault\<close>

definition leaf_cell :: "(uint64 \<Rightarrow> uint64) \<Rightarrow> uint64 \<Rightarrow> uint64 \<Rightarrow> uint64" where
  "leaf_cell m root va = (case table_at m root (leaf_path va) of None \<Rightarrow> 0 | Some t \<Rightarrow> pte_addr t (PX 0 va))"

lemma store_fault:
  assumes "current s = Some i" "i < length (procs s)" "pt_wf (kmem s) (pagetable (procs s ! i))" "0 < va" "va < MAXVA"
  defines "e \<equiv> pte_of (kmem s) (pagetable (procs s ! i)) va"
  shows "handle_user_page_fault x CAUSE_STORE_PAGE_FAULT pc va s =
    (if pte_valid e \<and> e AND PTE_COW \<noteq> 0 then cow_fault x (leaf_cell (kmem s) (pagetable (procs s ! i)) va) e s
     else Inl (Panic ''Illegal memory access or Stack Overflow.''))"
proof (cases "table_at (kmem s) (pagetable (procs s ! i)) (leaf_path va)")
  case None
  then show ?thesis using assms page_walk_noalloc [OF assms(3-5)]
    by (simp add: handle_user_page_fault_def cur_proc_ok with_vm_def pte_of_def)
next
  case (Some t)
  have "pte_addr t (PX 0 va) \<noteq> 0" by (rule pte_addr_nz [OF assms(3) leaf_path_ok(1) Some PX_less])
  then show ?thesis using assms Some page_walk_noalloc [OF assms(3-5)]
    by (simp add: handle_user_page_fault_def cur_proc_ok with_vm_def pte_of_def leaf_cell_def mem_read_def)
qed

lemma flag_bits: "a AND PTE_COW = 0 \<longleftrightarrow> \<not> bit a 8" "PTE_W AND a = 0 \<longleftrightarrow> \<not> bit a 2"
proof -
  have "PTE_COW = 2 ^ 8" "PTE_W = 2 ^ 2" by (simp_all add: PTE_COW_def PTE_W_def)
  then show "a AND PTE_COW = 0 \<longleftrightarrow> \<not> bit a 8" "PTE_W AND a = 0 \<longleftrightarrow> \<not> bit a 2"
    using and_exp_eq_0_iff_not_bit [of a 8] and_exp_eq_0_iff_not_bit [of a 2] by (simp_all add: and.commute)
qed

definition cow_entry :: "uint64 \<Rightarrow> pte_t \<Rightarrow> pte_t" where
  "cow_entry n e = PA2PTE n OR ((e AND 0x3ff) AND NOT PTE_COW) OR PTE_W"

lemma cow_entry_frame: "page_aligned n \<Longrightarrow> PTE2PA (cow_entry n e) = n"
proof -
  assume n: "page_aligned n"
  let ?p = "((e AND 0x3ff) AND NOT PTE_COW) OR PTE_W"
  have m: "(0x3ff :: uint64) = mask 10" by (simp add: mask_eq_exp_minus_1)
  have "take_bit 10 ?p = ?p"
    by (rule bit_eqI) (auto simp: m bit_take_bit_iff bit_or_iff bit_and_iff bit_mask_iff PTE_bits)
  then show ?thesis using PTE2PA_PA2PTE [OF n] by (simp add: cow_entry_def or.assoc)
qed

text \<open>A fault on a page that is shared: the frame \<open>f\<close> is on top of the cache, and the shared frame can be freed.\<close>

definition shared_fault :: "externs \<Rightarrow> nat \<Rightarrow> uint64 list \<Rightarrow> uint64 \<Rightarrow> kernel \<Rightarrow> bool" where
  "shared_fault x i ps f s \<longleftrightarrow> vm_ok (pagetable (procs s ! i)) (kvm s) \<and> 0 < stval s \<and> stval s < MAXVA \<and>
     (let e = pte_of (kmem s) (pagetable (procs s ! i)) (stval s) in
      pte_valid e \<and> e AND PTE_COW \<noteq> 0 \<and> x_get_page_ref x (PTE2PA e) (kpmm s) > 1 \<and>
      ADDR_TO_PFN (PTE2PA e) < nr_pages (kpmm s) \<and> pg_order (pages (kpmm s) (ADDR_TO_PFN (PTE2PA e))) = 0) \<and>
     cached_pages (kpmm s) = ps @ [f] \<and> Suc (length ps) < PCPU_CACHE_SIZE"

definition reissued :: "uint64 \<Rightarrow> pmm \<Rightarrow> bool" where
  "reissued a p \<longleftrightarrow> (\<forall>u. pcpu_caches u = pcpu_caches p \<and> tp_reg u = tp_reg p \<longrightarrow> (\<exists>p'. alloc_page u = Inr (a, p')))"

text \<open>The allocator after a frame was taken from the top and the frame \<open>g\<close> was freed: the top is where it was, and \<open>g\<close> is in
  the slot above it.\<close>

definition swapped :: "uint64 \<Rightarrow> pmm \<Rightarrow> pmm" where
  "swapped g p = (let c = pcpu_caches p ! 0 in cache_set 0 (c\<lparr>objs := (objs c)[length (cached_pages p) := Some g]\<rparr>) p)"

lemma draw_and_free:
  assumes ok: "pmm_ok p" "pmm_ok p'" and d: "drawn p [f] p'" and room: "length (cached_pages p) < PCPU_CACHE_SIZE"
    and b: "ADDR_TO_PFN b < nr_pages p" "pg_order (pages p (ADDR_TO_PFN b)) = 0"
  shows "pfree b p' = Inr (swapped (ADDR_TO_PFN b) p)"
proof -
  note st = drawn_stale [OF ok d]
  obtain n where p': "p' = cache_set 0 ((pcpu_caches p ! 0)\<lparr>pc_count := n\<rparr>) p" using d by (auto simp: drawn_def)
  have len: "length (pcpu_caches p) = 1" using ok(1) by (auto simp: pmm_ok_def NCPU_def)
  have wf: "cache_wf (pcpu_caches p ! 0)" "cache_wf (pcpu_caches p' ! 0)" using ok by (auto simp: pmm_ok_def)
  have c: "pcpu_caches p' ! 0 = (pcpu_caches p ! 0)\<lparr>pc_count := n\<rparr>" using len unfolding p' by simp
  have "Suc (unat n) = unat (pc_count (pcpu_caches p ! 0))" using cache_wf_count [OF wf(1)] cache_wf_count [OF wf(2)] c st(4) by simp
  from arg_cong [OF this, of "word_of_nat :: nat \<Rightarrow> uint32"] have "n + 1 = pc_count (pcpu_caches p ! 0)" by (simp add: add.commute)
  then have "(pcpu_caches p' ! 0)\<lparr>pc_count := pc_count (pcpu_caches p' ! 0) + 1\<rparr> = pcpu_caches p ! 0" unfolding c by simp
  moreover have "Suc (length (cached_pages p')) = length (cached_pages p)" using st(4) by simp
  ultimately show ?thesis using pfree_slot [OF ok(2), of b] room b st(2,3) c len
    by (simp add: swapped_def Let_def p' cache_set_def)
qed

lemma cow_private:
  assumes sf: "shared_fault x i ps f s"
  defines "dir \<equiv> pagetable (procs s ! i)" and "n \<equiv> PFN_TO_ADDR f"
  defines "e \<equiv> pte_of (kmem s) dir (stval s)"
  shows "cow_fault x (leaf_cell (kmem s) dir (stval s)) e s = Inr (s\<lparr>kvm := (kvm s)\<lparr>vpmm := swapped (ADDR_TO_PFN (PTE2PA e)) (kpmm s),
      vmem := (copy_frame n (PTE2PA e) (kmem s))(leaf_cell (kmem s) dir (stval s) := cow_entry n e)\<rparr>\<rparr>)"
    "reissued n (swapped (ADDR_TO_PFN (PTE2PA e)) (kpmm s))"
proof -
  have h: "vm_ok dir (kvm s)" "pte_valid e" "x_get_page_ref x (PTE2PA e) (kpmm s) > 1"
    "ADDR_TO_PFN (PTE2PA e) < nr_pages (kpmm s)" "pg_order (pages (kpmm s) (ADDR_TO_PFN (PTE2PA e))) = 0"
    "cached_pages (kpmm s) = ps @ [f]" "Suc (length ps) < PCPU_CACHE_SIZE"
    using sf by (simp_all add: shared_fault_def Let_def dir_def e_def)
  have pok: "pmm_ok (kpmm s)" and wf: "pt_wf (kmem s) dir" using h(1) by (simp_all add: vm_ok_def)
  from vm_alloc_page_cached [OF pok h(6)] obtain pm where
    pm: "vm_alloc_page (kvm s) = Inr (n, (kvm s)\<lparr>vpmm := pm\<rparr>)" "pmm_ok pm" "cached_pages pm = ps" "drawn (kpmm s) [f] pm"
      "page_aligned n" "n \<noteq> 0" by (auto simp: n_def)
  note st = drawn_stale [OF pok pm(2,4)]
  let ?p2 = "swapped (ADDR_TO_PFN (PTE2PA e)) (kpmm s)"
  have p2: "pfree (PTE2PA e) pm = Inr ?p2" using h(6,7) by (intro draw_and_free [OF pok pm(2,4) _ h(4,5)]) simp
  then show "reissued n ?p2"
    using pfree_stale_slot [OF pm(2) st(1), of "PTE2PA e"] st pm(3) h(4,5,7) unfolding reissued_def n_def by auto
  obtain t where t: "table_at (kmem s) dir (leaf_path (stval s)) = Some t" using h(2) e_def by (auto simp: pte_of_def split: option.splits)
  let ?c = "pte_addr t (PX 0 (stval s))"
  have c: "leaf_cell (kmem s) dir (stval s) = ?c" "?c \<noteq> 0" using t pte_addr_nz [OF wf leaf_path_ok(1) t PX_less] by (simp_all add: leaf_cell_def)
  have "t \<in> tables (kmem s) dir" by (rule table_in_tables [OF leaf_path_ok(1) t])
  then have "t \<noteq> n" "page_aligned t" using h(1,6) tables_aligned [OF wf] by (auto simp: vm_ok_def n_def)
  then have "\<not> ?c - n < PGSIZE" using frames_apart [OF _ pm(5) _ pte_addr_offset [OF PX_less]] by blast
  then have "copy_frame n (PTE2PA e) (kmem s) ?c = e" using t by (simp add: copy_frame_def e_def pte_of_def)
  then show "cow_fault x (leaf_cell (kmem s) dir (stval s)) e s = Inr (s\<lparr>kvm := (kvm s)\<lparr>vpmm := ?p2,
      vmem := (copy_frame n (PTE2PA e) (kmem s))(leaf_cell (kmem s) dir (stval s) := cow_entry n e)\<rparr>\<rparr>)" using pm(1,6) h(3) c p2
    by (simp add: cow_fault_def k_alloc_page_def with_vm_def Let_def mem_read_def mem_write_def on_vm_def vm_pfree_def cow_entry_def vmm_update_swap)
qed

lemma copy_frame_space:
  assumes "pt_wf m root" "page_aligned n" "n \<notin> tables m root"
  shows "pt_wf (copy_frame n p m) root" "pte_of (copy_frame n p m) root va = pte_of m root va"
    "path_ok q \<Longrightarrow> table_at (copy_frame n p m) root q = table_at m root q"
proof -
  have agree: "copy_frame n p m a = m a" if "t \<in> tables m root" "a - t < PGSIZE" for t a
  proof -
    have "page_aligned t" "t \<noteq> n" using that(1) tables_aligned [OF assms(1)] assms(3) by auto
    then show ?thesis using frames_apart [OF _ assms(2) _ that(2)] by (simp add: copy_frame_def)
  qed
  show "pt_wf (copy_frame n p m) root" "pte_of (copy_frame n p m) root va = pte_of m root va"
    using frame_agrees [OF assms(1) agree] by auto
  show "path_ok q \<Longrightarrow> table_at (copy_frame n p m) root q = table_at m root q" by (rule frame_agrees(1) [OF assms(1) agree])
qed

lemma cow_fault_ok:
  assumes ut: "user_trap CAUSE_STORE_PAGE_FAULT i s" and sf: "shared_fault x i ps f s"
  defines "dir \<equiv> pagetable (procs s ! i)" and "n \<equiv> PFN_TO_ADDR f"
  defines "e \<equiv> pte_of (kmem s) dir (stval s)"
  shows "\<exists>s'. smode_trap_handler x s = Resumes (tf_ptr (procs s ! i)) (MAKE_SATP dir) s' \<and> sepc s' = sepc s \<and> current s' = Some i \<and>
    tf_regs (tframes s' (tf_ptr (procs s ! i))) = tf_regs (tframes s (tf_ptr (procs s ! i))) \<and> page_aligned n \<and>
    (\<forall>va. pte_of (kmem s') dir va = (if same_page (stval s) va then cow_entry n e else pte_of (kmem s) dir va)) \<and>
    (\<forall>a. (\<forall>t\<in>tables (kmem s) dir. \<not> a - t < PGSIZE) \<longrightarrow>
       kmem s' a = (if a - n < PGSIZE then kmem s (PTE2PA e + (a - n)) else kmem s a)) \<and>
    procs s' = procs s \<and> ready_queue_head s' = ready_queue_head s \<and> minfos s' = minfos s \<and>
    (\<forall>a. a \<noteq> tf_ptr (procs s ! i) \<longrightarrow> tframes s' a = tframes s a) \<and>
    kpmm s' = (swapped (ADDR_TO_PFN (PTE2PA e)) (kpmm s))\<lparr>sstatus_reg := sstatus_reg (kpmm s')\<rparr> \<and>
    (\<exists>p. alloc_page (kpmm s') = Inr (n, p))"
proof -
  let ?p = "procs s ! i" and ?s1 = "saved_pc i (sepc s) s" and ?va = "stval s"
  have u: "current s = Some i" "i < length (procs s)" "tf_ptr ?p \<noteq> 0" "scause s = CAUSE_STORE_PAGE_FAULT"
    using ut by (simp_all add: user_trap_def)
  have h: "vm_ok dir (kvm s)" "0 < ?va" "?va < MAXVA" "pte_valid e" "e AND PTE_COW \<noteq> 0" "cached_pages (kpmm s) = ps @ [f]"
    using sf by (simp_all add: shared_fault_def Let_def dir_def e_def)
  have pok: "pmm_ok (kpmm s)" and wf: "pt_wf (kmem s) dir" and nt: "n \<notin> tables (kmem s) dir" using h(1,6) by (auto simp: vm_ok_def n_def)
  have n: "page_aligned n" using vm_alloc_page_cached [OF pok h(6)] by (auto simp: n_def)
  have "shared_fault x i ps f ?s1" using sf by (simp add: shared_fault_def)
  from cow_private [OF this] have
    c: "cow_fault x (leaf_cell (kmem s) dir ?va) e ?s1 = Inr (?s1\<lparr>kvm := (kvm s)\<lparr>vpmm := swapped (ADDR_TO_PFN (PTE2PA e)) (kpmm s),
        vmem := (copy_frame n (PTE2PA e) (kmem s))(leaf_cell (kmem s) dir ?va := cow_entry n e)\<rparr>\<rparr>)" (is "_ = Inr ?s2")
      "reissued n (swapped (ADDR_TO_PFN (PTE2PA e)) (kpmm s))" by (auto simp: dir_def n_def e_def)
  have "handle_user_page_fault x (scause s) (sepc s) ?va ?s1 = Inr ?s2"
    using store_fault [of ?s1 i] u wf h c(1) by (simp add: dir_def e_def)
  then have r: "smode_trap_handler x s = Resumes (tf_ptr ?p) (MAKE_SATP dir) (resumed x i ?s2)"
    using trap_page_fault [of i s x] ut u switch_to_ok [of i ?s2 x] by (simp add: dir_def)
  obtain t where t: "table_at (kmem s) dir (leaf_path ?va) = Some t" using h(4) e_def by (auto simp: pte_of_def split: option.splits)
  then have lc: "leaf_cell (kmem s) dir ?va = pte_addr t (PX 0 ?va)" by (simp add: leaf_cell_def)
  note cf = copy_frame_space [OF wf n nt, where p = "PTE2PA e"]
  have "table_at (copy_frame n (PTE2PA e) (kmem s)) dir (leaf_path ?va) = Some t" using cf(3) [OF leaf_path_ok(1)] t by simp
  then have "pte_of (kmem ?s2) dir va = (if same_page ?va va then cow_entry n e else pte_of (kmem s) dir va)" for va
    using leaf_store_pte_of [OF cf(1)] cf(2) lc by simp
  moreover have "kmem ?s2 a = (if a - n < PGSIZE then kmem s (PTE2PA e + (a - n)) else kmem s a)"
    if "\<forall>t\<in>tables (kmem s) dir. \<not> a - t < PGSIZE" for a
  proof -
    have "t \<in> tables (kmem s) dir" by (rule table_in_tables [OF leaf_path_ok(1) t])
    then have "a \<noteq> pte_addr t (PX 0 ?va)" using that pte_addr_offset [OF PX_less [of 0 ?va], of t] by blast
    then show ?thesis using lc by (simp add: copy_frame_def)
  qed
  moreover have "\<exists>p. alloc_page (kpmm (resumed x i ?s2)) = Inr (n, p)" using c(2) by (simp add: reissued_def resumed_def Let_def)
  moreover have "kpmm (resumed x i ?s2) = (swapped (ADDR_TO_PFN (PTE2PA e)) (kpmm s))\<lparr>sstatus_reg := sstatus_reg (kpmm (resumed x i ?s2))\<rparr>"
    "\<forall>a. a \<noteq> tf_ptr ?p \<longrightarrow> tframes (resumed x i ?s2) a = tframes s a" by (simp_all add: resumed_def saved_pc_def Let_def)
  ultimately show ?thesis using r n by (intro exI [of _ "resumed x i ?s2"]) simp
qed


text \<open>C38: After such a fault the page allocator hands the private frame of the faulting process out
  again: the next \<^verbatim>\<open>alloc_page\<close> returns the frame that was just mapped.\<close>

theorem cow_fault_reissues_frame:
  assumes "user_trap CAUSE_STORE_PAGE_FAULT i s" and "shared_fault x i ps f s"
  shows "\<exists>s' p. smode_trap_handler x s = Resumes (tf_ptr (procs s ! i)) (MAKE_SATP (pagetable (procs s ! i))) s' \<and>
    alloc_page (kpmm s') = Inr (PTE2PA (pte_of (kmem s') (pagetable (procs s ! i)) (stval s)), p)"
  using cow_fault_ok [OF assms] by (auto simp: same_page_refl cow_entry_frame)

text \<open>The running process with its stack page shared copy-on-write.\<close>

definition shared_externs :: externs where
  "shared_externs = sample_externs\<lparr>x_get_page_ref := (\<lambda>a s. 2)\<rparr>"

lemma taken_frame:
  assumes ok: "pmm_ok (vpmm v)" "ram_ok (vpmm v)" and b: "(\<exists>qs. drawn (vpmm v) qs (vpmm v'))" and a: "a \<in> taken v v'"
  shows "ADDR_TO_PFN a < nr_pages (vpmm v')" "pg_order (pages (vpmm v') (ADDR_TO_PFN a)) = 0"
    "page_supply v' < page_supply v" "page_aligned a"
proof -
  from a obtain f where f: "a = PFN_TO_ADDR f" "f \<in> set (cached_pages (vpmm v))" "f \<notin> set (cached_pages (vpmm v'))"
    by (auto simp: taken_def)
  from b obtain qs n where qs: "cached_pages (vpmm v) = cached_pages (vpmm v') @ qs"
    "vpmm v' = cache_set 0 ((pcpu_caches (vpmm v) ! 0)\<lparr>pc_count := n\<rparr>) (vpmm v)" unfolding drawn_def by blast
  note c = cached_freeable [OF ok f(2)]
  show "ADDR_TO_PFN a < nr_pages (vpmm v')" "pg_order (pages (vpmm v') (ADDR_TO_PFN a)) = 0"
    using c f(1) qs(2) by (simp_all add: cache_set_def)
  have "qs \<noteq> []" using f(2,3) qs(1) by auto
  then show "page_supply v' < page_supply v" using qs(1) by simp
  show "page_aligned a" using cached_page_bounds(3) [OF ok f(2)] f(1) by simp
qed

lemma cow_running:
  "\<exists>s ps f. user_trap CAUSE_STORE_PAGE_FAULT 0 s \<and> shared_fault shared_externs 0 ps f s \<and> stval s = ustack_page"
proof -
  from running_facts obtain tf dir ks us mi v where r: "is_running tf dir ks us mi v" by blast
  note sp = running_space [OF r]
  have k: "kvm running_kernel = v" "pagetable (procs running_kernel ! 0) = dir" "us \<in> taken boot_vm v" "21 \<le> page_supply v"
    "built dir (new_space tf us 0x80002000) boot_vm v" using r by (simp_all add: is_running_def new_process_def)
  have us: "ADDR_TO_PFN us < nr_pages (vpmm v)" "pg_order (pages (vpmm v) (ADDR_TO_PFN us)) = 0" "page_supply v < 32" "page_aligned us"
    using taken_frame [of boot_vm v us] k(3,5) empty_facts(1-4) by (simp_all add: built_def)
  obtain ps f where c: "cached_pages (vpmm v) = ps @ [f]" using k(4) by (cases "cached_pages (vpmm v)" rule: rev_cases) auto
  let ?e = "PA2PTE us OR (0xd5 OR PTE_COW)"
  have e: "PTE2PA ?e = us" "pte_valid ?e"
    using PTE2PA_PA2PTE [OF us(4), of "0xd5 OR PTE_COW"] by (simp_all add: PTE_COW_def pte_valid_bit bit_or_iff)
  have e': "?e AND PTE_COW \<noteq> 0" by (simp add: flag_bits bit_or_iff PTE_bits)
  obtain t where t: "table_at (vmem v) dir (leaf_path ustack_page) = Some t"
  proof (cases "table_at (vmem v) dir (leaf_path ustack_page)")
    case None
    then have "\<not> pte_valid (PA2PTE us OR prot_to_type (PROT_WRITE OR PROT_READ) True OR PTE_V)"
      using sp(8) not_valid_0 by (simp add: pte_of_def)
    then show ?thesis by simp
  qed blast
  let ?v = "v\<lparr>vmem := (vmem v)(pte_addr t (PX 0 ustack_page) := ?e)\<rparr>"
  have v: "vm_ok dir ?v" "pte_of (vmem ?v) dir ustack_page = ?e"
    using leaf_write(1) [OF sp(1) t, of ?e] ustack_facts(3) by (simp_all add: updated_def same_page_refl)
  let ?s = "trapping CAUSE_STORE_PAGE_FAULT ustack_page 0 (running_kernel\<lparr>kvm := ?v\<rparr>)"
  have "user_trap CAUSE_STORE_PAGE_FAULT 0 ?s"
    using running_trap [of CAUSE_STORE_PAGE_FAULT ustack_page 0] by (simp add: user_trap_def trapping_def)
  moreover have "shared_fault shared_externs 0 ps f ?s"
    using v e e' us c k ustack_facts by (simp add: shared_fault_def shared_externs_def trapping_def Let_def PCPU_CACHE_SIZE_def vm_ok_def)
  ultimately show ?thesis by (intro exI [of _ ?s]) auto
qed


theorem cow_fault_reissues_frame_witness:
  "\<exists>s s' t p q. smode_trap_handler shared_externs s = Resumes t p s' \<and>
     alloc_page (kpmm s') = Inr (PTE2PA (pte_of (kmem s') (pagetable (procs s ! 0)) ustack_page), q)"
proof -
  from cow_running obtain s ps f where s: "user_trap CAUSE_STORE_PAGE_FAULT 0 s" "shared_fault shared_externs 0 ps f s" "stval s = ustack_page"
    by blast
  from cow_fault_reissues_frame [OF s(1,2)] s(3) show ?thesis by metis
qed

text \<open>A store to a copy-on-write page that is referenced once makes the page writable in place: only the
  entry of this page changes, to writable and no longer copy-on-write, and no frame is allocated or copied.\<close>

lemma cow_fault_sole_owner:
  assumes "user_trap CAUSE_STORE_PAGE_FAULT i s" and "pt_wf (kmem s) (pagetable (procs s ! i))"
    and "0 < stval s" and "stval s < MAXVA" and "pte_valid (pte_of (kmem s) (pagetable (procs s ! i)) (stval s))"
    and "pte_of (kmem s) (pagetable (procs s ! i)) (stval s) AND PTE_COW \<noteq> 0"
    and "x_get_page_ref x (PTE2PA (pte_of (kmem s) (pagetable (procs s ! i)) (stval s))) (kpmm s) \<le> 1"
  shows "\<exists>s'. let dir = pagetable (procs s ! i) in
    smode_trap_handler x s = Resumes (tf_ptr (procs s ! i)) (MAKE_SATP dir) s' \<and> sepc s' = sepc s \<and>
    (\<forall>va. pte_of (kmem s') dir va = (if same_page (stval s) va then (pte_of (kmem s) dir (stval s) OR PTE_W) AND NOT PTE_COW
       else pte_of (kmem s) dir va)) \<and>
    (\<exists>c. \<forall>a. a \<noteq> c \<longrightarrow> kmem s' a = kmem s a) \<and> pcpu_caches (kpmm s') = pcpu_caches (kpmm s)"
proof -
  let ?p = "procs s ! i" and ?va = "stval s" and ?s1 = "saved_pc i (sepc s) s"
  let ?dir = "pagetable ?p" let ?e = "pte_of (kmem s) ?dir ?va"
  have u: "current s = Some i" "i < length (procs s)" "tf_ptr ?p \<noteq> 0" "scause s = CAUSE_STORE_PAGE_FAULT"
    using assms(1) by (simp_all add: user_trap_def)
  obtain t where t: "table_at (kmem s) ?dir (leaf_path ?va) = Some t" using assms(5) by (auto simp: pte_of_def split: option.splits)
  let ?c = "pte_addr t (PX 0 ?va)" and ?e' = "(?e OR PTE_W) AND NOT PTE_COW"
  have c: "leaf_cell (kmem s) ?dir ?va = ?c" "?c \<noteq> 0" using t pte_addr_nz [OF assms(2) leaf_path_ok(1) t PX_less] by (simp_all add: leaf_cell_def)
  let ?s2 = "?s1\<lparr>kvm := (kvm s)\<lparr>vmem := (kmem s)(?c := ?e')\<rparr>\<rparr>"
  have "cow_fault x ?c ?e ?s1 = Inr ?s2"
    using assms(7) c(2) by (simp add: cow_fault_def Let_def on_vm_def mem_read_def mem_write_def)
  then have "handle_user_page_fault x (scause s) (sepc s) ?va ?s1 = Inr ?s2"
    using store_fault [of ?s1 i ?va x "sepc s"] u assms c(1) by simp
  then have "smode_trap_handler x s = Resumes (tf_ptr ?p) (MAKE_SATP ?dir) (resumed x i ?s2)"
    using trap_page_fault [of i s x] assms(1) u switch_to_ok [of i ?s2 x] by simp
  moreover have "pcpu_caches (kpmm (resumed x i ?s2)) = pcpu_caches (kpmm s)" by (simp add: resumed_def Let_def)
  moreover have "\<exists>c. \<forall>a. a \<noteq> c \<longrightarrow> kmem ?s2 a = kmem s a" by (rule exI [of _ ?c]) simp
  ultimately show ?thesis using leaf_store_pte_of [OF assms(2) t]
    by (intro exI [of _ "resumed x i ?s2"]) (simp add: Let_def)
qed

lemma cow_fault_sole_owner_witness:
  "\<exists>s s' t p. user_trap CAUSE_STORE_PAGE_FAULT 0 s \<and> smode_trap_handler sample_externs s = Resumes t p s' \<and> sepc s' = sepc s"
proof -
  from cow_running obtain s ps f where s: "user_trap CAUSE_STORE_PAGE_FAULT 0 s" "shared_fault shared_externs 0 ps f s" by blast
  then have "pt_wf (kmem s) (pagetable (procs s ! 0))" "0 < stval s" "stval s < MAXVA"
    "pte_valid (pte_of (kmem s) (pagetable (procs s ! 0)) (stval s))" "pte_of (kmem s) (pagetable (procs s ! 0)) (stval s) AND PTE_COW \<noteq> 0"
    by (simp_all add: shared_fault_def vm_ok_def Let_def)
  from cow_fault_sole_owner [OF s(1) this, of sample_externs] s(1) show ?thesis
    by (auto simp: Let_def sample_externs_def)
qed

section \<open>Load faults and fatal traps\<close>

lemma sstatus_bits: "bit SSTATUS_SPP n \<longleftrightarrow> n = 8" "bit SSTATUS_SPIE n \<longleftrightarrow> n = 5"
  unfolding SSTATUS_SPP_def SSTATUS_SPIE_def bit_push_bit_iff bit_1_iff by auto

lemma user_status:
  "(v AND NOT SSTATUS_SPP OR SSTATUS_SPIE) AND SSTATUS_SPP = 0"
  "(v AND NOT SSTATUS_SPP OR SSTATUS_SPIE) AND NOT SSTATUS_SPP OR SSTATUS_SPIE = v AND NOT SSTATUS_SPP OR SSTATUS_SPIE"
  by (rule bit_eqI; auto simp: bit_and_iff bit_or_iff bit_not_iff sstatus_bits)+

text \<open>C35: A load page fault is never resolved: the handler resumes the faulting instruction with the
  same registers and the same memory, and taking the same fault again leads back to the very same
  state, so the process never gets past the load.\<close>

theorem load_fault_livelock:
  assumes "user_trap CAUSE_LOAD_PAGE_FAULT i s"
  shows "\<exists>s'. let p = procs s ! i; r = Resumes (tf_ptr p) (MAKE_SATP (pagetable p)) s' in
    smode_trap_handler x s = r \<and> sepc s' = sepc s \<and> tf_regs (tframes s' (tf_ptr p)) = tf_regs (tframes s (tf_ptr p)) \<and>
    kmem s' = kmem s \<and> smode_trap_handler x s' = r"
proof -
  let ?p = "procs s ! i" and ?s1 = "saved_pc i (sepc s) s"
  let ?r = "resumed x i ?s1"
  have step: "smode_trap_handler x t = Resumes (tf_ptr (procs t ! i)) (MAKE_SATP (pagetable (procs t ! i))) (resumed x i (saved_pc i (sepc t) t))"
    if "user_trap CAUSE_LOAD_PAGE_FAULT i t" for t
  proof -
    have "handle_user_page_fault x (scause t) (sepc t) (stval t) (saved_pc i (sepc t) t) = Inr (saved_pc i (sepc t) t)"
      using that by (simp add: handle_user_page_fault_def user_trap_def cause_defs)
    then show ?thesis using trap_page_fault [of i t x] that switch_to_ok [of i "saved_pc i (sepc t) t" x] by (simp add: user_trap_def)
  qed
  note spp = user_status
  have "user_trap CAUSE_LOAD_PAGE_FAULT i ?r" using assms spp by (simp add: user_trap_def resumed_def Let_def)
  moreover have "resumed x i (saved_pc i (sepc ?r) ?r) = ?r"
    using spp(2) by (simp add: resumed_def saved_pc_def Let_def)
  ultimately show ?thesis using step [OF assms] step [of ?r] by (intro exI [of _ ?r]) (simp add: Let_def)
qed

theorem load_fault_livelock_witness:
  "\<exists>t p s'. smode_trap_handler sample_externs (trapping CAUSE_LOAD_PAGE_FAULT 0x400000 0 running_kernel) = Resumes t p s' \<and>
     smode_trap_handler sample_externs s' = Resumes t p s'"
  using load_fault_livelock [OF running_trap, where x = sample_externs] unfolding Let_def by metis

text \<open>A store of a user program to address 0 or above the range of Sv39 addresses fails an assertion of the kernel, and a
  store to a page that is not mapped, or is not copy-on-write, panics: the whole machine stops, not only the process.\<close>

lemma store_fault_fatal:
  assumes "user_trap CAUSE_STORE_PAGE_FAULT i s" and "pt_wf (kmem s) (pagetable (procs s ! i))"
  shows "(stval s = 0 \<or> MAXVA \<le> stval s \<longrightarrow> smode_trap_handler x s = Fails (AssertFail ''va > 0 && va < MAXVA'')) \<and>
    (let e = pte_of (kmem s) (pagetable (procs s ! i)) (stval s) in
     0 < stval s \<and> stval s < MAXVA \<and> (\<not> pte_valid e \<or> e AND PTE_COW = 0) \<longrightarrow>
     smode_trap_handler x s = Fails (Panic ''Illegal memory access or Stack Overflow.''))"
proof -
  let ?s1 = "saved_pc i (sepc s) s"
  have u: "current s = Some i" "i < length (procs s)" "scause s = CAUSE_STORE_PAGE_FAULT" using assms(1) by (simp_all add: user_trap_def)
  note trap = trap_page_fault [of i s x]
  have "smode_trap_handler x s = Fails (AssertFail ''va > 0 && va < MAXVA'')" if "stval s = 0 \<or> MAXVA \<le> stval s"
  proof -
    have "\<not> (0 < stval s \<and> stval s < MAXVA)" using that by auto
    then have "handle_user_page_fault x (scause s) (sepc s) (stval s) ?s1 = Inl (AssertFail ''va > 0 && va < MAXVA'')"
      using u by (simp add: handle_user_page_fault_def cur_proc_ok with_vm_def page_walk_def guardE_def) blast
    then show ?thesis using trap assms(1) by simp
  qed
  moreover have "smode_trap_handler x s = Fails (Panic ''Illegal memory access or Stack Overflow.'')"
    if "0 < stval s" "stval s < MAXVA" "\<not> pte_valid (pte_of (kmem s) (pagetable (procs s ! i)) (stval s)) \<or>
      pte_of (kmem s) (pagetable (procs s ! i)) (stval s) AND PTE_COW = 0"
    using store_fault [of ?s1 i "stval s" x "sepc s"] u assms that trap by auto
  ultimately show ?thesis by (simp add: Let_def)
qed

lemma store_fault_fatal_witness:
  "smode_trap_handler sample_externs (trapping CAUSE_STORE_PAGE_FAULT 0 0 running_kernel) = Fails (AssertFail ''va > 0 && va < MAXVA'') \<and>
   smode_trap_handler sample_externs (trapping CAUSE_STORE_PAGE_FAULT 0x400000 0 running_kernel) =
     Fails (Panic ''Illegal memory access or Stack Overflow.'')"
proof -
  have wf: "pt_wf (kmem running_kernel) (pagetable (procs running_kernel ! 0))"
    using running_heap(1) by (simp add: heap_process_def vm_ok_def)
  then have "smode_trap_handler sample_externs (trapping CAUSE_STORE_PAGE_FAULT 0 0 running_kernel) = Fails (AssertFail ''va > 0 && va < MAXVA'')"
    using store_fault_fatal [OF running_trap [of CAUSE_STORE_PAGE_FAULT 0 0], of sample_externs] by simp
  moreover have "smode_trap_handler sample_externs (trapping CAUSE_STORE_PAGE_FAULT 0x400000 0 running_kernel) =
     Fails (Panic ''Illegal memory access or Stack Overflow.'')"
    using store_fault_fatal [OF running_trap [of CAUSE_STORE_PAGE_FAULT "0x400000" 0], of sample_externs] wf running_heap(3,7,8) by (simp add: Let_def)
  ultimately show ?thesis by simp
qed

text \<open>The numbers that \<^verbatim>\<open>do_syscall\<close> dispatches.\<close>

definition known_syscalls :: "uint64 set" where
  "known_syscalls = {SYS_user_print, SYS_user_exit, SYS_user_allocate_page, SYS_user_free_page, SYS_user_fork, SYS_user_yield,
     SYS_user_sem_new, SYS_user_sem_P, SYS_user_sem_V, SYS_user_printpa}"

text \<open>The traps that stop the machine: one taken in supervisor mode, one without a current process, a
  timer interrupt, an unexpected cause, the system call \<^verbatim>\<open>yield\<close> and a system call with an unknown
  number, which any user program can issue.\<close>

lemma fatal_traps:
  "(sstatus_reg (kpmm s) AND SSTATUS_SPP \<noteq> 0 \<longrightarrow> smode_trap_handler x s = Fails (Panic ''usertrap: not from user mode'')) \<and>
   (sstatus_reg (kpmm s) AND SSTATUS_SPP = 0 \<and> current s = None \<longrightarrow> smode_trap_handler x s = Fails (AssertFail ''current'')) \<and>
   (user_trap CAUSE_MTIMER_S_TRAP i s \<longrightarrow> smode_trap_handler x s =
      Fails (Panic ''lab1_3: increase g_ticks by one, and clear SIP field in sip register.'')) \<and>
   (user_trap cause i s \<and> cause \<notin> {CAUSE_USER_ECALL, CAUSE_MTIMER_S_TRAP, CAUSE_STORE_PAGE_FAULT, CAUSE_LOAD_PAGE_FAULT} \<longrightarrow>
      smode_trap_handler x s = Fails (Panic ''unexpected exception happened.'')) \<and>
   (let a0 = r_a0 (tf_regs (tframes s (tf_ptr (procs s ! i)))) in user_trap CAUSE_USER_ECALL i s \<longrightarrow>
      (a0 = SYS_user_yield \<longrightarrow> smode_trap_handler x s = Fails (Panic ''You need to implement the yield syscall in lab3_2.'')) \<and>
      (a0 \<notin> known_syscalls \<longrightarrow> smode_trap_handler x s = Fails (Panic ''Unknown syscall'')))"
proof -
  have "smode_trap_handler x s = Fails (Panic ''lab1_3: increase g_ticks by one, and clear SIP field in sip register.'')"
    if "user_trap CAUSE_MTIMER_S_TRAP i s"
    using that by (simp add: user_trap_def smode_trap_handler_def cur_proc_ok tf_upd_ok Let_def cause_defs handle_mtimer_trap_def)
  moreover have "smode_trap_handler x s = Fails (Panic ''unexpected exception happened.'')"
    if "user_trap cause i s" "cause \<notin> {CAUSE_USER_ECALL, CAUSE_MTIMER_S_TRAP, CAUSE_STORE_PAGE_FAULT, CAUSE_LOAD_PAGE_FAULT}"
    using that by (simp add: user_trap_def smode_trap_handler_def cur_proc_ok tf_upd_ok Let_def)
  moreover have "smode_trap_handler x s = Fails (Panic ''You need to implement the yield syscall in lab3_2.'')"
    if "user_trap CAUSE_USER_ECALL i s" "r_a0 (tf_regs (tframes s (tf_ptr (procs s ! i)))) = SYS_user_yield"
    using trap_ecall [OF that(1), of x] that(2) by (simp add: Let_def do_syscall_def sys_numbers sys_user_yield_def)
  moreover have "smode_trap_handler x s = Fails (Panic ''Unknown syscall'')"
    if "user_trap CAUSE_USER_ECALL i s" "r_a0 (tf_regs (tframes s (tf_ptr (procs s ! i)))) \<notin> known_syscalls"
    using trap_ecall [OF that(1), of x] that(2) by (simp add: Let_def do_syscall_def known_syscalls_def)
  moreover have "smode_trap_handler x s = Fails (Panic ''usertrap: not from user mode'')" if "sstatus_reg (kpmm s) AND SSTATUS_SPP \<noteq> 0"
    using that by (simp add: smode_trap_handler_def)
  moreover have "smode_trap_handler x s = Fails (AssertFail ''current'')" if "sstatus_reg (kpmm s) AND SSTATUS_SPP = 0" "current s = None"
    using that by (simp add: smode_trap_handler_def)
  ultimately show ?thesis by (simp add: Let_def)
qed

lemma fatal_traps_witness:
  "smode_trap_handler sample_externs (trapping CAUSE_MTIMER_S_TRAP 0 0 running_kernel) =
     Fails (Panic ''lab1_3: increase g_ticks by one, and clear SIP field in sip register.'') \<and>
   smode_trap_handler sample_externs (trapping CAUSE_USER_ECALL 0 63 running_kernel) = Fails (Panic ''Unknown syscall'')"
proof
  show "smode_trap_handler sample_externs (trapping CAUSE_MTIMER_S_TRAP 0 0 running_kernel) =
     Fails (Panic ''lab1_3: increase g_ticks by one, and clear SIP field in sip register.'')"
    using fatal_traps [of "trapping CAUSE_MTIMER_S_TRAP 0 0 running_kernel" sample_externs 0] running_trap by simp
  have "(63 :: uint64) \<notin> known_syscalls" by (simp add: known_syscalls_def sys_numbers)
  then show "smode_trap_handler sample_externs (trapping CAUSE_USER_ECALL 0 63 running_kernel) = Fails (Panic ''Unknown syscall'')"
    using fatal_traps [of "trapping CAUSE_USER_ECALL 0 63 running_kernel" sample_externs 0] running_trap by (simp add: Let_def)
qed

end
