(* ===== verification/Pke_Boot.thy ===== *)
theory Pke_Boot
  imports Pke_Elf_Thms Pke_Strap_Thms
begin

text \<open>
  The supervisor-mode start of the kernel, \<^verbatim>\<open>kernel/kernel.c\<close>: memory management, the kernel page table,
  paging, the process pool, and the first program. It ends in \<^verbatim>\<open>schedule\<close>, which leaves for user mode.
\<close>

section \<open>Starting the kernel\<close>

definition enable_paging :: "kernel \<Rightarrow> kernel" where
  "enable_paging s = s\<lparr>satp := MAKE_SATP (g_kernel_pagetable (kvm s))\<rparr>"

definition load_user_program :: "externs \<Rightarrow> 'd henv \<Rightarrow> elf_frame \<Rightarrow> 'd loader \<Rightarrow> (nat \<times> 'd loader) outcome" where
  "load_user_program x E F s =
     bindO (in_kernel (alloc_process x) s) (\<lambda>(proc, s).
     bindO (load_bincode_from_host_elf E F proc s) (\<lambda>s. returnO (proc, s)))"

text \<open>The end of \<^verbatim>\<open>s_start\<close>: the process pool, the first program and the first switch to user mode.\<close>

definition launch :: "externs \<Rightarrow> 'd henv \<Rightarrow> elf_frame \<Rightarrow> 'd loader \<Rightarrow> (unit flow \<times> 'd ftable) outcome" where
  "launch x E F s =
     (let s = s\<lparr>ld_kernel := init_proc_pool (ld_kernel s)\<rparr> in
      bindO (load_user_program x E F s) (\<lambda>(proc, s).
      bindO (on_kernel (insert_to_ready_queue proc) s) (\<lambda>s.
      returnO (schedule x (ld_kernel s), ld_files s))))"

text \<open>\<^verbatim>\<open>s_start\<close>; \<open>kend\<close> and \<open>etext\<close> are the symbols \<^verbatim>\<open>_end\<close> and \<^verbatim>\<open>_etext\<close> of the linker.\<close>

definition s_start ::
  "externs \<Rightarrow> uint64 \<Rightarrow> uint64 \<Rightarrow> 'd henv \<Rightarrow> elf_frame \<Rightarrow> 'd loader \<Rightarrow> (unit flow \<times> 'd ftable) outcome" where
  "s_start x kend etext E F s =
     (let s = s\<lparr>ld_kernel := (ld_kernel s)\<lparr>satp := 0\<rparr>\<rparr> in
      bindO (on_kernel (on_vm (\<lambda>v. bindE (pmm_init kend (vpmm v)) (\<lambda>p. Inr (v\<lparr>vpmm := p\<rparr>)))) s) (\<lambda>s.
      bindO (on_kernel (on_vm (kern_vm_init etext)) s) (\<lambda>s.
      let s = s\<lparr>ld_kernel := enable_paging (ld_kernel s)\<rparr> in
      launch x E F s)))"

section \<open>What the start does\<close>

text \<open>C26: With memory that \<^verbatim>\<open>pmm_init\<close> accepts, \<^verbatim>\<open>s_start\<close> hangs: the page cache that \<^verbatim>\<open>pmm_init\<close> fills holds 32 pages, the
  direct mapping that \<^verbatim>\<open>kern_vm_init\<close> builds needs more page tables than that, and the refill of the cache waits for the
  lock its caller holds. Paging is never turned on and no program is loaded.\<close>

theorem s_start_hangs:
  assumes "boot_ok kend (kpmm (ld_kernel s))" and "page_aligned etext" and "KERN_BASE < etext" and "etext < PHYS_TOP"
  shows "s_start x kend etext E F s = Some (Inl Spin)"
proof -
  let ?v = "kvm (ld_kernel s)"
  from pmm_init_correct [OF assms(1)] obtain p where
    p: "pmm_init kend (vpmm ?v) = Inr p" "pmm_ok p" "length (cached_pages p) = PCPU_CACHE_SIZE" by auto
  have "kern_vm_init etext (?v\<lparr>vpmm := p\<rparr>) = Inl Spin"
    using p assms(2-4) by (intro kern_vm_init_spins) (simp_all add: PCPU_CACHE_SIZE_def)
  then show ?thesis using p(1) by (simp add: s_start_def on_kernel_def on_vm_def Let_def)
qed

definition cold_start :: "unit loader" where
  "cold_start = elf_start\<lparr>ld_kernel := idle_kernel\<lparr>kvm := boot_vm\<lparr>vpmm := cold_pmm\<rparr>\<rparr>\<rparr>"

theorem s_start_hangs_witness:
  "s_start sample_externs 0x80010000 0x80008000 (file_env []) sample_frame cold_start = Some (Inl Spin)"
proof (rule s_start_hangs)
  show "boot_ok 0x80010000 (kpmm (ld_kernel cold_start))" using cold_boot_ok by (simp add: cold_start_def)
qed (simp_all add: page_aligned_unat KERN_BASE_def PHYS_TOP_def DRAM_BASE_def PKE_MAX_ALLOWABLE_RAM_def)

end
