(* ===== verification/Pke_Snprintf_Thms.thy ===== *)
theory Pke_Snprintf_Thms
  imports Pke_Snprintf
begin

text \<open>
  \<^verbatim>\<open>vsnprintf\<close> refines a two-step specification, parsing the format into pieces and rendering
  them into a text of any length: the buffer holds the text cut to its size and terminated.
\<close>

section \<open>The specification\<close>

datatype piece = Lit uint8 | Ptr | Hex bool | Dec bool | Str | Chr

fun parse :: "bool \<Rightarrow> bool \<Rightarrow> uint8 list \<Rightarrow> piece list" where
  "parse f l [] = []"
| "parse False l (c # cs) = (if c = 0x25 then parse True l cs else Lit c # parse False l cs)"
| "parse True l (c # cs) =
     (if c = 0x6c then parse True True cs
      else if c = 0x70 then Ptr # parse False False cs
      else if c = 0x78 then Hex l # parse False False cs
      else if c = 0x64 then Dec l # parse False False cs
      else if c = 0x73 then Str # parse False False cs
      else if c = 0x63 then Chr # parse False False cs
      else parse True l cs)"

definition hex_char :: "nat \<Rightarrow> uint8" where
  "hex_char d = (if d < 10 then word_of_nat (48 + d) else word_of_nat (87 + d))"

text \<open>The low \<open>k\<close> hexadecimal digits of a number, and its decimal digits.\<close>

definition hex_text :: "nat \<Rightarrow> nat \<Rightarrow> uint8 list" where
  "hex_text k v = map (\<lambda>i. hex_char (v div 16 ^ i mod 16)) (rev [0..<k])"

fun dec_digits :: "nat \<Rightarrow> uint8 list" where
  "dec_digits v = (if v < 10 then [word_of_nat (48 + v)] else dec_digits (v div 10) @ [word_of_nat (48 + v mod 10)])"

declare dec_digits.simps [simp del]

definition dec_text :: "int \<Rightarrow> uint8 list" where
  "dec_text z = (if z < 0 then 0x2d # dec_digits (nat (- z)) else dec_digits (nat z))"

text \<open>The text of one piece with argument slot \<open>v\<close>; \<open>str\<close> gives the strings that pointers point to.\<close>

fun piece_text :: "(uint64 \<Rightarrow> uint8 list) \<Rightarrow> uint64 \<Rightarrow> piece \<Rightarrow> uint8 list" where
  "piece_text str v (Lit c) = [c]"
| "piece_text str v Ptr = [0x30, 0x78] @ hex_text 16 (unat v)"
| "piece_text str v (Hex l) = hex_text (if l then 16 else 8) (unat v)"
| "piece_text str v (Dec l) = dec_text (sint (va_num l v))"
| "piece_text str v Str = str v"
| "piece_text str v Chr = [ucast v]"

text \<open>Whether a piece uses up an argument when \<open>pos\<close> bytes are already printed: a \<^verbatim>\<open>%c\<close> behind the end of the
  buffer does not, and what it counts for is then not stored.\<close>

definition takes_arg :: "uint64 \<Rightarrow> nat \<Rightarrow> piece \<Rightarrow> bool" where
  "takes_arg n pos p \<longleftrightarrow> (case p of Lit c \<Rightarrow> False | Chr \<Rightarrow> Suc pos < unat n | _ \<Rightarrow> True)"

text \<open>The text of the pieces from position \<open>pos\<close> and argument \<open>k\<close> on, for a buffer of \<open>n\<close> bytes.\<close>

fun render :: "(uint64 \<Rightarrow> uint8 list) \<Rightarrow> (nat \<Rightarrow> uint64) \<Rightarrow> uint64 \<Rightarrow> nat \<Rightarrow> nat \<Rightarrow> piece list \<Rightarrow> uint8 list" where
  "render str vl n pos k [] = []"
| "render str vl n pos k (p # ps) = piece_text str (vl k) p @
     render str vl n (pos + length (piece_text str (vl k) p)) (if takes_arg n pos p then k + 1 else k) ps"

text \<open>A C string outside the buffer.\<close>

definition str_outside :: "uint64 \<Rightarrow> uint64 \<Rightarrow> bytes \<Rightarrow> uint64 \<Rightarrow> uint8 list \<Rightarrow> bool" where
  "str_outside out n m s cs \<longleftrightarrow> cstr m s cs \<and> (\<forall>i\<le>length cs. \<not> s + word_of_nat i - out < n)"

text \<open>The arguments are fine: strings are terminated and outside the buffer, and no decimal is the
  number whose negation overflows.\<close>

fun args_ok ::
  "uint64 \<Rightarrow> uint64 \<Rightarrow> bytes \<Rightarrow> (uint64 \<Rightarrow> uint8 list) \<Rightarrow> (nat \<Rightarrow> uint64) \<Rightarrow> nat \<Rightarrow> nat \<Rightarrow> piece list \<Rightarrow> bool" where
  "args_ok out n m str vl pos k [] \<longleftrightarrow> True"
| "args_ok out n m str vl pos k (p # ps) \<longleftrightarrow>
     (case p of Str \<Rightarrow> str_outside out n m (vl k) (str (vl k)) | Dec l \<Rightarrow> sint (va_num l (vl k)) \<noteq> - (2 ^ 63) | _ \<Rightarrow> True) \<and>
     args_ok out n m str vl (pos + length (piece_text str (vl k) p)) (if takes_arg n pos p then k + 1 else k) ps"

section \<open>The buffer\<close>

text \<open>Memory when the text \<open>t\<close> has been put into the buffer so far.\<close>

definition buf :: "uint64 \<Rightarrow> uint64 \<Rightarrow> bytes \<Rightarrow> uint8 list \<Rightarrow> bytes" where
  "buf out n m t = (\<lambda>a. let i = unat (a - out) in if i < length t \<and> Suc i < unat n then t ! i else m a)"

definition printed :: "uint64 \<Rightarrow> uint64 \<Rightarrow> bytes \<Rightarrow> uint8 list \<Rightarrow> vstate \<Rightarrow> bool" where
  "printed out n m t st \<longleftrightarrow> v_mem st = buf out n m t \<and> v_pos st = word_of_nat (length t)"

lemma buf_outside: "\<not> a - out < n \<Longrightarrow> buf out n m t a = m a"
  by (simp add: buf_def Let_def word_less_iff_unat)

lemma buf_store:
  assumes "length t < 2 ^ 63"
  shows "(if word_of_nat (length t) + 1 < n then (buf out n m t)(out + word_of_nat (length t) := c) else buf out n m t) =
    buf out n m (t @ [c])"
proof -
  let ?k = "length t"
  have k: "unat (word_of_nat ?k :: uint64) = ?k" using assms by (subst unat_of_nat) simp
  have k1: "unat (word_of_nat ?k + 1 :: uint64) = Suc ?k" using assms k by (subst unat_add_noof) simp_all
  have eq: "a = out + word_of_nat ?k \<longleftrightarrow> unat (a - out) = ?k" for a
  proof
    assume "unat (a - out) = ?k"
    then have "out + word_of_nat ?k = out + (a - out)" by (simp flip: \<open>unat (a - out) = ?k\<close>)
    then show "a = out + word_of_nat ?k" by simp
  qed (use k in simp)
  show ?thesis using k1 eq by (auto simp: buf_def fun_eq_iff Let_def word_less_iff_unat nth_append less_Suc_eq)
qed

lemma put_char_printed:
  assumes "printed out n m t st" "length t < 2 ^ 63"
  shows "printed out n m (t @ [c]) (put_char out n c st)" "v_format (put_char out n c st) = v_format st"
    "v_long (put_char out n c st) = v_long st" "v_next (put_char out n c st) = v_next st"
  using assms buf_store [OF assms(2), of n out m c]
  by (simp_all add: printed_def put_char_def Let_def add.commute split: if_splits)

section \<open>Hexadecimal digits\<close>

lemma hex_digit_char:
  assumes "4 * i + 4 \<le> 64"
  shows "hex_digit (signed_drop_bit (4 * i) v AND 0xF) = hex_char (unat v div 16 ^ i mod 16)"
proof -
  have f: "(0xF :: uint64) = mask 4" by (simp add: mask_eq_exp_minus_1)
  have "signed_drop_bit (4 * i) v AND mask 4 = drop_bit (4 * i) v AND mask 4"
    using assms by (intro bit_eqI) (auto simp: bit_and_iff bit_mask_iff bit_signed_drop_bit_iff bit_drop_bit_eq)
  also have "\<dots> = take_bit 4 (drop_bit (4 * i) v)" by (simp add: take_bit_eq_mask)
  finally have "unat (signed_drop_bit (4 * i) v AND mask 4) = take_bit 4 (drop_bit (4 * i) (unat v))"
    by (simp only: unsigned_take_bit_eq unat_drop_bit_eq)
  then have e: "unat (signed_drop_bit (4 * i) v AND mask 4) = unat v div 16 ^ i mod 16"
    by (simp add: take_bit_eq_mod drop_bit_eq_div power_mult)
  let ?d = "signed_drop_bit (4 * i) v AND mask 4"
  have u: "(ucast ?d :: uint8) = word_of_nat (unat ?d)" by simp
  show ?thesis unfolding f hex_digit_def hex_char_def e [symmetric] using u by (simp add: word_less_iff_unat)
qed

lemma hex_loop_printed:
  assumes "printed out n m t st" "length t + i < 2 ^ 63" "4 * i \<le> 64"
  shows "printed out n m (t @ hex_text i (unat v)) (hex_loop out n v i st) \<and>
    v_format (hex_loop out n v i st) = v_format st \<and> v_long (hex_loop out n v i st) = v_long st \<and>
    v_next (hex_loop out n v i st) = v_next st"
  using assms
proof (induction i arbitrary: t st)
  case 0
  then show ?case by (simp add: hex_text_def)
next
  case (Suc i)
  let ?c = "hex_digit (signed_drop_bit (4 * i) v AND 0xF)"
  note p = put_char_printed [OF Suc.prems(1), where c = ?c]
  have "hex_text (Suc i) (unat v) = ?c # hex_text i (unat v)"
    using hex_digit_char [of i v] Suc.prems(3) by (simp add: hex_text_def)
  then show ?case using Suc.IH [OF p(1)] p(2-4) Suc.prems by simp
qed

section \<open>Decimal digits\<close>

lemma sdiv_ten: "0 \<le> z \<Longrightarrow> z sdiv 10 = z div 10" "0 \<le> z \<Longrightarrow> z smod 10 = z mod (10 :: int)"
  by (auto simp: signed_divide_int_def signed_modulo_int_def sgn_if minus_div_mult_eq_mod)

lemma dec_digits_small: "v < 10 \<Longrightarrow> dec_digits v = [word_of_nat (48 + v)]"
  by (simp add: dec_digits.simps)

lemma dec_digits_large: "10 \<le> v \<Longrightarrow> dec_digits v = dec_digits (v div 10) @ [word_of_nat (48 + v mod 10)]"
  by (subst dec_digits.simps) simp

lemma count_digits_length: "count_digits (int v) = length (dec_digits v)"
proof (induction v rule: dec_digits.induct)
  case (1 v)
  have e: "int v sdiv 10 = int (v div 10)" using sdiv_ten(1) [of "int v"] by (simp add: zdiv_int)
  show ?case
  proof (cases "v < 10")
    case True
    then show ?thesis using e by (subst count_digits.simps) (simp add: dec_digits_small)
  next
    case False
    then have "v div 10 \<noteq> 0" by auto
    then show ?thesis using e 1 False by (subst count_digits.simps) (simp add: dec_digits_large Let_def)
  qed
qed

definition tail_buf :: "uint64 \<Rightarrow> uint64 \<Rightarrow> nat \<Rightarrow> uint8 list \<Rightarrow> bytes \<Rightarrow> bytes" where
  "tail_buf out n p ds m = (\<lambda>a. let i = unat (a - out) in
     if p \<le> i \<and> i < p + length ds \<and> Suc i < unat n then ds ! (i - p) else m a)"

lemma tail_buf_append: "tail_buf out n (length t) ds (buf out n m t) = buf out n m (t @ ds)"
  by (auto simp: tail_buf_def buf_def fun_eq_iff Let_def nth_append)

lemma tail_buf_store:
  assumes "p + length ds < 2 ^ 63"
  shows "tail_buf out n p ds (if word_of_nat p + word_of_nat (length ds) + 1 < n
      then m(out + (word_of_nat p + word_of_nat (length ds)) := c) else m) = tail_buf out n p (ds @ [c]) m"
proof -
  let ?k = "p + length ds"
  have w: "(word_of_nat p + word_of_nat (length ds) :: uint64) = word_of_nat ?k" by simp
  have k: "unat (word_of_nat ?k :: uint64) = ?k" using assms by (subst unat_of_nat) (simp del: of_nat_add)
  have k1: "unat (word_of_nat ?k + 1 :: uint64) = Suc ?k" using assms k by (subst unat_add_noof) (simp_all del: of_nat_add)
  have eq: "a = out + word_of_nat ?k \<longleftrightarrow> unat (a - out) = ?k" for a
  proof
    assume "unat (a - out) = ?k"
    then have "out + word_of_nat ?k = out + (a - out)" by (simp flip: \<open>unat (a - out) = ?k\<close> del: of_nat_add)
    then show "a = out + word_of_nat ?k" by simp
  qed (use k in \<open>simp del: of_nat_add\<close>)
  show ?thesis unfolding w
  proof
    fix a
    let ?i = "unat (a - out)"
    have lt: "word_of_nat ?k + 1 < n \<longleftrightarrow> Suc ?k < unat n" using k1 by (simp add: word_less_iff_unat del: of_nat_add)
    show "tail_buf out n p ds (if word_of_nat ?k + 1 < n then m(out + word_of_nat ?k := c) else m) a = tail_buf out n p (ds @ [c]) m a"
    proof (cases "?i = ?k")
      case True
      then have "a = out + word_of_nat ?k" using eq by blast
      then show ?thesis using True lt k by (simp add: tail_buf_def Let_def del: of_nat_add)
    next
      case False
      then have "(if word_of_nat ?k + 1 < n then m(out + word_of_nat ?k := c) else m) a = m a" using eq [of a] by (simp del: of_nat_add)
      moreover have "?i < p + length (ds @ [c]) \<longleftrightarrow> ?i < p + length ds" using False by auto
      ultimately show ?thesis by (auto simp: tail_buf_def Let_def nth_append)
    qed
  qed
qed

lemma dec_loop_digits:
  "p + length (dec_digits v) < 2 ^ 63 \<Longrightarrow>
   dec_loop out n (word_of_nat p) (length (dec_digits v)) (int v) m = tail_buf out n p (dec_digits v) m"
proof (induction v arbitrary: m rule: dec_digits.induct)
  case (1 v)
  have e: "int v sdiv 10 = int (v div 10)" "int v smod 10 = int (v mod 10)"
    using sdiv_ten [of "int v"] by (simp_all add: zdiv_int zmod_int)
  have c: "(word_of_int (0x30 + int v smod 10) :: uint8) = word_of_nat (48 + v mod 10)" by (simp add: e(2))
  show ?case
  proof (cases "v < 10")
    case True
    have "tail_buf out n p [] m' = m'" for m' by (auto simp: tail_buf_def Let_def fun_eq_iff)
    then show ?thesis using tail_buf_store [of p "[]" out n m "word_of_nat (48 + v)"] True c 1(2)
      by (simp add: dec_digits_small split: if_splits)
  next
    case False
    let ?ds = "dec_digits (v div 10)"
    have ds: "dec_digits v = ?ds @ [word_of_nat (48 + v mod 10)]" using False by (simp add: dec_digits_large)
    have "dec_loop out n (word_of_nat p) (length ?ds) (int (v div 10)) m' = tail_buf out n p ?ds m'" for m'
      using 1(1) [OF False, of m'] 1(2) ds by simp
    moreover have "dec_loop out n (word_of_nat p) (length (dec_digits v)) (int v) m =
        dec_loop out n (word_of_nat p) (length ?ds) (int (v div 10)) (if word_of_nat p + word_of_nat (length ?ds) + 1 < n
          then m(out + (word_of_nat p + word_of_nat (length ?ds)) := word_of_nat (48 + v mod 10)) else m)"
      unfolding ds length_append_singleton dec_loop.simps e(1) c ..
    moreover have "p + length ?ds < 2 ^ 63" using 1(2) ds by simp
    ultimately show ?thesis unfolding ds by (simp only: tail_buf_store)
  qed
qed

lemma put_dec_printed:
  assumes st: "printed out n m t st" and len: "length (t @ dec_text (sint (va_num (v_long st) (vl (v_next st))))) < 2 ^ 63"
    and ok: "sint (va_num (v_long st) (vl (v_next st))) \<noteq> - (2 ^ 63)"
  shows "printed out n m (t @ dec_text (sint (va_num (v_long st) (vl (v_next st))))) (put_dec out n vl st) \<and>
    \<not> v_format (put_dec out n vl st) \<and> \<not> v_long (put_dec out n vl st) \<and> v_next (put_dec out n vl st) = v_next st + 1"
proof -
  let ?w = "va_num (v_long st) (vl (v_next st))" let ?z = "sint ?w"
  have mag: "sint (if ?w <s 0 then - ?w else ?w) = int (nat \<bar>?z\<bar>)"
  proof (cases "?w <s 0")
    case True
    then have neg: "?z < 0" by (simp add: word_sless_alt)
    have "- (2 ^ 63) \<le> ?z" using sint_ge [of ?w] by simp
    then have "- (2 ^ 63) < ?z" using ok by simp
    then have "sint (- ?w) = - ?z" using neg sint_word_ariths(4) [of ?w] signed_take_bit_int_eq_self [of 63 "- ?z"]
      by simp
    then show ?thesis using True neg by simp
  next
    case False
    then show ?thesis by (simp add: word_sless_alt)
  qed
  let ?pre = "if ?w <s 0 then [0x2d] else []"
  let ?st = "if ?w <s 0 then put_char out n 0x2d (st\<lparr>v_next := v_next st + 1\<rparr>) else st\<lparr>v_next := v_next st + 1\<rparr>"
  have dt: "dec_text ?z = ?pre @ dec_digits (nat \<bar>?z\<bar>)" by (auto simp: dec_text_def word_sless_alt)
  have st': "printed out n m t (st\<lparr>v_next := v_next st + 1\<rparr>)" using st by (simp add: printed_def)
  have pr: "printed out n m (t @ ?pre) ?st" "v_next ?st = v_next st + 1"
    using put_char_printed [OF st', of "0x2d"] st' len dt by auto
  from pr have p: "v_mem ?st = buf out n m (t @ ?pre)" "v_pos ?st = word_of_nat (length (t @ ?pre))" by (simp_all add: printed_def)
  let ?ds = "dec_digits (nat \<bar>?z\<bar>)"
  have l: "length (t @ ?pre) + length ?ds < 2 ^ 63" using len dt by simp
  have "dec_loop out n (v_pos ?st) (length ?ds) (int (nat \<bar>?z\<bar>)) (v_mem ?st) = buf out n m ((t @ ?pre) @ ?ds)"
    unfolding p dec_loop_digits [OF l] tail_buf_append ..
  moreover have "put_dec out n vl st = ?st\<lparr>v_mem := dec_loop out n (v_pos ?st) (length ?ds) (int (nat \<bar>?z\<bar>)) (v_mem ?st),
      v_pos := v_pos ?st + word_of_nat (length ?ds), v_long := False, v_format := False\<rparr>"
    using mag count_digits_length [of "nat \<bar>?z\<bar>"] by (simp add: put_dec_def Let_def split: if_splits)
  ultimately show ?thesis using p(2) pr(2) dt by (simp add: printed_def)
qed

section \<open>The conversions\<close>

lemma hex_text_int: "hex_text 8 (unat (va_num False v)) = hex_text 8 (unat v)"
proof -
  have f: "(0xF :: uint64) = mask 4" by (simp add: mask_eq_exp_minus_1)
  have "hex_char (unat (va_num False v) div 16 ^ i mod 16) = hex_char (unat v div 16 ^ i mod 16)" if "i < 8" for i
  proof -
    have "signed_drop_bit (4 * i) (va_num False v) AND mask 4 = signed_drop_bit (4 * i) v AND mask 4"
    proof (rule bit_eqI)
      fix k assume "possible_bit TYPE(uint64) k"
      show "bit (signed_drop_bit (4 * i) (va_num False v) AND mask 4) k = bit (signed_drop_bit (4 * i) v AND mask 4) k"
      proof (cases "k < 4")
        case True
        then have "min 31 (4 * i + k) = 4 * i + k" "4 * i + k < 32" using that by simp_all
        then show ?thesis using that by (auto simp: va_num_def bit_and_iff bit_signed_drop_bit_iff bit_signed_iff bit_ucast_iff)
      qed (simp add: bit_and_iff bit_mask_iff)
    qed
    then show ?thesis using hex_digit_char [of i v] hex_digit_char [of i "va_num False v"] that f by simp
  qed
  then show ?thesis by (simp add: hex_text_def)
qed

text \<open>The state after a conversion: the text is longer, the flags are cleared and \<open>k\<close> is the next argument.\<close>

definition converted :: "uint64 \<Rightarrow> uint64 \<Rightarrow> bytes \<Rightarrow> uint8 list \<Rightarrow> nat \<Rightarrow> vstate \<Rightarrow> bool" where
  "converted out n m t k st' \<longleftrightarrow> printed out n m t st' \<and> \<not> v_format st' \<and> \<not> v_long st' \<and> v_next st' = k"

lemma put_hex_printed:
  assumes "printed out n m t st" "length t + 16 < 2 ^ 63"
  shows "converted out n m (t @ hex_text (if v_long st then 16 else 8) (unat (vl (v_next st)))) (v_next st + 1) (put_hex out n vl st)"
proof -
  let ?w = "va_num (v_long st) (vl (v_next st))" and ?s = "st\<lparr>v_next := v_next st + 1\<rparr>"
  let ?k = "if v_long st then 16 else 8 :: nat"
  have "printed out n m t ?s" using assms(1) by (simp add: printed_def)
  from hex_loop_printed [OF this, of ?k ?w] assms(2) have
    "printed out n m (t @ hex_text ?k (unat ?w)) (hex_loop out n ?w ?k ?s)" "v_next (hex_loop out n ?w ?k ?s) = v_next st + 1" by auto
  moreover have "hex_text ?k (unat ?w) = hex_text ?k (unat (vl (v_next st)))" using hex_text_int by (simp add: va_num_def)
  moreover have "put_hex out n vl st = (hex_loop out n ?w ?k ?s)\<lparr>v_long := False, v_format := False\<rparr>"
    by (simp add: put_hex_def Let_def)
  ultimately show ?thesis by (simp add: converted_def printed_def)
qed

lemma put_str_printed:
  assumes "str_outside out n m p cs" "printed out n m t st" "length (t @ cs) < 2 ^ 63"
  shows "\<exists>st'. put_str out n p st = Some st' \<and> printed out n m (t @ cs) st' \<and> v_next st' = v_next st"
  using assms
proof (induction cs arbitrary: p t st)
  case Nil
  then have "v_mem st p = 0" using Nil.prems(1) buf_outside [of p out n m t] by (auto simp: str_outside_def printed_def)
  then show ?case using Nil.prems(2) by (subst put_str.simps) simp
next
  case (Cons c cs)
  have o: "m p = c" "c \<noteq> 0" "\<not> p - out < n" using Cons.prems(1) by (auto simp: str_outside_def dest: spec [of _ 0])
  have "\<not> p + 1 + word_of_nat i - out < n" if "i \<le> length cs" for i
    using Cons.prems(1) that by (auto simp: str_outside_def add.assoc dest: spec [of _ "Suc i"])
  then have "str_outside out n m (p + 1) cs" using Cons.prems(1) by (simp add: str_outside_def)
  moreover have rd: "v_mem st p = c" using Cons.prems(2) buf_outside [OF o(3)] o(1) by (simp add: printed_def)
  ultimately show ?case
    using Cons.IH [of "p + 1" "t @ [c]" "put_char out n c st"] put_char_printed [OF Cons.prems(2), where c = c] Cons.prems(3) o(2)
    by (subst put_str.simps) simp
qed

lemma pos_room:
  assumes "printed out n m t st" "length t < 2 ^ 63"
  shows "v_pos st + 1 < n \<longleftrightarrow> Suc (length t) < unat n"
proof -
  have "unat (word_of_nat (length t) :: uint64) = length t" using assms(2) by (subst unat_of_nat) simp
  then have "unat (word_of_nat (length t) + 1 :: uint64) = Suc (length t)" using assms(2) by (subst unat_add_noof) simp_all
  then show ?thesis using assms(1) by (simp add: printed_def word_less_iff_unat)
qed

lemma vs_char_piece:
  assumes st: "printed out n m t st" and f: "v_format st" and p: "parse True (v_long st) (c # cs) = p # parse False False cs"
    and c: "c \<in> {0x70, 0x78, 0x64, 0x73, 0x63}" and ok: "args_ok out n m str vl (length t) (v_next st) (p # ps)"
    and len: "length t + length (piece_text str (vl (v_next st)) p) < 2 ^ 62"
  shows "\<exists>st'. vs_char out n vl c st = Some st' \<and> 
    converted out n m (t @ piece_text str (vl (v_next st)) p) (if takes_arg n (length t) p then v_next st + 1 else v_next st) st'"
proof -
  let ?v = "vl (v_next st)"
  consider "c = 0x70" "p = Ptr" | "c = 0x78" "p = Hex (v_long st)" | "c = 0x64" "p = Dec (v_long st)" | "c = 0x73" "p = Str" | "c = 0x63" "p = Chr"
    using c p by auto
  then show ?thesis
  proof cases
    case 1
    let ?s0 = "st\<lparr>v_long := True\<rparr>" let ?s2 = "put_char out n 0x78 (put_char out n 0x30 ?s0)"
    have "printed out n m t ?s0" using st by (simp add: printed_def)
    note a = put_char_printed [OF this, where c = "0x30"]
    note b = put_char_printed [OF a(1), where c = "0x78"]
    have "printed out n m ((t @ [0x30]) @ [0x78]) ?s2" using b(1) len by simp
    from put_hex_printed [OF this, of vl] have "converted out n m (t @ [0x30, 0x78] @ hex_text 16 (unat ?v)) (v_next st + 1) (put_hex out n vl ?s2)"
      using a b len by (simp add: converted_def)
    then show ?thesis using 1 f by (simp add: vs_char_def takes_arg_def)
  next
    case 2
    then show ?thesis using put_hex_printed [OF st, of vl] f len by (simp add: vs_char_def takes_arg_def)
  next
    case 3
    have "sint (va_num (v_long st) ?v) \<noteq> - (2 ^ 63)" using ok 3(2) by simp
    then show ?thesis using 3 put_dec_printed [OF st, of vl] f len by (simp add: vs_char_def takes_arg_def converted_def)
  next
    case 4
    let ?s = "st\<lparr>v_next := v_next st + 1\<rparr>"
    have "printed out n m t ?s" using st by (simp add: printed_def)
    moreover have "str_outside out n m ?v (str ?v)" using ok 4(2) by simp
    ultimately obtain st' where "put_str out n ?v ?s = Some st'" "printed out n m (t @ str ?v) st'" "v_next st' = v_next st + 1"
      using put_str_printed [of out n m ?v "str ?v" t ?s] len 4(2) by auto
    then show ?thesis using 4 f by (simp add: vs_char_def takes_arg_def converted_def printed_def)
  next
    case 5
    have "length t < 2 ^ 63" using len by simp
    from buf_store [OF this, of n out m "ucast ?v"] pos_room [OF st this] show ?thesis using 5 f st
      by (cases "Suc (length t) < unat n") (simp_all add: vs_char_def takes_arg_def converted_def printed_def Let_def)
  qed
qed

section \<open>The whole format\<close>

lemma vs_loop_printed:
  assumes "str_outside out n m s cs" "printed out n m t st"
    and "args_ok out n m str vl (length t) (v_next st) (parse (v_format st) (v_long st) cs)"
    and "length (t @ render str vl n (length t) (v_next st) (parse (v_format st) (v_long st) cs)) < 2 ^ 62"
  shows "\<exists>st'. vs_loop out n vl s st = Some st' \<and>
    printed out n m (t @ render str vl n (length t) (v_next st) (parse (v_format st) (v_long st) cs)) st'"
  using assms
proof (induction cs arbitrary: s t st)
  case Nil
  then have "v_mem st s = 0" using Nil.prems(1) buf_outside [of s out n m t] by (auto simp: str_outside_def printed_def)
  then show ?case using Nil.prems(2) by (subst vs_loop.simps) simp
next
  case (Cons c cs)
  have o: "m s = c" "c \<noteq> 0" "\<not> s - out < n" using Cons.prems(1) by (auto simp: str_outside_def dest: spec [of _ 0])
  have "\<not> s + 1 + word_of_nat i - out < n" if "i \<le> length cs" for i
    using Cons.prems(1) that by (auto simp: str_outside_def add.assoc dest: spec [of _ "Suc i"])
  then have s1: "str_outside out n m (s + 1) cs" using Cons.prems(1) by (simp add: str_outside_def)
  have rd: "v_mem st s = c" using Cons.prems(2) buf_outside [OF o(3)] o(1) by (simp add: printed_def)
  have step: "vs_loop out n vl s st = vs_loop out n vl (s + 1) st'" if "vs_char out n vl c st = Some st'" for st'
    using that rd o(2) by (subst vs_loop.simps) simp
  note ih = Cons.IH [OF s1]
  show ?case
  proof (cases "v_format st")
    case False
    show ?thesis
    proof (cases "c = 0x25")
      case True
      then have "vs_char out n vl c st = Some (st\<lparr>v_format := True\<rparr>)" using False by (simp add: vs_char_def)
      then show ?thesis using ih [of t "st\<lparr>v_format := True\<rparr>"] step Cons.prems(2-) False True by (simp add: printed_def)
    next
      case lit: False
      then have "vs_char out n vl c st = Some (put_char out n c st)" using False by (simp add: vs_char_def)
      then show ?thesis using ih [of "t @ [c]" "put_char out n c st"] put_char_printed [OF Cons.prems(2), where c = c]
          step Cons.prems(3,4) False lit by (simp add: takes_arg_def)
    qed
  next
    case f: True
    consider (conv) "c \<in> {0x70, 0x78, 0x64, 0x73, 0x63}" | (l) "c = 0x6c" | (other) "c \<notin> {0x70, 0x78, 0x64, 0x73, 0x63, 0x6c}" by blast
    then show ?thesis
    proof cases
      case conv
      then obtain p where p: "parse True (v_long st) (c # cs) = p # parse False False cs" by auto
      have ok: "args_ok out n m str vl (length t) (v_next st) (p # parse False False cs)" using Cons.prems(3) f p by simp
      have len: "length t + length (piece_text str (vl (v_next st)) p) < 2 ^ 62" using Cons.prems(4) f p by (simp del: parse.simps)
      from vs_char_piece [OF Cons.prems(2) f p conv ok len] obtain st' where
        st': "vs_char out n vl c st = Some st'"
          "converted out n m (t @ piece_text str (vl (v_next st)) p) (if takes_arg n (length t) p then v_next st + 1 else v_next st) st'" by blast
      then show ?thesis
        using ih [of "t @ piece_text str (vl (v_next st)) p" st'] step Cons.prems(3,4) f p by (simp add: converted_def del: parse.simps)
    next
      case l
      then have "vs_char out n vl c st = Some (st\<lparr>v_long := True\<rparr>)" using f by (simp add: vs_char_def)
      then show ?thesis using ih [of t "st\<lparr>v_long := True\<rparr>"] step Cons.prems(2-) f l by (simp add: printed_def)
    next
      case other
      then have "vs_char out n vl c st = Some st" using f by (simp add: vs_char_def)
      then show ?thesis using ih [of t st] step Cons.prems(2-) f other by simp
    qed
  qed
qed

text \<open>The buffer after the terminator is stored.\<close>

definition terminated :: "uint64 \<Rightarrow> uint64 \<Rightarrow> bytes \<Rightarrow> uint8 list \<Rightarrow> bytes" where
  "terminated out n m t = (\<lambda>a. let k = min (length t) (unat n - 1); i = unat (a - out) in
     if i < unat n then (if i < k then t ! i else if i = k then 0 else m a) else m a)"

lemma terminate_buf:
  assumes "length t < 2 ^ 63"
  shows "(if word_of_nat (length t) < n then (buf out n m t)(out + word_of_nat (length t) := 0)
      else if n \<noteq> 0 then (buf out n m t)(out + (n - 1) := 0) else buf out n m t) = terminated out n m t"
proof -
  let ?k = "length t"
  have at: "a = out + w \<longleftrightarrow> unat (a - out) = unat w" for a w :: uint64
  proof
    assume "unat (a - out) = unat w"
    then have "a - out = w" by (simp add: word_unat_eq_iff)
    then show "a = out + w" by auto
  qed simp
  have k: "unat (word_of_nat ?k :: uint64) = ?k" using assms by (subst unat_of_nat) simp
  have n1: "unat (n - 1) = unat n - 1" if "n \<noteq> 0" using that by (subst unat_sub_le) (simp_all add: word_le_iff_unat unat_gt_0 Suc_le_eq)
  have "n = 0 \<longleftrightarrow> unat n = 0" by (simp add: unat_eq_zero)
  then show ?thesis using k n1 by (auto simp: fun_eq_iff terminated_def buf_def Let_def at word_less_iff_unat)
qed

lemma vsnprintf_terminated:
  assumes "str_outside out n m s fmt" and "args_ok out n m str vl 0 0 (parse False False fmt)"
    and "length (render str vl n 0 0 (parse False False fmt)) < 2 ^ 62"
  shows "vsnprintf out n s vl m = Some (word_of_nat (length (render str vl n 0 0 (parse False False fmt))),
    terminated out n m (render str vl n 0 0 (parse False False fmt)))"
proof -
  let ?t = "render str vl n 0 0 (parse False False fmt)"
  let ?st = "\<lparr>v_format = False, v_long = False, v_pos = 0, v_mem = m, v_next = 0\<rparr>"
  have "printed out n m [] ?st" by (simp add: printed_def buf_def)
  from vs_loop_printed [OF assms(1) this, of str vl] assms(2,3) obtain st' where
    st': "vs_loop out n vl s ?st = Some st'" "printed out n m ?t st'" by auto
  have "(ucast (word_of_nat (length ?t) :: uint64) :: uint32) = word_of_nat (unat (word_of_nat (length ?t) :: uint64))" by simp
  then have "(ucast (word_of_nat (length ?t) :: uint64) :: uint32) = word_of_nat (length ?t)" using assms(3) by (simp add: unat_of_nat)
  then show ?thesis using st' terminate_buf [of ?t n out m] assms(3) by (simp add: vsnprintf_def Let_def printed_def)
qed

text \<open>C13: \<^verbatim>\<open>vsnprintf\<close> returns the length of the text that the format and the arguments describe and stores
  this text, cut to \<open>n - 1\<close> bytes and terminated, in the buffer of \<open>n\<close> bytes; no byte outside the
  buffer is written, for any format and any buffer size. The text depends on the size in one way: a \<^verbatim>\<open>%c\<close> that does not
  fit leaves its argument to the next conversion.\<close>

theorem vsnprintf_correct:
  assumes "str_outside out n m s fmt" and "args_ok out n m str vl 0 0 (parse False False fmt)"
    and "length (render str vl n 0 0 (parse False False fmt)) < 2 ^ 62"
  shows "\<exists>m'. let t = render str vl n 0 0 (parse False False fmt) in
    vsnprintf out n s vl m = Some (word_of_nat (length t), m') \<and>
    (n \<noteq> 0 \<longrightarrow> (\<forall>i<min (length t) (unat n - 1). m' (out + word_of_nat i) = t ! i) \<and>
       m' (out + word_of_nat (min (length t) (unat n - 1))) = 0) \<and>
    (\<forall>a. \<not> a - out < n \<longrightarrow> m' a = m a)"
proof -
  let ?t = "render str vl n 0 0 (parse False False fmt)" let ?m = "terminated out n m ?t"
  have u: "unat (word_of_nat i :: uint64) = i" if "i \<le> min (length ?t) (unat n - 1)" for i
    using that assms(3) by (subst unat_of_nat) simp
  have "?m (out + word_of_nat i) = ?t ! i" if "n \<noteq> 0" "i < min (length ?t) (unat n - 1)" for i
    using that u [of i] by (auto simp: terminated_def Let_def)
  moreover have "?m (out + word_of_nat (min (length ?t) (unat n - 1))) = 0" if "n \<noteq> 0"
  proof -
    have "unat n \<noteq> 0" using that by (simp add: unat_eq_zero)
    then have "min (length ?t) (unat n - 1) < unat n" by linarith
    then show ?thesis using u [of "min (length ?t) (unat n - 1)"] by (simp add: terminated_def Let_def del: of_nat_min)
  qed
  moreover have "?m a = m a" if "\<not> a - out < n" for a using that by (simp add: terminated_def Let_def word_less_iff_unat)
  ultimately show ?thesis using vsnprintf_terminated [OF assms] by (intro exI [of _ ?m]) (simp add: Let_def)
qed

section \<open>Printing and parsing a number\<close>

lemma cstrI:
  "(\<And>i. i < length cs \<Longrightarrow> m (a + word_of_nat i) = cs ! i) \<Longrightarrow> 0 \<notin> set cs \<Longrightarrow> m (a + word_of_nat (length cs)) = 0 \<Longrightarrow> cstr m a cs"
proof (induction cs arbitrary: a)
  case (Cons c cs)
  have "m a = c" using Cons.prems(1) [of 0] by simp
  moreover have "m (a + 1 + word_of_nat i) = cs ! i" if "i < length cs" for i using Cons.prems(1) [of "Suc i"] that by (simp add: add.assoc)
  ultimately show ?case using Cons.IH [of "a + 1"] Cons.prems(2,3) by (simp add: add.assoc)
qed simp

lemma terminated_cstr:
  assumes "length t < unat n" "0 \<notin> set t"
  shows "cstr (terminated out n m t) out t"
proof (rule cstrI)
  have u: "unat (word_of_nat i :: uint64) = i" if "i \<le> length t" for i
    using that assms(1) unsigned_less [where w = n and 'a = nat] by (subst unat_of_nat) simp
  have k: "min (length t) (unat n - 1) = length t" using assms(1) by simp
  show "terminated out n m t (out + word_of_nat i) = t ! i" if "i < length t" for i
    using that u [of i] assms(1) k by (simp add: terminated_def Let_def)
  show "terminated out n m t (out + word_of_nat (length t)) = 0" using u [of "length t"] assms(1) k by (simp add: terminated_def Let_def)
qed (rule assms(2))

lemma dec_digits_length: "v < 10 ^ k \<Longrightarrow> 0 < k \<Longrightarrow> length (dec_digits v) \<le> k"
proof (induction v arbitrary: k rule: dec_digits.induct)
  case (1 v)
  show ?case
  proof (cases "v < 10")
    case False
    then have "k \<noteq> 1" using 1(2) by auto
    then obtain j where j: "k = Suc j" "0 < j" using 1(3) by (cases k) auto
    then have "v div 10 < 10 ^ j" using 1(2) by (simp add: less_mult_imp_div_less mult.commute)
    then show ?thesis using 1(1) [OF False _ j(2)] False j(1) by (simp add: dec_digits_large)
  qed (use 1 in \<open>simp add: dec_digits_small\<close>)
qed

lemma digit_value:
  assumes "d < 10"
  shows "unat (word_of_nat (48 + d) :: uint8) = 48 + d" "(ucast (word_of_nat (48 + d) :: uint8) - 0x30 :: uint64) = word_of_nat d"
proof -
  show u: "unat (word_of_nat (48 + d) :: uint8) = 48 + d" using assms by (subst unat_of_nat) (simp del: of_nat_add)
  have "(ucast (word_of_nat (48 + d) :: uint8) :: uint64) = word_of_nat (unat (word_of_nat (48 + d) :: uint8))" by simp
  then show "(ucast (word_of_nat (48 + d) :: uint8) - 0x30 :: uint64) = word_of_nat d" unfolding u by simp
qed

lemma dec_digits_range: "c \<in> set (dec_digits v) \<Longrightarrow> 48 \<le> unat c \<and> unat c < 58"
proof (induction v rule: dec_digits.induct)
  case (1 v)
  show ?case
  proof (cases "v < 10")
    case True
    then show ?thesis using 1(2) digit_value(1) [of v] by (simp add: dec_digits_small del: of_nat_add)
  next
    case False
    then show ?thesis using 1 digit_value(1) [of "v mod 10"] by (auto simp: dec_digits_large simp del: of_nat_add)
  qed
qed

lemma atol_loop_fold: "cstr m a cs \<Longrightarrow> atol_loop a r m = Some (foldl (\<lambda>r c. r * 10 + (ucast c - 0x30)) r cs)"
proof (induction cs arbitrary: a r)
  case Nil
  then show ?case by (subst atol_loop.simps) simp
next
  case (Cons c cs)
  then show ?case by (subst atol_loop.simps) simp
qed

lemma fold_digits: "foldl (\<lambda>r c. r * 10 + (ucast c - 0x30)) 0 (dec_digits v) = (word_of_nat v :: uint64)"
proof (induction v rule: dec_digits.induct)
  case (1 v)
  show ?case
  proof (cases "v < 10")
    case True
    then show ?thesis using digit_value(2) [of v] by (simp add: dec_digits_small del: of_nat_add)
  next
    case False
    have "(word_of_nat (v div 10) * 10 + word_of_nat (v mod 10) :: uint64) = word_of_nat (v div 10 * 10 + v mod 10)"
      by (simp only: of_nat_add of_nat_mult of_nat_numeral)
    then show ?thesis using 1 False digit_value(2) [of "v mod 10"] by (simp add: dec_digits_large del: of_nat_add of_nat_mult)
  qed
qed

lemma dec_digits_head: "\<exists>c cs. dec_digits v = c # cs"
  by (subst dec_digits.simps) (auto simp: neq_Nil_conv [symmetric])

lemma word_of_nat_int: "(word_of_nat k :: uint64) = word_of_int (int k)"
  by simp

lemma atol_dec_text:
  assumes "cstr m a (dec_text z)"
  shows "atol a m = Some (word_of_int z)"
proof (cases "z < 0")
  case True
  then have c: "m a = 0x2d" "cstr m (a + 1) (dec_digits (nat (- z)))" using assms by (simp_all add: dec_text_def)
  have "skip_blanks a m = Some a" using c(1) by (subst skip_blanks.simps) simp
  moreover have "- word_of_nat (nat (- z)) = (word_of_int z :: uint64)" unfolding word_of_nat_int using True by simp
  ultimately show ?thesis using c atol_loop_fold [OF c(2), of 0] fold_digits by (simp add: atol_def Let_def)
next
  case False
  then have c: "cstr m a (dec_digits (nat z))" using assms by (simp add: dec_text_def)
  obtain d ds where d: "dec_digits (nat z) = d # ds" using dec_digits_head by blast
  then have h: "m a = d" "48 \<le> unat d" "unat d < 58" using c dec_digits_range [of d "nat z"] by simp_all
  then have "m a \<noteq> 0x20" "m a \<noteq> 0x2d" "m a \<noteq> 0x2b" by auto
  moreover from this have "skip_blanks a m = Some a" by (subst skip_blanks.simps) simp
  moreover have "word_of_nat (nat z) = (word_of_int z :: uint64)" unfolding word_of_nat_int using False by simp
  ultimately show ?thesis using atol_loop_fold [OF c, of 0] fold_digits by (simp add: atol_def Let_def)
qed

text \<open>C27: A number printed by \<^verbatim>\<open>vsnprintf\<close> with \<^verbatim>\<open>%ld\<close> into a buffer of at least 21 bytes is read back by
  \<^verbatim>\<open>atol\<close>, for every \<^verbatim>\<open>long\<close> but the smallest.\<close>

theorem print_parse_roundtrip:
  assumes "str_outside out n m s [0x25, 0x6c, 0x64]" and "21 \<le> n" and "sint (vl 0) \<noteq> - (2 ^ 63)"
  shows "\<exists>k m'. vsnprintf out n s vl m = Some (k, m') \<and> atol out m' = Some (vl 0)"
proof -
  let ?z = "sint (vl 0)" and ?str = "\<lambda>_. []"
  have p: "parse False False [0x25, 0x6c, 0x64] = [Dec True]" by simp
  have t: "render ?str vl n 0 0 [Dec True] = dec_text ?z" by (simp add: va_num_def)
  have b: "- (2 ^ 63) < ?z" "?z < 2 ^ 63" using sint_ge [of "vl 0"] sint_lt [of "vl 0"] assms(3) by simp_all
  have "length (dec_digits (nat \<bar>?z\<bar>)) \<le> 19" by (rule dec_digits_length) (use b in auto)
  then have len: "length (dec_text ?z) \<le> 20" by (auto simp: dec_text_def)
  have nz: "0 \<notin> set (dec_text ?z)" using dec_digits_range [of 0] by (auto simp: dec_text_def)
  have "args_ok out n m ?str vl 0 0 [Dec True]" using assms(3) by (simp add: va_num_def)
  then have "vsnprintf out n s vl m = Some (word_of_nat (length (dec_text ?z)), terminated out n m (dec_text ?z))"
    using vsnprintf_terminated [OF assms(1), of ?str vl] len unfolding p t by simp
  moreover have "length (dec_text ?z) < unat n" using len assms(2) by (simp add: word_le_iff_unat)
  ultimately show ?thesis using atol_dec_text [OF terminated_cstr [OF _ nz]] by simp
qed

text \<open>The format \<^verbatim>\<open>%ld\<close> at address 96, and a buffer at 256.\<close>

definition fmt_memory :: bytes where
  "fmt_memory = (\<lambda>_. 0)(96 := 0x25, 97 := 0x6c, 98 := 0x64)"

lemma fmt_string: "str_outside 256 32 fmt_memory 96 [0x25, 0x6c, 0x64]"
proof -
  have le3: "i \<le> 3 \<longleftrightarrow> i = 0 \<or> i = 1 \<or> i = 2 \<or> i = (3 :: nat)" for i by auto
  show ?thesis unfolding str_outside_def
  proof (intro conjI allI impI)
    show "cstr fmt_memory 96 [0x25, 0x6c, 0x64]" by (simp add: fmt_memory_def)
    show "\<not> 96 + word_of_nat i - 256 < (32 :: uint64)" if "i \<le> length [0x25, 0x6c, 0x64 :: uint8]" for i
      using that le3 [of i] by auto
  qed
qed

text \<open>The format \<^verbatim>\<open>%c%d\<close> at address 96, with the arguments 65 and 12345.\<close>

definition chr_memory :: bytes where
  "chr_memory = (\<lambda>_. 0)(96 := 0x25, 97 := 0x63, 98 := 0x25, 99 := 0x64)"

definition chr_args :: "nat \<Rightarrow> uint64" where
  "chr_args k = (if k = 0 then 65 else 12345)"

lemma chr_string: "n \<le> 32 \<Longrightarrow> str_outside 256 n chr_memory 96 [0x25, 0x63, 0x25, 0x64]"
proof -
  assume n: "n \<le> 32"
  have le4: "i \<le> 4 \<longleftrightarrow> i = 0 \<or> i = 1 \<or> i = 2 \<or> i = 3 \<or> i = (4 :: nat)" for i by auto
  show ?thesis unfolding str_outside_def
  proof (intro conjI allI impI)
    show "cstr chr_memory 96 [0x25, 0x63, 0x25, 0x64]" by (simp add: chr_memory_def)
    show "\<not> 96 + word_of_nat i - 256 < n" if "i \<le> length [0x25, 0x63, 0x25, 0x64 :: uint8]" for i
      using that le4 [of i] n by (auto simp: word_less_iff_unat word_le_iff_unat)
  qed
qed

lemma chr_digits: "dec_text 65 = [0x36, 0x35]" "dec_text 12345 = [0x31, 0x32, 0x33, 0x34, 0x35]"
  by (simp_all add: dec_text_def dec_digits_small dec_digits_large)

text \<open>With room for 32 bytes the call prints the character and the number 12345; with room for one byte the character
  does not fit, the number printed is 65, and 3 is returned.\<close>

theorem vsnprintf_correct_witness:
  "(\<exists>m'. vsnprintf 256 32 96 chr_args chr_memory = Some (6, m') \<and> m' 256 = 0x41 \<and> m' 257 = 0x31 \<and> m' 262 = 0 \<and> m' 96 = 0x25) \<and>
   (\<exists>m'. vsnprintf 256 1 96 chr_args chr_memory = Some (3, m') \<and> m' 256 = 0 \<and> m' 257 = chr_memory 257)"
proof -
  let ?p = "parse False False [0x25, 0x63, 0x25, 0x64]"
  have p: "?p = [Chr, Dec False]" by simp
  have v: "sint (va_num False 65) = 65" "sint (va_num False 12345) = 12345" by (simp_all add: va_num_def)
  have a: "args_ok 256 n chr_memory (\<lambda>_. []) chr_args 0 0 ?p" for n
    using v by (simp add: p takes_arg_def chr_args_def)
  have t: "render (\<lambda>_. []) chr_args 32 0 0 ?p = [0x41, 0x31, 0x32, 0x33, 0x34, 0x35]"
    "render (\<lambda>_. []) chr_args 1 0 0 ?p = [0x41, 0x36, 0x35]"
    using v chr_digits by (simp_all add: p takes_arg_def chr_args_def)
  from vsnprintf_correct [OF chr_string a, of 32] obtain m1 where
    m1: "vsnprintf 256 32 96 chr_args chr_memory = Some (6, m1)" "\<forall>i<6. m1 (256 + word_of_nat i) = [0x41, 0x31, 0x32, 0x33, 0x34, 0x35] ! i"
      "m1 (256 + 6) = 0" "\<forall>a. \<not> a - 256 < 32 \<longrightarrow> m1 a = chr_memory a" unfolding t by (auto simp: Let_def)
  from vsnprintf_correct [OF chr_string a, of 1] obtain m2 where
    m2: "vsnprintf 256 1 96 chr_args chr_memory = Some (3, m2)" "m2 256 = 0" "\<forall>a. \<not> a - 256 < 1 \<longrightarrow> m2 a = chr_memory a"
    unfolding t by (auto simp: Let_def)
  have "m1 256 = 0x41" "m1 257 = 0x31" using m1(2) [THEN spec, of 0] m1(2) [THEN spec, of 1] by simp_all
  moreover have "m1 96 = 0x25" using m1(4) [THEN spec, of 96] by (simp add: chr_memory_def)
  moreover have "m2 257 = chr_memory 257" using m2(3) [THEN spec, of 257] by simp
  ultimately show ?thesis using m1(1,3) m2(1,2) by auto
qed

theorem print_parse_roundtrip_witness:
  "\<exists>k m'. vsnprintf 256 32 96 (\<lambda>_. - 7) fmt_memory = Some (k, m') \<and> atol 256 m' = Some (- 7)"
  using print_parse_roundtrip [OF fmt_string, of "\<lambda>_. - 7"] by simp

end
