(* ===== verification/Pke_User.thy ===== *)
theory Pke_User
  imports Pke_Strap_Thms Pke_Snprintf_Thms
begin

text \<open>
  The library of user programs, \<^verbatim>\<open>user/user_lib.c\<close>, down through the environment call, the trap vector and
  the supervisor trap handler: what a call of the library returns and what it does to the kernel.
\<close>

section \<open>Environment calls\<close>

text \<open>
  What a call needs besides its arguments: the address of the \<^verbatim>\<open>ecall\<close> instruction, the other registers, and
  the contents of the uninitialised local \<^verbatim>\<open>ret\<close> of \<^verbatim>\<open>do_user_call\<close>.
\<close>

record ucall =
  uc_pc :: uint64
  uc_regs :: riscv_regs
  uc_junk :: uint64

text \<open>
  The \<^verbatim>\<open>ecall\<close> of a user program and \<^verbatim>\<open>smode_trap_vector\<close>: the hart notes the cause, the program counter and
  the privilege it came from, and the registers go to the trap frame that \<^verbatim>\<open>sscratch\<close> points to, the one of
  the current process. The vector loads the stack pointer and the page table of the kernel, but not \<^verbatim>\<open>tp\<close>: the kernel
  goes on with the \<^verbatim>\<open>tp\<close> of the user program, which \<^verbatim>\<open>alloc_page\<close> and \<^verbatim>\<open>pfree\<close> take for the number of the hart.
\<close>

definition smode_trap_vector :: "uint64 \<Rightarrow> riscv_regs \<Rightarrow> uint64 \<Rightarrow> kernel \<Rightarrow> kernel" where
  "smode_trap_vector tf r pc s = s\<lparr>scause := CAUSE_USER_ECALL, sepc := pc,
     kvm := (kvm s)\<lparr>vpmm := (kpmm s)\<lparr>sstatus_reg := sstatus_reg (kpmm s) AND NOT SSTATUS_SPP, tp_reg := r_tp r\<rparr>\<rparr>,
     tframes := (tframes s)(tf := (tframes s tf)\<lparr>tf_regs := r\<rparr>)\<rparr>"

text \<open>
  \<^verbatim>\<open>do_user_call\<close>: the arguments are in the registers, and \<^verbatim>\<open>sw a0, ret\<close> stores 32 bits of the result into a
  64-bit variable. When another process is resumed instead, the caller has not returned.
\<close>

definition do_user_call ::
  "externs \<Rightarrow> ucall \<Rightarrow> uint64 \<Rightarrow> uint64 \<Rightarrow> uint64 \<Rightarrow> uint64 \<Rightarrow> uint64 \<Rightarrow> uint64 \<Rightarrow> uint64 \<Rightarrow> uint64 \<Rightarrow> kernel \<Rightarrow> uint64 flow" where
  "do_user_call x U sysnum a1 a2 a3 a4 a5 a6 a7 s =
     (case cur_proc s of Inl e \<Rightarrow> Fails e
      | Inr (i, p) \<Rightarrow>
          let r = (uc_regs U)\<lparr>r_a0 := sysnum, r_a1 := a1, r_a2 := a2, r_a3 := a3, r_a4 := a4, r_a5 := a5, r_a6 := a6, r_a7 := a7\<rparr>;
              s = smode_trap_vector (tf_ptr p) r (uc_pc U) s in
          case smode_trap_handler x s of
            Fails e \<Rightarrow> Fails e
          | Returns _ s \<Rightarrow> Fails Undefined
          | Resumes tf st s \<Rightarrow>
              if current s = Some i then Returns ((uc_junk U AND NOT 0xFFFFFFFF) OR (r_a0 (tf_regs (tframes s tf)) AND 0xFFFFFFFF)) s
              else Resumes tf st s)"

section \<open>The library\<close>

text \<open>\<^verbatim>\<open>printu\<close>, on the memory of the program: the buffer is a local at \<open>out\<close>.\<close>

definition printu ::
  "externs \<Rightarrow> ucall \<Rightarrow> uint64 \<Rightarrow> uint64 \<Rightarrow> (nat \<Rightarrow> uint64) \<Rightarrow> bytes \<Rightarrow> kernel \<Rightarrow> (uint32 flow \<times> bytes) option" where
  "printu x U out s vl m k =
     Option.bind (vsnprintf out 256 s vl m) (\<lambda>(res, m).
     let len = (scast res :: uint64);
         n = (if len < 256 then len else 256) in
     Some (bindF (do_user_call x U SYS_user_print out n 0 0 0 0 0 k) (\<lambda>r k. Returns (ucast r) k), m))"

definition exit :: "externs \<Rightarrow> ucall \<Rightarrow> uint32 \<Rightarrow> kernel \<Rightarrow> uint32 flow" where
  "exit x U code k = bindF (do_user_call x U SYS_user_exit (scast code) 0 0 0 0 0 0 k) (\<lambda>r k. Returns (ucast r) k)"

definition naive_malloc :: "externs \<Rightarrow> ucall \<Rightarrow> kernel \<Rightarrow> uint64 flow" where
  "naive_malloc x U k = do_user_call x U SYS_user_allocate_page 0 0 0 0 0 0 0 k"

definition naive_free :: "externs \<Rightarrow> ucall \<Rightarrow> uint64 \<Rightarrow> kernel \<Rightarrow> unit flow" where
  "naive_free x U va k = bindF (do_user_call x U SYS_user_free_page va 0 0 0 0 0 0 k) (\<lambda>r k. Returns () k)"

definition fork :: "externs \<Rightarrow> ucall \<Rightarrow> kernel \<Rightarrow> uint32 flow" where
  "fork x U k = bindF (do_user_call x U SYS_user_fork 0 0 0 0 0 0 0 k) (\<lambda>r k. Returns (ucast r) k)"

definition yield :: "externs \<Rightarrow> ucall \<Rightarrow> kernel \<Rightarrow> unit flow" where
  "yield x U k = bindF (do_user_call x U SYS_user_yield 0 0 0 0 0 0 0 k) (\<lambda>r k. Returns () k)"

definition sem_new :: "externs \<Rightarrow> ucall \<Rightarrow> uint32 \<Rightarrow> kernel \<Rightarrow> uint32 flow" where
  "sem_new x U value k = bindF (do_user_call x U SYS_user_sem_new (scast value) 0 0 0 0 0 0 k) (\<lambda>r k. Returns (ucast r) k)"

definition sem_P :: "externs \<Rightarrow> ucall \<Rightarrow> uint32 \<Rightarrow> kernel \<Rightarrow> unit flow" where
  "sem_P x U sem_id k = bindF (do_user_call x U SYS_user_sem_P (scast sem_id) 0 0 0 0 0 0 k) (\<lambda>r k. Returns () k)"

definition sem_V :: "externs \<Rightarrow> ucall \<Rightarrow> uint32 \<Rightarrow> kernel \<Rightarrow> unit flow" where
  "sem_V x U sem_id k = bindF (do_user_call x U SYS_user_sem_V (scast sem_id) 0 0 0 0 0 0 k) (\<lambda>r k. Returns () k)"

definition printpa :: "externs \<Rightarrow> ucall \<Rightarrow> uint64 \<Rightarrow> kernel \<Rightarrow> uint64 flow" where
  "printpa x U va k = do_user_call x U SYS_user_printpa va 0 0 0 0 0 0 k"

section \<open>What a call returns\<close>

text \<open>A process that can make calls, and the kernel state in which the system call runs.\<close>

definition in_user :: "nat \<Rightarrow> kernel \<Rightarrow> bool" where
  "in_user i s \<longleftrightarrow> current s = Some i \<and> i < length (procs s) \<and> tf_ptr (procs s ! i) \<noteq> 0"

definition called :: "ucall \<Rightarrow> nat \<Rightarrow> uint64 list \<Rightarrow> kernel \<Rightarrow> kernel" where
  "called U i as s = saved_pc i (uc_pc U + 4) (smode_trap_vector (tf_ptr (procs s ! i))
     ((uc_regs U)\<lparr>r_a0 := as ! 0, r_a1 := as ! 1, r_a2 := as ! 2, r_a3 := as ! 3, r_a4 := as ! 4, r_a5 := as ! 5, r_a6 := as ! 6,
        r_a7 := as ! 7\<rparr>) (uc_pc U) s)"

text \<open>The 32 bits that \<^verbatim>\<open>sw\<close> stores, and the result of a call.\<close>

definition half :: "uint64 \<Rightarrow> uint64 \<Rightarrow> uint64" where
  "half junk v = (junk AND NOT 0xFFFFFFFF) OR (v AND 0xFFFFFFFF)"

lemma trap_vector_simps [simp]:
  "procs (smode_trap_vector tf r pc s) = procs s" "current (smode_trap_vector tf r pc s) = current s"
  "sepc (smode_trap_vector tf r pc s) = pc" "scause (smode_trap_vector tf r pc s) = CAUSE_USER_ECALL"
  "tf_regs (tframes (smode_trap_vector tf r pc s) tf) = r" "minfos (smode_trap_vector tf r pc s) = minfos s"
  "sstatus_reg (kpmm (smode_trap_vector tf r pc s)) AND SSTATUS_SPP = 0" "kmem (smode_trap_vector tf r pc s) = kmem s"
  "tp_reg (kpmm (smode_trap_vector tf r pc s)) = r_tp r"
  by (simp_all add: smode_trap_vector_def and.assoc)

lemma user_call_runs:
  assumes "in_user i s"
  shows "do_user_call x U n a1 a2 a3 a4 a5 a6 a7 s =
    (case do_syscall x n a1 a2 a3 a4 a5 a6 a7 (called U i [n, a1, a2, a3, a4, a5, a6, a7] s) of
       Fails e \<Rightarrow> Fails e
     | Resumes tf st s' \<Rightarrow>
         if current s' = Some i then Returns (half (uc_junk U) (r_a0 (tf_regs (tframes s' tf)))) s' else Resumes tf st s'
     | Returns v s' \<Rightarrow>
         (case liftS (tf_upd (tf_ptr (procs s ! i)) (\<lambda>t. t\<lparr>tf_regs := (tf_regs t)\<lparr>r_a0 := v\<rparr>\<rparr>) s') (\<lambda>s'. switch_to x (current s') s') of
            Fails e \<Rightarrow> Fails e
          | Returns _ s \<Rightarrow> Fails Undefined
          | Resumes tf st s' \<Rightarrow>
              if current s' = Some i then Returns (half (uc_junk U) (r_a0 (tf_regs (tframes s' tf)))) s' else Resumes tf st s'))"
proof -
  let ?r = "(uc_regs U)\<lparr>r_a0 := n, r_a1 := a1, r_a2 := a2, r_a3 := a3, r_a4 := a4, r_a5 := a5, r_a6 := a6, r_a7 := a7\<rparr>"
  let ?s = "smode_trap_vector (tf_ptr (procs s ! i)) ?r (uc_pc U) s"
  have u: "current s = Some i" "i < length (procs s)" "tf_ptr (procs s ! i) \<noteq> 0" using assms by (simp_all add: in_user_def)
  have "user_trap CAUSE_USER_ECALL i ?s" using u by (simp add: user_trap_def)
  from trap_ecall [OF this, of x] show ?thesis
    using u by (cases "do_syscall x n a1 a2 a3 a4 a5 a6 a7 (called U i [n, a1, a2, a3, a4, a5, a6, a7] s)")
      (simp_all add: do_user_call_def cur_proc_ok called_def half_def Let_def split: flow.split)
qed

text \<open>The kernel after a call that returned the value \<open>v\<close> in the state \<open>s\<close>.\<close>

definition replied :: "externs \<Rightarrow> nat \<Rightarrow> uint64 \<Rightarrow> kernel \<Rightarrow> kernel" where
  "replied x i v s = resumed x i (s\<lparr>tframes := (tframes s)(tf_ptr (procs s ! i) :=
     (tframes s (tf_ptr (procs s ! i)))\<lparr>tf_regs := (tf_regs (tframes s (tf_ptr (procs s ! i))))\<lparr>r_a0 := v\<rparr>\<rparr>)\<rparr>)"

lemma user_call_value:
  assumes u: "in_user i s" and d: "do_syscall x n a1 a2 a3 a4 a5 a6 a7 (called U i [n, a1, a2, a3, a4, a5, a6, a7] s) = Returns v s'"
    and k: "current s' = Some i" "i < length (procs s')" "tf_ptr (procs s' ! i) = tf_ptr (procs s ! i)"
  shows "do_user_call x U n a1 a2 a3 a4 a5 a6 a7 s = Returns (half (uc_junk U) v) (replied x i v s')"
proof -
  have tf: "tf_ptr (procs s ! i) \<noteq> 0" using u by (simp add: in_user_def)
  let ?s = "s'\<lparr>tframes := (tframes s')(tf_ptr (procs s ! i) :=
     (tframes s' (tf_ptr (procs s ! i)))\<lparr>tf_regs := (tf_regs (tframes s' (tf_ptr (procs s ! i))))\<lparr>r_a0 := v\<rparr>\<rparr>)\<rparr>"
  have "switch_to x (Some i) ?s = Resumes (tf_ptr (procs s ! i)) (MAKE_SATP (pagetable (procs s' ! i))) (resumed x i ?s)"
    using switch_to_ok [of i ?s x] k tf by simp
  then show ?thesis
    unfolding user_call_runs [OF u] d using k tf by (simp add: tf_upd_ok replied_def)
qed

lemma half_parts: "take_bit 32 (half junk v) = take_bit 32 v" "drop_bit 32 (half junk v) = drop_bit 32 junk"
proof -
  have m: "(0xFFFFFFFF :: uint64) = mask 32" by (simp add: mask_eq_exp_minus_1)
  show "take_bit 32 (half junk v) = take_bit 32 v" "drop_bit 32 (half junk v) = drop_bit 32 junk"
    unfolding half_def m by (rule bit_eqI; auto simp: bit_simps dest: bit_imp_le_length)+
qed

lemma half_eq: "half junk v = v \<longleftrightarrow> drop_bit 32 junk = drop_bit 32 v"
proof
  assume "half junk v = v"
  then show "drop_bit 32 junk = drop_bit 32 v" using half_parts(2) [of junk v] by simp
next
  assume h: "drop_bit 32 junk = drop_bit 32 v"
  have "half junk v = push_bit 32 (drop_bit 32 (half junk v)) + take_bit 32 (half junk v)" by (simp add: bits_ident)
  also have "\<dots> = push_bit 32 (drop_bit 32 v) + take_bit 32 v" by (simp only: half_parts h)
  also have "\<dots> = v" by (rule bits_ident)
  finally show "half junk v = v" .
qed

lemma ucast_half: "(ucast (half junk v) :: uint32) = ucast v"
proof -
  have "(ucast w :: uint32) = ucast (take_bit 32 w)" for w :: uint64
    by (rule bit_eqI) (simp add: bit_simps)
  then show ?thesis by (metis half_parts(1))
qed

lemma called_simps [simp]:
  "procs (called U i as s) = procs s" "current (called U i as s) = current s" "minfos (called U i as s) = minfos s"
  "kmem (called U i as s) = kmem s" "cached_pages (kpmm (called U i as s)) = cached_pages (kpmm s)"
  "ready_queue_head (called U i as s) = ready_queue_head s"
  by (simp_all add: called_def smode_trap_vector_def)

lemma called_vm_ok: "r_tp (uc_regs U) = tp_reg (kpmm s) \<Longrightarrow> vm_ok root (kvm (called U i as s)) = vm_ok root (kvm s)"
  by (simp add: called_def smode_trap_vector_def vm_ok_def pmm_ok_def)

lemma called_heap: "r_tp (uc_regs U) = tp_reg (kpmm s) \<Longrightarrow> heap_process i (called U j as s) = heap_process i s"
  by (simp add: heap_process_def called_vm_ok)

lemma replied_simps [simp]:
  "procs (replied x i v s) = procs s" "minfos (replied x i v s) = minfos s" "kmem (replied x i v s) = kmem s"
  "current (replied x i v s) = Some i" "ready_queue_head (replied x i v s) = ready_queue_head s"
  by (simp_all add: replied_def)

text \<open>C34: \<^verbatim>\<open>naive_malloc\<close> from the point of view of a program that runs with \<^verbatim>\<open>tp\<close> 0, as the first program does. The process gets a fresh writable page at the next address of its
  heap and everything else it had mapped stays; but only the lower half of the pointer it gets is that address: the upper
  half is what the uninitialised variable \<^verbatim>\<open>ret\<close> held, so the pointer is right exactly when those bits happened to agree.\<close>

theorem naive_malloc_pointer:
  assumes hp: "heap_process i s" "tf_ptr (procs s ! i) \<noteq> 0" and va: "fst (heap_next (user_heap (procs s ! i))) = va"
    "page_aligned va" "0 < va" "va < MAXVA" "\<not> pte_valid (pte_of (kmem s) (pagetable (procs s ! i)) va)"
    and c: "cached_pages (kpmm s) = ps @ [f]" "missing_tables (kmem s) (pagetable (procs s ! i)) va \<le> length ps"
    and tp: "r_tp (uc_regs U) = 0"
  shows "\<exists>r s'. naive_malloc x U s = Returns r s' \<and> take_bit 32 r = take_bit 32 va \<and> drop_bit 32 r = drop_bit 32 (uc_junk U) \<and>
    (r = va \<longleftrightarrow> drop_bit 32 (uc_junk U) = drop_bit 32 va) \<and> current s' = Some i \<and>
    (\<forall>va'<MAXVA. pte_of (kmem s') (pagetable (procs s ! i)) va' =
       (if same_page va va' then PA2PTE (PFN_TO_ADDR f) OR prot_to_type (PROT_WRITE OR PROT_READ) True OR PTE_V
        else pte_of (kmem s) (pagetable (procs s ! i)) va'))"
proof -
  let ?p = "procs s ! i" and ?c = "called U i [SYS_user_allocate_page, 0, 0, 0, 0, 0, 0, 0] s"
  have u: "in_user i s" using hp by (simp add: in_user_def heap_process_def)
  have "tp_reg (kpmm s) = 0" using hp(1) by (simp add: heap_process_def vm_ok_def pmm_ok_def)
  then have "heap_process i ?c" using hp(1) tp by (simp add: called_heap)
  from allocate_page_ok [OF this, of ps f]
  have "\<exists>v pm. sys_user_allocate_page ?c = Inr (va, ?c\<lparr>kvm := v, procs := (procs s)[i := ?p\<lparr>user_heap := snd (heap_next (user_heap ?p))\<rparr>],
      minfos := (minfos s)(mapped_info ?p := (minfos s (mapped_info ?p))[3 := region_grown (user_heap ?p) (minfos s (mapped_info ?p) ! 3)])\<rparr>) \<and>
    updated (pagetable ?p) (\<lambda>va'. if same_page va va' then PA2PTE (PFN_TO_ADDR f) OR prot_to_type (PROT_WRITE OR PROT_READ) True OR PTE_V
       else pte_of (kmem s) (pagetable ?p) va') ((kvm ?c)\<lparr>vpmm := pm\<rparr>) v"
    using va c by (simp only: called_simps simp_thms) blast
  then obtain v pm where
    a: "sys_user_allocate_page ?c = Inr (va, ?c\<lparr>kvm := v, procs := (procs s)[i := ?p\<lparr>user_heap := snd (heap_next (user_heap ?p))\<rparr>],
      minfos := (minfos s)(mapped_info ?p := (minfos s (mapped_info ?p))[3 := region_grown (user_heap ?p) (minfos s (mapped_info ?p) ! 3)])\<rparr>)"
      "updated (pagetable ?p) (\<lambda>va'. if same_page va va' then PA2PTE (PFN_TO_ADDR f) OR prot_to_type (PROT_WRITE OR PROT_READ) True OR PTE_V
       else pte_of (kmem s) (pagetable ?p) va') ((kvm ?c)\<lparr>vpmm := pm\<rparr>) v" by blast
  let ?s1 = "?c\<lparr>kvm := v, procs := (procs s)[i := ?p\<lparr>user_heap := snd (heap_next (user_heap ?p))\<rparr>],
      minfos := (minfos s)(mapped_info ?p := (minfos s (mapped_info ?p))[3 := region_grown (user_heap ?p) (minfos s (mapped_info ?p) ! 3)])\<rparr>"
  have "naive_malloc x U s = Returns (half (uc_junk U) va) (replied x i va ?s1)"
    unfolding naive_malloc_def using u a(1) hp(1)
    by (intro user_call_value [OF u]) (simp_all add: do_syscall_def sys_numbers heap_process_def)
  then show ?thesis
    using a(2) by (intro exI [of _ "half (uc_junk U) va"] exI [of _ "replied x i va ?s1"]) (simp add: half_parts half_eq updated_def)
qed

text \<open>The semaphores do not synchronise. For every identifier and in every state, \<^verbatim>\<open>sem_new\<close> answers 0, and \<^verbatim>\<open>sem_P\<close> and
  \<^verbatim>\<open>sem_V\<close> return at once to the caller, which stays the running process, with the processes and the ready queue as they were.\<close>

lemma semaphores_never_block:
  assumes "in_user i s"
  shows "(\<exists>s1. sem_new x U value s = Returns 0 s1 \<and> procs s1 = procs s \<and> ready_queue_head s1 = ready_queue_head s \<and> current s1 = Some i) \<and>
    (\<exists>s2. sem_P x U sem_id s = Returns () s2 \<and> procs s2 = procs s \<and> ready_queue_head s2 = ready_queue_head s \<and> current s2 = Some i) \<and>
    (\<exists>s3. sem_V x U sem_id s = Returns () s3 \<and> procs s3 = procs s \<and> ready_queue_head s3 = ready_queue_head s \<and> current s3 = Some i)"
proof -
  have u: "current s = Some i" "i < length (procs s)" using assms by (simp_all add: in_user_def)
  note call = user_call_value [OF assms]
  have "sem_new x U value s = Returns 0 (replied x i 0 (called U i [SYS_user_sem_new, scast value, 0, 0, 0, 0, 0, 0] s))"
    "sem_P x U sem_id s = Returns () (replied x i 0 (called U i [SYS_user_sem_P, scast sem_id, 0, 0, 0, 0, 0, 0] s))"
    "sem_V x U sem_id s = Returns () (replied x i 0 (called U i [SYS_user_sem_V, scast sem_id, 0, 0, 0, 0, 0, 0] s))"
    using u by (simp_all add: sem_new_def sem_P_def sem_V_def call do_syscall_def sys_numbers sys_user_sem_new_def
        sys_user_sem_P_def sys_user_sem_V_def ucast_half)
  then show ?thesis by simp
qed

definition sample_ucall :: ucall where
  "sample_ucall = \<lparr>uc_pc = 0x10100, uc_regs = zero_regs, uc_junk = 0x1234567800000000\<rparr>"

lemma running_user: "in_user 0 running_kernel"
  using running_trap [of 0 0 0] by (simp add: user_trap_def in_user_def)

theorem naive_malloc_pointer_witness:
  "\<exists>r s'. naive_malloc sample_externs sample_ucall running_kernel = Returns r s' \<and> r \<noteq> 0x400000 \<and> drop_bit 32 r = 0x12345678"
proof -
  note r = running_heap
  obtain ps f where c: "cached_pages (kpmm running_kernel) = ps @ [f]"
    using r(5) by (cases "cached_pages (kpmm running_kernel)" rule: rev_cases) auto
  have "missing_tables (kmem running_kernel) (pagetable (procs running_kernel ! 0)) 0x400000 \<le> length ps"
    using missing_le_2 [of "kmem running_kernel" "pagetable (procs running_kernel ! 0)" "0x400000"] r(5) c by simp
  from naive_malloc_pointer [OF r(1) _ r(2,6-8) _ c this, of sample_ucall sample_externs] r(3) running_user show ?thesis
    by (fastforce simp: in_user_def sample_ucall_def zero_regs_def)
qed

lemma semaphores_never_block_witness:
  "\<exists>s1. sem_new sample_externs sample_ucall 1 running_kernel = Returns 0 s1 \<and> current s1 = Some 0"
  using semaphores_never_block [OF running_user, of sample_externs sample_ucall 1 0] by blast

end
