(* ===== verification/Pke_Reach.thy ===== *)
theory Pke_Reach
  imports Pke_Boot Pke_User
begin

text \<open>
  The kernel as a state machine. What each operation leaves of the process table, the invariant of the scheduler (one
  process runs, the ready queue lists the others that can), that system calls, faults and the trap handler keep it, and
  the steps that user programs make the kernel take. The locale \<open>invariant_system\<close> carries the induction; its
  interpretations are the spin lock and the kernel.
\<close>

section \<open>What an operation leaves of the process table\<close>

named_theorems kept \<open>what the operations leave of the process table\<close>

lemma with_vm_kept [kept]:
  "with_vm f s = Inr (r, s') \<Longrightarrow> procs s' = procs s \<and> current s' = current s \<and> ready_queue_head s' = ready_queue_head s"
  by (auto simp: with_vm_def bindE_Inr_iff)

lemma on_vm_kept [kept]:
  "on_vm f s = Inr s' \<Longrightarrow> procs s' = procs s \<and> current s' = current s \<and> ready_queue_head s' = ready_queue_head s"
  by (auto simp: on_vm_def bindE_Inr_iff)

lemma k_alloc_page_kept [kept]:
  "k_alloc_page s = Inr (r, s') \<Longrightarrow> procs s' = procs s \<and> current s' = current s \<and> ready_queue_head s' = ready_queue_head s"
  by (auto simp: k_alloc_page_def dest: kept)

lemma tf_upd_kept [kept]:
  "tf_upd a f s = Inr s' \<Longrightarrow> a \<noteq> 0 \<and> procs s' = procs s \<and> current s' = current s \<and> ready_queue_head s' = ready_queue_head s"
  by (auto simp: tf_upd_def split: if_splits)

lemma region_set_kept [kept]:
  "region_set a i r s = Inr s' \<Longrightarrow> procs s' = procs s \<and> current s' = current s \<and> ready_queue_head s' = ready_queue_head s"
  by (auto simp: region_set_def split: if_splits)

lemma region_fill_kept [kept]:
  "region_fill mi seg va n s = Inr s' \<Longrightarrow> procs s' = procs s \<and> current s' = current s \<and> ready_queue_head s' = ready_queue_head s"
  by (auto simp: region_fill_def dest: kept)

lemma proc_upd_kept [kept]:
  "proc_upd i f s = Inr s' \<Longrightarrow>
   i < length (procs s) \<and> procs s' = (procs s)[i := f (procs s ! i)] \<and> current s' = current s \<and> ready_queue_head s' = ready_queue_head s"
  by (auto simp: proc_upd_def split: if_splits)

text \<open>A step that touches at most the process \<open>c\<close>, and neither its status, its identifier nor its link.\<close>

definition touches_proc :: "nat \<Rightarrow> kernel \<Rightarrow> kernel \<Rightarrow> bool" where
  "touches_proc c s s' \<longleftrightarrow> length (procs s') = length (procs s) \<and> current s' = current s \<and> ready_queue_head s' = ready_queue_head s \<and>
     (\<forall>j. j \<noteq> c \<longrightarrow> procs s' ! j = procs s ! j) \<and>
     status (procs s' ! c) = status (procs s ! c) \<and> pid (procs s' ! c) = pid (procs s ! c) \<and> queue_next (procs s' ! c) = queue_next (procs s ! c) \<and>
     (tf_ptr (procs s ! c) \<noteq> 0 \<longrightarrow> tf_ptr (procs s' ! c) \<noteq> 0)"

lemma touches_proc_refl [simp]: "touches_proc c s s"
  by (simp add: touches_proc_def)

lemma touches_proc_trans: "touches_proc c s t \<Longrightarrow> touches_proc c t u \<Longrightarrow> touches_proc c s u"
  by (simp add: touches_proc_def)

lemma touches_proc_same:
  "procs s' = procs s \<and> current s' = current s \<and> ready_queue_head s' = ready_queue_head s \<Longrightarrow> touches_proc c s s'"
  by (simp add: touches_proc_def)

lemma alloc_proc_pages_touches:
  "alloc_proc_pages c s = Inr (us, s') \<Longrightarrow> touches_proc c s s' \<and> tf_ptr (procs s' ! c) \<noteq> 0"
  unfolding alloc_proc_pages_def zero_vm_page_def
  by (auto simp: bindE_Inr_iff Let_def touches_proc_def nth_list_update dest!: kept)

lemma map_proc_regions_touches:
  "map_proc_regions x c us s = Inr s' \<Longrightarrow> touches_proc c s s'"
  unfolding map_proc_regions_def
  by (auto simp: bindE_Inr_iff Let_def touches_proc_def nth_list_update proc_at_def split: if_splits dest!: kept)

lemma alloc_process_touches:
  assumes "alloc_process x s = Inr (c, s')"
  shows "touches_proc c s s' \<and> tf_ptr (procs s' ! c) \<noteq> 0 \<and> status (procs s ! c) = FREE \<and> c < length (procs s)"
proof -
  from assms obtain us t where "find_free 0 (procs s) = Some c" "alloc_proc_pages c s = Inr (us, t)" "map_proc_regions x c us t = Inr s'"
    by (auto simp: alloc_process_def bindE_Inr_iff split: option.splits)
  moreover from this alloc_proc_pages_touches map_proc_regions_touches
  have "touches_proc c s t" "tf_ptr (procs t ! c) \<noteq> 0" "touches_proc c t s'" by blast+
  ultimately show ?thesis using find_free_Some [of 0 "procs s" c] touches_proc_trans by (auto simp: touches_proc_def)
qed

lemma share_page_kept [kept]:
  "share_page x pdir cdir va s = Inr s' \<Longrightarrow> procs s' = procs s \<and> current s' = current s \<and> ready_queue_head s' = ready_queue_head s"
  unfolding share_page_def by (auto simp: bindE_Inr_iff Let_def split: if_splits dest!: kept)

lemma share_loop_kept [kept]:
  "share_loop x k pdir cdir va n s = Inr s' \<Longrightarrow> procs s' = procs s \<and> current s' = current s \<and> ready_queue_head s' = ready_queue_head s"
  by (induction n arbitrary: k s) (fastforce simp: bindE_Inr_iff dest!: kept)+

lemma code_loop_kept [kept]:
  "code_loop k pdir cdir va n s = Inr s' \<Longrightarrow> procs s' = procs s \<and> current s' = current s \<and> ready_queue_head s' = ready_queue_head s"
  by (induction n arbitrary: k s) (fastforce simp: bindE_Inr_iff Let_def dest!: kept)+

lemma fork_region_touches: "fork_region x pi c i s = Inr s' \<Longrightarrow> touches_proc c s s'"
  unfolding fork_region_def
  by (auto simp: bindE_Inr_iff touches_proc_def nth_list_update proc_at_def split: if_splits dest!: kept)

lemma fork_regions_touches: "fork_regions x pi c is s = Inr s' \<Longrightarrow> touches_proc c s s'"
proof (induction "is" arbitrary: s)
  case (Cons i "is")
  then obtain t where "fork_region x pi c i s = Inr t" "fork_regions x pi c is t = Inr s'" by (auto simp: bindE_Inr_iff)
  then show ?case using fork_region_touches Cons.IH touches_proc_trans by blast
qed simp

section \<open>The scheduler in order\<close>

text \<open>
  The process \<open>i\<close> runs, the processes \<open>xs\<close> wait in this order, each once, and all other processes are free or
  have exited.
\<close>

definition sched_at :: "nat \<Rightarrow> nat list \<Rightarrow> kernel \<Rightarrow> bool" where
  "sched_at i xs s \<longleftrightarrow> current s = Some i \<and> runnable i s \<and> status (procs s ! i) = RUNNING \<and> ready_queue xs s \<and>
     (\<forall>j < length (procs s). j \<noteq> i \<longrightarrow> j \<notin> set xs \<longrightarrow> status (procs s ! j) \<in> {FREE, ZOMBIE})"

definition sched_ok :: "kernel \<Rightarrow> bool" where
  "sched_ok s \<longleftrightarrow> (\<exists>i xs. sched_at i xs s)"

lemma sched_at_not_waiting: "sched_at i xs s \<Longrightarrow> i \<notin> set xs"
  by (auto simp: sched_at_def ready_queue_def)

lemma touches_proc_sched:
  assumes "touches_proc c s s'" "sched_at i xs s"
  shows "sched_at i xs s'"
proof -
  have st: "status (procs s' ! j) = status (procs s ! j)" "queue_next (procs s' ! j) = queue_next (procs s ! j)"
    "tf_ptr (procs s ! j) \<noteq> 0 \<Longrightarrow> tf_ptr (procs s' ! j) \<noteq> 0" for j
    using assms(1) by (cases "j = c"; simp add: touches_proc_def)+
  have run: "runnable j s'" if "runnable j s" for j using that st(3) [of j] assms(1) by (simp add: runnable_def touches_proc_def)
  have "next_of s' = next_of s" using st(2) by (auto simp: next_of_def)
  then have "ready_queue xs s'" using assms run st(1) by (simp add: ready_queue_def touches_proc_def sched_at_def)
  then show ?thesis using assms run st(1) by (simp add: sched_at_def touches_proc_def)
qed

lemma insert_statuses:
  "insert_to_ready_queue j s = Inr s' \<Longrightarrow> length (procs s') = length (procs s) \<and> (\<forall>i. i \<noteq> j \<longrightarrow> status (procs s' ! i) = status (procs s ! i)) \<and>
     (\<forall>i. pid (procs s' ! i) = pid (procs s ! i) \<and> tf_ptr (procs s' ! i) = tf_ptr (procs s ! i))"
  by (auto simp: insert_to_ready_queue_def bindE_Inr_iff proc_upd_def nth_list_update split: option.splits if_splits)

text \<open>A fork puts exactly one process more at the end of the queue.\<close>

lemma do_fork_sched:
  assumes "do_fork x pi s = Inr (r, s')" "sched_at i xs s"
  shows "\<exists>c<length (procs s). status (procs s ! c) = FREE \<and> sched_at i (xs @ [c]) s' \<and> r = ucast (pid (procs s ! c)) \<and>
    tf_ptr (procs s' ! i) = tf_ptr (procs s ! i) \<and> length (procs s') = length (procs s) \<and>
    (\<forall>j. pid (procs s' ! j) = pid (procs s ! j) \<and> (j \<noteq> c \<longrightarrow> status (procs s' ! j) = status (procs s ! j)))"
proof -
  from assms(1) obtain c t u chi w1 w2 w3 v and par :: process where
    al: "alloc_process x s = Inr (c, t)" and f: "fork_regions x pi c [0..<total_mapped_region par] t = Inr u" "proc_at c u = Inr chi"
    and w: "tf_upd (tf_ptr chi) (\<lambda>t. t\<lparr>tf_regs := (tf_regs t)\<lparr>r_tp := x_proc_addr x c\<rparr>\<rparr>) u = Inr w1"
      "proc_upd c (\<lambda>c. c\<lparr>status := READY\<rparr>) w1 = Inr w2"
      "tf_upd (tf_ptr chi) (\<lambda>t. t\<lparr>tf_regs := (tf_regs t)\<lparr>r_a0 := 0\<rparr>\<rparr>) w2 = Inr w3"
      "proc_upd c (\<lambda>c. c\<lparr>parent := Some pi\<rparr>) w3 = Inr v"
    and ins: "insert_to_ready_queue c v = Inr s'" "r = ucast (pid chi)"
    unfolding do_fork_def by (auto simp: bindE_Inr_iff)
  have v: "procs v = (procs u)[c := (procs u ! c)\<lparr>status := READY, parent := Some pi\<rparr>]" "c < length (procs u)"
    "current v = current u" "ready_queue_head v = ready_queue_head u"
    using tf_upd_kept [OF w(1)] proc_upd_kept [OF w(2)] tf_upd_kept [OF w(3)] proc_upd_kept [OF w(4)] by simp_all
  have tf: "touches_proc c s u" "tf_ptr (procs u ! c) \<noteq> 0" "status (procs s ! c) = FREE" "c < length (procs s)"
    using alloc_process_touches [OF al] fork_regions_touches [OF f(1)] touches_proc_trans by (auto simp: touches_proc_def)
  have u: "sched_at i xs u" "status (procs u ! c) = FREE" using touches_proc_sched [OF tf(1) assms(2)] tf(1,3) by (simp_all add: touches_proc_def)
  then have c: "c \<noteq> i" "c \<notin> set xs" by (auto simp: sched_at_def ready_queue_def)
  have "next_of v = next_of u" using v(1,2) by (auto simp: next_of_def nth_list_update)
  moreover have rv: "runnable j v = runnable j u" for j using v(1,2) by (auto simp: runnable_def nth_list_update)
  ultimately have q: "ready_queue xs v" using u(1) c v(1,2,4) by (auto simp: sched_at_def ready_queue_def nth_list_update)
  have rc: "runnable c v" using rv tf(2) v(2) by (simp add: runnable_def)
  from insert_absent [OF q rc c(2)] ins(1) have
    s': "ready_queue (xs @ [c]) s'" "\<forall>j. runnable j s' = runnable j v" "current s' = current v" by auto
  have "status (procs s' ! j) = status (procs u ! j)" if "j \<noteq> c" for j using insert_statuses [OF ins(1)] v(1) that by simp
  moreover have len: "length (procs s') = length (procs u)" using insert_statuses [OF ins(1)] v(1) by simp
  ultimately have "sched_at i (xs @ [c]) s'" using u(1) s' rv c v(3) by (auto simp: sched_at_def)
  moreover have "pid (procs s' ! j) = pid (procs s ! j)" for j
    using insert_statuses [OF ins(1)] v(1,2) tf(1) by (cases "j = c") (simp_all add: touches_proc_def)
  moreover have "tf_ptr (procs s' ! i) = tf_ptr (procs s ! i)"
    using insert_statuses [OF ins(1)] v(1) c(1) tf(1) by (simp add: touches_proc_def)
  moreover have "status (procs s' ! j) = status (procs s ! j)" if "j \<noteq> c" for j
    using insert_statuses [OF ins(1)] v(1) tf(1) that by (simp add: touches_proc_def)
  moreover have "r = ucast (pid (procs s ! c))" using ins(2) f(2) tf(1) by (simp add: proc_at_def touches_proc_def split: if_splits)
  moreover have "length (procs s') = length (procs s)" using len tf(1) by (simp add: touches_proc_def)
  ultimately show ?thesis using tf(3,4) by blast
qed

section \<open>System calls and faults\<close>

lemma lift_res_iffs [simp]:
  "lift_res r = Returns v s' \<longleftrightarrow> r = Inr (v, s')" "lift_res r \<noteq> Resumes tf st s'" "lift_res r = Fails e \<longleftrightarrow> r = Inl e"
  by (cases r; auto)+

lemma heap_take_touches: "heap_take i s = Inr (va, s') \<Longrightarrow> touches_proc i s s'"
  unfolding heap_take_def
  by (auto simp: bindE_Inr_iff Let_def touches_proc_def nth_list_update proc_at_def split: if_splits dest!: kept)

lemma cur_proc_kept: "cur_proc s = Inr (i, p) \<Longrightarrow> current s = Some i \<and> i < length (procs s) \<and> p = procs s ! i"
  by (auto simp: cur_proc_def proc_at_def bindE_Inr_iff split: option.splits if_splits)

lemma simple_calls_touch:
  "sys_user_print b n s = Inr (v, s') \<Longrightarrow> touches_proc i s s'"
  "sys_user_printpa va s = Inr (v, s') \<Longrightarrow> touches_proc i s s'"
  "sys_user_allocate_page s = Inr (v, s') \<Longrightarrow> \<exists>i. touches_proc i s s'"
  "sys_user_free_page va s = Inr (v, s') \<Longrightarrow> \<exists>i. touches_proc i s s'"
proof -
  show "touches_proc i s s'" if "sys_user_print b n s = Inr (v, s')"
    using that by (auto simp: sys_user_print_def bindE_Inr_iff split: if_splits intro!: touches_proc_same dest!: kept)
  show "touches_proc i s s'" if "sys_user_printpa va s = Inr (v, s')"
    using that by (auto simp: sys_user_printpa_def bindE_Inr_iff split: if_splits intro!: touches_proc_same dest!: kept)
  show "\<exists>i. touches_proc i s s'" if al: "sys_user_allocate_page s = Inr (v, s')"
  proof -
    from al obtain pa t j p u dir where "k_alloc_page s = Inr (pa, t)" "heap_take j t = Inr (v, u)"
      "on_vm (user_vm_map dir v PGSIZE pa (prot_to_type (PROT_WRITE OR PROT_READ) True)) u = Inr s'"
      by (auto simp: sys_user_allocate_page_def bindE_Inr_iff)
    then have "touches_proc j s t" "touches_proc j t u" "touches_proc j u s'"
      using heap_take_touches touches_proc_same k_alloc_page_kept on_vm_kept by blast+
    then show ?thesis using touches_proc_trans by blast
  qed
  show "\<exists>i. touches_proc i s s'" if fr: "sys_user_free_page va s = Inr (v, s')"
  proof -
    from fr obtain j p where "cur_proc s = Inr (j, p)" by (auto simp: sys_user_free_page_def bindE_Inr_iff)
    then have "touches_proc j s s'" using fr
      by (auto simp: sys_user_free_page_def bindE_Inr_iff Let_def touches_proc_def nth_list_update split: if_splits dest!: kept)
    then show ?thesis ..
  qed
qed

text \<open>Leaving the processor: the process at the head runs next.\<close>

lemma schedule_sched:
  assumes r: "schedule x s = Resumes tf st s'" and q: "ready_queue xs s"
    and rest: "\<forall>j < length (procs s). j \<notin> set xs \<longrightarrow> status (procs s ! j) \<in> {FREE, ZOMBIE}"
  shows "\<exists>j ys. xs = j # ys \<and> sched_at j ys s' \<and> length (procs s') = length (procs s) \<and> (\<forall>k. pid (procs s' ! k) = pid (procs s ! k))"
proof (cases xs)
  case Nil
  then show ?thesis using r q by (auto simp: schedule_def ready_queue_def Let_def split: if_splits)
next
  case (Cons j ys)
  from schedule_head [OF q [unfolded Cons], of x] r have
    s': "ready_queue ys s'" "current s' = Some j" "status (procs s' ! j) = RUNNING" "\<forall>k. runnable k s' = runnable k s" by auto
  have hd: "ready_queue_head s = Some j" using q Cons by (simp add: ready_queue_def)
  have "length (procs s') = length (procs s) \<and> (\<forall>k. k \<noteq> j \<longrightarrow> status (procs s' ! k) = status (procs s ! k))"
    "\<forall>k. pid (procs s' ! k) = pid (procs s ! k)"
    using r hd by (auto simp: schedule_def switch_to_def liftS_def proc_upd_def tf_upd_def Let_def nth_list_update split: if_splits sum.splits)
  moreover have "runnable j s" using q Cons by (simp add: ready_queue_def)
  ultimately have "sched_at j ys s'" "length (procs s') = length (procs s)" "\<forall>k. pid (procs s' ! k) = pid (procs s ! k)"
    using s' rest Cons by (auto simp: sched_at_def)
  then show ?thesis using Cons by blast
qed

lemma exit_queue:
  assumes "sched_at i xs s"
  defines "z \<equiv> s\<lparr>procs := (procs s)[i := (procs s ! i)\<lparr>status := ZOMBIE\<rparr>]\<rparr>"
  shows "sys_user_exit x code s = bindF (schedule x z) (\<lambda>_ s. Returns 0 s)" "ready_queue xs z"
    "\<forall>j < length (procs z). j \<notin> set xs \<longrightarrow> status (procs z ! j) \<in> {FREE, ZOMBIE}"
proof -
  have i: "current s = Some i" "i < length (procs s)" "i \<notin> set xs"
    using assms(1) sched_at_not_waiting by (auto simp: sched_at_def runnable_def)
  show "sys_user_exit x code s = bindF (schedule x z) (\<lambda>_ s. Returns 0 s)"
    using i by (simp add: sys_user_exit_def free_process_def proc_upd_ok z_def)
  have "next_of z = next_of s" using i by (auto simp: next_of_def z_def nth_list_update)
  moreover have "runnable j z = runnable j s" for j using i by (auto simp: runnable_def z_def nth_list_update)
  ultimately show "ready_queue xs z" using assms(1) i by (auto simp: sched_at_def ready_queue_def z_def nth_list_update)
  show "\<forall>j < length (procs z). j \<notin> set xs \<longrightarrow> status (procs z ! j) \<in> {FREE, ZOMBIE}"
    using assms(1) i by (auto simp: sched_at_def z_def nth_list_update)
qed

lemma syscall_sched:
  assumes "sched_at i xs s"
  shows "do_syscall x n a1 a2 a3 a4 a5 a6 a7 s = Returns v s' \<Longrightarrow> \<exists>ys. sched_at i ys s'"
    and "do_syscall x n a1 a2 a3 a4 a5 a6 a7 s = Resumes tf st s' \<Longrightarrow> sched_ok s'"
proof -
  have ex: "sys_user_exit x code s \<noteq> Returns w t" for code w t
    using exit_queue(1) [OF assms, of x code] schedule_leaves [of x]
    by (cases "schedule x (s\<lparr>procs := (procs s)[i := (procs s ! i)\<lparr>status := ZOMBIE\<rparr>]\<rparr>)") auto
  have keep: "\<exists>ys. sched_at i ys t" if "\<exists>c. touches_proc c s t" for t using that touches_proc_sched assms by blast
  have fork_case: "\<exists>ys. sched_at i ys t" if "do_fork x pi s = Inr (r, t)" for pi r t using do_fork_sched [OF that assms] by blast
  have none: "\<exists>ys. sched_at i ys s" using assms by blast
  show "\<exists>ys. sched_at i ys s'" if "do_syscall x n a1 a2 a3 a4 a5 a6 a7 s = Returns v s'"
    using that ex fork_case none
    by (auto simp: do_syscall_def sys_user_yield_def sys_user_sem_new_def sys_user_sem_P_def sys_user_sem_V_def
        sys_user_fork_def bindE_Inr_iff split: if_splits option.splits intro: keep simple_calls_touch)
  show "sched_ok s'" if "do_syscall x n a1 a2 a3 a4 a5 a6 a7 s = Resumes tf st s'"
  proof -
    from that have "sys_user_exit x a1 s = Resumes tf st s'" by (auto simp: do_syscall_def split: if_splits)
    then have "schedule x (s\<lparr>procs := (procs s)[i := (procs s ! i)\<lparr>status := ZOMBIE\<rparr>]\<rparr>) = Resumes tf st s'"
      using exit_queue(1) [OF assms, of x a1]
      by (cases "schedule x (s\<lparr>procs := (procs s)[i := (procs s ! i)\<lparr>status := ZOMBIE\<rparr>]\<rparr>)") auto
    from schedule_sched [OF this exit_queue(2,3) [OF assms]] show ?thesis by (auto simp: sched_ok_def)
  qed
qed

lemma page_fault_touches: "handle_user_page_fault x cause pc va s = Inr s' \<Longrightarrow> touches_proc i s s'"
  unfolding handle_user_page_fault_def cow_fault_def
  by (auto simp: bindE_Inr_iff Let_def split: if_splits intro!: touches_proc_same dest!: kept)

text \<open>The trap handler, from a running process to the next one.\<close>

lemma switch_sched:
  assumes "sched_at i xs s" "switch_to x (current s) s = Resumes tf st s'"
  shows "sched_at i xs s'"
proof -
  have "i < length (procs s)" "tf_ptr (procs s ! i) \<noteq> 0" "current s = Some i" using assms(1) by (simp_all add: sched_at_def runnable_def)
  then have "s' = resumed x i s" using assms(2) switch_to_ok [of i s x] by simp
  then show ?thesis using touches_proc_sched [OF touches_proc_same assms(1), of s'] assms(1) by (simp add: sched_at_def)
qed

lemma trap_sched:
  assumes ok: "sched_at i xs s" and r: "smode_trap_handler x s = Resumes tf st s'"
  shows "sched_ok s'"
proof -
  have cur: "current s = Some i" "i < length (procs s)" "tf_ptr (procs s ! i) \<noteq> 0" using ok by (simp_all add: sched_at_def runnable_def)
  have spp: "sstatus_reg (kpmm s) AND SSTATUS_SPP = 0" using r by (auto simp: smode_trap_handler_def split: if_splits)
  have u: "user_trap (scause s) i s" using cur spp by (simp add: user_trap_def)
  have pc: "sched_at i xs (saved_pc i pc s)" for pc using touches_proc_sched [OF touches_proc_same ok] by simp
  consider (call) "scause s = CAUSE_USER_ECALL" | (fault) "scause s = CAUSE_STORE_PAGE_FAULT \<or> scause s = CAUSE_LOAD_PAGE_FAULT"
    using r cur spp by (auto simp: smode_trap_handler_def cur_proc_ok tf_upd_ok Let_def handle_mtimer_trap_def split: if_splits)
  then show ?thesis
  proof cases
    case call
    let ?r = "tf_regs (tframes s (tf_ptr (procs s ! i)))"
    let ?d = "do_syscall x (r_a0 ?r) (r_a1 ?r) (r_a2 ?r) (r_a3 ?r) (r_a4 ?r) (r_a5 ?r) (r_a6 ?r) (r_a7 ?r) (saved_pc i (sepc s + 4) s)"
    show ?thesis
    proof (cases ?d)
      case (Returns v t)
      obtain ys where ys: "sched_at i ys t" using syscall_sched(1) [OF pc Returns] by blast
      let ?t = "t\<lparr>tframes := (tframes t)(tf_ptr (procs s ! i) :=
          (tframes t (tf_ptr (procs s ! i)))\<lparr>tf_regs := (tf_regs (tframes t (tf_ptr (procs s ! i))))\<lparr>r_a0 := v\<rparr>\<rparr>)\<rparr>"
      have sw: "switch_to x (current ?t) ?t = Resumes tf st s'"
        using trap_ecall [of i s x] u call r Returns cur by (simp add: Let_def tf_upd_ok)
      have "sched_at i ys ?t" by (rule touches_proc_sched [OF touches_proc_same ys]) simp
      from switch_sched [OF this sw] have "sched_at i ys s'" .
      then show ?thesis by (auto simp: sched_ok_def)
    next
      case (Resumes tf' st' t)
      then have "t = s'" using trap_ecall [of i s x] u call r by (simp add: Let_def)
      then show ?thesis using syscall_sched(2) [OF pc Resumes] by simp
    next
      case (Fails e)
      then show ?thesis using trap_ecall [of i s x] u call r by (simp add: Let_def)
    qed
  next
    case fault
    then obtain t where t: "handle_user_page_fault x (scause s) (sepc s) (stval s) (saved_pc i (sepc s) s) = Inr t"
      "switch_to x (current t) t = Resumes tf st s'"
      using trap_page_fault [of i s x] u r by (auto simp: liftS_def split: sum.splits)
    have "sched_at i xs t" by (rule touches_proc_sched [OF page_fault_touches [OF t(1)] pc])
    from switch_sched [OF this t(2)] show ?thesis by (auto simp: sched_ok_def)
  qed
qed

section \<open>The kernel as a state machine\<close>

text \<open>The hart and \<^verbatim>\<open>smode_trap_vector\<close> at a trap of any cause.\<close>

definition trap_entry :: "uint64 \<Rightarrow> uint64 \<Rightarrow> uint64 \<Rightarrow> riscv_regs \<Rightarrow> uint64 \<Rightarrow> kernel \<Rightarrow> kernel" where
  "trap_entry cause va tf r pc s = (smode_trap_vector tf r pc s)\<lparr>scause := cause, stval := va\<rparr>"

text \<open>
  The memory of the kernel's own objects: everything outside the memory that the buddy system manages (the image of the
  kernel with the process table, the page descriptors, devices), and in it the trap frame, the region table and the
  kernel stack of each process and the page tables of the kernel. The model keeps these objects as components of their own,
  not as cells of \<^verbatim>\<open>vmem\<close>.
\<close>

definition kernel_pages :: "kernel \<Rightarrow> uint64 set" where
  "kernel_pages s = (\<Union>p\<in>set (procs s). {tf_ptr p, mapped_info p, kstack p - PGSIZE}) \<union>
     tables (kmem s) (g_kernel_pagetable (kvm s))"

definition kernel_cell :: "kernel \<Rightarrow> uint64 \<Rightarrow> bool" where
  "kernel_cell s a \<longleftrightarrow> \<not> (buddy_start (kpmm s) \<le> a \<and> a < buddy_end (kpmm s)) \<or> (\<exists>t\<in>kernel_pages s. a - t < PGSIZE)"

text \<open>
  The steps of a machine on which the kernel's objects are left alone. A user program stores to any cell of memory that is
  not one of these objects, page tables of processes included, and traps with any cause, registers (\<^verbatim>\<open>tp\<close> included)
  and addresses; the handler resumes a process without having written to a cell of these objects through a page table. What the
  kernel reads in such a cell through a page table can be anything. The kernel does not enforce this: programs
  can get hold of a page table and map what they want. A trap that panics, or that reaches outside an array, is the end
  of the run.
\<close>

inductive user_step :: "externs \<Rightarrow> kernel \<Rightarrow> kernel \<Rightarrow> bool" for x where
  stores: "\<not> kernel_cell s a \<Longrightarrow> user_step x s (s\<lparr>kvm := (kvm s)\<lparr>vmem := (kmem s)(a := w)\<rparr>\<rparr>)"
| shows_objects: "(\<And>a. \<not> kernel_cell s a \<Longrightarrow> m a = kmem s a) \<Longrightarrow> user_step x s (s\<lparr>kvm := (kvm s)\<lparr>vmem := m\<rparr>\<rparr>)"
| traps: "current s = Some i \<Longrightarrow> smode_trap_handler x (trap_entry cause va (tf_ptr (procs s ! i)) r pc s) = Resumes tf st s' \<Longrightarrow>
    (\<And>a. kernel_cell s a \<Longrightarrow> kmem s' a = kmem s a) \<Longrightarrow> user_step x s s'"

inductive_cases user_stepE: "user_step x s s'"

inductive reach :: "('s \<Rightarrow> bool) \<Rightarrow> ('s \<Rightarrow> 's \<Rightarrow> bool) \<Rightarrow> 's \<Rightarrow> bool" for start step where
  start: "start s \<Longrightarrow> reach start step s"
| step: "reach start step s \<Longrightarrow> step s t \<Longrightarrow> reach start step t"

text \<open>A predicate that holds at the start and is kept by every step.\<close>

locale invariant_system =
  fixes start :: "'s \<Rightarrow> bool" and step :: "'s \<Rightarrow> 's \<Rightarrow> bool" and inv :: "'s \<Rightarrow> bool"
  assumes start_inv: "start s \<Longrightarrow> inv s"
    and step_inv: "step s t \<Longrightarrow> inv s \<Longrightarrow> inv t"
begin

lemma reach_inv: "reach start step s \<Longrightarrow> inv s"
  by (induction rule: reach.induct) (auto intro: start_inv step_inv)

end

interpretation lock_run: invariant_system "\<lambda>s. s = lock_init" lock_step lock_inv
proof unfold_locales
  show "lock_inv s" if "s = lock_init" for s using that by (simp add: lock_inv_def lock_init_def)
qed (rule lock_step_inv)

lemma trap_entry_sched: "sched_at i xs s \<Longrightarrow> sched_at i xs (trap_entry cause va tf r pc s)"
  by (rule touches_proc_sched [OF touches_proc_same]) (simp_all add: trap_entry_def smode_trap_vector_def)

lemma memory_sched: "sched_ok s \<Longrightarrow> sched_ok (s\<lparr>kvm := v\<rparr>)"
  using touches_proc_sched [OF touches_proc_same, of "s\<lparr>kvm := v\<rparr>" s] by (auto simp: sched_ok_def)

lemma user_step_sched: "user_step x s s' \<Longrightarrow> sched_ok s \<Longrightarrow> sched_ok s'"
proof (erule user_stepE)
  fix i cause va r pc tf st
  assume "sched_ok s" "smode_trap_handler x (trap_entry cause va (tf_ptr (procs s ! i)) r pc s) = Resumes tf st s'"
  then show "sched_ok s'" using trap_sched trap_entry_sched unfolding sched_ok_def by blast
qed (simp_all add: memory_sched)

interpretation kernel_run: invariant_system "\<lambda>s. \<exists>i. sched_at i [] s" "user_step x" sched_ok for x
proof unfold_locales
  show "sched_ok s" if "\<exists>i. sched_at i [] s" for s using that by (auto simp: sched_ok_def)
qed (rule user_step_sched)

section \<open>Loading a program keeps the process table\<close>

lemma in_kernel_Inr: "in_kernel f s = returnO (r, s') \<longleftrightarrow> (\<exists>k. f (ld_kernel s) = Inr (r, k) \<and> s' = s\<lparr>ld_kernel := k\<rparr>)"
  by (auto simp: in_kernel_def bindE_Inr_iff)

lemma on_kernel_Inr: "on_kernel f s = returnO s' \<longleftrightarrow> (\<exists>k. f (ld_kernel s) = Inr k \<and> s' = s\<lparr>ld_kernel := k\<rparr>)"
  by (auto simp: on_kernel_def bindE_Inr_iff)

lemma elf_fpread_kernel: "elf_fpread E f dest nb off s = returnO (r, s') \<Longrightarrow> ld_kernel s' = ld_kernel s"
  by (auto simp: elf_fpread_def bindO_returnO_iff)

lemma elf_alloc_mb_touches: "elf_alloc_mb p pa va sz s = returnO (r, s') \<Longrightarrow> touches_proc c (ld_kernel s) (ld_kernel s')"
  unfolding elf_alloc_mb_def
  by (auto simp: bindO_returnO_iff in_kernel_Inr on_kernel_Inr bindE_Inr_iff bind_eq_Some_conv Let_def zero_vm_page_def
      split: if_splits intro!: touches_proc_same dest!: kept)

lemma record_segment_touches: "record_segment p ph k = Inr k' \<Longrightarrow> touches_proc p k k'"
  unfolding record_segment_def
  by (auto simp: bindE_Inr_iff Let_def touches_proc_def nth_list_update split: if_splits dest!: kept)

lemma elf_load_loop_touches:
  "elf_load_loop E F f p n off s = returnO (r, s') \<Longrightarrow> touches_proc p (ld_kernel s) (ld_kernel s')"
proof (induction n arbitrary: off s)
  case (Suc n)
  from Suc.prems obtain r1 s1 where r1: "elf_fpread E f (at_ph F) 56 (scast off) s = returnO (r1, s1)"
    by (auto simp: bindO_returnO_iff)
  then have k1: "ld_kernel s1 = ld_kernel s" by (rule elf_fpread_kernel)
  let ?ph = "prog_header_at (at_ph F) (ld_mem s1)"
  consider (stop) "s' = s1" | (skip) "elf_load_loop E F f p n (off + 56) s1 = returnO (r, s')"
    | (load) dest s2 s3 r3 where "elf_alloc_mb p (ph_vaddr ?ph) (ph_vaddr ?ph) (ph_memsz ?ph) s1 = returnO (dest, s2)"
        "elf_fpread E f dest (ph_memsz ?ph) (ph_off ?ph) s2 = returnO (r3, s3)"
        "let s4 = s3\<lparr>ld_kernel := sync_page dest (ld_mem s3) (ld_kernel s3)\<rparr> in
           s' = s4 \<or> (\<exists>k. record_segment p ?ph (ld_kernel s4) = Inr k \<and> elf_load_loop E F f p n (off + 56) (s4\<lparr>ld_kernel := k\<rparr>) = returnO (r, s'))"
    using Suc.prems r1 by (auto simp: bindO_returnO_iff on_kernel_Inr Let_def split: if_splits)
  then show ?case
  proof cases
    case stop
    then show ?thesis using k1 by simp
  next
    case skip
    then show ?thesis using Suc.IH k1 by metis
  next
    case load
    have 1: "touches_proc p (ld_kernel s) (sync_page dest (ld_mem s3) (ld_kernel s3))"
      using elf_alloc_mb_touches [OF load(1), of p] elf_fpread_kernel [OF load(2)] k1 by (simp add: touches_proc_def sync_page_def)
    show ?thesis using load(3) 1 record_segment_touches Suc.IH touches_proc_trans by (auto simp: Let_def) (metis (no_types, lifting) loader.select_convs(1) loader.surjective loader.update_convs(1))+
  qed
qed simp

lemma load_bincode_touches:
  assumes "load_bincode_from_host_elf E F p s = returnO s'"
  shows "touches_proc p (ld_kernel s) (ld_kernel s')"
proof -
  from assms obtain argc s1 fp t1 where 0: "parse_args E F s = returnO (argc, s1)"
    "spike_file_open E (load_word (at_args F) (ld_mem s1)) 0 0 (ld_files s1) = returnO (fp, t1)"
    unfolding load_bincode_from_host_elf_def by (auto simp: bindO_returnO_iff split: if_splits)
  from assms 0 obtain f where fp: "fp = File f"
    unfolding load_bincode_from_host_elf_def by (cases fp) (auto simp: Let_def split: if_splits)
  from assms 0 obtain s2 st3 s3 k where
    1: "parse_args E F s = returnO (argc, s1)" "elf_init E F f (s1\<lparr>ld_files := t1\<rparr>) = returnO (EL_OK, s2)"
      "elf_load E F f p s2 = returnO (st3, s3)"
      "bindE (proc_at p (ld_kernel s3)) (\<lambda>pr.
         tf_upd (tf_ptr pr) (\<lambda>tf. tf\<lparr>epc := eh_entry (elf_header_at (at_ehdr F) (ld_mem s3))\<rparr>) (ld_kernel s3)) = Inr k"
      "ld_kernel s' = k"
    unfolding load_bincode_from_host_elf_def fp
    by (auto simp: bindO_returnO_iff on_kernel_Inr Let_def split: if_splits)
  have "ld_kernel s1 = ld_kernel s" using 1(1) by (auto simp: parse_args_def bindO_returnO_iff Let_def split: if_splits)
  moreover have "ld_kernel s2 = ld_kernel s1"
    using 1(2) by (auto simp: elf_init_def bindO_returnO_iff split: if_splits dest!: elf_fpread_kernel)
  moreover have "touches_proc p (ld_kernel s2) (ld_kernel s3)" using 1(3) elf_load_loop_touches by (auto simp: elf_load_def Let_def)
  moreover have "touches_proc p (ld_kernel s3) k" using 1(4) by (auto simp: bindE_Inr_iff intro!: touches_proc_same dest!: kept)
  ultimately show ?thesis using 1(5) touches_proc_trans by metis
qed

text \<open>The state in which the first program starts to run.\<close>

lemma launch_sched:
  assumes "launch x E F s = returnO (Resumes tf st k, t)" and "ready_queue_head (ld_kernel s) = None"
  shows "sched_at 0 [] k \<and> length (procs k) = NPROC \<and> (\<forall>j<NPROC. pid (procs k ! j) = word_of_nat j)"
proof -
  let ?s = "s\<lparr>ld_kernel := init_proc_pool (ld_kernel s)\<rparr>"
  from assms(1) obtain c s1 s2 k2 where
    l: "alloc_process x (ld_kernel ?s) = Inr (c, s1)" "load_bincode_from_host_elf E F c (?s\<lparr>ld_kernel := s1\<rparr>) = returnO s2"
      "insert_to_ready_queue c (ld_kernel s2) = Inr k2" "schedule x k2 = Resumes tf st k"
    unfolding launch_def load_user_program_def
    by (auto simp: bindO_returnO_iff in_kernel_Inr on_kernel_Inr Let_def)
  have free: "status (procs (ld_kernel ?s) ! j) = FREE" if "j < length (procs (ld_kernel ?s))" for j
    using that by (simp add: init_proc_pool_def Let_def)
  have hd: "ready_queue_head (ld_kernel ?s) = None" using assms(2) by (simp add: init_proc_pool_def Let_def)
  have tf: "touches_proc c (ld_kernel ?s) (ld_kernel s2)" "tf_ptr (procs (ld_kernel s2) ! c) \<noteq> 0" "c < length (procs (ld_kernel ?s))"
    using alloc_process_touches [OF l(1)] load_bincode_touches [OF l(2)] touches_proc_trans by (auto simp: touches_proc_def)
  then have q: "ready_queue [] (ld_kernel s2)" "runnable c (ld_kernel s2)" using hd by (simp_all add: ready_queue_def runnable_def touches_proc_def)
  from insert_absent [OF q] l(3) have k2: "ready_queue [c] k2" by auto
  have st: "status (procs (ld_kernel s2) ! j) = FREE" if "j \<noteq> c" "j < length (procs (ld_kernel s2))" for j
    using free that tf(1) by (simp add: touches_proc_def)
  have "status (procs k2 ! j) \<in> {FREE, ZOMBIE}" if "j < length (procs k2)" "j \<notin> set [c]" for j
    using insert_statuses [OF l(3)] st that by auto
  then have k: "sched_at c [] k" "length (procs k) = length (procs k2)" "\<forall>j. pid (procs k ! j) = pid (procs k2 ! j)"
    using schedule_sched [OF l(4) k2] by blast+
  have len: "length (procs (ld_kernel ?s)) = NPROC" "\<forall>j<NPROC. pid (procs (ld_kernel ?s) ! j) = word_of_nat j"
    by (simp_all add: init_proc_pool_def Let_def)
  have "find_free 0 (procs (ld_kernel ?s)) = Some c"
    using l(1) by (auto simp: alloc_process_def bindE_Inr_iff split: option.splits)
  then have "c = 0" using find_free_Some [of 0 "procs (ld_kernel ?s)" c] free len(1) by (cases c) (auto simp: NPROC_def)
  moreover have "pid (procs k ! j) = pid (procs (ld_kernel ?s) ! j)" for j
    using k(3) insert_statuses [OF l(3)] tf(1) by (cases "j = c") (simp_all add: touches_proc_def)
  moreover have "length (procs k) = NPROC" using k(2) insert_statuses [OF l(3)] tf(1) len(1) by (simp add: touches_proc_def)
  ultimately show ?thesis using k(1) len(2) by simp
qed

end
