(* ===== verification/Pke_Static.thy ===== *)
theory Pke_Static
  imports Pke_Reach
begin

text \<open>
  What no operation of memory management changes: the bounds of the memory that the buddy system manages, the number
  of page caches, the register \<^verbatim>\<open>tp\<close> that selects one of them and the page table of the kernel; that nothing can be
  allocated while \<^verbatim>\<open>tp\<close> is not the number of a hart; and where the objects of the kernel lie on the machine of the examples.
\<close>

section \<open>Memory management\<close>

named_theorems static \<open>what an operation does not change of the allocator\<close>

definition static_of :: "pmm \<Rightarrow> uint64 \<times> uint64 \<times> uint64 \<times> nat" where
  "static_of p = (buddy_start p, buddy_end p, tp_reg p, length (pcpu_caches p))"

lemma static_of_upd [simp]:
  "static_of (q\<lparr>bnodes := h\<rparr>) = static_of q" "static_of (q\<lparr>pages := g\<rparr>) = static_of q"
  "static_of (q\<lparr>buddy_lock := l\<rparr>) = static_of q" "static_of (q\<lparr>sstatus_reg := v\<rparr>) = static_of q"
  "static_of (cache_set cid c q) = static_of q" "static_of (buddy_lock_release q) = static_of q"
  by (simp_all add: static_of_def cache_set_def buddy_lock_release_def)

lemma page_upd_static [static]: "page_upd p f s = Inr s' \<Longrightarrow> static_of s' = static_of s"
  by (auto simp: page_upd_def split: if_splits)

lemma with_nodes_static [static]: "with_nodes f s = Inr s' \<Longrightarrow> static_of s' = static_of s"
  by (auto simp: with_nodes_def bindE_Inr_iff)

lemma area_pop_static [static]: "area_pop i s = Inr (p, s') \<Longrightarrow> static_of s' = static_of s"
  by (auto simp: area_pop_def bindE_Inr_iff)

lemma area_add_static [static]: "area_add i p s = Inr s' \<Longrightarrow> static_of s' = static_of s"
  by (auto simp: area_add_def bindE_Inr_iff dest: static)

lemma buddy_lock_static [static]: "buddy_lock_acquire s = Inr s' \<Longrightarrow> static_of s' = static_of s"
  by (auto simp: buddy_lock_acquire_def split: option.splits)

lemma split_once_static [static]: "split_once i s = Inr s' \<Longrightarrow> static_of s' = static_of s"
  by (auto simp: split_once_def bindE_Inr_iff Let_def dest!: static)

lemma buddy_split_static [static]: "buddy_split i t s = Inr s' \<Longrightarrow> static_of s' = static_of s"
proof (induction i t s rule: buddy_split.induct)
  case (1 i t s)
  show ?case
  proof (cases "i > t")
    case True
    with 1(2) obtain u where u: "split_once i s = Inr u" "buddy_split (i - 1) t u = Inr s'"
      by (subst (asm) buddy_split.simps) (auto simp: bindE_Inr_iff)
    then show ?thesis using 1(1) [OF True u] split_once_static by simp
  qed (use 1(2) in \<open>subst (asm) buddy_split.simps, simp\<close>)
qed

lemma buddy_alloc_loop_static [static]: "buddy_alloc_loop i order s = Inr (a, s') \<Longrightarrow> static_of s' = static_of s"
proof (induction i order s rule: buddy_alloc_loop.induct)
  case (1 i order s)
  from 1(2) have "i < MAX_ORDER" by (subst (asm) buddy_alloc_loop.simps) (auto split: if_splits)
  then show ?case using 1
    by (cases "list_empty (HeadN i) (bnodes s)"; subst (asm) (2) buddy_alloc_loop.simps)
      (auto simp: bindE_Inr_iff Let_def split: if_splits dest!: static)
qed

lemma buddy_alloc_static [static]: "buddy_alloc order s = Inr (a, s') \<Longrightarrow> static_of s' = static_of s"
  by (auto simp: buddy_alloc_def bindE_Inr_iff dest!: static)

lemma merge_loop_static [static]: "merge_loop pfn order s = Inr (p, o', s') \<Longrightarrow> static_of s' = static_of s"
proof (induction "MAX_ORDER - order" arbitrary: pfn order s)
  case (Suc n)
  show ?case
  proof (cases "(p, o', s') = (pfn, order, s)")
    case False
    with Suc.prems obtain t u v q where "with_nodes (list_del (PageN (pfn XOR shl1 order))) s = Inr t"
      "page_upd (pfn XOR shl1 order) (\<lambda>pg. pg\<lparr>is_free := 0, is_head := 0\<rparr>) t = Inr u"
      "page_upd q (\<lambda>pg. pg\<lparr>pg_order := word_of_nat (order + 1)\<rparr>) u = Inr v" "merge_loop q (order + 1) v = Inr (p, o', s')"
      by (subst (asm) merge_loop.simps) (auto simp: bindE_Inr_iff Let_def split: if_splits)
    moreover have "n = MAX_ORDER - (order + 1)" using Suc.hyps(2) by simp
    ultimately show ?thesis using Suc.hyps(1) static by metis
  qed simp
next
  case 0
  then have "\<not> order < MAX_ORDER - 1" by simp
  then show ?case using 0(2) by (subst (asm) merge_loop.simps) simp
qed

lemma buddy_merge_inner_static [static]: "buddy_merge_inner p s = Inr s' \<Longrightarrow> static_of s' = static_of s"
  by (auto simp: buddy_merge_inner_def bindE_Inr_iff dest!: static)

lemma cache_pop_static [static]: "cache_pop cid s = Inr (p, s') \<Longrightarrow> static_of s' = static_of s"
  by (auto simp: cache_pop_def bindE_Inr_iff Let_def)

lemma refill_loop_static [static]: "refill_loop n cid s = Inr s' \<Longrightarrow> static_of s' = static_of s"
  by (induction n arbitrary: s) (auto simp: bindE_Inr_iff dest!: static)

lemma flush_loop_static [static]: "flush_loop n cid s = Inr s' \<Longrightarrow> static_of s' = static_of s"
  by (induction n arbitrary: s) (auto simp: bindE_Inr_iff dest!: static)

lemma alloc_page_static [static]: "alloc_page s = Inr (a, s') \<Longrightarrow> static_of s' = static_of s"
  by (auto simp: alloc_page_def bindE_Inr_iff Let_def split: if_splits dest!: static)

lemma pfree_static [static]: "pfree a s = Inr s' \<Longrightarrow> static_of s' = static_of s"
  by (auto simp: pfree_def bindE_Inr_iff irq_off_def irq_restore_def Let_def split: if_splits prod.splits dest!: static)

lemma prefill_loop_static [static]: "prefill_loop n cid s = Inr s' \<Longrightarrow> static_of s' = static_of s"
  by (induction n arbitrary: s) (auto simp: bindE_Inr_iff dest!: static)

lemma prefill_caches_static [static]: "prefill_caches n s = Inr s' \<Longrightarrow> static_of s' = static_of s"
  by (induction n arbitrary: s) (auto simp: bindE_Inr_iff Let_def dest!: static)

lemma buddy_init_loop_static [static]: "buddy_init_loop a b s = Inr s' \<Longrightarrow> static_of s' = static_of s"
proof (induction a b s rule: buddy_init_loop.induct)
  case (1 a b s)
  show ?case
  proof (cases "a < b")
    case True
    with 1(2) obtain t u where
      i: "guardE (a div PGSIZE \<noteq> 0 \<and> (b - a) div PGSIZE \<noteq> 0) Undefined = Inr ()"
      "page_upd (ADDR_TO_PFN a) (\<lambda>pg. pg\<lparr>pg_alloc := 0, is_head := 1, is_free := 1, pg_order := word_of_nat (init_order a b)\<rparr>) s = Inr t"
      "area_add (init_order a b) (ADDR_TO_PFN a) t = Inr u"
      "buddy_init_loop (a + shl1 (init_order a b) * PGSIZE) b u = Inr s'"
      by (subst (asm) buddy_init_loop.simps) (auto simp: bindE_Inr_iff Let_def)
    then show ?thesis using 1(1) [OF True i(1) refl refl i(2-4)] page_upd_static [OF i(2)] area_add_static [OF i(3)] by simp
  qed (use 1(2) in \<open>subst (asm) buddy_init_loop.simps, simp\<close>)
qed

text \<open>The machine of the examples manages the memory from frame 208 on.\<close>

lemma pmm_init_static:
  assumes "pmm_init kend s = Inr s'"
  defines "mem \<equiv> MIN2 PKE_MAX_ALLOWABLE_RAM (g_mem_size s)"
  shows "buddy_start s' = ROUNDUP (mem div PGSIZE * sizeof_page + ROUNDUP kend 8) PGSIZE" "buddy_end s' = ROUNDDOWN (mem + DRAM_BASE) PGSIZE"
proof -
  from assms(1) obtain t u where "buddy_system_init (buddy_start t) (buddy_end t) t = Inr u" "prefill_caches NCPU u = Inr s'"
    "buddy_start t = ROUNDUP (mem div PGSIZE * sizeof_page + ROUNDUP kend 8) PGSIZE" "buddy_end t = ROUNDDOWN (mem + DRAM_BASE) PGSIZE"
    unfolding pmm_init_def mem_def Let_def bindE_Inr_iff by (fastforce simp: reserve_pages_def clear_pages_def)
  then show "buddy_start s' = ROUNDUP (mem div PGSIZE * sizeof_page + ROUNDUP kend 8) PGSIZE" "buddy_end s' = ROUNDDOWN (mem + DRAM_BASE) PGSIZE"
    by (auto simp: buddy_system_init_def Let_def static_of_def dest!: static)
qed

lemma booted_static: "buddy_start booted = 0x800d0000" "buddy_end booted = 0x88000000"
  using pmm_init_static [OF booted_facts(1)]
  by (simp_all add: cold_pmm_def MIN2_def PKE_MAX_ALLOWABLE_RAM_def DRAM_BASE_def PGSIZE_def sizeof_page_def ROUNDUP_def ROUNDDOWN_def)

section \<open>Virtual memory\<close>

text \<open>The page table of the kernel, too.\<close>

definition vstatic :: "vmm \<Rightarrow> (uint64 \<times> uint64 \<times> uint64 \<times> nat) \<times> uint64" where
  "vstatic v = (static_of (vpmm v), g_kernel_pagetable v)"

lemma vstatic_upd [simp]:
  "vstatic (v\<lparr>vmem := m\<rparr>) = vstatic v" "static_of p = static_of (vpmm v) \<Longrightarrow> vstatic (v\<lparr>vpmm := p\<rparr>) = vstatic v"
  by (simp_all add: vstatic_def)

lemma mem_write_static [static]: "mem_write a v s = Inr s' \<Longrightarrow> vstatic s' = vstatic s"
  by (auto simp: mem_write_def split: if_splits)

lemma vm_alloc_page_static [static]: "vm_alloc_page s = Inr (a, s') \<Longrightarrow> vstatic s' = vstatic s"
  by (auto simp: vm_alloc_page_def bindE_Inr_iff dest!: static)

lemma vm_pfree_static [static]: "vm_pfree a s = Inr s' \<Longrightarrow> vstatic s' = vstatic s"
  by (auto simp: vm_pfree_def bindE_Inr_iff dest!: static)

lemma walk_step_static [static]: "walk_step l va al pt s = Inr (r, s') \<Longrightarrow> vstatic s' = vstatic s"
  by (auto simp: walk_step_def bindE_Inr_iff Let_def page_ref_share_def case_prod_unfold split: if_splits dest!: static)

lemma walk_loop_static [static]: "walk_loop l t va al pt s = Inr (r, s') \<Longrightarrow> vstatic s' = vstatic s"
proof (induction l arbitrary: pt s)
  case 0
  then show ?case by (subst (asm) walk_loop.simps) simp
next
  case (Suc l)
  show ?case
  proof (cases "Suc l > t")
    case True
    with Suc.prems obtain q u where "walk_step (Suc l) va al pt s = Inr (q, u)"
      "(case q of None \<Rightarrow> Inr (0, u) | Some pt \<Rightarrow> walk_loop l t va al pt u) = Inr (r, s')"
      unfolding walk_loop.simps [of "Suc l" t va al pt s] diff_Suc_1 by (auto simp: bindE_Inr_iff)
    then show ?thesis using Suc.IH walk_step_static by (fastforce split: option.splits)
  qed (use Suc.prems in \<open>subst (asm) walk_loop.simps, simp\<close>)
qed

lemma page_walk_static [static]: "page_walk d va t al s = Inr (r, s') \<Longrightarrow> vstatic s' = vstatic s"
  by (auto simp: page_walk_def bindE_Inr_iff dest!: static)

lemma map_loop_static [static]: "map_loop d a b pa perm s = Inr (r, s') \<Longrightarrow> vstatic s' = vstatic s"
proof (induction d a b pa perm s rule: map_loop.induct)
  case (1 d a b pa perm s)
  show ?case
  proof (cases "a \<le> b")
    case True
    with 1(2) obtain pte u where u: "page_walk d a 0 True s = Inr (pte, u)"
      "(if pte = 0 then Inr (-1, u) else bindE (mem_read pte u) (\<lambda>e.
          if pte_valid e then Inl (Panic ''map_pages fails on mapping va to pa'')
          else bindE (mem_write pte (PA2PTE pa OR perm OR PTE_V) u) (\<lambda>s. map_loop d (a + PGSIZE) b (pa + PGSIZE) perm s))) = Inr (r, s')"
      by (subst (asm) map_loop.simps) (auto simp: bindE_Inr_iff)
    show ?thesis
    proof (cases "pte = 0")
      case False
      with u(2) obtain e w where "mem_read pte u = Inr e" "\<not> pte_valid e" "mem_write pte (PA2PTE pa OR perm OR PTE_V) u = Inr w"
        "map_loop d (a + PGSIZE) b (pa + PGSIZE) perm w = Inr (r, s')" by (auto simp: bindE_Inr_iff split: if_splits)
      then show ?thesis using 1(1) [OF True u(1) refl False] page_walk_static [OF u(1)] mem_write_static by metis
    qed (use u page_walk_static in auto)
  qed (use 1(2) in \<open>subst (asm) map_loop.simps, simp\<close>)
qed

lemma user_vm_map_static [static]: "user_vm_map d va sz pa perm s = Inr s' \<Longrightarrow> vstatic s' = vstatic s"
  by (auto simp: user_vm_map_def map_pages_def bindE_Inr_iff split: if_splits dest!: static)

lemma lookup_pa_static [static]: "lookup_pa d va s = Inr (r, s') \<Longrightarrow> vstatic s' = vstatic s"
  by (auto simp: lookup_pa_def bindE_Inr_iff split: if_splits dest!: static)

section \<open>Processes\<close>

lemma kernel_access [static]:
  "proc_upd i f s = Inr s' \<Longrightarrow> kvm s' = kvm s \<and> tframes s' = tframes s \<and> i < length (procs s) \<and> procs s' = (procs s)[i := f (procs s ! i)]"
  "tf_upd a g s = Inr s' \<Longrightarrow> kvm s' = kvm s \<and> procs s' = procs s \<and> tframes s' = (tframes s)(a := g (tframes s a))"
  "region_fill mi seg va n s = Inr s' \<Longrightarrow> kvm s' = kvm s \<and> tframes s' = tframes s \<and> procs s' = procs s"
  "region_set b j r s = Inr s' \<Longrightarrow> kvm s' = kvm s \<and> tframes s' = tframes s \<and> procs s' = procs s"
  by (auto simp: proc_upd_def tf_upd_def region_fill_def region_set_def split: if_splits)

lemma vm_access [static]:
  "with_vm f s = Inr (r, s') \<Longrightarrow> f (kvm s) = Inr (r, kvm s') \<and> tframes s' = tframes s \<and> procs s' = procs s"
  "on_vm g s = Inr s' \<Longrightarrow> g (kvm s) = Inr (kvm s') \<and> tframes s' = tframes s \<and> procs s' = procs s"
  by (auto simp: with_vm_def on_vm_def bindE_Inr_iff)

lemma k_alloc_page_static [static]:
  "k_alloc_page s = Inr (a, s') \<Longrightarrow> vstatic (kvm s') = vstatic (kvm s) \<and> tframes s' = tframes s \<and> procs s' = procs s"
  by (auto simp: k_alloc_page_def dest!: static)

text \<open>Making a process writes no trap frame but its own.\<close>

lemma alloc_proc_pages_frames [static]:
  "alloc_proc_pages c s = Inr (us, s') \<Longrightarrow> vstatic (kvm s') = vstatic (kvm s) \<and>
     (\<forall>a. a \<noteq> tf_ptr (procs s' ! c) \<longrightarrow> tframes s' a = tframes s a)"
  unfolding alloc_proc_pages_def zero_vm_page_def
  by (auto simp: bindE_Inr_iff Let_def dest!: static)

lemma map_proc_regions_frames [static]:
  assumes "map_proc_regions x c us s = Inr s'"
  shows "vstatic (kvm s') = vstatic (kvm s) \<and> tframes s' = tframes s \<and> tf_ptr (procs s' ! c) = tf_ptr (procs s ! c)"
  using assms unfolding map_proc_regions_def by (auto simp: bindE_Inr_iff Let_def dest!: static)

lemma alloc_process_frames:
  assumes "alloc_process x s = Inr (c, s')"
  shows "vstatic (kvm s') = vstatic (kvm s)" "a \<noteq> tf_ptr (procs s' ! c) \<Longrightarrow> tframes s' a = tframes s a"
    "find_free 0 (procs s) = Some c"
proof -
  from assms obtain us t where "find_free 0 (procs s) = Some c" "alloc_proc_pages c s = Inr (us, t)" "map_proc_regions x c us t = Inr s'"
    by (auto simp: alloc_process_def bindE_Inr_iff split: option.splits)
  then show "vstatic (kvm s') = vstatic (kvm s)" "a \<noteq> tf_ptr (procs s' ! c) \<Longrightarrow> tframes s' a = tframes s a"
    "find_free 0 (procs s) = Some c"
    using alloc_proc_pages_frames map_proc_regions_frames by metis+
qed

section \<open>Allocation with the \<^verbatim>\<open>tp\<close> of a user program\<close>

text \<open>With a \<^verbatim>\<open>tp\<close> that is not the number of a hart, \<^verbatim>\<open>alloc_page\<close> reads outside \<^verbatim>\<open>pcpu_caches\<close>.\<close>

lemma alloc_page_outside: "length (pcpu_caches p) \<le> unat (tp_reg p) \<Longrightarrow> alloc_page p = Inl OutOfBounds"
  by (simp add: alloc_page_def cache_at_def Let_def)

lemma k_alloc_page_outside: "length (pcpu_caches (kpmm s)) \<le> unat (tp_reg (kpmm s)) \<Longrightarrow> k_alloc_page s = Inl OutOfBounds"
  by (simp add: k_alloc_page_def with_vm_def vm_alloc_page_def alloc_page_outside)

lemma fork_outside:
  assumes "length (pcpu_caches (kpmm s)) \<le> unat (tp_reg (kpmm s))" "current s = Some i" "i < length (procs s)"
    "find_free 0 (procs s) = Some c"
  shows "sys_user_fork x s = Inl OutOfBounds"
  using assms by (simp add: sys_user_fork_def do_fork_def proc_at_def alloc_process_def alloc_proc_pages_def k_alloc_page_outside)

section \<open>The objects of the kernel on the machine of the examples\<close>

lemma booted_frame:
  assumes "f \<in> set (cached_pages booted)"
  shows "buddy_start booted \<le> PFN_TO_ADDR f" "a - PFN_TO_ADDR f < PGSIZE \<Longrightarrow> buddy_start booted \<le> a \<and> a < buddy_end booted"
    "page_aligned (PFN_TO_ADDR f)"
proof -
  have e: "pmm_ok booted" "ram_ok booted" using empty_facts(1-3) by (simp_all add: boot_vm_def)
  have f: "208 \<le> unat f" using assms booted_facts(6) by auto
  note b = cached_page_bounds [OF e assms]
  show "page_aligned (PFN_TO_ADDR f)" by (fact b(3))
  have n: "0x800d0000 \<le> unat (PFN_TO_ADDR f)" "unat (PFN_TO_ADDR f) + 4096 \<le> 0x88000000" using b(1,2) f by simp_all
  then show "buddy_start booted \<le> PFN_TO_ADDR f" by (simp add: booted_static word_le_iff_unat)
  show "buddy_start booted \<le> a \<and> a < buddy_end booted" if "a - PFN_TO_ADDR f < PGSIZE"
  proof -
    have d: "unat (a - PFN_TO_ADDR f) < 4096" using that by (simp add: word_less_iff_unat PGSIZE_def)
    moreover have "unat (PFN_TO_ADDR f + (a - PFN_TO_ADDR f)) = unat (PFN_TO_ADDR f) + unat (a - PFN_TO_ADDR f)"
      using n d by (intro unat_add_noof) simp
    then have "unat a = unat (PFN_TO_ADDR f) + unat (a - PFN_TO_ADDR f)" by simp
    ultimately show ?thesis using n by (simp add: booted_static word_le_iff_unat word_less_iff_unat)
  qed
qed

lemma running_static: "vstatic (kvm running_kernel) = vstatic boot_vm"
proof -
  from running_facts obtain tf dir ks us mi v where "is_running tf dir ks us mi v" by blast
  then have "status (procs running_kernel ! 0) = RUNNING" by (simp add: is_running_def)
  then have "running_kernel \<noteq> empty_kernel" using empty_zero(3) [of 0] by auto
  then obtain i s where "alloc_process sample_externs empty_kernel = Inr (i, s)" "kvm running_kernel = kvm s"
    by (auto simp: running_kernel_def split: sum.splits)
  then show ?thesis using alloc_process_frames(1) empty_facts(1) by metis
qed

text \<open>No object of the kernel lies in a page table of the running process or in a page of the cache.\<close>

lemma running_cells:
  assumes k: "kernel_cell running_kernel a"
    and t: "t \<in> tables (kmem running_kernel) (pagetable (procs running_kernel ! 0)) \<union> PFN_TO_ADDR ` set (cached_pages (kpmm running_kernel))"
  shows "\<not> a - t < PGSIZE"
proof -
  from running_facts obtain tf dir ks us mi v where r: "is_running tf dir ks us mi v" by blast
  have p: "kvm running_kernel = v" "length (procs running_kernel) = 32" "procs running_kernel ! 0 = (new_process tf dir ks mi zero_process)\<lparr>status := RUNNING\<rparr>"
    "\<And>i. 0 < i \<Longrightarrow> procs running_kernel ! i = procs empty_kernel ! i" "{tf, ks, mi} \<subseteq> taken boot_vm v" "{tf, ks, mi} \<inter> tables (vmem v) dir = {}"
    using r by (simp_all add: is_running_def)
  have b: "tables (vmem v) dir \<subseteq> taken boot_vm v" "set (cached_pages (vpmm v)) \<subseteq> set (cached_pages booted)"
    "\<And>c. (\<forall>t\<in>taken boot_vm v. \<not> c - t < PGSIZE) \<Longrightarrow> vmem v c = 0"
    using r by (simp_all add: is_running_def built_def boot_vm_def)
  have st: "buddy_start (vpmm v) = buddy_start booted" "buddy_end (vpmm v) = buddy_end booted" "g_kernel_pagetable v = 0"
    using running_static p(1) by (simp_all add: vstatic_def static_of_def boot_vm_def)
  have taken: "\<exists>f\<in>set (cached_pages booted). u = PFN_TO_ADDR f" if "u \<in> taken boot_vm v" for u
    using that by (auto simp: taken_def boot_vm_def)
  have inj: "u \<notin> PFN_TO_ADDR ` set (cached_pages (vpmm v))" if "u \<in> taken boot_vm v" for u
    using that b(2) PFN_TO_ADDR_inj_cached [OF empty_facts(2,3)] empty_facts(1)
    by (auto simp: taken_def boot_vm_def)
  have t': "t \<in> tables (vmem v) dir \<union> PFN_TO_ADDR ` set (cached_pages (vpmm v))" using t p(1,3) by (simp add: new_process_def)
  then obtain f where f: "f \<in> set (cached_pages booted)" "t = PFN_TO_ADDR f" using taken b(1,2) by blast
  note bf = booted_frame [OF f(1), folded f(2)]
  have low: "\<not> a - t < PGSIZE" if "page_aligned u" "\<not> (buddy_start booted \<le> u \<and> u < buddy_end booted)" "a - u < PGSIZE" for u
    using frames_apart [OF that(1) bf(3) _ that(3)] bf(2) [of t] that(2) by (auto simp: PGSIZE_def)
  have pages: "\<not> a - t < PGSIZE" if "u \<in> {tf, ks, mi}" "a - u < PGSIZE" for u
  proof -
    have "u \<in> taken boot_vm v" "u \<noteq> t" using that(1) p(5,6) t' inj by auto
    moreover from this taken have "page_aligned u" using booted_frame(3) by blast
    ultimately show ?thesis using frames_apart [OF _ bf(3) _ that(2)] by blast
  qed
  have none: "page_aligned 0" "page_aligned (- PGSIZE)" "\<not> buddy_start booted \<le> 0" "\<not> - PGSIZE < buddy_end booted"
    by (simp_all add: booted_static PGSIZE_def page_aligned_unat)
  have zero: "vmem v (pte_addr 0 i) = 0" if "i < 512" for i
  proof (rule b(3), intro ballI notI)
    fix u assume u: "u \<in> taken boot_vm v" "pte_addr 0 i - u < PGSIZE"
    then obtain g where g: "g \<in> set (cached_pages booted)" "u = PFN_TO_ADDR g" using taken by blast
    have "u \<noteq> 0" using booted_frame(1) [OF g(1)] g(2) none(3) by auto
    then show False using frames_apart [OF booted_frame(3) [OF g(1)] none(1) _ u(2) [unfolded g(2)]] g(2) pte_addr_offset [OF that, of 0] by simp
  qed
  have "tables (vmem v) 0 \<subseteq> {0}" using empty_tables [of "vmem v" 0] zero by (auto simp: tables_def split: if_splits)
  moreover have "p \<in> set (procs running_kernel) \<Longrightarrow> {tf_ptr p, mapped_info p, kstack p - PGSIZE} \<subseteq> {tf, mi, ks, 0, - PGSIZE}" for p
  proof -
    assume "p \<in> set (procs running_kernel)"
    then obtain i where i: "i < 32" "p = procs running_kernel ! i" using p(2) by (auto simp: in_set_conv_nth)
    show ?thesis using i p(3) p(4) [of i] by (cases "i = 0") (auto simp: new_process_def empty_procs NPROC_def zero_process_def)
  qed
  ultimately have "kernel_pages running_kernel \<subseteq> {tf, ks, mi, 0, - PGSIZE}"
    unfolding kernel_pages_def p(1) st(3) by blast
  then consider "\<not> (buddy_start booted \<le> a \<and> a < buddy_end booted)" | u where "u \<in> {tf, ks, mi}" "a - u < PGSIZE"
    | u where "u \<in> {0, - PGSIZE}" "a - u < PGSIZE"
    using k unfolding kernel_cell_def p(1) st(1,2) by blast
  then show ?thesis using bf(2) pages low [of 0] low [of "- PGSIZE"] none by cases auto
qed

end
