(* ===== verification/Pke_Launch.thy ===== *)
theory Pke_Launch
  imports Pke_Load Pke_Static
begin

text \<open>
  The first program, from the end of \<^verbatim>\<open>s_start\<close> to user mode: what \<open>launch\<close> makes of an ELF file, and what holds of the
  scheduler in every state that user programs can reach from there while the objects of the kernel are left alone.
\<close>

section \<open>The first process\<close>

lemma pool_procs: "procs (init_proc_pool s) = procs empty_kernel"
  by (simp add: empty_procs init_proc_pool_def Let_def)

lemma pool_simps [simp]:
  "kvm (init_proc_pool s) = kvm s" "ready_queue_head (init_proc_pool s) = ready_queue_head s" "tframes (init_proc_pool s) = tframes s"
  "minfos (init_proc_pool s) = minfos s"
  by (simp_all add: init_proc_pool_def Let_def)

text \<open>The kernel before the first program is loaded: memory and page cache in order, nothing in the ready queue.\<close>

definition launch_pre :: "externs \<Rightarrow> elf_frame \<Rightarrow> nat \<Rightarrow> kernel \<Rightarrow> bool" where
  "launch_pre x F n k \<longleftrightarrow> ready_queue_head k = None \<and> pmm_ok (kpmm k) \<and> ram_ok (kpmm k) \<and> 11 + 3 * n \<le> page_supply (kvm k) \<and>
     trap_page_ok x (kpmm k) \<and> 0x80000000 \<le> unat (x_trap_sec_start x) \<and> (\<forall>i<64. scratch_apart F k (at_ehdr F + i))"

lemma taken_frame_bounds:
  assumes "a \<in> taken v v'" "pmm_ok (vpmm v)" "ram_ok (vpmm v)"
  shows "page_aligned a" "a < MAXVA" "0x80000000 \<le> unat a" "a \<noteq> 0"
  using assms cached_page_bounds [OF assms(2,3)] by (auto simp: taken_def)

lemma new_space_low:
  assumes "page_aligned tf" "tf < MAXVA" "0x80000000 \<le> unat tf" "page_aligned tv" "tv < MAXVA" "0x80000000 \<le> unat tv"
    and "page_aligned va" "va < MAXVA" "unat va < 0x7fffe000"
  shows "new_space tf us tv va = 0"
  using same_page_aligned [OF assms(1,7,2,8)] same_page_aligned [OF assms(4,7,5,8)]
    same_page_aligned [OF ustack_facts(1) assms(7) ustack_facts(3) assms(8)] assms(3,6,9) ustack_facts(4)
  by (auto simp: new_space_def word_unat_eq_iff)

lemma new_space_stack:
  assumes "page_aligned tf" "tf < MAXVA" "0x80000000 \<le> unat tf" "page_aligned tv" "tv < MAXVA" "0x80000000 \<le> unat tv"
  shows "new_space tf us tv ustack_page = PA2PTE us OR prot_to_type (PROT_WRITE OR PROT_READ) True OR PTE_V"
  using same_page_aligned [OF assms(1) ustack_facts(1) assms(2) ustack_facts(3)]
    same_page_aligned [OF assms(4) ustack_facts(1) assms(5) ustack_facts(3)] assms(3,6) ustack_facts(4)
  by (auto simp: new_space_def same_page_refl)

lemma fresh_process:
  assumes pre: "launch_pre x F n k"
  shows "\<exists>tf dir us mi v k1. alloc_process x (init_proc_pool k) = Inr (0, k1) \<and> kvm k1 = v \<and> 0 < length (procs k1) \<and>
    (\<exists>ks. procs k1 ! 0 = new_process tf dir ks mi zero_process) \<and> tframes k1 tf = new_frame \<and>
    minfos k1 mi = new_regions tf (x_trap_sec_start x) @ replicate 252 zero_region \<and>
    tf \<noteq> 0 \<and> vm_ok dir v \<and> ram_ok (vpmm v) \<and> 3 * n \<le> page_supply v \<and> (\<forall>i<64. scratch_apart F k1 (at_ehdr F + i)) \<and>
    region_room 0 k1 4 n \<and> pte_of (vmem v) dir ustack_page = PA2PTE us OR prot_to_type (PROT_WRITE OR PROT_READ) True OR PTE_V \<and>
    (\<forall>va. page_aligned va \<and> unat va < 0x7fffe000 \<longrightarrow> pte_of (vmem v) dir va = 0) \<and> ready_queue_head k1 = None"
proof -
  let ?k = "init_proc_pool k" and ?tv = "x_trap_sec_start x"
  have p: "pmm_ok (kpmm ?k)" "ram_ok (kpmm ?k)" "11 + 3 * n \<le> page_supply (kvm ?k)" "trap_page_ok x (kpmm ?k)" "ready_queue_head ?k = None"
    "0x80000000 \<le> unat ?tv" "\<forall>i<64. scratch_apart F ?k (at_ehdr F + i)"
    using pre by (simp_all add: launch_pre_def scratch_apart_def)
  have "page_supply (kvm ?k) \<le> 32" using p(1) by (simp add: pmm_ok_def cache_wf_def cached_def PCPU_CACHE_SIZE_def)
  then have n: "n \<le> 252" using p(3) by simp
  have f: "find_free 0 (procs ?k) = Some 0" "0 < length (procs ?k)" "procs ?k ! 0 = zero_process"
    using empty_facts(5) empty_zero by (simp_all add: pool_procs)
  from alloc_process_ok [OF p(1,2) _ f(1) p(4)] p(3) obtain tf dir ks us mi v where
    a: "alloc_process x ?k = Inr (0, ?k\<lparr>tframes := (tframes ?k)(tf := new_frame), kvm := v,
       minfos := (minfos ?k)(mi := new_regions tf ?tv @ replicate 252 zero_region),
       procs := (procs ?k)[0 := new_process tf dir ks mi (procs ?k ! 0)]\<rparr>)"
      "set [tf, dir, ks, us, mi] \<subseteq> taken (kvm ?k) v" "built dir (new_space tf us ?tv) (kvm ?k) v" "page_supply (kvm ?k) \<le> page_supply v + 11"
    by auto
  let ?k1 = "?k\<lparr>tframes := (tframes ?k)(tf := new_frame), kvm := v,
       minfos := (minfos ?k)(mi := new_regions tf ?tv @ replicate 252 zero_region),
       procs := (procs ?k)[0 := new_process tf dir ks mi (procs ?k ! 0)]\<rparr>"
  have tf: "page_aligned tf" "tf < MAXVA" "0x80000000 \<le> unat tf" "tf \<noteq> 0" and mi: "mi \<noteq> 0"
    using taken_frame_bounds [OF _ p(1,2), of tf v] taken_frame_bounds [OF _ p(1,2), of mi v] a(2) by simp_all
  have b: "vm_ok dir v" "\<forall>va<MAXVA. pte_of (vmem v) dir va = new_space tf us ?tv va" "ram_ok (vpmm v)"
    "set (cached_pages (vpmm v)) \<subseteq> set (cached_pages (kpmm ?k))" using a(3) p(2) drawn_ram_ok by (auto simp: built_def)
  have tv: "page_aligned ?tv" "?tv < MAXVA" using p(4) by (simp_all add: trap_page_ok_def)
  have low: "pte_of (vmem v) dir va = 0" if "page_aligned va" "unat va < 0x7fffe000" for va
    using b(2) new_space_low [OF tf(1-3) tv p(6) that(1)] that by (simp add: unat_less_maxva)
  have st: "pte_of (vmem v) dir ustack_page = PA2PTE us OR prot_to_type (PROT_WRITE OR PROT_READ) True OR PTE_V"
    using b(2) new_space_stack [OF tf(1-3) tv p(6)] ustack_facts(3) by simp
  have len: "length (new_regions tf ?tv) = 4" by (simp add: new_regions_def)
  have "\<forall>r \<in> set (new_regions tf ?tv). mr_va r \<noteq> 0"
    using tf(4) p(6) ustack_facts(2) by (auto simp: new_regions_def USER_FREE_ADDRESS_START_def PGSIZE_def)
  then have "mr_va ((new_regions tf ?tv @ replicate 252 zero_region) ! h) \<noteq> 0" if "h < 4" for h
    using that len nth_mem [of h "new_regions tf ?tv"] by (auto simp: nth_append)
  then have "region_room 0 ?k1 4 n"
    using f mi n len by (auto simp: region_room_def REGIONS_PER_PAGE_def Let_def new_process_def nth_append zero_region_def)
  moreover have "\<forall>i<64. scratch_apart F ?k1 (at_ehdr F + i)" using p(7) scratch_apart_mono [of F ?k _ ?k1] b(4) by simp
  ultimately show ?thesis using a(1,4) b(1,3) f tf(4) low st p(3,5)
    by (intro exI [of _ tf] exI [of _ dir] exI [of _ us] exI [of _ mi] exI [of _ v] exI [of _ ?k1]) auto
qed

text \<open>The end of \<^verbatim>\<open>s_start\<close> with one process: it is queued and leaves the queue at once.\<close>

lemma first_switch:
  assumes "ready_queue_head k = None" "0 < length (procs k)" "tf_ptr (procs k ! 0) \<noteq> 0"
  shows "\<exists>k1 k'. insert_to_ready_queue 0 k = Inr k1 \<and>
    schedule x k1 = Resumes (tf_ptr (procs k ! 0)) (MAKE_SATP (pagetable (procs k ! 0))) k' \<and>
    current k' = Some 0 \<and> procs k' ! 0 = (procs k ! 0)\<lparr>status := RUNNING, queue_next := None\<rparr> \<and> ready_queue [] k' \<and>
    sepc k' = epc (tframes k (tf_ptr (procs k ! 0))) \<and> kmem k' = kmem k \<and> minfos k' = minfos k \<and>
    tf_regs (tframes k' (tf_ptr (procs k ! 0))) = tf_regs (tframes k (tf_ptr (procs k ! 0)))"
proof -
  let ?k1 = "k\<lparr>procs := (procs k)[0 := (procs k ! 0)\<lparr>status := READY, queue_next := None\<rparr>], ready_queue_head := Some 0\<rparr>"
  have i: "insert_to_ready_queue 0 k = Inr ?k1" using assms by (simp add: insert_to_ready_queue_def proc_upd_ok)
  have "ready_queue [0] ?k1" using assms by (simp add: ready_queue_def runnable_def next_of_def)
  note sch = schedule_next [OF this, of x] and q = schedule_head [OF this, of x]
  let ?k' = "resumed x 0 (?k1\<lparr>ready_queue_head := None, procs := (procs k)[0 := (procs k ! 0)\<lparr>status := RUNNING, queue_next := None\<rparr>]\<rparr>)"
  have eq: "resumed x 0 (?k1\<lparr>ready_queue_head := queue_next (procs ?k1 ! 0), procs := (procs ?k1)[0 := (procs ?k1 ! 0)\<lparr>status := RUNNING\<rparr>]\<rparr>) = ?k'"
    using assms(2) by (cases "procs k ! 0") simp
  have "schedule x ?k1 = Resumes (tf_ptr (procs k ! 0)) (MAKE_SATP (pagetable (procs k ! 0))) ?k'" using sch assms(2) unfolding eq by simp
  moreover from this q have "ready_queue [] ?k'" by auto
  ultimately show ?thesis using i assms(2) by (intro exI [of _ ?k1] exI [of _ ?k']) (simp add: resumed_def Let_def)
qed

lemma loaded_at_cong: "kmem k = kmem k' \<Longrightarrow> loaded_at img root k = loaded_at img root k'"
  unfolding loaded_at_def [abs_def] frame_holds_def by simp

text \<open>The process that \<^verbatim>\<open>load_user_program\<close> makes, before it is queued.\<close>

lemma program_process:
  assumes pre: "launch_pre x F (length (loads phs)) (ld_kernel s)" and host: "program_host E F img (ld_files s)"
    and prog: "elf_program img entry phs" and low: "\<forall>ph\<in>set (loads phs). unat (ph_vaddr ph) < 0x7fffe000"
  shows "\<exists>tf s' pas us. let k = ld_kernel s'; pr = procs k ! 0; root = pagetable pr in
    load_user_program x E F (s\<lparr>ld_kernel := init_proc_pool (ld_kernel s)\<rparr>) = returnO (0, s') \<and>
    0 < length (procs k) \<and> ready_queue_head k = None \<and> tf = tf_ptr pr \<and> tf \<noteq> 0 \<and> tframes k tf = new_frame\<lparr>epc := entry\<rparr> \<and>
    distinct pas \<and> list_all2 (loaded_at img root k) (loads phs) pas \<and>
    pte_of (kmem k) root ustack_page = PA2PTE us OR prot_to_type (PROT_WRITE OR PROT_READ) True OR PTE_V \<and>
    (\<forall>va. page_aligned va \<and> unat va < 0x7fffe000 \<and> va \<notin> ph_vaddr ` set (loads phs) \<longrightarrow> pte_of (kmem k) root va = 0) \<and>
    total_mapped_region pr = 4 + length (loads phs) \<and>
    take (4 + length (loads phs)) (minfos k (mapped_info pr)) = new_regions tf (x_trap_sec_start x) @ map seg_region (loads phs)"
proof -
  let ?n = "length (loads phs)" and ?tv = "x_trap_sec_start x"
  from fresh_process [OF pre] obtain tf dir us mi v k1 ks where
    a: "alloc_process x (init_proc_pool (ld_kernel s)) = Inr (0, k1)" "kvm k1 = v" "0 < length (procs k1)"
      "procs k1 ! 0 = new_process tf dir ks mi zero_process" "tframes k1 tf = new_frame"
      "minfos k1 mi = new_regions tf ?tv @ replicate 252 zero_region" "tf \<noteq> 0" "vm_ok dir v" "ram_ok (vpmm v)" "3 * ?n \<le> page_supply v"
      "\<forall>i<64. scratch_apart F k1 (at_ehdr F + i)" "region_room 0 k1 4 ?n"
      "pte_of (vmem v) dir ustack_page = PA2PTE us OR prot_to_type (PROT_WRITE OR PROT_READ) True OR PTE_V"
      "\<forall>va. page_aligned va \<and> unat va < 0x7fffe000 \<longrightarrow> pte_of (vmem v) dir va = 0" "ready_queue_head k1 = None" by blast
  let ?s1 = "s\<lparr>ld_kernel := k1\<rparr>"
  have pr: "pagetable (procs k1 ! 0) = dir" "tf_ptr (procs k1 ! 0) = tf" "mapped_info (procs k1 ! 0) = mi" "total_mapped_region (procs k1 ! 0) = 4"
    using a(4) by (simp_all add: new_process_def)
  have good: "\<forall>ph\<in>set (loads phs). page_aligned (ph_vaddr ph) \<and> ph_vaddr ph < MAXVA"
    using prog by (auto simp: elf_program_def good_program_def good_segment_def Let_def)
  have un: "\<forall>ph\<in>set (loads phs). \<not> pte_valid (pte_of (kmem k1) dir (ph_vaddr ph))" using a(2,14) good low not_valid_0 by simp
  from load_bincode_ok [of E F img ?s1 entry phs 0 4] host prog a(2,7-12) un pr obtain s2 k2 pas where
    l: "load_bincode_from_host_elf E F 0 ?s1 = returnO s2" "program_loaded img 0 4 (loads phs) pas k1 k2"
      "ld_kernel s2 = k2\<lparr>tframes := (tframes k1)(tf := (tframes k1 tf)\<lparr>epc := entry\<rparr>)\<rparr>" by auto
  have k2: "distinct pas" "list_all2 (loaded_at img dir k2) (loads phs) pas"
    "\<forall>va<MAXVA. (\<forall>ph\<in>set (loads phs). \<not> same_page (ph_vaddr ph) va) \<longrightarrow> pte_of (kmem k2) dir va = pte_of (kmem k1) dir va"
    "procs k2 = (procs k1)[0 := (procs k1 ! 0)\<lparr>total_mapped_region := 4 + ?n\<rparr>]"
    "minfos k2 mi = take 4 (minfos k1 mi) @ map seg_region (loads phs) @ drop (4 + ?n) (minfos k1 mi)"
    using l(2) pr by (simp_all add: program_loaded_def Let_def)
  have hd: "ready_queue_head (ld_kernel s2) = None" using load_bincode_touches [OF l(1)] a(15) by (simp add: touches_proc_def)
  let ?k = "ld_kernel s2"
  have p2: "procs ?k ! 0 = (procs k1 ! 0)\<lparr>total_mapped_region := 4 + ?n\<rparr>" "0 < length (procs ?k)" "kmem ?k = kmem k2"
    "tframes ?k tf = new_frame\<lparr>epc := entry\<rparr>" using k2(4) l(3) a(3,5) by simp_all
  have "load_user_program x E F (s\<lparr>ld_kernel := init_proc_pool (ld_kernel s)\<rparr>) = returnO (0, s2)"
    using a(1) l(1) by (simp add: load_user_program_def in_kernel_def)
  moreover have "list_all2 (loaded_at img dir ?k) (loads phs) pas" using k2(2) loaded_at_cong [OF p2(3)] by simp
  moreover have off: "pte_of (kmem ?k) dir va = pte_of (vmem v) dir va"
    if "page_aligned va" "va < MAXVA" "va \<notin> ph_vaddr ` set (loads phs)" for va
    using k2(3) p2(3) that good same_page_aligned [OF _ that(1) _ that(2)] a(2) by auto
  then have "pte_of (kmem ?k) dir ustack_page = PA2PTE us OR prot_to_type (PROT_WRITE OR PROT_READ) True OR PTE_V"
    using low ustack_facts(4) a(13) by (subst off [OF ustack_facts(1,3)]) auto
  moreover have "pte_of (kmem ?k) dir va = 0" if "page_aligned va" "unat va < 0x7fffe000" "va \<notin> ph_vaddr ` set (loads phs)" for va
    using off a(14) that by (simp add: unat_less_maxva)
  moreover have "take (4 + ?n) (minfos ?k mi) = new_regions tf ?tv @ map seg_region (loads phs)"
    using l(3) k2(5) a(6) by (simp add: new_regions_length)
  ultimately show ?thesis
    using p2 pr a(7) k2(1) hd by (intro exI [of _ tf] exI [of _ s2] exI [of _ pas] exI [of _ us]) (simp add: Let_def)
qed

lemma launch_ok:
  assumes pre: "launch_pre x F (length (loads phs)) (ld_kernel s)" and host: "program_host E F img (ld_files s)"
    and prog: "elf_program img entry phs" and low: "\<forall>ph\<in>set (loads phs). unat (ph_vaddr ph) < 0x7fffe000"
  shows "\<exists>tf k t pas us. let pr = procs k ! 0; root = pagetable pr in
    launch x E F s = returnO (Resumes tf (MAKE_SATP root) k, t) \<and> current k = Some 0 \<and> status pr = RUNNING \<and> ready_queue [] k \<and>
    tf = tf_ptr pr \<and> sepc k = entry \<and> tf_regs (tframes k tf) = zero_regs\<lparr>r_sp := USER_STACK_TOP\<rparr> \<and>
    distinct pas \<and> list_all2 (loaded_at img root k) (loads phs) pas \<and>
    pte_of (kmem k) root ustack_page = PA2PTE us OR prot_to_type (PROT_WRITE OR PROT_READ) True OR PTE_V \<and>
    (\<forall>va. page_aligned va \<and> unat va < 0x7fffe000 \<and> va \<notin> ph_vaddr ` set (loads phs) \<longrightarrow> pte_of (kmem k) root va = 0) \<and>
    total_mapped_region pr = 4 + length (loads phs) \<and>
    take (4 + length (loads phs)) (minfos k (mapped_info pr)) = new_regions tf (x_trap_sec_start x) @ map seg_region (loads phs)"
proof -
  from program_process [OF assms] obtain tf s' pas us where
    l: "load_user_program x E F (s\<lparr>ld_kernel := init_proc_pool (ld_kernel s)\<rparr>) = returnO (0, s')"
      "0 < length (procs (ld_kernel s'))" "ready_queue_head (ld_kernel s') = None" "tf_ptr (procs (ld_kernel s') ! 0) = tf" "tf \<noteq> 0"
      "tframes (ld_kernel s') tf = new_frame\<lparr>epc := entry\<rparr>" and
    m: "distinct pas" "list_all2 (loaded_at img (pagetable (procs (ld_kernel s') ! 0)) (ld_kernel s')) (loads phs) pas"
      "pte_of (kmem (ld_kernel s')) (pagetable (procs (ld_kernel s') ! 0)) ustack_page =
        PA2PTE us OR prot_to_type (PROT_WRITE OR PROT_READ) True OR PTE_V"
      "\<forall>va. page_aligned va \<and> unat va < 0x7fffe000 \<and> va \<notin> ph_vaddr ` set (loads phs) \<longrightarrow>
        pte_of (kmem (ld_kernel s')) (pagetable (procs (ld_kernel s') ! 0)) va = 0"
      "total_mapped_region (procs (ld_kernel s') ! 0) = 4 + length (loads phs)"
      "take (4 + length (loads phs)) (minfos (ld_kernel s') (mapped_info (procs (ld_kernel s') ! 0))) =
        new_regions tf (x_trap_sec_start x) @ map seg_region (loads phs)" unfolding Let_def by blast
  let ?p = "procs (ld_kernel s') ! 0"
  from first_switch [OF l(3,2), of x] l(4,5) obtain k3 k where
    f: "insert_to_ready_queue 0 (ld_kernel s') = Inr k3" "schedule x k3 = Resumes tf (MAKE_SATP (pagetable ?p)) k" "current k = Some 0"
      "procs k ! 0 = ?p\<lparr>status := RUNNING, queue_next := None\<rparr>" "ready_queue [] k" "sepc k = epc (tframes (ld_kernel s') tf)"
      "kmem k = kmem (ld_kernel s')" "minfos k = minfos (ld_kernel s')"
      "tf_regs (tframes k tf) = tf_regs (tframes (ld_kernel s') tf)" by auto
  have "launch x E F s = returnO (Resumes tf (MAKE_SATP (pagetable ?p)) k, ld_files s')"
    using l(1) f(1,2) by (simp add: launch_def on_kernel_def Let_def)
  then show ?thesis using f(3-9) l(4,6) m loaded_at_cong [OF f(7)]
    by (intro exI [of _ tf] exI [of _ k] exI [of _ "ld_files s'"] exI [of _ pas] exI [of _ us]) (simp add: Let_def new_frame_def)
qed

text \<open>C2: the first program, from the end of \<^verbatim>\<open>s_start\<close> to user mode. For a host that passes an ELF file on the command line
  whose loadable segments have less than a page each, at different pages below the user stack, \<^verbatim>\<open>launch\<close> resumes
  process 0 at the entry point of the file, with the stack pointer at the top of the user stack and all other
  registers 0; each segment is mapped to a frame of its own, readable, writable and executable, that holds its bytes and
  then zeros; the stack has its page; no other page below the stack is mapped; and the region table lists the four
  regions of a new process and then the segments.\<close>

theorem launch_correct:
  assumes pre: "launch_pre x F (length (loads phs)) (ld_kernel s)" and host: "program_host E F img (ld_files s)"
    and prog: "elf_program img entry phs" and low: "\<forall>ph\<in>set (loads phs). unat (ph_vaddr ph) < 0x7fffe000"
  shows "\<exists>tf k t pas us. let pr = procs k ! 0; root = pagetable pr in
    launch x E F s = returnO (Resumes tf (MAKE_SATP root) k, t) \<and> current k = Some 0 \<and> status pr = RUNNING \<and> ready_queue [] k \<and>
    tf = tf_ptr pr \<and> sepc k = entry \<and> tf_regs (tframes k tf) = zero_regs\<lparr>r_sp := USER_STACK_TOP\<rparr> \<and>
    distinct pas \<and> list_all2 (loaded_at img root k) (loads phs) pas \<and>
    pte_of (kmem k) root ustack_page = PA2PTE us OR prot_to_type (PROT_WRITE OR PROT_READ) True OR PTE_V \<and>
    (\<forall>va. page_aligned va \<and> unat va < 0x7fffe000 \<and> va \<notin> ph_vaddr ` set (loads phs) \<longrightarrow> pte_of (kmem k) root va = 0) \<and>
    total_mapped_region pr = 4 + length (loads phs) \<and>
    take (4 + length (loads phs)) (minfos k (mapped_info pr)) = new_regions tf (x_trap_sec_start x) @ map seg_region (loads phs)"
  by (rule launch_ok [OF assms])

section \<open>A program\<close>

text \<open>An ELF file with three program headers, one of which is not loaded, and a host that passes it.\<close>

definition program_headers :: "elf_prog_header list" where
  "program_headers =
     [\<lparr>ph_type = 0x70000003, ph_flags = 4, ph_off = 0, ph_vaddr = 0, ph_paddr = 0, ph_filesz = 0, ph_memsz = 0, ph_align = 1\<rparr>,
      \<lparr>ph_type = 1, ph_flags = 5, ph_off = 232, ph_vaddr = 0x10000, ph_paddr = 0, ph_filesz = 4, ph_memsz = 4, ph_align = 0x1000\<rparr>,
      \<lparr>ph_type = 1, ph_flags = 6, ph_off = 236, ph_vaddr = 0x11000, ph_paddr = 0, ph_filesz = 2, ph_memsz = 2, ph_align = 0x1000\<rparr>]"

definition header_bytes :: "elf_prog_header \<Rightarrow> uint8 list" where
  "header_bytes ph = le32 (ph_type ph) @ le32 (ph_flags ph) @ concat (map le64
     [ph_off ph, ph_vaddr ph, ph_paddr ph, ph_filesz ph, ph_memsz ph, ph_align ph])"

definition program_image :: "uint8 list" where
  "program_image = le32 0x464C457F @ replicate 12 0 @ [2, 0, 0xf3, 0] @ le32 1 @ le64 0x10000 @ le64 64 @ le64 0 @ le32 0 @
     [64, 0, 56, 0, 3, 0, 0, 0, 0, 0, 0, 0] @ concat (map header_bytes program_headers) @ [0x13, 0, 0, 0, 7, 8]"

lemma program_image_length:
  "length program_image = 238" "length (chunk program_image 64 0) = 64" "length (chunk program_image 56 64) = 56"
  "length (chunk program_image 56 120) = 56" "length (chunk program_image 56 176) = 56"
  by code_simp+

lemma program_image_attributes: "prog_header_of (chunk program_image 56 64) =
  \<lparr>ph_type = 0x70000003, ph_flags = 4, ph_off = 0, ph_vaddr = 0, ph_paddr = 0, ph_filesz = 0, ph_memsz = 0, ph_align = 1\<rparr>"
  by code_simp

lemma program_image_code: "prog_header_of (chunk program_image 56 120) =
  \<lparr>ph_type = 1, ph_flags = 5, ph_off = 232, ph_vaddr = 0x10000, ph_paddr = 0, ph_filesz = 4, ph_memsz = 4, ph_align = 0x1000\<rparr>"
  by code_simp

lemma program_image_data: "prog_header_of (chunk program_image 56 176) =
  \<lparr>ph_type = 1, ph_flags = 6, ph_off = 236, ph_vaddr = 0x11000, ph_paddr = 0, ph_filesz = 2, ph_memsz = 2, ph_align = 0x1000\<rparr>"
  by code_simp

lemma program_image_header:
  "eh_magic (elf_header_of (chunk program_image 64 0)) = 0x464C457F" "eh_entry (elf_header_of (chunk program_image 64 0)) = 0x10000"
  "eh_phnum (elf_header_of (chunk program_image 64 0)) = 3" "eh_phoff (elf_header_of (chunk program_image 64 0)) = 64"
  by code_simp+

lemma program_segments:
  "length (chunk program_image 4 232) = 4" "length (chunk program_image 2 236) = 2"
  by code_simp+

definition program_args :: "uint8 list" where
  "program_args = le64 2 @ le64 0x9018 @ le64 0x9018 @ [0x61, 0]"

definition program_serve :: "unit hstate \<Rightarrow> unit hstate" where
  "program_serve s =
     (let args = magic_mem s in
      if hd args = HTIFSYS_getmainvars
      then s\<lparr>hmem := put_bytes (args ! 1) program_args (hmem s), magic_mem := 0 # tl args\<rparr>
      else if hd args = HTIFSYS_openat then s\<lparr>magic_mem := 5 # tl args\<rparr> else file_serve program_image s)"

definition program_env :: "unit henv" where
  "program_env = (file_env program_image)\<lparr>he_host := (\<lambda>s. if tohost s = 0 then s else (program_serve s)\<lparr>tohost := 0, fromhost := 1\<rparr>)\<rparr>"

definition program_start :: "unit loader" where
  "program_start = \<lparr>ld_kernel = empty_kernel, ld_files = elf_files\<rparr>"

lemma program_image_ok: "elf_program program_image 0x10000 program_headers"
proof -
  have w: "56 + (64 :: uint32) = 120" "56 + (120 :: uint32) = 176" "scast (64 :: uint32) = (64 :: uint64)"
    "scast (120 :: uint32) = (120 :: uint64)" "scast (176 :: uint32) = (176 :: uint64)" "ucast (64 :: uint64) = (64 :: uint32)" by simp_all
  have "has_headers program_image 64 program_headers"
    using program_image_length(3-5) by (simp add: program_headers_def w program_image_attributes program_image_code program_image_data)
  moreover have "good_program program_image program_headers"
    using program_segments by (simp add: good_program_def program_headers_def good_segment_def ELF_PROG_LOAD_def PGSIZE_def
        page_aligned_unat unat_less_maxva seg_kind_def)
  moreover have "length program_headers = 3" by (simp add: program_headers_def)
  ultimately show ?thesis
    using program_image_length(2) program_image_header by (simp add: elf_program_def ELF_MAGIC_def Let_def w)
qed

lemma program_args_ok: "args_given 0x9000 0x9018 (put_bytes 0x9000 program_args m)"
proof -
  let ?m = "put_bytes 0x9000 program_args m"
  have len: "length program_args = 26" by (simp add: program_args_def le64_def le32_def)
  have at: "?m (0x9000 + q) = put_bytes 0 program_args (\<lambda>_. 0) q" if "unat q < 26" for q
    using put_bytes_shift [of q program_args] that len by simp
  have w: "load_word (0x9000 + d) ?m = load_word d (put_bytes 0 program_args (\<lambda>_. 0))" if "d = 0 \<or> d = 16" for d
  proof (rule load_word_cong)
    fix i :: uint64 assume i: "unat i < 8"
    have "unat (d + i) = unat d + unat i" using that i by (intro unat_add_noof) auto
    then have "unat (d + i) < 26" using that i by auto
    from at [OF this] show "?m (0x9000 + d + i) = put_bytes 0 program_args (\<lambda>_. 0) (d + i)" by (simp add: add.assoc)
  qed
  have ld: "load_word 0 (put_bytes 0 program_args (\<lambda>_. 0)) = 2" "load_word 16 (put_bytes 0 program_args (\<lambda>_. 0)) = 0x9018"
    "put_bytes 0 program_args (\<lambda>_. 0) 24 = 0x61" "put_bytes 0 program_args (\<lambda>_. 0) 25 = 0" by code_simp+
  have "cstr (moved_args 0x9000 0 1 ?m) 0x9018 [0x61]"
    using at [of 24] at [of 25] ld(3,4) by (simp add: moved_args_def)
  then have "\<exists>name. cstr (moved_args 0x9000 0 1 ?m) 0x9018 name" by blast
  then show ?thesis using w [of 0] w [of 16] ld(1,2) by (simp add: args_given_def)
qed

lemma program_host_ok: "program_host program_env sample_frame program_image (ld_files program_start)"
proof -
  have "host_serves (he_host program_env) (he_magic program_env) program_serve"
    unfolding program_env_def by (simp add: prompt_host file_env_def program_serve_def file_serve_def Let_def)
  moreover have "serves_open program_serve 0x9018 5"
    by (auto simp: serves_open_def program_serve_def HTIFSYS_openat_def HTIFSYS_getmainvars_def Let_def)
  moreover have "serves_file program_serve 5 program_image"
    using program_image_length(1)
    by (simp add: serves_file_def program_serve_def file_serve_def HTIFSYS_openat_def HTIFSYS_getmainvars_def HTIFSYS_pread_def Let_def)
  moreover have "serves_args program_serve 0x9000 0x9018"
    using program_args_ok by (auto simp: serves_args_def program_serve_def Let_def)
  moreover have "first_free [0..<MAX_FILES] elf_files = Some 0" "files_wf elf_files" "io_idle (ft_io elf_files)" "spike_fds elf_files ! 5 = None"
    using find_upt_first [of 0 MAX_FILES "\<lambda>f. refcnt (spike_files elf_files ! f) = 0"]
    by (simp_all add: first_free_def elf_files_def spike_files_init_def MAX_FILES_def MAX_FDS_def files_wf_def io_idle_def)
  moreover have "atomics_ok (he_at program_env)" by (simp add: program_env_def file_env_def atomics_ok_def)
  ultimately show ?thesis unfolding program_host_def program_start_def sample_frame_def
    by (intro conjI exI [of _ program_serve] exI [of _ "0x9018"] exI [of _ 5] exI [of _ 0]) simp_all
qed

lemma program_pre: "launch_pre sample_externs sample_frame 2 empty_kernel"
proof -
  have "\<not> 0x7000 + i - PFN_TO_ADDR fr < PGSIZE" if "i < 64" "fr \<in> set (cached_pages (kpmm empty_kernel))" for i fr
  proof -
    have "unat (PFN_TO_ADDR fr) = unat fr * 4096 + 0x80000000" "unat fr < 32768"
      using cached_page_bounds(1,2) [OF empty_facts(2,3) that(2)] by simp_all
    moreover have "unat (0x7000 + i) = 0x7000 + unat i" using that(1) by (subst unat_add_noof) (simp_all add: word_less_iff_unat)
    ultimately have "unat (0x7000 + i - PFN_TO_ADDR fr) \<ge> 4096" using that(1) by (subst unat_sub_if') (simp add: word_less_iff_unat)
    then show ?thesis by (simp add: word_less_iff_unat)
  qed
  moreover have "\<not> 0x7000 + i - 0x8000 < (56 :: uint64)" if "i < 64" for i
  proof -
    have "unat (0x7000 + i) = 0x7000 + unat i" using that by (subst unat_add_noof) (simp_all add: word_less_iff_unat)
    then have "unat (0x7000 + i - 0x8000) \<ge> 56" using that by (subst unat_sub_if') (simp add: word_less_iff_unat)
    then show ?thesis by (simp add: word_less_iff_unat)
  qed
  ultimately show ?thesis using empty_facts(2-4,6,7)
    by (simp add: launch_pre_def scratch_apart_def sample_frame_def sample_externs_def ready_queue_def)
qed

lemma program_loads:
  "length (loads program_headers) = 2" "loads program_headers = tl program_headers"
  "\<forall>ph\<in>set (loads program_headers). unat (ph_vaddr ph) < 0x7fffe000"
  by (simp_all add: program_headers_def ELF_PROG_LOAD_def)

lemma program_start_pre: "launch_pre sample_externs sample_frame (length (loads program_headers)) (ld_kernel program_start)"
  unfolding program_loads(1) using program_pre by (simp add: program_start_def)

lemma program_launched:
  "\<exists>tf st k t. launch sample_externs program_env sample_frame program_start = returnO (Resumes tf st k, t) \<and> current k = Some 0 \<and>
     ready_queue [] k"
  using launch_ok [OF program_start_pre program_host_ok program_image_ok program_loads(3)] unfolding Let_def by blast

theorem launch_correct_witness:
  "\<exists>tf st k t pa. launch sample_externs program_env sample_frame program_start = returnO (Resumes tf st k, t) \<and>
     current k = Some 0 \<and> sepc k = 0x10000 \<and> total_mapped_region (procs k ! 0) = 6 \<and>
     pte_of (kmem k) (pagetable (procs k ! 0)) 0x10000 = PA2PTE pa OR rwxu OR PTE_V \<and> kmem k (pte_addr pa 0) = 0x13"
proof -
  from launch_correct [OF program_start_pre program_host_ok program_image_ok program_loads(3)] obtain tf k t pas where
    l: "launch sample_externs program_env sample_frame program_start = returnO (Resumes tf (MAKE_SATP (pagetable (procs k ! 0))) k, t)"
      "current k = Some 0" "sepc k = 0x10000" "total_mapped_region (procs k ! 0) = 4 + length (loads program_headers)"
      "list_all2 (loaded_at program_image (pagetable (procs k ! 0)) k) (loads program_headers) pas" unfolding Let_def by blast
  then obtain pa where "loaded_at program_image (pagetable (procs k ! 0)) k (hd (loads program_headers)) pa"
    using program_loads(2) by (auto simp: program_headers_def list_all2_Cons1)
  then have pa: "pte_of (kmem k) (pagetable (procs k ! 0)) 0x10000 = PA2PTE pa OR rwxu OR PTE_V"
    "frame_holds (chunk program_image 4 232) k pa"
    using program_loads(2) by (simp_all add: loaded_at_def program_headers_def)
  have "load_word 0 (put_bytes 0 (chunk program_image 4 232) (\<lambda>_. 0)) = 0x13" by code_simp
  then have "kmem k (pte_addr pa 0) = 0x13" using pa(2) by (simp add: frame_holds_def)
  then show ?thesis using l program_loads(1) pa(1) by auto
qed

section \<open>Running the programs\<close>

lemma reach_mono: "reach P step s \<Longrightarrow> (\<And>s. P s \<Longrightarrow> Q s) \<Longrightarrow> reach Q step s"
  by (induction rule: reach.induct) (auto intro: reach.intros)

text \<open>The process \<open>i\<close> runs and nothing waits.\<close>

definition alone :: "nat \<Rightarrow> kernel \<Rightarrow> bool" where
  "alone i s \<longleftrightarrow> current s = Some i \<and> i < length (procs s) \<and> tf_ptr (procs s ! i) \<noteq> 0 \<and> status (procs s ! i) = RUNNING \<and>
     ready_queue_head s = None \<and> (\<forall>j<length (procs s). j \<noteq> i \<longrightarrow> status (procs s ! j) \<in> {FREE, ZOMBIE})"

lemma alone_sched: "alone i s \<longleftrightarrow> sched_at i [] s"
  by (auto simp: alone_def sched_at_def runnable_def ready_queue_def)

lemma reached_sched:
  assumes "alone i0 k" "reach (\<lambda>s. s = k) (user_step x) s"
  shows "sched_ok s"
proof -
  have "reach (\<lambda>s. \<exists>i. sched_at i [] s) (user_step x) s" by (rule reach_mono [OF assms(2)]) (use assms(1) alone_sched in blast)
  then show ?thesis by (rule kernel_run.reach_inv)
qed

text \<open>Processes keep their identifiers, and one that was made is not free again.\<close>

definition same_names :: "kernel \<Rightarrow> kernel \<Rightarrow> bool" where
  "same_names s s' \<longleftrightarrow> length (procs s') = length (procs s) \<and>
     (\<forall>j. pid (procs s' ! j) = pid (procs s ! j) \<and> (status (procs s ! j) \<noteq> FREE \<longrightarrow> status (procs s' ! j) \<noteq> FREE))"

text \<open>The exit of the running process, in terms of the processes that wait.\<close>

lemma exit_sched:
  assumes ok: "sched_at i xs s" and s1_def: "s1 = trap_entry CAUSE_USER_ECALL va (tf_ptr (procs s ! i)) (r\<lparr>r_a0 := SYS_user_exit\<rparr>) pc s"
  shows "xs = [] \<Longrightarrow> smode_trap_handler x s1 = Fails (Shutdown 0)"
    and "xs = j # ys \<Longrightarrow> \<exists>s'. smode_trap_handler x s1 = Resumes (tf_ptr (procs s ! j)) (MAKE_SATP (pagetable (procs s ! j))) s' \<and>
      sched_at j ys s' \<and> status (procs s' ! i) = ZOMBIE \<and> same_names s s' \<and> kmem s' = kmem s \<and>
      (\<forall>k. tf_ptr (procs s' ! k) = tf_ptr (procs s ! k) \<and> (k \<noteq> i \<and> k \<noteq> j \<longrightarrow> procs s' ! k = procs s ! k)) \<and>
      (\<forall>a. a \<noteq> tf_ptr (procs s ! i) \<longrightarrow> tf_regs (tframes s' a) = tf_regs (tframes s a)) \<and> pcpu_caches (kpmm s') = pcpu_caches (kpmm s)"
proof -
  have i: "current s = Some i" "i < length (procs s)" "tf_ptr (procs s ! i) \<noteq> 0" "i \<notin> set xs"
    using ok sched_at_not_waiting [OF ok] by (simp_all add: sched_at_def runnable_def)
  have s1: "sched_at i xs s1" "procs s1 = procs s" "kmem s1 = kmem s" unfolding s1_def
    by (rule trap_entry_sched [OF ok]) (simp_all add: trap_entry_def)
  have u: "user_trap CAUSE_USER_ECALL i s1" "r_a0 (tf_regs (tframes s1 (tf_ptr (procs s1 ! i)))) = SYS_user_exit"
    using i by (simp_all add: user_trap_def s1_def trap_entry_def smode_trap_vector_def and.assoc)
  let ?p = "saved_pc i (sepc s1 + 4) s1"
  let ?z = "?p\<lparr>procs := (procs ?p)[i := (procs ?p ! i)\<lparr>status := ZOMBIE\<rparr>]\<rparr>"
  have t: "smode_trap_handler x s1 = schedule x ?z" using trap_exit [OF u, of x] by simp
  have "sched_at i xs ?p" using touches_proc_sched [OF touches_proc_same s1(1)] by simp
  note q = exit_queue(2,3) [OF this]
  show "smode_trap_handler x s1 = Fails (Shutdown 0)" if "xs = []"
  proof -
    have "ready_queue_head ?z = None" using q(1) that by (simp add: ready_queue_def)
    moreover have "\<forall>p\<in>set (procs ?z). status p = FREE \<or> status p = ZOMBIE" using q(2) that by (auto simp: in_set_conv_nth)
    ultimately show ?thesis unfolding t by (simp add: schedule_def Let_def)
  qed
  show "\<exists>s'. smode_trap_handler x s1 = Resumes (tf_ptr (procs s ! j)) (MAKE_SATP (pagetable (procs s ! j))) s' \<and>
      sched_at j ys s' \<and> status (procs s' ! i) = ZOMBIE \<and> same_names s s' \<and> kmem s' = kmem s \<and>
      (\<forall>k. tf_ptr (procs s' ! k) = tf_ptr (procs s ! k) \<and> (k \<noteq> i \<and> k \<noteq> j \<longrightarrow> procs s' ! k = procs s ! k)) \<and>
      (\<forall>a. a \<noteq> tf_ptr (procs s ! i) \<longrightarrow> tf_regs (tframes s' a) = tf_regs (tframes s a)) \<and> pcpu_caches (kpmm s') = pcpu_caches (kpmm s)" if xs: "xs = j # ys"
  proof -
    have j: "i \<noteq> j" using i(4) xs by auto
    have sch: "schedule x ?z = Resumes (tf_ptr (procs s ! j)) (MAKE_SATP (pagetable (procs s ! j)))
        (resumed x j (?z\<lparr>ready_queue_head := queue_next (procs ?z ! j), procs := (procs ?z)[j := (procs ?z ! j)\<lparr>status := RUNNING\<rparr>]\<rparr>))"
      (is "_ = Resumes _ _ ?s'")
      using schedule_next [OF q(1) [unfolded xs], of x] j s1(2) by simp
    have "sched_at j ys ?s'" using schedule_sched [OF sch q] xs by auto
    moreover have "status (procs ?s' ! i) = ZOMBIE" using i(2) j s1(2) by simp
    moreover have "j < length (procs s)" using ok xs by (simp add: sched_at_def ready_queue_def runnable_def)
    then have "same_names s ?s'" using i(2) j s1(2) by (simp add: same_names_def nth_list_update)
    moreover have "kmem ?s' = kmem s" "pcpu_caches (kpmm ?s') = pcpu_caches (kpmm s)"
      "\<forall>a. a \<noteq> tf_ptr (procs s ! i) \<longrightarrow> tf_regs (tframes ?s' a) = tf_regs (tframes s a)"
      by (simp_all add: s1_def trap_entry_def smode_trap_vector_def resumed_def saved_pc_def Let_def)
    moreover have "\<forall>k. tf_ptr (procs ?s' ! k) = tf_ptr (procs s ! k) \<and> (k \<noteq> i \<and> k \<noteq> j \<longrightarrow> procs ?s' ! k = procs s ! k)"
      using i(2) j s1(2) \<open>j < length (procs s)\<close> by (simp add: nth_list_update)
    ultimately show ?thesis using t sch by auto
  qed
qed

text \<open>A run of the machine of the examples: the running process forks, and exits; then its child runs.\<close>

lemma trap_entry_simps [simp]:
  "procs (trap_entry cause va tf r pc s) = procs s" "current (trap_entry cause va tf r pc s) = current s"
  "ready_queue_head (trap_entry cause va tf r pc s) = ready_queue_head s" "minfos (trap_entry cause va tf r pc s) = minfos s"
  "kmem (trap_entry cause va tf r pc s) = kmem s" "sepc (trap_entry cause va tf r pc s) = pc" "scause (trap_entry cause va tf r pc s) = cause"
  "stval (trap_entry cause va tf r pc s) = va" "tf_regs (tframes (trap_entry cause va tf r pc s) tf) = r"
  by (simp_all add: trap_entry_def smode_trap_vector_def)

lemma trap_entry_kvm:
  "r_tp r = tp_reg (kpmm s) \<Longrightarrow> kvm (trap_entry cause va tf r pc s) =
     (kvm s)\<lparr>vpmm := (kpmm s)\<lparr>sstatus_reg := sstatus_reg (kpmm s) AND NOT SSTATUS_SPP\<rparr>\<rparr>"
  by (simp add: trap_entry_def smode_trap_vector_def)

lemma trap_entry_cached: "r_tp r = tp_reg (kpmm s) \<Longrightarrow> cached_pages (kpmm (trap_entry cause va tf r pc s)) = cached_pages (kpmm s)"
  by (simp add: trap_entry_kvm)

lemma trap_entry_user:
  "current s = Some i \<Longrightarrow> i < length (procs s) \<Longrightarrow> tf_ptr (procs s ! i) \<noteq> 0 \<Longrightarrow> user_trap cause i (trap_entry cause va tf r pc s)"
  by (simp add: user_trap_def trap_entry_def)

lemma trap_entry_fork_pre: "r_tp r = tp_reg (kpmm s) \<Longrightarrow> fork_pre x i (trap_entry cause va tf r pc s) = fork_pre x i s"
  by (simp add: fork_pre_def regions_of_def trap_entry_kvm vm_ok_def Let_def)

lemma trap_entry_queue: "ready_queue xs (trap_entry cause va tf r pc s) = ready_queue xs s"
  by (rule ready_queue_same) simp_all

lemma ready_queue_unique:
  assumes "ready_queue xs s" "ready_queue ys s"
  shows "xs = ys"
proof -
  have "qpath n h xs \<Longrightarrow> qpath n h ys \<Longrightarrow> xs = ys" for n h by (induction xs arbitrary: h ys) (case_tac ys; auto)+
  then show ?thesis using assms by (auto simp: ready_queue_def)
qed

definition call_regs :: "uint64 \<Rightarrow> riscv_regs" where
  "call_regs n = zero_regs\<lparr>r_a0 := n\<rparr>"

definition running_trap_frame :: uint64 where
  "running_trap_frame = tf_ptr (procs running_kernel ! 0)"

lemma running_alone: "alone 0 running_kernel" "tp_reg (kpmm running_kernel) = 0"
proof -
  from running_facts obtain tf dir ks us mi v where r: "is_running tf dir ks us mi v" by blast
  have "status (procs running_kernel ! j) = FREE" if "j < 32" "j \<noteq> 0" for j using r that empty_zero(3) by (simp add: is_running_def)
  then show "alone 0 running_kernel" using r running_space(4) [OF r] by (simp add: is_running_def alone_def new_process_def)
  show "tp_reg (kpmm running_kernel) = 0" using r running_space(1) [OF r] by (simp add: is_running_def vm_ok_def pmm_ok_def)
qed

lemma running_forks:
  "\<exists>st s. smode_trap_handler sample_externs (trap_entry CAUSE_USER_ECALL 0 running_trap_frame (call_regs SYS_user_fork) 0x1000 running_kernel) =
     Resumes running_trap_frame st s \<and> user_step sample_externs running_kernel s \<and> sched_at 0 [1] s \<and> tf_ptr (procs s ! 0) = running_trap_frame"
proof -
  let ?r = "call_regs SYS_user_fork"
  let ?s = "trap_entry CAUSE_USER_ECALL 0 running_trap_frame ?r 0x1000 running_kernel"
  note al = running_alone(1) [unfolded alone_def]
  have tp: "r_tp ?r = tp_reg (kpmm running_kernel)" by (simp add: running_alone(2) call_regs_def zero_regs_def)
  have "user_trap CAUSE_USER_ECALL 0 ?s" using al by (intro trap_entry_user) simp_all
  moreover have "r_a0 (tf_regs (tframes ?s (tf_ptr (procs ?s ! 0)))) = SYS_user_fork" by (simp add: call_regs_def running_trap_frame_def [symmetric])
  moreover have "\<exists>r\<in>set (regions_of 0 ?s). context_seg r" using running_context by (simp add: regions_of_def)
  ultimately obtain s where
    s: "smode_trap_handler sample_externs ?s = Resumes running_trap_frame (MAKE_SATP (pagetable (procs running_kernel ! 0))) s"
      "ready_queue ([] @ [1]) s" "procs s ! 0 = (procs running_kernel ! 0)\<lparr>status := status (procs s ! 0), queue_next := queue_next (procs s ! 0)\<rparr>"
      "\<forall>a. (\<forall>t \<in> tables (kmem running_kernel) (pagetable (procs running_kernel ! 0)) \<union> PFN_TO_ADDR ` set (cached_pages (kpmm running_kernel)).
         \<not> a - t < PGSIZE) \<longrightarrow> kmem s a = kmem running_kernel a" "current s = Some 0"
    using fork_trap_ok [of 0 ?s sample_externs 1 "[]"] running_fork(1-4) tp
    by (auto simp: trap_entry_fork_pre trap_entry_queue trap_entry_cached Let_def running_trap_frame_def)
  have "kmem s a = kmem running_kernel a" if "kernel_cell running_kernel a" for a using s(4) running_cells [OF that] by blast
  then have "user_step sample_externs running_kernel s" using traps [OF _ s(1) [unfolded running_trap_frame_def]] al by simp
  moreover from user_step_sched [OF this] obtain i xs where "sched_at i xs s"
    using running_alone(1) alone_sched by (auto simp: sched_ok_def)
  then have "sched_at 0 [1] s" using s(2,5) ready_queue_unique [of xs s "[1]"] by (auto simp: sched_at_def)
  ultimately show ?thesis using s(1) arg_cong [OF s(3), of tf_ptr] by (auto simp: running_trap_frame_def)
qed


text \<open>The parent forks and exits, and its child runs.\<close>

lemma fork_exit_run:
  "\<exists>s s' tf st. user_step sample_externs running_kernel s \<and> reach (\<lambda>s. s = running_kernel) (user_step sample_externs) s \<and> sched_at 0 [1] s \<and>
     smode_trap_handler sample_externs (trap_entry CAUSE_USER_ECALL 0 (tf_ptr (procs s ! 0)) (call_regs SYS_user_exit) 0x1000 s) = Resumes tf st s' \<and>
     reach (\<lambda>s. s = running_kernel) (user_step sample_externs) s' \<and> sched_at 1 [] s' \<and> status (procs s' ! 0) = ZOMBIE"
proof -
  from running_forks obtain s where s: "user_step sample_externs running_kernel s" "sched_at 0 [1] s" by blast
  then have r: "reach (\<lambda>s. s = running_kernel) (user_step sample_externs) s" by (intro reach.step [OF reach.start]) simp_all
  let ?s = "trap_entry CAUSE_USER_ECALL 0 (tf_ptr (procs s ! 0)) (call_regs SYS_user_exit) 0x1000 s"
  have "?s = trap_entry CAUSE_USER_ECALL 0 (tf_ptr (procs s ! 0)) (zero_regs\<lparr>r_a0 := SYS_user_exit\<rparr>) 0x1000 s" by (simp add: call_regs_def)
  from exit_sched(2) [OF s(2) this refl] obtain s' where
    s': "smode_trap_handler sample_externs ?s = Resumes (tf_ptr (procs s ! 1)) (MAKE_SATP (pagetable (procs s ! 1))) s'"
      "sched_at 1 [] s'" "status (procs s' ! 0) = ZOMBIE" "kmem s' = kmem s" by blast
  have "user_step sample_externs s s'" using traps [OF _ s'(1)] s(2) s'(4) by (simp add: sched_at_def)
  then show ?thesis using r s s'(1-3) reach.step [OF r] by blast
qed




end
