(* ===== verification/Pke_Apps.thy ===== *)
theory Pke_Apps
  imports Pke_Launch
begin

text \<open>
  The applications, \<^verbatim>\<open>user/app_semaphore.c\<close> and \<^verbatim>\<open>user/app_semaphore2.c\<close>: their \<^verbatim>\<open>main\<close> as the tree of the library
  calls it makes, a run of such programs on the kernel, and the order in which they print.
\<close>

section \<open>The programs\<close>

text \<open>A program as the next call of the library and what follows, for each result of the call.\<close>

datatype app =
    Sem_new uint32 "uint32 \<Rightarrow> app"
  | Sem_P uint32 app
  | Sem_V uint32 app
  | Fork "uint32 \<Rightarrow> app"
  | Printu string "int list" app
  | Exit uint32

text \<open>The loops of \<^verbatim>\<open>app_semaphore.c\<close>, over the values of \<^verbatim>\<open>i\<close> still to come, and then \<^verbatim>\<open>exit(0)\<close>.\<close>

fun child_loop :: "uint32 \<Rightarrow> uint32 \<Rightarrow> uint32 \<Rightarrow> uint32 \<Rightarrow> int list \<Rightarrow> app" where
  "child_loop main_sem c0 c1 p [] = Exit 0"
| "child_loop main_sem c0 c1 p (i # is) =
     Sem_P (if p = 0 then c1 else c0)
       (Printu ''Child%d print %d\<newline>'' [if p = 0 then 1 else 0, i]
          (Sem_V (if p \<noteq> 0 then c1 else main_sem) (child_loop main_sem c0 c1 p is)))"

fun parent_loop :: "uint32 \<Rightarrow> uint32 \<Rightarrow> int list \<Rightarrow> app" where
  "parent_loop main_sem c0 [] = Exit 0"
| "parent_loop main_sem c0 (i # is) =
     Sem_P main_sem (Printu ''Parent print %d\<newline>'' [i] (Sem_V c0 (parent_loop main_sem c0 is)))"

definition app_semaphore :: app where
  "app_semaphore =
     Sem_new 1 (\<lambda>main_sem. Sem_new 0 (\<lambda>c0. Sem_new 0 (\<lambda>c1.
     Fork (\<lambda>pid. if pid = 0 then Fork (\<lambda>pid. child_loop main_sem c0 c1 pid [0..9]) else parent_loop main_sem c0 [0..9]))))"

text \<open>\<^verbatim>\<open>app_semaphore2.c\<close>.\<close>

fun take_loop :: "uint32 \<Rightarrow> int list \<Rightarrow> app \<Rightarrow> app" where
  "take_loop sem_resouce [] rest = rest"
| "take_loop sem_resouce (i # is) rest = Sem_P sem_resouce (Printu ''Parent got %d source\<newline>'' [i] (take_loop sem_resouce is rest))"

definition app_semaphore2 :: app where
  "app_semaphore2 =
     Sem_new 0 (\<lambda>sem_resouce.
     Fork (\<lambda>pid. if pid = 0 then Fork (\<lambda>pid. Printu ''Product resource\<newline>'' [] (Sem_V sem_resouce (Exit 0)))
       else take_loop sem_resouce [0..1] (Printu ''Parent working\<newline>'' []
         (Sem_V sem_resouce (Sem_V sem_resouce (Printu ''Finished\<newline>'' [] (Exit 0)))))))"

section \<open>Running them\<close>

text \<open>The kernel, the rest of the program of each process, and what was printed.\<close>

record usys =
  us_kernel :: kernel
  us_app :: "nat \<Rightarrow> app"
  us_out :: "(string \<times> int list) list"

text \<open>
  The running process makes its next call through the library and the kernel. After a fork both processes go on behind the
  call, with different results; the identifier of a process is its index. A call that fails ends the run.
\<close>

inductive app_step :: "externs \<Rightarrow> usys \<Rightarrow> usys \<Rightarrow> bool" for x where
  new: "current (us_kernel S) = Some i \<Longrightarrow> us_app S i = Sem_new v f \<Longrightarrow> sem_new x U v (us_kernel S) = Returns r k \<Longrightarrow>
    app_step x S (S\<lparr>us_kernel := k, us_app := (us_app S)(i := f r)\<rparr>)"
| P: "current (us_kernel S) = Some i \<Longrightarrow> us_app S i = Sem_P j a \<Longrightarrow> sem_P x U j (us_kernel S) = Returns u k \<Longrightarrow>
    app_step x S (S\<lparr>us_kernel := k, us_app := (us_app S)(i := a)\<rparr>)"
| V: "current (us_kernel S) = Some i \<Longrightarrow> us_app S i = Sem_V j a \<Longrightarrow> sem_V x U j (us_kernel S) = Returns u k \<Longrightarrow>
    app_step x S (S\<lparr>us_kernel := k, us_app := (us_app S)(i := a)\<rparr>)"
| forks: "current (us_kernel S) = Some i \<Longrightarrow> us_app S i = Fork f \<Longrightarrow> fork x U (us_kernel S) = Returns r k \<Longrightarrow>
    app_step x S (S\<lparr>us_kernel := k, us_app := (us_app S)(i := f r, unat r := f 0)\<rparr>)"
| prints: "current (us_kernel S) = Some i \<Longrightarrow> us_app S i = Printu fmt vs a \<Longrightarrow> cstr m s (map of_char fmt) \<Longrightarrow>
    (\<forall>j<length vs. vl j = word_of_int (vs ! j)) \<Longrightarrow> printu x U b s vl m (us_kernel S) = Some (Returns r k, m') \<Longrightarrow>
    app_step x S (S\<lparr>us_kernel := k, us_app := (us_app S)(i := a), us_out := us_out S @ [(fmt, vs)]\<rparr>)"
| exits: "current (us_kernel S) = Some i \<Longrightarrow> us_app S i = Exit c \<Longrightarrow> exit x U c (us_kernel S) = Resumes tf st k \<Longrightarrow>
    app_step x S (S\<lparr>us_kernel := k\<rparr>)"

section \<open>The order of the output\<close>

text \<open>
  What a program prints when nothing makes it wait, and the programs of the processes it makes, in the order in which it makes them;
  then the programs of a queue, one after the other.
\<close>

primrec run_app :: "app \<Rightarrow> (string \<times> int list) list \<times> app list" where
  "run_app (Sem_new v f) = run_app (f 0)"
| "run_app (Sem_P j a) = run_app a"
| "run_app (Sem_V j a) = run_app a"
| "run_app (Fork f) = (let (o1, cs) = run_app (f 1) in (o1, f 0 # cs))"
| "run_app (Printu fmt vs a) = (let (o1, cs) = run_app a in ((fmt, vs) # o1, cs))"
| "run_app (Exit c) = ([], [])"

fun run_queue_apps :: "nat \<Rightarrow> app list \<Rightarrow> (string \<times> int list) list option" where
  "run_queue_apps n [] = Some []"
| "run_queue_apps 0 (a # as) = None"
| "run_queue_apps (Suc n) (a # as) = (let (o1, cs) = run_app a in map_option (\<lambda>o2. o1 @ o2) (run_queue_apps n (as @ cs)))"

text \<open>A program that asks of the result of a fork only whether it is 0.\<close>

primrec pid_blind :: "app \<Rightarrow> bool" where
  "pid_blind (Sem_new v f) = (\<forall>r. pid_blind (f r))"
| "pid_blind (Sem_P j a) = pid_blind a"
| "pid_blind (Sem_V j a) = pid_blind a"
| "pid_blind (Fork f) = ((\<forall>r. r \<noteq> 0 \<longrightarrow> f r = f 1) \<and> (\<forall>r. pid_blind (f r)))"
| "pid_blind (Printu fmt vs a) = pid_blind a"
| "pid_blind (Exit c) = True"

section \<open>Calls and the scheduler\<close>

definition numbered :: "kernel \<Rightarrow> bool" where
  "numbered s \<longleftrightarrow> length (procs s) = NPROC \<and> (\<forall>j<NPROC. pid (procs s ! j) = word_of_nat j) \<and> status (procs s ! 0) \<noteq> FREE"

lemma same_names_numbered: "same_names s s' \<Longrightarrow> numbered s \<Longrightarrow> numbered s'"
  by (simp add: same_names_def numbered_def)

lemma same_names_same: "procs s' = procs s \<Longrightarrow> same_names s s'"
  by (simp add: same_names_def)

lemma sched_in_user: "sched_at i xs s \<Longrightarrow> in_user i s"
  by (simp add: sched_at_def in_user_def runnable_def)

lemma called_sched: "sched_at i xs s \<Longrightarrow> sched_at i xs (called U i as s)"
  by (rule touches_proc_sched [OF touches_proc_same]) simp_all

lemma replied_sched: "sched_at i xs s \<Longrightarrow> sched_at i xs (replied x i v s)"
  by (rule touches_proc_sched [OF touches_proc_same]) (simp_all add: sched_at_def)

lemma sem_calls_sched:
  assumes "sched_at i xs k"
  shows "sem_new x U v k = Returns r k' \<Longrightarrow> r = 0 \<and> sched_at i xs k' \<and> procs k' = procs k"
    "sem_P x U j k = Returns u k' \<Longrightarrow> sched_at i xs k' \<and> procs k' = procs k"
    "sem_V x U j k = Returns u k' \<Longrightarrow> sched_at i xs k' \<and> procs k' = procs k"
proof -
  have keep: "sched_at i xs k'" if "procs k' = procs k" "current k' = Some i" "ready_queue_head k' = ready_queue_head k"
    using touches_proc_sched [OF touches_proc_same assms, of k'] that assms by (simp add: sched_at_def)
  note n = semaphores_never_block [OF sched_in_user [OF assms], of x U v j]
  show "r = 0 \<and> sched_at i xs k' \<and> procs k' = procs k" if "sem_new x U v k = Returns r k'" using n that keep by auto
  show "sched_at i xs k' \<and> procs k' = procs k" if "sem_P x U j k = Returns u k'" using n that keep by auto
  show "sched_at i xs k' \<and> procs k' = procs k" if "sem_V x U j k = Returns u k'" using n that keep by auto
qed

lemma bindF_Returns: "bindF m f = Returns y s' \<Longrightarrow> \<exists>x t. m = Returns x t \<and> f x t = Returns y s'"
  by (cases m) auto

text \<open>A call that returns, by what its system call does.\<close>

lemma call_sched:
  assumes ok: "sched_at i xs k" and r: "do_user_call x U n a1 a2 a3 a4 a5 a6 a7 k = Returns w k'"
    and sys: "do_syscall x n a1 a2 a3 a4 a5 a6 a7 (called U i [n, a1, a2, a3, a4, a5, a6, a7] k) = lift_res d"
    and keep: "\<And>v s. d = Inr (v, s) \<Longrightarrow> sched_at i ys s \<and> tf_ptr (procs s ! i) = tf_ptr (procs k ! i)"
  shows "\<exists>v s. d = Inr (v, s) \<and> w = half (uc_junk U) v \<and> sched_at i ys k' \<and> procs k' = procs s"
proof -
  have u: "in_user i k" by (rule sched_in_user [OF ok])
  obtain v s where d: "d = Inr (v, s)" using r sys unfolding user_call_runs [OF u] by (cases d) auto
  note s = keep [OF d]
  have "do_user_call x U n a1 a2 a3 a4 a5 a6 a7 k = Returns (half (uc_junk U) v) (replied x i v s)"
    using s sys d by (intro user_call_value [OF u]) (simp_all add: sched_at_def runnable_def)
  then have "w = half (uc_junk U) v" "k' = replied x i v s" using r by simp_all
  then show ?thesis using d s replied_sched by auto
qed

lemma print_sched:
  assumes ok: "sched_at i xs k" and r: "printu x U b s vl m k = Some (Returns r k', m')"
  shows "sched_at i xs k' \<and> procs k' = procs k"
proof -
  from r obtain n w where c: "do_user_call x U SYS_user_print b n 0 0 0 0 0 k = Returns w k'"
    by (auto simp: printu_def bind_eq_Some_conv Let_def dest!: bindF_Returns)
  let ?c = "called U i [SYS_user_print, b, n, 0, 0, 0, 0, 0] k"
  have kept: "procs t = procs k \<and> current t = current k \<and> ready_queue_head t = ready_queue_head k"
    if "sys_user_print b n ?c = Inr (v, t)" for v t
    using that by (auto simp: sys_user_print_def bindE_Inr_iff split: if_splits dest!: kept)
  then have "\<exists>v t. sys_user_print b n ?c = Inr (v, t) \<and> w = half (uc_junk U) v \<and> sched_at i xs k' \<and> procs k' = procs t"
    using touches_proc_sched [OF touches_proc_same ok] by (intro call_sched [OF ok c]) (simp_all add: do_syscall_def sys_numbers)
  then show ?thesis using kept by auto
qed

lemma ucast_scast32: "(ucast (scast q :: uint64) :: uint32) = q"
  by (rule bit_eqI) (simp add: bit_simps)

lemma fork_sched:
  assumes ok: "sched_at i xs k" and n: "numbered k" and r: "fork x U k = Returns r k'"
  shows "r \<noteq> 0 \<and> sched_at i (xs @ [unat r]) k' \<and> numbered k' \<and> unat r \<noteq> i \<and> unat r \<notin> set xs"
proof -
  from r obtain w where c: "do_user_call x U SYS_user_fork 0 0 0 0 0 0 0 k = Returns w k'" "r = ucast w"
    by (auto simp: fork_def dest!: bindF_Returns)
  let ?c = "called U i [SYS_user_fork, 0, 0, 0, 0, 0, 0, 0] k"
  have cur: "current ?c = Some i" using ok by (simp add: sched_at_def)
  have "\<exists>v s. sys_user_fork x ?c = Inr (v, s)"
    using c(1) unfolding user_call_runs [OF sched_in_user [OF ok]]
    by (cases "sys_user_fork x ?c") (auto simp: do_syscall_def sys_numbers)
  then obtain q s where f: "do_fork x i ?c = Inr (q, s)" "sys_user_fork x ?c = Inr (scast q, s)"
    using cur by (auto simp: sys_user_fork_def bindE_Inr_iff)
  from do_fork_sched [OF f(1) called_sched [OF ok]] obtain ch where
    ch: "ch < length (procs k)" "status (procs k ! ch) = FREE" "sched_at i (xs @ [ch]) s" "q = ucast (pid (procs k ! ch))"
      "tf_ptr (procs s ! i) = tf_ptr (procs k ! i)" "length (procs s) = length (procs k)"
      "\<forall>j. pid (procs s ! j) = pid (procs k ! j) \<and> (j \<noteq> ch \<longrightarrow> status (procs s ! j) = status (procs k ! j))" by auto
  have "\<exists>v t. sys_user_fork x ?c = Inr (v, t) \<and> w = half (uc_junk U) v \<and> sched_at i (xs @ [ch]) k' \<and> procs k' = procs t"
    using f(2) ch(3,5) by (intro call_sched [OF ok c(1)]) (simp_all add: do_syscall_def sys_numbers)
  then have k': "w = half (uc_junk U) (scast q)" "sched_at i (xs @ [ch]) k'" "procs k' = procs s" using f(2) by auto
  have nz: "ch < NPROC" "pid (procs k ! ch) = word_of_nat ch" "status (procs k ! 0) \<noteq> FREE" using n ch(1) by (auto simp: numbered_def)
  then have ch0: "ch \<noteq> 0" using ch(2) by metis
  have "r = q" using c(2) k'(1) by (simp add: ucast_half ucast_scast32)
  moreover have "unat q = ch" using ch(4) nz(1,2) by (simp add: NPROC_def unsigned_ucast_eq unat_of_nat take_bit_nat_eq_self)
  ultimately have r: "unat r = ch" "r \<noteq> 0" using ch0 by auto
  have "ch \<noteq> i" "ch \<notin> set xs" using ok ch(2) by (auto simp: sched_at_def ready_queue_def)
  moreover have "numbered k'" using n k'(3) ch(6,7) ch0 by (auto simp: numbered_def)
  ultimately show ?thesis using r k'(2) by simp
qed

lemma exit_user_sched:
  assumes ok: "sched_at i xs k" and n: "numbered k" and r: "exit x U c k = Resumes tf st k'"
  shows "\<exists>j ys. xs = j # ys \<and> sched_at j ys k' \<and> numbered k'"
proof -
  have cp: "cur_proc k = Inr (i, procs k ! i)" using ok by (simp add: sched_at_def runnable_def cur_proc_ok)
  let ?r = "(uc_regs U)\<lparr>r_a0 := SYS_user_exit, r_a1 := scast c, r_a2 := 0, r_a3 := 0, r_a4 := 0, r_a5 := 0, r_a6 := 0, r_a7 := 0\<rparr>"
  let ?s = "smode_trap_vector (tf_ptr (procs k ! i)) ?r (uc_pc U) k"
  have eq: "?s = trap_entry CAUSE_USER_ECALL (stval k) (tf_ptr (procs k ! i)) (?r\<lparr>r_a0 := SYS_user_exit\<rparr>) (uc_pc U) k"
    by (cases k; cases "uc_regs U") (simp add: trap_entry_def smode_trap_vector_def)
  have sm: "smode_trap_handler x ?s = Resumes tf st k'"
    using r cp by (auto simp: exit_def do_user_call_def Let_def split: flow.splits if_splits)
  note ex = exit_sched [OF ok eq]
  obtain j ys where xs: "xs = j # ys" using ex(1) [of x] sm by (cases xs) auto
  from ex(2) [OF xs, of x] sm have "sched_at j ys k'" "same_names k k'" by auto
  then show ?thesis using xs same_names_numbered [OF _ n] by blast
qed

section \<open>The invariant\<close>

text \<open>The process \<open>i\<close> runs, \<open>xs\<close> wait, and what was printed and what they will print in this order is \<open>e\<close>.\<close>

definition apps_at :: "nat \<Rightarrow> nat list \<Rightarrow> (string \<times> int list) list \<Rightarrow> usys \<Rightarrow> bool" where
  "apps_at i xs e S \<longleftrightarrow> sched_at i xs (us_kernel S) \<and> numbered (us_kernel S) \<and> (\<forall>j\<in>set (i # xs). pid_blind (us_app S j)) \<and>
     (\<exists>n rest. run_queue_apps n (map (us_app S) (i # xs)) = Some rest \<and> us_out S @ rest = e)"

definition apps_inv :: "(string \<times> int list) list \<Rightarrow> usys \<Rightarrow> bool" where
  "apps_inv e S \<longleftrightarrow> (\<exists>i xs. apps_at i xs e S)"

lemma run_queue_Cons:
  "run_queue_apps n (a # as) = Some e \<longleftrightarrow> (\<exists>m rest. n = Suc m \<and> run_queue_apps m (as @ snd (run_app a)) = Some rest \<and> e = fst (run_app a) @ rest)"
  by (cases n) (auto simp: split_beta Let_def)

text \<open>The running process goes on with \<open>a\<close> after a call that leaves the queue alone and prints \<open>out\<close>.\<close>

lemma apps_at_go_on:
  assumes "apps_at i xs e S" "sched_at i xs k" "numbered k" "pid_blind a"
    and "run_app (us_app S i) = (out @ fst (run_app a), snd (run_app a))"
  shows "apps_inv e (S\<lparr>us_kernel := k, us_app := (us_app S)(i := a), us_out := us_out S @ out\<rparr>)"
proof -
  have i: "i \<notin> set xs" by (rule sched_at_not_waiting [OF assms(2)])
  from assms(1) obtain n rest where n: "run_queue_apps n (us_app S i # map (us_app S) xs) = Some rest" "us_out S @ rest = e"
    by (auto simp: apps_at_def)
  from n(1) assms(5) obtain m rest' where m: "n = Suc m" "run_queue_apps m (map (us_app S) xs @ snd (run_app a)) = Some rest'"
    "rest = out @ fst (run_app a) @ rest'" by (auto simp: run_queue_Cons)
  have "run_queue_apps n (a # map (us_app S) xs) = Some (fst (run_app a) @ rest')" using m(1,2) by (simp add: split_beta)
  then show ?thesis using assms(1-4) i m(3) n(2) unfolding apps_inv_def apps_at_def
    by (intro exI [of _ i] exI [of _ xs]) (auto simp: map_fun_upd)
qed

lemma apps_at_fork:
  assumes "apps_at i xs e S" "sched_at i (xs @ [c]) k" "numbered k" "us_app S i = Fork f" "r \<noteq> 0" "c \<noteq> i" "c \<notin> set xs"
  shows "apps_inv e (S\<lparr>us_kernel := k, us_app := (us_app S)(i := f r, c := f 0)\<rparr>)"
proof -
  have i: "i \<notin> set xs" using sched_at_not_waiting [OF assms(2)] by simp
  have "pid_blind (us_app S i)" using assms(1) by (simp add: apps_at_def)
  then have f: "f r = f 1" "pid_blind (f 1)" "pid_blind (f 0)" using assms(5) unfolding assms(4) pid_blind.simps by blast+
  from assms(1) obtain n rest where n: "run_queue_apps n (us_app S i # map (us_app S) xs) = Some rest" "us_out S @ rest = e"
    by (auto simp: apps_at_def)
  then have "run_queue_apps n (f r # map (us_app S) xs @ [f 0]) = Some rest"
    using assms(4) by (auto simp: run_queue_Cons f(1) split_beta Let_def)
  moreover have "map ((us_app S)(i := f r, c := f 0)) (i # xs @ [c]) = f r # map (us_app S) xs @ [f 0]"
    using i assms(6,7) by (simp add: map_fun_upd)
  ultimately show ?thesis using assms(1-3,6,7) f n(2) i unfolding apps_inv_def apps_at_def
    by (intro exI [of _ i] exI [of _ "xs @ [c]"]) (auto simp del: map_append)
qed

lemma app_step_at:
  assumes "app_step x S S'" "apps_at i xs e S"
  shows "apps_inv e S'"
proof -
  have ok: "sched_at i xs (us_kernel S)" "numbered (us_kernel S)" "current (us_kernel S) = Some i" "pid_blind (us_app S i)"
    using assms(2) by (simp_all add: apps_at_def sched_at_def)
  note go = apps_at_go_on [OF assms(2)]
  have same: "numbered k" if "procs k = procs (us_kernel S)" for k using ok(2) that by (simp add: numbered_def)
  from assms(1) show ?thesis
  proof cases
    case (new i' v f U r k)
    then have r: "us_app S i = Sem_new v f" "r = 0" "sched_at i xs k" "numbered k" using ok sem_calls_sched(1) [OF ok(1)] same by auto
    then show ?thesis using go [of k "f 0" "[]"] ok(3,4) new(1,2) by simp
  next
    case (P i' j a U u k)
    then have r: "us_app S i = Sem_P j a" "sched_at i xs k" "numbered k" using ok sem_calls_sched(2) [OF ok(1)] same by auto
    then show ?thesis using go [of k a "[]"] ok(3,4) P(1,2) by simp
  next
    case (V i' j a U u k)
    then have r: "us_app S i = Sem_V j a" "sched_at i xs k" "numbered k" using ok sem_calls_sched(3) [OF ok(1)] same by auto
    then show ?thesis using go [of k a "[]"] ok(3,4) V(1,2) by simp
  next
    case (forks i' f U r k)
    then show ?thesis using apps_at_fork [OF assms(2)] fork_sched [OF ok(1,2)] ok(3) by auto
  next
    case (prints i' fmt vs a m s vl U b r k m')
    then have r: "us_app S i = Printu fmt vs a" "sched_at i xs k" "numbered k" using ok print_sched [OF ok(1)] same by auto
    then show ?thesis using go [of k a "[(fmt, vs)]"] ok(3,4) prints(1,2) by (simp add: split_beta Let_def)
  next
    case (exits i' c U tf st k)
    then have c: "us_app S i = Exit c" using ok(3) by simp
    from exit_user_sched [OF ok(1,2) exits(4)] obtain j ys where j: "xs = j # ys" "sched_at j ys k" "numbered k" "us_app S i = Exit c"
      using c by blast
    from assms(2) j(1,4) obtain n rest where "run_queue_apps n (Exit c # map (us_app S) xs) = Some rest" "us_out S @ rest = e"
      by (auto simp: apps_at_def)
    then obtain m where "run_queue_apps m (map (us_app S) xs) = Some rest" "us_out S @ rest = e" by (auto simp: run_queue_Cons)
    then have "apps_at j ys e S'" using assms(2) j exits(1) by (auto simp: apps_at_def)
    then show ?thesis by (auto simp: apps_inv_def)
  qed
qed

interpretation app_run: invariant_system "apps_inv e" "app_step x" "apps_inv e" for x e
proof unfold_locales
  show "apps_inv e t" if "app_step x s t" "apps_inv e s" for s t using that app_step_at unfolding apps_inv_def [of e s] by blast
qed

section \<open>What the applications print\<close>

lemma child_blind: "r \<noteq> 0 \<Longrightarrow> child_loop m c0 c1 r is = child_loop m c0 c1 1 is"
  by (induction "is") simp_all

lemma loops_blind [simp]:
  "pid_blind (child_loop m c0 c1 p is)" "pid_blind (parent_loop m c0 is)" "pid_blind (take_loop s is a) = pid_blind a"
  by (induction "is") simp_all

lemma apps_blind: "pid_blind app_semaphore" "pid_blind app_semaphore2"
  by (auto simp: app_semaphore_def app_semaphore2_def simp del: upto_rec_numeral intro: child_blind)

lemma run_loops [simp]:
  "run_app (child_loop m c0 c1 p is) = (map (\<lambda>i. (''Child%d print %d\<newline>'', [if p = 0 then 1 else 0, i])) is, [])"
  "run_app (parent_loop m c0 is) = (map (\<lambda>i. (''Parent print %d\<newline>'', [i])) is, [])"
  "run_app (take_loop s is a) = (map (\<lambda>i. (''Parent got %d source\<newline>'', [i])) is @ fst (run_app a), snd (run_app a))"
  by (induction "is") (simp_all add: split_beta Let_def)

definition semaphore_output :: "(string \<times> int list) list" where
  "semaphore_output = map (\<lambda>i. (''Parent print %d\<newline>'', [i])) [0..9] @
     map (\<lambda>i. (''Child%d print %d\<newline>'', [0, i])) [0..9] @ map (\<lambda>i. (''Child%d print %d\<newline>'', [1, i])) [0..9]"

definition semaphore2_output :: "(string \<times> int list) list" where
  "semaphore2_output = [(''Parent got %d source\<newline>'', [0]), (''Parent got %d source\<newline>'', [1]), (''Parent working\<newline>'', []),
     (''Finished\<newline>'', []), (''Product resource\<newline>'', []), (''Product resource\<newline>'', [])]"

lemma run_semaphore: "run_queue_apps 3 [app_semaphore] = Some semaphore_output"
  by (simp add: app_semaphore_def semaphore_output_def numeral_3_eq_3 Let_def del: upto_rec_numeral)

lemma run_semaphore2: "run_queue_apps 3 [app_semaphore2] = Some semaphore2_output"
  by (simp add: app_semaphore2_def semaphore2_output_def numeral_3_eq_3 Let_def upto_rec1)



end
