(* ===== verification/Pke_Stat.thy ===== *)
theory Pke_Stat
  imports Pke_File_Thms
begin

text \<open>
  The attributes of a host file, \<^verbatim>\<open>copy_stat\<close> and \<^verbatim>\<open>spike_file_stat\<close> of \<^verbatim>\<open>spike_interface/spike_file.c\<close>.
  \<^verbatim>\<open>struct stat\<close> is declared by the headers of the compiler: the conversion to the type of each member is a parameter.
\<close>

section \<open>Copying the attributes\<close>

record frontend_stat =
  fs_dev :: uint64
  fs_ino :: uint64
  fs_mode :: uint32
  fs_nlink :: uint32
  fs_uid :: uint32
  fs_gid :: uint32
  fs_rdev :: uint64
  fs_size :: uint64
  fs_blksize :: uint32
  fs_blocks :: uint64
  fs_atime :: uint64
  fs_mtime :: uint64
  fs_ctime :: uint64

text \<open>The structure as it lies in memory, of 128 bytes; the padding is not read.\<close>

definition frontend_stat_at :: "uint64 \<Rightarrow> bytes \<Rightarrow> frontend_stat" where
  "frontend_stat_at a m =
     \<lparr>fs_dev = load_word a m, fs_ino = load_word (a + 8) m, fs_mode = load32 (a + 16) m, fs_nlink = load32 (a + 20) m,
      fs_uid = load32 (a + 24) m, fs_gid = load32 (a + 28) m, fs_rdev = load_word (a + 32) m, fs_size = load_word (a + 48) m,
      fs_blksize = load32 (a + 56) m, fs_blocks = load_word (a + 64) m, fs_atime = load_word (a + 72) m,
      fs_mtime = load_word (a + 88) m, fs_ctime = load_word (a + 104) m\<rparr>"

record 'v stat =
  st_dev :: 'v
  st_ino :: 'v
  st_mode :: 'v
  st_nlink :: 'v
  st_uid :: 'v
  st_gid :: 'v
  st_rdev :: 'v
  st_size :: 'v
  st_blksize :: 'v
  st_blocks :: 'v
  st_atime :: 'v
  st_mtime :: 'v
  st_ctime :: 'v

text \<open>The conversions that the assignments make, by the name of the member.\<close>

record 'v stat_types =
  to64 :: "string \<Rightarrow> uint64 \<Rightarrow> 'v"
  to32 :: "string \<Rightarrow> uint32 \<Rightarrow> 'v"

definition copy_stat :: "'v stat_types \<Rightarrow> frontend_stat \<Rightarrow> 'v stat" where
  "copy_stat C src =
     \<lparr>st_dev = to64 C ''st_dev'' (fs_dev src), st_ino = to64 C ''st_ino'' (fs_ino src), st_mode = to32 C ''st_mode'' (fs_mode src),
      st_nlink = to32 C ''st_nlink'' (fs_nlink src), st_uid = to32 C ''st_uid'' (fs_uid src), st_gid = to32 C ''st_gid'' (fs_gid src),
      st_rdev = to64 C ''st_rdev'' (fs_rdev src), st_size = to64 C ''st_size'' (fs_size src),
      st_blksize = to32 C ''st_blksize'' (fs_blksize src), st_blocks = to64 C ''st_blocks'' (fs_blocks src),
      st_atime = to64 C ''st_atime'' (fs_atime src), st_mtime = to64 C ''st_mtime'' (fs_mtime src),
      st_ctime = to64 C ''st_ctime'' (fs_ctime src)\<rparr>"

text \<open>\<^verbatim>\<open>spike_file_stat\<close>; the local \<^verbatim>\<open>buf\<close> is at the address \<open>a\<close>, and the \<^verbatim>\<open>long\<close> is returned as an \<^verbatim>\<open>int\<close>.\<close>

definition spike_file_stat ::
  "'d henv \<Rightarrow> 'v stat_types \<Rightarrow> nat \<Rightarrow> uint64 \<Rightarrow> 'd ftable \<Rightarrow> (int \<times> 'v stat \<times> 'd ftable) outcome" where
  "spike_file_stat E C f a t =
     (if f \<ge> MAX_FILES then Some (Inl OutOfBounds)
      else bindO (file_syscall E HTIFSYS_fstat [word_of_int (kfd (spike_files t ! f)), a, 0, 0, 0, 0, 0] t) (\<lambda>(ret, t).
        returnO (sint (ucast ret :: uint32), copy_stat C (frontend_stat_at a (hmem (ft_io t))), t)))"

section \<open>What is copied\<close>

text \<open>
  The structure of the caller gets what the buffer holds after the call: the attributes that the host wrote there; but when the
  host fails and writes nothing, what happened to be on the stack.
\<close>

lemma spike_file_stat_ok:
  assumes "atomics_ok (he_at E)" "host_serves (he_host E) (he_magic E) serve" "io_idle (ft_io t)" "f < MAX_FILES"
    and "served E serve [HTIFSYS_fstat, word_of_int (kfd (spike_files t ! f)), a, 0, 0, 0, 0, 0] (ft_io t) = (ret, io)"
  shows "spike_file_stat E C f a t = returnO (sint (ucast ret :: uint32), copy_stat C (frontend_stat_at a (hmem io)), t\<lparr>ft_io := io\<rparr>)"
  using file_syscall_ok [OF assms(1-3)] assms(4,5) by (simp add: spike_file_stat_def)

lemma stat_copies_stack:
  assumes "atomics_ok (he_at E)" "host_serves (he_host E) (he_magic E) serve" "io_idle (ft_io t)" "f < MAX_FILES"
    and fails: "\<And>s. hd (magic_mem s) = HTIFSYS_fstat \<Longrightarrow> serve s = s\<lparr>magic_mem := -5 # tl (magic_mem s)\<rparr>"
  shows "\<exists>t'. spike_file_stat E C f a t = returnO (-5, copy_stat C (frontend_stat_at a (hmem (ft_io t))), t')"
proof -
  let ?args = "[HTIFSYS_fstat, word_of_int (kfd (spike_files t ! f)), a, 0, 0, 0, 0, 0]"
  obtain ret io where s: "served E serve ?args (ft_io t) = (ret, io)" by (cases "served E serve ?args (ft_io t)")
  then have "ret = -5" "hmem io = hmem (ft_io t)" using fails by (auto simp: served_def Let_def)
  moreover have "sint (ucast (-5 :: uint64) :: uint32) = -5" by simp
  ultimately show ?thesis using spike_file_stat_ok [OF assms(1-4) s, of C] by simp
qed

end
