(* ===== verification/Pke_Vmspace.thy ===== *)
theory Pke_Vmspace
  imports Pke_Reach
begin

text \<open>
  The debug output \<^verbatim>\<open>print_proc_vmspace\<close> of \<^verbatim>\<open>kernel/vmm.c\<close>, on the console of \<^verbatim>\<open>sprint\<close>.
\<close>

text \<open>The addresses of the string literals, and of the buffer that \<^verbatim>\<open>sprint\<close> renders in.\<close>

record vm_messages =
  vm_buf :: uint64
  vm_title :: uint64
  vm_region :: uint64
  vm_type :: "uint32 \<Rightarrow> uint64"
  vm_mapped :: uint64

definition vm_print :: "'d henv \<Rightarrow> vm_messages \<Rightarrow> uint64 \<Rightarrow> (nat \<Rightarrow> uint64) \<Rightarrow> 'd loader \<Rightarrow> 'd loader outcome" where
  "vm_print E V fmt vl s = bindO (sprint E (vm_buf V) fmt vl (ld_files s)) (\<lambda>t. returnO (s\<lparr>ld_files := t\<rparr>))"

text \<open>The types with a case in the switch; the literal of each is \<open>vm_type\<close> of it.\<close>

definition vm_cases :: "uint32 list" where
  "vm_cases = [CODE_SEGMENT, DATA_SEGMENT, STACK_SEGMENT, CONTEXT_SEGMENT, SYSTEM_SEGMENT]"

fun vmspace_loop :: "'d henv \<Rightarrow> vm_messages \<Rightarrow> process \<Rightarrow> nat list \<Rightarrow> 'd loader \<Rightarrow> 'd loader outcome" where
  "vmspace_loop E V proc [] s = returnO s"
| "vmspace_loop E V proc (i # is) s =
     bindO (in_kernel (\<lambda>k. bindE (region_at (mapped_info proc) i k) (\<lambda>r. Inr (r, k))) s) (\<lambda>(r, s).
     bindO (vm_print E V (vm_region V) (\<lambda>j. if j = 0 then mr_va r else ucast (mr_npages r)) s) (\<lambda>s.
     bindO (if mr_seg_type r \<in> set vm_cases then vm_print E V (vm_type V (mr_seg_type r)) (\<lambda>_. 0) s else returnO s) (\<lambda>s.
     bindO (in_kernel (with_vm (lookup_pa (pagetable proc) (mr_va r))) s) (\<lambda>(pa, s).
     bindO (vm_print E V (vm_mapped V) (\<lambda>_. pa) s) (\<lambda>s.
     vmspace_loop E V proc is s)))))"

definition print_proc_vmspace :: "'d henv \<Rightarrow> vm_messages \<Rightarrow> nat \<Rightarrow> 'd loader \<Rightarrow> 'd loader outcome" where
  "print_proc_vmspace E V p s =
     bindO (in_kernel (\<lambda>k. bindE (proc_at p k) (\<lambda>pr. Inr (pr, k))) s) (\<lambda>(proc, s).
     bindO (vm_print E V (vm_title V) (\<lambda>_. pid proc) s) (\<lambda>s.
     vmspace_loop E V proc [0..<total_mapped_region proc] s))"

text \<open>Printing changes neither memory nor the processes, and gives a heap region no type.\<close>

lemma heap_has_no_type: "HEAP_SEGMENT \<notin> set vm_cases"
  by (simp add: vm_cases_def segment_defs)

lemma vm_print_kernel: "vm_print E V fmt vl s = returnO s' \<Longrightarrow> ld_kernel s' = ld_kernel s"
  by (auto simp: vm_print_def bindO_returnO_iff)

lemma walk_loop_reads: "walk_loop l target va False pt s = Inr (r, s') \<Longrightarrow> s' = s"
proof (induction l target va False pt s rule: walk_loop.induct)
  case (1 l target va pt s)
  then show ?case
    by (subst (asm) (2) walk_loop.simps) (auto simp: bindE_Inr_iff walk_step_def Let_def mem_read_def split: if_splits option.splits)
qed

lemma lookup_pa_reads: "lookup_pa dir va v = Inr (pa, v') \<Longrightarrow> v' = v"
  by (auto simp: lookup_pa_def page_walk_def guardE_def bindE_Inr_iff mem_read_def split: if_splits dest!: walk_loop_reads)

lemma vmspace_loop_observes: "vmspace_loop E V proc is s = returnO s' \<Longrightarrow> ld_kernel s' = ld_kernel s"
proof (induction "is" arbitrary: s)
  case (Cons i "is")
  then show ?case
    by (auto simp: bindO_returnO_iff in_kernel_Inr bindE_Inr_iff with_vm_def split: if_splits
        dest!: Cons.IH vm_print_kernel lookup_pa_reads)
qed simp

lemma print_proc_vmspace_observes: "print_proc_vmspace E V p s = returnO s' \<Longrightarrow> ld_kernel s' = ld_kernel s"
  by (auto simp: print_proc_vmspace_def bindO_returnO_iff in_kernel_Inr bindE_Inr_iff dest!: vmspace_loop_observes vm_print_kernel)

end
