(* ===== verification/Pke_Fdt.thy ===== *)
theory Pke_Fdt
  imports Pke_Strings_Thms Pke_Outcome "HOL-Library.Signed_Division"
begin

text \<open>
  The flattened device tree: the scanner of \<^verbatim>\<open>spike_interface/dts_parse.c\<close>, the memory detection of
  \<^verbatim>\<open>spike_interface/spike_memory.c\<close> and the discovery half of \<^verbatim>\<open>spike_interface/spike_htif.c\<close>, on
  the byte memory of the string functions. A scan of a malformed blob may never end, so the value
  of the scanner is an option; where it ends it returns or fails.
\<close>

section \<open>Words of the blob\<close>

text \<open>The conversion from the big-endian words of the blob.\<close>

definition bswap :: "uint32 \<Rightarrow> uint32" where
  "bswap x =
     (let y = push_bit 8 (x AND 0x00FF00FF) OR drop_bit 8 (x AND 0xFF00FF00)
      in push_bit 16 (y AND 0x0000FFFF) OR drop_bit 16 (y AND 0xFFFF0000))"

text \<open>\<^verbatim>\<open>strcmp(s, "...") == 0\<close> for a string literal.\<close>

fun streq :: "uint64 \<Rightarrow> string \<Rightarrow> bytes \<Rightarrow> bool" where
  "streq s [] m \<longleftrightarrow> m s = 0"
| "streq s (c # cs) m \<longleftrightarrow> m s = of_char c \<and> streq (s + 1) cs m"

declare streq.simps [simp del]

section \<open>The scanner\<close>

definition FDT_MAGIC :: uint32 where "FDT_MAGIC = 0xd00dfeed"
definition FDT_VERSION :: uint32 where "FDT_VERSION = 17"
definition FDT_BEGIN_NODE :: uint32 where "FDT_BEGIN_NODE = 1"
definition FDT_END_NODE :: uint32 where "FDT_END_NODE = 2"
definition FDT_PROP :: uint32 where "FDT_PROP = 3"
definition FDT_NOP :: uint32 where "FDT_NOP = 4"
definition FDT_END :: uint32 where "FDT_END = 9"

lemmas fdt_tokens =
  FDT_BEGIN_NODE_def FDT_END_NODE_def FDT_PROP_def FDT_NOP_def FDT_END_def

text \<open>
  A node under scan. The node structures live on the stack of the recursive scanner and point to
  the one of their parent, whose cell counts no longer change once a child has been opened.
\<close>

datatype fdt_scan_node = Fdt_Node
  (parent: "fdt_scan_node option") (node_name: uint64) (address_cells: int) (size_cells: int)

record fdt_scan_prop =
  prop_node :: "fdt_scan_node option"
  prop_name :: uint64
  prop_value :: uint64
  prop_len :: int

text \<open>The call-backs, on the memory and the state behind \<^verbatim>\<open>extra\<close>; \<open>None\<close> is a null pointer.\<close>

record 'x fdt_cb =
  cb_open :: "(fdt_scan_node \<Rightarrow> bytes \<Rightarrow> 'x \<Rightarrow> 'x outcome) option"
  cb_prop :: "(fdt_scan_prop \<Rightarrow> bytes \<Rightarrow> 'x \<Rightarrow> 'x outcome) option"
  cb_done :: "(fdt_scan_node \<Rightarrow> bytes \<Rightarrow> 'x \<Rightarrow> 'x outcome) option"
  cb_close :: "(fdt_scan_node \<Rightarrow> bytes \<Rightarrow> 'x \<Rightarrow> (int \<times> 'x) outcome) option"

text \<open>\<^verbatim>\<open>if (!last && node && cb->done) cb->done(node, cb->extra)\<close>.\<close>

definition call_done :: "'x fdt_cb \<Rightarrow> bool \<Rightarrow> fdt_scan_node option \<Rightarrow> bytes \<Rightarrow> 'x \<Rightarrow> 'x outcome" where
  "call_done cb lst node m x =
     (case (node, cb_done cb) of (Some n, Some done_fn) \<Rightarrow> if \<not> lst then done_fn n m x else returnO x | _ \<Rightarrow> returnO x)"

definition call_open :: "'x fdt_cb \<Rightarrow> fdt_scan_node \<Rightarrow> bytes \<Rightarrow> 'x \<Rightarrow> 'x outcome" where
  "call_open cb child m x = (case cb_open cb of Some open_fn \<Rightarrow> open_fn child m x | None \<Rightarrow> returnO x)"

definition call_prop :: "'x fdt_cb \<Rightarrow> fdt_scan_prop \<Rightarrow> bytes \<Rightarrow> 'x \<Rightarrow> 'x outcome" where
  "call_prop cb prop m x =
     (case cb_prop cb of Some prop_fn \<Rightarrow> prop_fn prop m x | None \<Rightarrow> Some (Inl NullDeref))"

text \<open>The overwriting of a deleted node: \<^verbatim>\<open>while (lex != lex_next) *lex++ = bswap(FDT_NOP)\<close>.\<close>

partial_function (option) nop_loop :: "uint64 \<Rightarrow> uint64 \<Rightarrow> bytes \<Rightarrow> bytes option" where
  "nop_loop lx lex_next m =
     (if lx \<noteq> lex_next then nop_loop (lx + 4) lex_next (store32 lx (bswap FDT_NOP) m) else Some m)"

definition call_close ::
  "'x fdt_cb \<Rightarrow> uint64 \<Rightarrow> uint64 \<Rightarrow> fdt_scan_node \<Rightarrow> bytes \<Rightarrow> 'x \<Rightarrow> (bytes \<times> 'x) outcome" where
  "call_close cb lx lex_next child m x =
     (case cb_close cb of
        None \<Rightarrow> returnO (m, x)
      | Some close_fn \<Rightarrow>
          bindO (close_fn child m x) (\<lambda>(r, x).
            if r = -1 then Option.bind (nop_loop lx lex_next m) (\<lambda>m. returnO (m, x)) else returnO (m, x)))"

text \<open>The stores to \<^verbatim>\<open>node->address_cells\<close> and \<^verbatim>\<open>node->size_cells\<close> that a property causes.\<close>

fun note_cells :: "uint64 \<Rightarrow> uint64 \<Rightarrow> bytes \<Rightarrow> fdt_scan_node \<Rightarrow> fdt_scan_node" where
  "note_cells name value m (Fdt_Node p n ac sc) =
     Fdt_Node p n
       (if streq name ''#address-cells'' m then sint (bswap (load32 value m)) else ac)
       (if streq name ''#size-cells'' m then sint (bswap (load32 value m)) else sc)"

text \<open>
  The loop of \<^verbatim>\<open>fdt_scan_helper\<close>. The structure \<^verbatim>\<open>child\<close> is initialised once, before the loop: its
  cell counts, \<open>ac\<close> and \<open>sc\<close> here, pass from one child to the next. The result is the new position,
  the node with the cell counts noted, the memory and the state of the call-backs.
\<close>

partial_function (option) fdt_scan_loop ::
  "uint64 \<Rightarrow> uint64 \<Rightarrow> fdt_scan_node option \<Rightarrow> 'x fdt_cb \<Rightarrow> bool \<Rightarrow> int \<Rightarrow> int \<Rightarrow> bytes \<Rightarrow> 'x \<Rightarrow>
     (uint64 \<times> fdt_scan_node option \<times> bytes \<times> 'x) outcome" where
  "fdt_scan_loop lx strings node cb lst ac sc m x =
     (let token = bswap (load32 lx m) in
      if token = FDT_NOP then fdt_scan_loop (lx + 4) strings node cb lst ac sc m x
      else if token = FDT_PROP then
        (if lst then Some (Inl (AssertFail ''!last''))
         else
           let name = strings + ucast (bswap (load32 (lx + 8) m));
               len = sint (bswap (load32 (lx + 4) m));
               value = lx + 12;
               node = map_option (note_cells name value m) node in
           if len + 3 \<ge> 2 ^ 31 then Some (Inl Undefined)
           else bindO (call_prop cb \<lparr>prop_node = node, prop_name = name, prop_value = value, prop_len = len\<rparr> m x) (\<lambda>x.
             fdt_scan_loop (lx + 4 * word_of_int (3 + (len + 3) sdiv 4)) strings node cb lst ac sc m x))
      else if token = FDT_BEGIN_NODE then
        bindO (call_done cb lst node m x) (\<lambda>x.
        let child = Fdt_Node node (lx + 4) ac sc in
        bindO (call_open cb child m x) (\<lambda>x.
        Option.bind (strlen (lx + 4) m) (\<lambda>n.
        bindO (fdt_scan_loop (lx + 4 * (2 + n div 4)) strings (Some child) cb False 2 1 m x) (\<lambda>(lex_next, child', m, x).
        let child = (case child' of None \<Rightarrow> child | Some c \<Rightarrow> c) in
        bindO (call_close cb lx lex_next child m x) (\<lambda>(m, x).
        fdt_scan_loop lex_next strings node cb True (address_cells child) (size_cells child) m x)))))
      else if token = FDT_END_NODE then
        bindO (call_done cb lst node m x) (\<lambda>x. returnO (lx + 4, node, m, x))
      else
        bindO (call_done cb lst node m x) (\<lambda>x. returnO (lx, node, m, x)))"

definition fdt_scan_helper ::
  "uint64 \<Rightarrow> uint64 \<Rightarrow> fdt_scan_node option \<Rightarrow> 'x fdt_cb \<Rightarrow> bytes \<Rightarrow> 'x \<Rightarrow>
     (uint64 \<times> fdt_scan_node option \<times> bytes \<times> 'x) outcome" where
  "fdt_scan_helper lx strings node cb m x = fdt_scan_loop lx strings node cb False 2 1 m x"

text \<open>
  \<^verbatim>\<open>fdt_scan\<close>. The words of the header it reads are \<^verbatim>\<open>magic\<close> at offset 0, \<^verbatim>\<open>off_dt_struct\<close> at 8,
  \<^verbatim>\<open>off_dt_strings\<close> at 12 and \<^verbatim>\<open>last_comp_version\<close> at 24.
\<close>

definition fdt_scan :: "uint64 \<Rightarrow> 'x fdt_cb \<Rightarrow> bytes \<Rightarrow> 'x \<Rightarrow> (bytes \<times> 'x) outcome" where
  "fdt_scan fdt cb m x =
     (if bswap (load32 fdt m) \<noteq> FDT_MAGIC \<or> bswap (load32 (fdt + 24) m) > FDT_VERSION then returnO (m, x)
      else
        let strings = fdt + ucast (bswap (load32 (fdt + 12) m));
            lx = fdt + ucast (bswap (load32 (fdt + 8) m)) in
        bindO (fdt_scan_helper lx strings None cb m x) (\<lambda>(_, _, m, x). returnO (m, x)))"

text \<open>The cells of an address or a size, most significant first.\<close>

fun cells_loop :: "nat \<Rightarrow> uint64 \<Rightarrow> uint64 \<Rightarrow> bytes \<Rightarrow> uint64 \<times> uint64" where
  "cells_loop 0 value result m = (value, result)"
| "cells_loop (Suc k) value result m =
     cells_loop k (value + 4) (push_bit 32 result + ucast (bswap (load32 value m))) m"

definition fdt_get_address :: "fdt_scan_node option \<Rightarrow> uint64 \<Rightarrow> bytes \<Rightarrow> (uint64 \<times> uint64) res" where
  "fdt_get_address node value m =
     (case node of None \<Rightarrow> Inl NullDeref | Some n \<Rightarrow> Inr (cells_loop (nat (address_cells n)) value 0 m))"

definition fdt_get_size :: "fdt_scan_node option \<Rightarrow> uint64 \<Rightarrow> bytes \<Rightarrow> (uint64 \<times> uint64) res" where
  "fdt_get_size node value m =
     (case node of None \<Rightarrow> Inl NullDeref | Some n \<Rightarrow> Inr (cells_loop (nat (size_cells n)) value 0 m))"

section \<open>The size of memory\<close>

record mem_scan =
  ms_memory :: bool
  ms_reg_value :: uint64
  ms_reg_len :: int

text \<open>The state of the scan is \<^verbatim>\<open>scan\<close> and the global \<^verbatim>\<open>g_mem_size\<close>.\<close>

type_synonym mem_state = "mem_scan \<times> uint64"

definition mem_open :: "fdt_scan_node \<Rightarrow> bytes \<Rightarrow> mem_state \<Rightarrow> mem_state outcome" where
  "mem_open node m = (\<lambda>(scan, g). returnO (\<lparr>ms_memory = False, ms_reg_value = 0, ms_reg_len = 0\<rparr>, g))"

definition mem_prop :: "fdt_scan_prop \<Rightarrow> bytes \<Rightarrow> mem_state \<Rightarrow> mem_state outcome" where
  "mem_prop prop m = (\<lambda>(scan, g).
     if streq (prop_name prop) ''device_type'' m \<and> streq (prop_value prop) ''memory'' m
     then returnO (scan\<lparr>ms_memory := True\<rparr>, g)
     else if streq (prop_name prop) ''reg'' m
     then returnO (scan\<lparr>ms_reg_value := prop_value prop, ms_reg_len := prop_len prop\<rparr>, g)
     else returnO (scan, g))"

text \<open>The loop over the ranges of \<^verbatim>\<open>reg\<close>; \<open>self\<close> is the address of the code of \<^verbatim>\<open>mem_done\<close>.\<close>

partial_function (option) reg_loop ::
  "uint64 \<Rightarrow> fdt_scan_node option \<Rightarrow> uint64 \<Rightarrow> uint64 \<Rightarrow> bytes \<Rightarrow> uint64 \<Rightarrow> (uint64 \<times> uint64) outcome" where
  "reg_loop self par value end m g =
     (if sint (end - value) > 0 then
        bindO (Some (fdt_get_address par value m)) (\<lambda>(value, base).
        bindO (Some (fdt_get_size par value m)) (\<lambda>(value, size).
        reg_loop self par value end m (if base \<le> self \<and> self \<le> base + size then size else g)))
      else returnO (value, g))"

definition mem_done :: "uint64 \<Rightarrow> fdt_scan_node \<Rightarrow> bytes \<Rightarrow> mem_state \<Rightarrow> mem_state outcome" where
  "mem_done self node m = (\<lambda>(scan, g).
     let value = ms_reg_value scan;
         end = value + 4 * word_of_int (ms_reg_len scan sdiv 4) in
     if \<not> ms_memory scan then returnO (scan, g)
     else if \<not> (ms_reg_value scan \<noteq> 0 \<and> ms_reg_len scan smod 4 = 0)
     then Some (Inl (AssertFail ''scan->reg_value && scan->reg_len % 4 == 0''))
     else bindO (reg_loop self (parent node) value end m g) (\<lambda>(value, g).
       if end = value then returnO (scan, g) else Some (Inl (AssertFail ''end == value''))))"

definition mem_cb :: "uint64 \<Rightarrow> mem_state fdt_cb" where
  "mem_cb self = \<lparr>cb_open = Some mem_open, cb_prop = Some mem_prop, cb_done = Some (mem_done self), cb_close = None\<rparr>"

text \<open>\<^verbatim>\<open>query_mem\<close>, with the indeterminate initial value of its local \<^verbatim>\<open>scan\<close>; the result is \<^verbatim>\<open>g_mem_size\<close>.\<close>

definition query_mem :: "uint64 \<Rightarrow> mem_scan \<Rightarrow> uint64 \<Rightarrow> bytes \<Rightarrow> uint64 outcome" where
  "query_mem self scan fdt m =
     bindO (fdt_scan fdt (mem_cb self) m (scan, 0)) (\<lambda>(_, _, g).
       if g > 0 then returnO g else Some (Inl (AssertFail ''g_mem_size > 0'')))"

section \<open>The host interface in the device tree\<close>

type_synonym htif_state = "bool \<times> uint64"

definition htif_open :: "fdt_scan_node \<Rightarrow> bytes \<Rightarrow> htif_state \<Rightarrow> htif_state outcome" where
  "htif_open node m = (\<lambda>(compat, htif). returnO (False, htif))"

definition htif_prop :: "fdt_scan_prop \<Rightarrow> bytes \<Rightarrow> htif_state \<Rightarrow> htif_state outcome" where
  "htif_prop prop m = (\<lambda>(compat, htif).
     returnO (if streq (prop_name prop) ''compatible'' m \<and> streq (prop_value prop) ''ucb,htif0'' m then True
              else compat, htif))"

definition htif_done :: "fdt_scan_node \<Rightarrow> bytes \<Rightarrow> htif_state \<Rightarrow> htif_state outcome" where
  "htif_done node m = (\<lambda>(compat, htif). if \<not> compat then returnO (compat, htif) else returnO (compat, 1))"

definition htif_cb :: "htif_state fdt_cb" where
  "htif_cb = \<lparr>cb_open = Some htif_open, cb_prop = Some htif_prop, cb_done = Some htif_done, cb_close = None\<rparr>"

text \<open>\<^verbatim>\<open>query_htif\<close>, from the global \<^verbatim>\<open>htif\<close> to its new value.\<close>

definition query_htif :: "bool \<Rightarrow> uint64 \<Rightarrow> bytes \<Rightarrow> uint64 \<Rightarrow> uint64 outcome" where
  "query_htif compat0 fdt m htif =
     bindO (fdt_scan fdt htif_cb m (compat0, htif)) (\<lambda>(_, _, htif). returnO htif)"

end
