(* ===== verification/Pke_Machine.thy ===== *)
theory Pke_Machine
  imports Pke_Fdt Pke_File
begin

text \<open>
  Machine mode, \<^verbatim>\<open>kernel/machine/minit.c\<close> and \<^verbatim>\<open>kernel/machine/mtrap.c\<close>: the start of the machine, the
  delegation of traps to supervisor mode, the timer, and the dispatch of machine-mode traps. The
  output of \<^verbatim>\<open>sprint\<close> is left out here as in the kernel proper.
\<close>

section \<open>Fields of the control registers\<close>

definition MSTATUS_MPP_MASK :: uint64 where "MSTATUS_MPP_MASK = push_bit 11 3"
definition MSTATUS_MPP_M :: uint64 where "MSTATUS_MPP_M = push_bit 11 3"
definition MSTATUS_MPP_S :: uint64 where "MSTATUS_MPP_S = push_bit 11 1"
definition MSTATUS_MPP_U :: uint64 where "MSTATUS_MPP_U = push_bit 11 0"
definition MSTATUS_MIE :: uint64 where "MSTATUS_MIE = push_bit 3 1"
definition MSTATUS_MPIE :: uint64 where "MSTATUS_MPIE = push_bit 7 1"

definition IRQ_S_EXT :: nat where "IRQ_S_EXT = 9"
definition IRQ_S_TIMER :: nat where "IRQ_S_TIMER = 5"
definition IRQ_S_SOFT :: nat where "IRQ_S_SOFT = 1"

definition MIP_SEIP :: uint64 where "MIP_SEIP = push_bit IRQ_S_EXT 1"
definition MIP_SSIP :: uint64 where "MIP_SSIP = push_bit IRQ_S_SOFT 1"
definition MIP_STIP :: uint64 where "MIP_STIP = push_bit IRQ_S_TIMER 1"

definition SIP_SSIP :: uint64 where "SIP_SSIP = push_bit 1 1"

definition SIE_SEIE :: uint64 where "SIE_SEIE = push_bit 9 1"
definition SIE_STIE :: uint64 where "SIE_STIE = push_bit 5 1"
definition SIE_SSIE :: uint64 where "SIE_SSIE = push_bit 1 1"

definition MIE_MTIE :: uint64 where "MIE_MTIE = push_bit 7 1"

definition CLINT :: uint64 where "CLINT = 0x2000000"
definition CLINT_MTIMECMP :: "uint64 \<Rightarrow> uint64" where "CLINT_MTIMECMP hartid = CLINT + 0x4000 + 8 * hartid"
definition CLINT_MTIME :: uint64 where "CLINT_MTIME = CLINT + 0xBFF8"
definition TIMER_INTERVAL :: uint64 where "TIMER_INTERVAL = 1000000"

lemmas machine_fields = MSTATUS_MPP_MASK_def MSTATUS_MPP_M_def MSTATUS_MPP_S_def MSTATUS_MPP_U_def
  MSTATUS_MIE_def MSTATUS_MPIE_def IRQ_S_EXT_def IRQ_S_TIMER_def IRQ_S_SOFT_def MIP_SEIP_def MIP_SSIP_def
  MIP_STIP_def SIP_SSIP_def SIE_SEIE_def SIE_STIE_def SIE_SSIE_def MIE_MTIE_def

section \<open>The hart\<close>

text \<open>
  The control registers of a hart. \<^verbatim>\<open>sie\<close> and \<^verbatim>\<open>sip\<close> are no registers of their own: they show the bits
  of \<^verbatim>\<open>mie\<close> and \<^verbatim>\<open>mip\<close> that \<^verbatim>\<open>mideleg\<close> delegates. Which bits of a register can be written depends on
  the implementation; the masks are parameters.
\<close>

record csrs =
  misa :: uint64
  mideleg :: uint64
  medeleg :: uint64
  mie :: uint64
  mip :: uint64
  mstatus :: uint64
  mepc :: uint64
  mtvec :: uint64
  mscratch :: uint64
  mcause :: uint64

record hart_impl =
  wr_mideleg :: uint64
  wr_medeleg :: uint64
  wr_mie :: uint64
  wr_mstatus :: uint64
  wr_mepc :: uint64
  wr_mtvec :: uint64

datatype privilege = User | Supervisor | Machine

text \<open>The machine: the hart, the memory-mapped timer, the files and the globals that the start sets.\<close>

record 'd machine =
  m_csrs :: csrs
  m_clint :: "uint64 \<Rightarrow> uint64"
  m_priv :: privilege
  m_pc :: uint64
  m_files :: "'d ftable"
  m_htif :: uint64
  m_mem_size :: uint64

text \<open>\<^verbatim>\<open>csrw\<close> of \<open>v\<close> into a register that holds \<open>old\<close> and whose writable bits are \<open>wr\<close>.\<close>

definition csr_put :: "uint64 \<Rightarrow> uint64 \<Rightarrow> uint64 \<Rightarrow> uint64" where
  "csr_put wr v old = (v AND wr) OR (old AND NOT wr)"

definition write_sie :: "hart_impl \<Rightarrow> uint64 \<Rightarrow> csrs \<Rightarrow> csrs" where
  "write_sie H v c = c\<lparr>mie := csr_put (wr_mie H AND mideleg c) v (mie c)\<rparr>"

definition read_sie :: "csrs \<Rightarrow> uint64" where "read_sie c = mie c AND mideleg c"

text \<open>Of \<^verbatim>\<open>sip\<close>, only the software interrupt can be written.\<close>

definition write_sip :: "uint64 \<Rightarrow> csrs \<Rightarrow> csrs" where
  "write_sip v c = c\<lparr>mip := csr_put (MIP_SSIP AND mideleg c) v (mip c)\<rparr>"

definition read_sip :: "csrs \<Rightarrow> uint64" where "read_sip c = mip c AND mideleg c"

definition supports_extension :: "char \<Rightarrow> csrs \<Rightarrow> bool" where
  "supports_extension ext c \<longleftrightarrow> misa c AND push_bit (of_char ext - of_char CHR ''A'') 1 \<noteq> 0"

text \<open>\<^verbatim>\<open>mret\<close> enters the mode saved in \<^verbatim>\<open>MPP\<close>, restores \<^verbatim>\<open>MIE\<close> from \<^verbatim>\<open>MPIE\<close> and continues at \<^verbatim>\<open>mepc\<close>.\<close>

definition mpp :: "uint64 \<Rightarrow> privilege" where
  "mpp st = (if st AND MSTATUS_MPP_MASK = MSTATUS_MPP_M then Machine
             else if st AND MSTATUS_MPP_MASK = MSTATUS_MPP_S then Supervisor else User)"

definition mret :: "'d machine \<Rightarrow> 'd machine" where
  "mret s =
     (let c = m_csrs s;
          st = mstatus c;
          st' = (if st AND MSTATUS_MPIE \<noteq> 0 then st OR MSTATUS_MIE else st AND NOT MSTATUS_MIE) OR MSTATUS_MPIE
      in s\<lparr>m_priv := mpp st, m_pc := mepc c, m_csrs := c\<lparr>mstatus := st' AND NOT MSTATUS_MPP_MASK\<rparr>\<rparr>)"

section \<open>Starting the machine\<close>

text \<open>The addresses that the linker gives to the code and the data the start refers to, and the
  indeterminate contents of the locals of the two scans of the device tree.\<close>

record boot_image =
  at_s_start :: uint64
  at_mtrapvec :: uint64
  at_g_itrframe :: uint64
  at_mem_done :: uint64
  raw_compat :: bool
  raw_scan :: mem_scan

definition init_dtb :: "boot_image \<Rightarrow> uint64 \<Rightarrow> 'd machine \<Rightarrow> 'd machine outcome" where
  "init_dtb I dtb s =
     bindO (query_htif (raw_compat I) dtb (hmem (ft_io (m_files s))) (m_htif s)) (\<lambda>h.
     let s = s\<lparr>m_htif := h\<rparr> in
     bindO (query_mem (at_mem_done I) (raw_scan I) dtb (hmem (ft_io (m_files s)))) (\<lambda>g.
     returnO (s\<lparr>m_mem_size := g\<rparr>)))"

definition delegate_traps :: "hart_impl \<Rightarrow> csrs \<Rightarrow> csrs" where
  "delegate_traps H c =
     (if \<not> supports_extension CHR ''S'' c then c
      else
        let interrupts = MIP_SSIP OR MIP_STIP OR MIP_SEIP;
            exceptions = push_bit (unat CAUSE_MISALIGNED_FETCH) 1 OR push_bit (unat CAUSE_FETCH_PAGE_FAULT) 1 OR
                         push_bit (unat CAUSE_BREAKPOINT) 1 OR push_bit (unat CAUSE_LOAD_PAGE_FAULT) 1 OR
                         push_bit (unat CAUSE_STORE_PAGE_FAULT) 1 OR push_bit (unat CAUSE_USER_ECALL) 1;
            c = c\<lparr>mideleg := csr_put (wr_mideleg H) interrupts (mideleg c)\<rparr>
        in c\<lparr>medeleg := csr_put (wr_medeleg H) exceptions (medeleg c)\<rparr>)"

definition timerinit :: "hart_impl \<Rightarrow> uint64 \<Rightarrow> 'd machine \<Rightarrow> 'd machine" where
  "timerinit H hartid s =
     (let s = s\<lparr>m_clint := (m_clint s)(CLINT_MTIMECMP hartid := m_clint s CLINT_MTIME + TIMER_INTERVAL)\<rparr>;
          c = m_csrs s
      in s\<lparr>m_csrs := c\<lparr>mie := csr_put (wr_mie H) (mie c OR MIE_MTIE) (mie c)\<rparr>\<rparr>)"

text \<open>The writes of \<^verbatim>\<open>m_start\<close> to the control registers, up to the timer.\<close>

definition m_start_csrs :: "hart_impl \<Rightarrow> boot_image \<Rightarrow> csrs \<Rightarrow> csrs" where
  "m_start_csrs H I c =
     (let c = c\<lparr>mscratch := at_g_itrframe I\<rparr>;
          c = c\<lparr>mstatus := csr_put (wr_mstatus H) ((mstatus c AND NOT MSTATUS_MPP_MASK) OR MSTATUS_MPP_S) (mstatus c)\<rparr>;
          c = c\<lparr>mepc := csr_put (wr_mepc H) (at_s_start I) (mepc c)\<rparr>;
          c = c\<lparr>mtvec := csr_put (wr_mtvec H) (at_mtrapvec I) (mtvec c)\<rparr>;
          c = c\<lparr>mstatus := csr_put (wr_mstatus H) (mstatus c OR MSTATUS_MIE) (mstatus c)\<rparr>;
          c = delegate_traps H c
      in write_sie H (read_sie c OR SIE_SEIE OR SIE_STIE OR SIE_SSIE) c)"

definition m_start :: "'d henv \<Rightarrow> hart_impl \<Rightarrow> boot_image \<Rightarrow> uint64 \<Rightarrow> uint64 \<Rightarrow> 'd machine \<Rightarrow> 'd machine outcome" where
  "m_start E H I hartid dtb s =
     bindO (Some (spike_file_init E (m_files s))) (\<lambda>t.
     let s = s\<lparr>m_files := t\<rparr> in
     bindO (init_dtb I dtb s) (\<lambda>s.
     let s = s\<lparr>m_csrs := m_start_csrs H I (m_csrs s)\<rparr>;
         s = timerinit H hartid s
     in returnO (mret s)))"

section \<open>Machine-mode traps\<close>

definition handle_instruction_access_fault :: "'d machine \<Rightarrow> 'd machine res" where
  "handle_instruction_access_fault s = Inl (Panic ''Instruction access fault!'')"

definition handle_load_access_fault :: "'d machine \<Rightarrow> 'd machine res" where
  "handle_load_access_fault s = Inl (Panic ''Load access fault!'')"

definition handle_store_access_fault :: "'d machine \<Rightarrow> 'd machine res" where
  "handle_store_access_fault s = Inl (Panic ''Store/AMO access fault!'')"

definition handle_misaligned_load :: "'d machine \<Rightarrow> 'd machine res" where
  "handle_misaligned_load s = Inl (Panic ''Misaligned Load!'')"

definition handle_misaligned_store :: "'d machine \<Rightarrow> 'd machine res" where
  "handle_misaligned_store s = Inl (Panic ''Misaligned AMO!'')"

definition handle_timer :: "'d machine \<Rightarrow> 'd machine" where
  "handle_timer s =
     (let cpuid = 0;
          s = s\<lparr>m_clint := (m_clint s)(CLINT_MTIMECMP cpuid := m_clint s (CLINT_MTIMECMP cpuid) + TIMER_INTERVAL)\<rparr>
      in s\<lparr>m_csrs := write_sip SIP_SSIP (m_csrs s)\<rparr>)"

text \<open>\<^verbatim>\<open>handle_mtrap\<close>; the case of a load access fault has no \<^verbatim>\<open>break\<close> and runs into the next one.\<close>

definition handle_mtrap :: "'d machine \<Rightarrow> 'd machine res" where
  "handle_mtrap s =
     (let cause = mcause (m_csrs s) in
      if cause = CAUSE_MTIMER then Inr (handle_timer s)
      else if cause = CAUSE_FETCH_ACCESS then handle_instruction_access_fault s
      else if cause = CAUSE_LOAD_ACCESS then bindE (handle_load_access_fault s) handle_store_access_fault
      else if cause = CAUSE_STORE_ACCESS then handle_store_access_fault s
      else if cause = CAUSE_ILLEGAL_INSTRUCTION
      then Inl (Panic ''call handle_illegal_instruction to accomplish illegal instruction interception for lab1_2.'')
      else if cause = CAUSE_MISALIGNED_LOAD then handle_misaligned_load s
      else if cause = CAUSE_MISALIGNED_STORE then handle_misaligned_store s
      else Inl (Panic ''unexpected exception happened in M-mode.''))"

end
