(* ===== verification/Pke_Fdt_Thms.thy ===== *)
theory Pke_Fdt_Thms
  imports Pke_Fdt
begin

text \<open>
  Correctness of the device tree scanner: the words of the blob, device trees as a datatype with
  their encoding, the sequence of call-backs that a visit of the tree makes, the theorem that
  the scanner makes exactly this visit, and what the discovery of the host interface finds.
\<close>

section \<open>Big-endian words in memory\<close>

fun bytes_at :: "bytes \<Rightarrow> uint64 \<Rightarrow> uint8 list \<Rightarrow> bool" where
  "bytes_at m a [] \<longleftrightarrow> True"
| "bytes_at m a (b # bs) \<longleftrightarrow> m a = b \<and> bytes_at m (a + 1) bs"

lemma bytes_at_append [simp]:
  "bytes_at m a (xs @ ys) \<longleftrightarrow> bytes_at m a xs \<and> bytes_at m (a + word_of_nat (length xs)) ys"
  by (induction xs arbitrary: a) (auto simp: algebra_simps)

definition be32 :: "uint32 \<Rightarrow> uint8 list" where
  "be32 w = [ucast (drop_bit 24 w), ucast (drop_bit 16 w), ucast (drop_bit 8 w), ucast w]"

lemma length_be32 [simp]: "length (be32 w) = 4"
  by (simp add: be32_def)

lemma bit_even_bytes: "bit (0x00FF00FF :: uint32) n \<longleftrightarrow> n < 8 \<or> 16 \<le> n \<and> n < 24"
proof (cases "n < 32")
  case True
  have "\<forall>n \<in> set [0..<32]. bit (0x00FF00FF :: uint32) n \<longleftrightarrow> n < 8 \<or> 16 \<le> n \<and> n < 24" by code_simp
  then show ?thesis using True by simp
next
  case False
  then show ?thesis by (auto dest: bit_imp_le_length)
qed

lemma bit_odd_bytes: "bit (0xFF00FF00 :: uint32) n \<longleftrightarrow> 8 \<le> n \<and> n < 16 \<or> 24 \<le> n \<and> n < 32"
proof (cases "n < 32")
  case True
  have "\<forall>n \<in> set [0..<32]. bit (0xFF00FF00 :: uint32) n \<longleftrightarrow> 8 \<le> n \<and> n < 16 \<or> 24 \<le> n \<and> n < 32" by code_simp
  then show ?thesis using True by simp
next
  case False
  then show ?thesis by (auto dest: bit_imp_le_length)
qed

lemma bit_low_half: "bit (0x0000FFFF :: uint32) n \<longleftrightarrow> n < 16"
proof (cases "n < 32")
  case True
  have "\<forall>n \<in> set [0..<32]. bit (0x0000FFFF :: uint32) n \<longleftrightarrow> n < 16" by code_simp
  then show ?thesis using True by simp
next
  case False
  then show ?thesis by (auto dest: bit_imp_le_length)
qed

lemma bit_high_half: "bit (0xFFFF0000 :: uint32) n \<longleftrightarrow> 16 \<le> n \<and> n < 32"
proof (cases "n < 32")
  case True
  have "\<forall>n \<in> set [0..<32]. bit (0xFFFF0000 :: uint32) n \<longleftrightarrow> 16 \<le> n \<and> n < 32" by code_simp
  then show ?thesis using True by simp
next
  case False
  then show ?thesis by (auto dest: bit_imp_le_length)
qed

lemmas bswap_masks = bit_even_bytes bit_odd_bytes bit_low_half bit_high_half

lemma byte_cases:
  assumes "n < (32 :: nat)"
  obtains k where "k < 8" "n = k \<or> n = k + 8 \<or> n = k + 16 \<or> n = k + 24"
proof (rule that [of "n mod 8"])
  show "n mod 8 < 8" by simp
  show "n = n mod 8 \<or> n = n mod 8 + 8 \<or> n = n mod 8 + 16 \<or> n = n mod 8 + 24" using assms by presburger
qed

lemma byte_mods:
  "(k + 16) mod 8 = k mod (8 :: nat)" "(k + 24) mod 8 = k mod (8 :: nat)"
  "(16 + k) mod 8 = k mod (8 :: nat)" "(24 + k) mod 8 = k mod (8 :: nat)"
  using mod_mult_self1 [of k 2 8] mod_mult_self1 [of k 3 8] by (simp_all add: add.commute)

lemma bit_bswap:
  assumes "n < 32"
  shows "bit (bswap x) n = bit x (if n < 8 then n + 24 else if n < 16 then n + 8 else if n < 24 then n - 8 else n - 24)"
proof -
  obtain k where "k < 8" "n = k \<or> n = k + 8 \<or> n = k + 16 \<or> n = k + 24" using assms by (rule byte_cases)
  then show ?thesis
    unfolding bswap_def Let_def bit_or_iff bit_and_iff bit_push_bit_iff bit_drop_bit_eq comp_def bswap_masks
    by (elim disjE) (simp_all add: add.commute)
qed

lemma bswap_bswap: "bswap (bswap x) = x"
  by (rule bit_word_eqI) (auto simp: bit_bswap)

lemma bit_load32:
  assumes "n < 32"
  shows "bit (load32 a m) n = bit (m (a + word_of_nat (n div 8))) (n mod 8)"
proof -
  obtain k where "k < 8" "n = k \<or> n = k + 8 \<or> n = k + 16 \<or> n = k + 24" using assms by (rule byte_cases)
  then show ?thesis
    by (elim disjE) (simp_all add: load32_def bit_simps bit_high div_add1_eq byte_mods)
qed

lemma bswap_load32:
  assumes "bytes_at m a (be32 w)"
  shows "bswap (load32 a m) = w"
proof (rule bit_word_eqI)
  fix n assume "n < LENGTH(32)"
  then have n: "n < 32" by simp
  have m: "m a = ucast (drop_bit 24 w)" "m (a + 1) = ucast (drop_bit 16 w)"
    "m (a + 2) = ucast (drop_bit 8 w)" "m (a + 3) = ucast w"
    using assms by (simp_all add: be32_def add.assoc)
  obtain k where "k < 8" "n = k \<or> n = k + 8 \<or> n = k + 16 \<or> n = k + 24" using n by (rule byte_cases)
  then show "bit (bswap (load32 a m)) n = bit w n"
    by (elim disjE) (simp_all add: bit_bswap bit_load32 m bit_simps div_add1_eq byte_mods add.commute [of k])
qed

section \<open>Device trees and their encoding\<close>

text \<open>
  The structure block as a tree. A property names itself by an offset into the strings block; a
  \<open>Nop_Item\<close> or \<open>Nop_Tree\<close> is what is left of a deleted property or node.
\<close>

datatype fdt_item = Nop_Item | Prop_Item (name_off: uint32) (content: "uint8 list")

datatype fdt_tree = Nop_Tree | Tree (tree_name: "uint8 list") (items: "fdt_item list") (subs: "fdt_tree list")

definition pad4 :: "uint8 list \<Rightarrow> uint8 list" where
  "pad4 bs = bs @ replicate ((4 - length bs mod 4) mod 4) 0"

definition pad_name :: "uint8 list \<Rightarrow> uint8 list" where
  "pad_name bs = bs @ replicate (4 - length bs mod 4) 0"

fun encode_item :: "fdt_item \<Rightarrow> uint8 list" where
  "encode_item Nop_Item = be32 FDT_NOP"
| "encode_item (Prop_Item off bs) = be32 FDT_PROP @ be32 (word_of_nat (length bs)) @ be32 off @ pad4 bs"

fun encode :: "fdt_tree \<Rightarrow> uint8 list" where
  "encode Nop_Tree = be32 FDT_NOP"
| "encode (Tree nm its ss) =
     be32 FDT_BEGIN_NODE @ pad_name nm @ concat (map encode_item its) @ concat (map encode ss) @ be32 FDT_END_NODE"

fun item_ok :: "fdt_item \<Rightarrow> bool" where
  "item_ok Nop_Item \<longleftrightarrow> True"
| "item_ok (Prop_Item off bs) \<longleftrightarrow> length bs + 3 < 2 ^ 31"

fun tree_ok :: "fdt_tree \<Rightarrow> bool" where
  "tree_ok Nop_Tree \<longleftrightarrow> True"
| "tree_ok (Tree nm its ss) \<longleftrightarrow> 0 \<notin> set nm \<and> length nm < 2 ^ 31 \<and> (\<forall>i \<in> set its. item_ok i) \<and> (\<forall>t \<in> set ss. tree_ok t)"

lemma mod_four_cases: "(n :: nat) mod 4 = 0 \<or> n mod 4 = 1 \<or> n mod 4 = 2 \<or> n mod 4 = 3"
  by presburger

lemma length_pad4: "length (pad4 bs) = 4 * ((length bs + 3) div 4)"
  using mod_four_cases [of "length bs"] unfolding pad4_def length_append length_replicate
  by (elim disjE) (simp, presburger+)

lemma length_pad_name: "length (pad_name bs) = 4 + 4 * (length bs div 4)"
  using mod_four_cases [of "length bs"] unfolding pad_name_def length_append length_replicate
  by (elim disjE) (simp, presburger+)

section \<open>The visit of a tree\<close>

text \<open>
  What a scan does, as the sequence of call-backs in the order of the tree: a node is opened with
  its initial cell counts, its properties follow, then it is done, and then its children are
  visited. A position in the memory is an argument, since the call-backs get pointers.
\<close>

datatype event = Ev_Open fdt_scan_node | Ev_Prop fdt_scan_prop | Ev_Done fdt_scan_node

fun visit_items :: "bytes \<Rightarrow> uint64 \<Rightarrow> uint64 \<Rightarrow> fdt_scan_node \<Rightarrow> fdt_item list \<Rightarrow> fdt_scan_node \<times> event list" where
  "visit_items m strings a n [] = (n, [])"
| "visit_items m strings a n (Nop_Item # its) = visit_items m strings (a + 4) n its"
| "visit_items m strings a n (Prop_Item off bs # its) =
     (let name = strings + ucast off;
          n = note_cells name (a + 12) m n;
          (n', es) = visit_items m strings (a + 12 + word_of_nat (length (pad4 bs))) n its
      in (n', Ev_Prop \<lparr>prop_node = Some n, prop_name = name, prop_value = a + 12, prop_len = int (length bs)\<rparr> # es))"

fun visit_tree :: "bytes \<Rightarrow> uint64 \<Rightarrow> fdt_scan_node option \<Rightarrow> int \<Rightarrow> int \<Rightarrow> uint64 \<Rightarrow> fdt_tree \<Rightarrow> event list \<times> int \<times> int"
and visit_trees :: "bytes \<Rightarrow> uint64 \<Rightarrow> fdt_scan_node option \<Rightarrow> int \<Rightarrow> int \<Rightarrow> uint64 \<Rightarrow> fdt_tree list \<Rightarrow> event list" where
  "visit_tree m strings p ac sc a Nop_Tree = ([], ac, sc)"
| "visit_tree m strings p ac sc a (Tree nm its ss) =
     (let n = Fdt_Node p (a + 4) ac sc;
          b = a + word_of_nat (4 + length (pad_name nm));
          (n', es) = visit_items m strings b n its
      in (Ev_Open n # es @ Ev_Done n' #
            visit_trees m strings (Some n') 2 1 (b + word_of_nat (length (concat (map encode_item its)))) ss,
          address_cells n', size_cells n'))"
| "visit_trees m strings p ac sc a [] = []"
| "visit_trees m strings p ac sc a (t # ts) =
     (let (es, ac, sc) = visit_tree m strings p ac sc a t
      in es @ visit_trees m strings p ac sc (a + word_of_nat (length (encode t))) ts)"

fun run_events :: "'x fdt_cb \<Rightarrow> bytes \<Rightarrow> event list \<Rightarrow> 'x \<Rightarrow> 'x outcome" where
  "run_events cb m [] x = returnO x"
| "run_events cb m (Ev_Open n # es) x = bindO (call_open cb n m x) (run_events cb m es)"
| "run_events cb m (Ev_Prop p # es) x = bindO (call_prop cb p m x) (run_events cb m es)"
| "run_events cb m (Ev_Done n # es) x = bindO (call_done cb False (Some n) m x) (run_events cb m es)"

lemma run_events_append: "run_events cb m (es @ fs) x = bindO (run_events cb m es x) (run_events cb m fs)"
  by (induction cb m es x rule: run_events.induct) (auto simp: bindO_assoc intro: bindO_cong)

section \<open>The scanner visits the tree\<close>

lemma call_done_True [simp]: "call_done cb True node m x = returnO x"
  by (simp add: call_done_def split: option.split prod.split)

lemma call_close_None [simp]: "cb_close cb = None \<Longrightarrow> call_close cb lx nx c m x = returnO (m, x)"
  by (simp add: call_close_def)

lemma sint_length: "n < 2 ^ 31 \<Longrightarrow> sint (word_of_nat n :: uint32) = int n"
  by (simp add: signed_of_nat signed_take_bit_int_eq_self)

lemma scan_token:
  "bytes_at m a (be32 FDT_NOP) \<Longrightarrow> fdt_scan_loop a strings node cb lst ac sc m x = fdt_scan_loop (a + 4) strings node cb lst ac sc m x"
  by (subst fdt_scan_loop.simps) (simp add: bswap_load32)

lemma scan_prop:
  assumes at: "bytes_at m a (encode_item (Prop_Item off bs))" and ok: "item_ok (Prop_Item off bs)"
  shows "fdt_scan_loop a strings (Some n) cb False ac sc m x =
    (let name = strings + ucast off; n = note_cells name (a + 12) m n in
     bindO (call_prop cb \<lparr>prop_node = Some n, prop_name = name, prop_value = a + 12, prop_len = int (length bs)\<rparr> m x) (\<lambda>x.
       fdt_scan_loop (a + 12 + word_of_nat (length (pad4 bs))) strings (Some n) cb False ac sc m x))"
proof -
  have w: "bswap (load32 a m) = FDT_PROP" "bswap (load32 (a + 4) m) = word_of_nat (length bs)"
    "bswap (load32 (a + 8) m) = off"
    using at by (simp_all add: bswap_load32 add.assoc)
  have len: "sint (word_of_nat (length bs) :: uint32) = int (length bs)" using ok by (simp add: sint_length)
  have "(int (length bs) + 3) sdiv 4 = int ((length bs + 3) div 4)"
    by (simp add: signed_divide_int_def zdiv_int)
  then have nx: "a + 4 * word_of_int (3 + (int (length bs) + 3) sdiv 4) = a + 12 + word_of_nat (length (pad4 bs))"
    by (simp add: length_pad4 algebra_simps)
  have small: "\<not> 2 ^ 31 \<le> int (length bs) + 3" using ok by simp
  show ?thesis
    unfolding nx [symmetric] Let_def
    by (subst fdt_scan_loop.simps) (use small in \<open>simp add: w len fdt_tokens Let_def\<close>)
qed

lemma scan_items:
  assumes "bytes_at m a (concat (map encode_item its))" "\<forall>i \<in> set its. item_ok i"
    "visit_items m strings a n its = (n', es)"
  shows "fdt_scan_loop a strings (Some n) cb False ac sc m x =
    bindO (run_events cb m es x) (\<lambda>x.
      fdt_scan_loop (a + word_of_nat (length (concat (map encode_item its)))) strings (Some n') cb False ac sc m x)"
  using assms
proof (induction its arbitrary: a n n' es x)
  case Nil
  then show ?case by simp
next
  case (Cons i its)
  show ?case
  proof (cases i)
    case Nop_Item
    have at: "bytes_at m a (be32 FDT_NOP)" "bytes_at m (a + 4) (concat (map encode_item its))"
      using Cons.prems(1) Nop_Item by simp_all
    have v: "visit_items m strings (a + 4) n its = (n', es)" using Cons.prems(3) Nop_Item by simp
    have e: "a + word_of_nat (length (concat (map encode_item (i # its)))) =
      a + 4 + word_of_nat (length (concat (map encode_item its)))"
      using Nop_Item by (simp add: add.assoc)
    show ?thesis unfolding e scan_token [OF at(1)] using Cons.prems(2) by (intro Cons.IH at v) auto
  next
    case (Prop_Item off bs)
    let ?name = "strings + ucast off"
    let ?n = "note_cells ?name (a + 12) m n"
    let ?b = "a + 12 + word_of_nat (length (pad4 bs))"
    obtain es' where v: "visit_items m strings ?b ?n its = (n', es')"
      "es = Ev_Prop \<lparr>prop_node = Some ?n, prop_name = ?name, prop_value = a + 12, prop_len = int (length bs)\<rparr> # es'"
      using Cons.prems(3) unfolding Prop_Item by (auto simp: Let_def split: prod.splits)
    have at: "bytes_at m a (encode_item (Prop_Item off bs))" "bytes_at m ?b (concat (map encode_item its))"
      using Cons.prems(1) unfolding Prop_Item by (simp_all add: add.assoc)
    have e: "a + word_of_nat (length (concat (map encode_item (i # its)))) =
      ?b + word_of_nat (length (concat (map encode_item its)))"
      unfolding Prop_Item by (simp add: algebra_simps)
    have ok: "item_ok (Prop_Item off bs)" "\<forall>i \<in> set its. item_ok i" using Cons.prems(2) Prop_Item by auto
    show ?thesis
      unfolding scan_prop [OF at(1) ok(1)] Let_def Cons.IH [OF at(2) ok(2) v(1)] v(2) e
      by (simp add: bindO_assoc)
  qed
qed

lemma cstr_bytes_at: "bytes_at m a (nm @ 0 # rest) \<Longrightarrow> 0 \<notin> set nm \<Longrightarrow> cstr m a nm"
  by (induction nm arbitrary: a) (auto simp: algebra_simps)

lemma cstr_pad_name:
  assumes "bytes_at m a (pad_name nm)" "0 \<notin> set nm"
  shows "cstr m a nm"
proof (rule cstr_bytes_at [OF _ assms(2)])
  have "pad_name nm = nm @ 0 # replicate (3 - length nm mod 4) 0"
  proof -
    have "4 - length nm mod 4 = Suc (3 - length nm mod 4)" by presburger
    then show ?thesis by (simp add: pad_name_def)
  qed
  then show "bytes_at m a (nm @ 0 # replicate (3 - length nm mod 4) 0)" using assms(1) by simp
qed

text \<open>One child: its parent is done first, unless it was before, and the loop goes on behind it.\<close>

definition scans :: "'x fdt_cb \<Rightarrow> bytes \<Rightarrow> uint64 \<Rightarrow> fdt_tree \<Rightarrow> bool" where
  "scans cb m strings t \<longleftrightarrow>
     (\<forall>a node lst ac sc x. bytes_at m a (encode t) \<longrightarrow>
        fdt_scan_loop a strings node cb lst ac sc m x =
        (if t = Nop_Tree then fdt_scan_loop (a + 4) strings node cb lst ac sc m x
         else bindO (call_done cb lst node m x) (\<lambda>x.
           bindO (run_events cb m (fst (visit_tree m strings node ac sc a t)) x) (\<lambda>x.
             fdt_scan_loop (a + word_of_nat (length (encode t))) strings node cb True
               (fst (snd (visit_tree m strings node ac sc a t))) (snd (snd (visit_tree m strings node ac sc a t))) m x))))"

text \<open>The children of a node, up to the token that ends the node or the block.\<close>

lemma scan_trees:
  assumes "\<forall>t \<in> set ts. scans cb m strings t" "bytes_at m a (concat (map encode ts) @ be32 tok)"
    "tok \<notin> {FDT_NOP, FDT_PROP, FDT_BEGIN_NODE}"
  shows "fdt_scan_loop a strings node cb lst ac sc m x =
    bindO (call_done cb lst node m x) (\<lambda>x.
      bindO (run_events cb m (visit_trees m strings node ac sc a ts) x) (\<lambda>x.
        returnO (a + word_of_nat (length (concat (map encode ts))) + (if tok = FDT_END_NODE then 4 else 0), node, m, x)))"
  using assms
proof (induction ts arbitrary: a lst ac sc x)
  case Nil
  then have "bswap (load32 a m) = tok" by (intro bswap_load32) simp
  with Nil(3) show ?case by (subst fdt_scan_loop.simps) (simp add: Let_def)
next
  case (Cons t ts)
  let ?b = "a + word_of_nat (length (encode t))"
  obtain es ac' sc' where v: "visit_tree m strings node ac sc a t = (es, ac', sc')"
    by (cases "visit_tree m strings node ac sc a t")
  have at: "bytes_at m a (encode t)" "bytes_at m ?b (concat (map encode ts) @ be32 tok)"
    using Cons.prems(2) by (simp_all add: algebra_simps)
  have e: "a + word_of_nat (length (concat (map encode (t # ts)))) = ?b + word_of_nat (length (concat (map encode ts)))"
    by (simp add: algebra_simps)
  note IH = Cons.IH [OF _ at(2) Cons.prems(3)]
  have t: "scans cb m strings t" and ts: "\<forall>t \<in> set ts. scans cb m strings t" using Cons.prems(1) by auto
  note step = t [unfolded scans_def, rule_format, OF at(1), of node lst ac sc x, unfolded v fst_conv snd_conv]
  show ?case
  proof (cases "t = Nop_Tree")
    case True
    then have "es = []" "ac' = ac" "sc' = sc" "?b = a + 4" using v by simp_all
    with True step IH [OF ts, of lst ac sc x] v show ?thesis unfolding e by simp
  next
    case False
    have "fdt_scan_loop ?b strings node cb True ac' sc' m = (\<lambda>x.
      bindO (run_events cb m (visit_trees m strings node ac' sc' ?b ts) x) (\<lambda>x.
        returnO (?b + word_of_nat (length (concat (map encode ts))) + (if tok = FDT_END_NODE then 4 else 0), node, m, x)))"
      using IH [OF ts, of True ac' sc'] by (intro ext) simp
    with step False v show ?thesis unfolding e by (simp add: run_events_append bindO_assoc)
  qed
qed

lemma scans_Tree:
  assumes subs: "\<forall>t \<in> set ss. scans cb m strings t" and ok: "tree_ok (Tree nm its ss)" and cb: "cb_close cb = None"
  shows "scans cb m strings (Tree nm its ss)"
  unfolding scans_def
proof (intro allI impI)
  fix a node lst ac sc x
  assume at: "bytes_at m a (encode (Tree nm its ss))"
  let ?n = "Fdt_Node node (a + 4) ac sc"
  let ?b = "a + word_of_nat (4 + length (pad_name nm))"
  let ?c = "?b + word_of_nat (length (concat (map encode_item its)))"
  obtain n' es where v: "visit_items m strings ?b ?n its = (n', es)" by (cases "visit_items m strings ?b ?n its")
  have tok: "bswap (load32 a m) = FDT_BEGIN_NODE" using at by (intro bswap_load32) simp
  have "cstr m (a + 4) nm" using at ok by (intro cstr_pad_name) simp_all
  then have sl: "strlen (a + 4) m = Some (word_of_nat (length nm))" by (rule strlen_ok)
  have "word_of_nat (length nm) div 4 = (word_of_nat (length nm div 4) :: uint64)"
    using ok by (simp add: word_arith_nat_div unat_of_nat)
  then have b: "a + (8 + 4 * (word_of_nat (length nm) div 4)) = ?b" by (simp add: length_pad_name algebra_simps)
  have vt: "visit_tree m strings node ac sc a (Tree nm its ss) =
    (Ev_Open ?n # es @ Ev_Done n' # visit_trees m strings (Some n') 2 1 ?c ss, address_cells n', size_cells n')"
    using v by (simp add: Let_def)
  have items: "bytes_at m ?b (concat (map encode_item its))" and
    rest: "bytes_at m ?c (concat (map encode ss) @ be32 FDT_END_NODE)"
    using at by (simp_all add: algebra_simps)
  have e: "?c + word_of_nat (length (concat (map encode ss))) + 4 = a + word_of_nat (length (encode (Tree nm its ss)))"
    by (simp add: algebra_simps)
  have inner: "fdt_scan_loop (a + (8 + 4 * (word_of_nat (length nm) div 4))) strings (Some ?n) cb False 2 1 m x =
    bindO (run_events cb m (es @ Ev_Done n' # visit_trees m strings (Some n') 2 1 ?c ss) x)
      (\<lambda>x. returnO (a + word_of_nat (length (encode (Tree nm its ss))), Some n', m, x))" for x
    unfolding b e [symmetric] using scan_items [OF items _ v, of cb 2 1 x] ok scan_trees [OF subs rest]
    by (simp add: fdt_tokens run_events_append bindO_assoc)
  show "fdt_scan_loop a strings node cb lst ac sc m x =
    (if Tree nm its ss = Nop_Tree then fdt_scan_loop (a + 4) strings node cb lst ac sc m x
     else bindO (call_done cb lst node m x) (\<lambda>x.
       bindO (run_events cb m (fst (visit_tree m strings node ac sc a (Tree nm its ss))) x) (\<lambda>x.
         fdt_scan_loop (a + word_of_nat (length (encode (Tree nm its ss)))) strings node cb True
           (fst (snd (visit_tree m strings node ac sc a (Tree nm its ss))))
           (snd (snd (visit_tree m strings node ac sc a (Tree nm its ss)))) m x)))"
    unfolding vt fst_conv snd_conv
    by (subst fdt_scan_loop.simps)
      (simp add: tok fdt_tokens Let_def sl inner cb bindO_assoc)
qed

lemma scans_all: "tree_ok t \<Longrightarrow> cb_close cb = None \<Longrightarrow> scans cb m strings t"
proof (induction t)
  case Nop_Tree
  show ?case unfolding scans_def by (simp add: scan_token)
next
  case (Tree nm its ss)
  then show ?case by (intro scans_Tree) auto
qed

section \<open>Blobs\<close>

text \<open>A blob at \<open>fdt\<close>: the header, and a structure block that holds the trees and ends in a token that ends the scan.\<close>

definition blob_at :: "bytes \<Rightarrow> uint64 \<Rightarrow> uint32 \<Rightarrow> uint32 \<Rightarrow> fdt_tree list \<Rightarrow> bool" where
  "blob_at m fdt off_struct off_strings ts \<longleftrightarrow>
     bytes_at m fdt (be32 FDT_MAGIC) \<and>
     bytes_at m (fdt + 8) (be32 off_struct @ be32 off_strings) \<and>
     (\<exists>v. v \<le> FDT_VERSION \<and> bytes_at m (fdt + 24) (be32 v)) \<and>
     (\<forall>t \<in> set ts. tree_ok t) \<and>
     bytes_at m (fdt + ucast off_struct) (concat (map encode ts) @ be32 FDT_END)"

lemma fdt_scan_events:
  assumes blob: "blob_at m fdt off_struct off_strings ts" and cb: "cb_close cb = None"
  shows "fdt_scan fdt cb m x =
    bindO (run_events cb m (visit_trees m (fdt + ucast off_strings) None 2 1 (fdt + ucast off_struct) ts) x) (\<lambda>x. returnO (m, x))"
proof -
  obtain v where v: "v \<le> FDT_VERSION" "bytes_at m (fdt + 24) (be32 v)" using blob by (auto simp: blob_at_def)
  have w: "bswap (load32 fdt m) = FDT_MAGIC" "bswap (load32 (fdt + 24) m) = v"
    "bswap (load32 (fdt + 8) m) = off_struct" "bswap (load32 (fdt + 12) m) = off_strings"
    using blob v(2) by (simp_all add: blob_at_def bswap_load32 add.assoc)
  have "call_done cb False None m x = returnO x" for x by (simp add: call_done_def)
  with blob scan_trees [of ts cb m "fdt + ucast off_strings" "fdt + ucast off_struct" FDT_END None False 2 1 x] cb v(1)
  show ?thesis
    by (auto simp: fdt_scan_def w fdt_scan_helper_def blob_at_def scans_all bindO_assoc fdt_tokens Let_def not_less)
qed

text \<open>C8: scanning a blob visits its tree. On memory that holds a header and the encoding of a list of
  trees, \<^verbatim>\<open>fdt_scan\<close> ends and runs exactly the call-backs of the visit: every node is opened, its
  properties are reported in order with the cell counts noted so far, it is done once, before its
  first child is opened, and the memory is unchanged.\<close>

theorem fdt_scan_visits:
  assumes blob: "blob_at m fdt off_struct off_strings ts" and cb: "cb_close cb = None"
  shows "fdt_scan fdt cb m x =
    bindO (run_events cb m (visit_trees m (fdt + ucast off_strings) None 2 1 (fdt + ucast off_struct) ts) x) (\<lambda>x. returnO (m, x))"
  by (rule fdt_scan_events [OF assms])

section \<open>Names and contents of properties\<close>

text \<open>The name of the property at an offset of the strings block, for every property of a tree.\<close>

type_synonym string_table = "uint32 \<Rightarrow> uint8 list"

definition bytes_of :: "string \<Rightarrow> uint8 list" where
  "bytes_of cs = map of_char cs"

definition c_string :: "uint8 list \<Rightarrow> uint8 list" where
  "c_string bs = takeWhile (\<lambda>b. b \<noteq> 0) bs"

fun item_named :: "bytes \<Rightarrow> uint64 \<Rightarrow> string_table \<Rightarrow> fdt_item \<Rightarrow> bool" where
  "item_named m strings tab Nop_Item \<longleftrightarrow> True"
| "item_named m strings tab (Prop_Item off bs) \<longleftrightarrow> cstr m (strings + ucast off) (tab off)"

fun tree_named :: "bytes \<Rightarrow> uint64 \<Rightarrow> string_table \<Rightarrow> fdt_tree \<Rightarrow> bool" where
  "tree_named m strings tab Nop_Tree \<longleftrightarrow> True"
| "tree_named m strings tab (Tree nm its ss) \<longleftrightarrow>
     (\<forall>i \<in> set its. item_named m strings tab i) \<and> (\<forall>t \<in> set ss. tree_named m strings tab t)"

text \<open>A property with a given name, and one whose content is a given string.\<close>

fun named :: "string_table \<Rightarrow> string \<Rightarrow> fdt_item \<Rightarrow> bool" where
  "named tab nm Nop_Item \<longleftrightarrow> False"
| "named tab nm (Prop_Item off bs) \<longleftrightarrow> tab off = bytes_of nm"

fun says :: "string_table \<Rightarrow> string \<Rightarrow> string \<Rightarrow> fdt_item \<Rightarrow> bool" where
  "says tab nm val Nop_Item \<longleftrightarrow> False"
| "says tab nm val (Prop_Item off bs) \<longleftrightarrow> tab off = bytes_of nm \<and> c_string bs = bytes_of val"

lemma streq_cstr: "cstr m s cs \<Longrightarrow> 0 \<notin> set (bytes_of lit) \<Longrightarrow> streq s lit m \<longleftrightarrow> cs = bytes_of lit"
proof (induction lit arbitrary: s cs)
  case Nil
  then show ?case by (cases cs) (auto simp: bytes_of_def streq.simps)
next
  case (Cons c lit)
  then show ?case by (cases cs) (auto simp: bytes_of_def streq.simps)
qed

lemma cstr_takeWhile: "bytes_at m a (bs @ [0]) \<Longrightarrow> cstr m a (c_string bs)"
  by (induction bs arbitrary: a) (auto simp: c_string_def algebra_simps)

lemma takeWhile_replicate_end: "\<not> P c \<Longrightarrow> takeWhile P (bs @ replicate n c) = takeWhile P bs"
  by (induction bs) (cases n, auto)

lemma c_string_pad4: "c_string (pad4 bs) = c_string bs"
  by (simp add: c_string_def pad4_def takeWhile_replicate_end)

lemma streq_content:
  "bytes_at m a (pad4 bs @ [0]) \<Longrightarrow> 0 \<notin> set (bytes_of lit) \<Longrightarrow> streq a lit m \<longleftrightarrow> c_string bs = bytes_of lit"
  using streq_cstr [OF cstr_takeWhile] by (simp add: c_string_pad4)

text \<open>A token is below \<open>2 ^ 24\<close>, so a zero byte follows the content of every property.\<close>

lemma encode_item_zero: "\<exists>rest. encode_item i = 0 # rest"
  by (cases i) (simp_all add: be32_def fdt_tokens)

lemma encode_zero: "\<exists>rest. encode t = 0 # rest"
  by (cases t) (simp_all add: be32_def fdt_tokens)

lemma items_zero:
  assumes "bytes_at m a (concat (map encode_item its) @ [0])"
  shows "m a = 0"
proof (cases its)
  case (Cons i its')
  obtain rest where "encode_item i = 0 # rest" using encode_item_zero by blast
  with assms Cons show ?thesis by simp
qed (use assms in simp)

lemma item_split:
  assumes "bytes_at m a (concat (map encode_item (Prop_Item off bs # its)) @ [0])"
  shows "bytes_at m (a + 12) (pad4 bs @ [0])"
    "bytes_at m (a + 12 + word_of_nat (length (pad4 bs))) (concat (map encode_item its) @ [0])"
proof -
  have at: "bytes_at m (a + 12 + word_of_nat (length (pad4 bs))) (concat (map encode_item its) @ [0])"
    "bytes_at m (a + 12) (pad4 bs)"
    using assms by (simp_all add: algebra_simps)
  with items_zero [OF at(1)] show "bytes_at m (a + 12) (pad4 bs @ [0])" by simp
  show "bytes_at m (a + 12 + word_of_nat (length (pad4 bs))) (concat (map encode_item its) @ [0])" by (rule at(1))
qed

lemma tree_split:
  assumes "bytes_at m a (encode (Tree nm its ss))"
  shows "bytes_at m (a + word_of_nat (4 + length (pad_name nm))) (concat (map encode_item its) @ [0])"
    "bytes_at m (a + word_of_nat (4 + length (pad_name nm)) + word_of_nat (length (concat (map encode_item its))))
       (concat (map encode ss))"
proof -
  let ?b = "a + word_of_nat (4 + length (pad_name nm))"
  let ?c = "?b + word_of_nat (length (concat (map encode_item its)))"
  have at: "bytes_at m ?b (concat (map encode_item its))" "bytes_at m ?c (concat (map encode ss) @ be32 FDT_END_NODE)"
    using assms by (simp_all add: algebra_simps)
  have "m ?c = 0"
  proof (cases ss)
    case Nil
    then show ?thesis using at(2) by (simp add: be32_def fdt_tokens)
  next
    case (Cons t ts)
    obtain rest where "encode t = 0 # rest" using encode_zero by blast
    with at(2) Cons show ?thesis by simp
  qed
  with at show "bytes_at m ?b (concat (map encode_item its) @ [0])" "bytes_at m ?c (concat (map encode ss))" by simp_all
qed

section \<open>Discovery of the host interface\<close>

fun has_htif :: "string_table \<Rightarrow> fdt_tree \<Rightarrow> bool" where
  "has_htif tab Nop_Tree \<longleftrightarrow> False"
| "has_htif tab (Tree nm its ss) \<longleftrightarrow>
     (\<exists>i \<in> set its. says tab ''compatible'' ''ucb,htif0'' i) \<or> (\<exists>t \<in> set ss. has_htif tab t)"

lemma htif_items:
  assumes "bytes_at m a (concat (map encode_item its) @ [0])" "\<forall>i \<in> set its. item_named m strings tab i"
  shows "run_events htif_cb m (snd (visit_items m strings a n its)) (c, h) =
    returnO (c \<or> (\<exists>i \<in> set its. says tab ''compatible'' ''ucb,htif0'' i), h)"
  using assms
proof (induction m strings a n its arbitrary: c rule: visit_items.induct)
  case (1 m strings a n)
  then show ?case by simp
next
  case (2 m strings a n its)
  then show ?case by (simp add: algebra_simps)
next
  case (3 m strings a n off bs its)
  note sp = item_split [OF 3(2)]
  have "streq (strings + ucast off) ''compatible'' m \<longleftrightarrow> tab off = bytes_of ''compatible''"
    using 3(3) by (intro streq_cstr) (auto simp: bytes_of_def)
  moreover have "streq (a + 12) ''ucb,htif0'' m \<longleftrightarrow> c_string bs = bytes_of ''ucb,htif0''"
    using sp(1) by (intro streq_content) (auto simp: bytes_of_def)
  ultimately have e: "htif_prop \<lparr>prop_node = Some (note_cells (strings + ucast off) (a + 12) m n),
      prop_name = strings + ucast off, prop_value = a + 12, prop_len = int (length bs)\<rparr> m (c, h) =
    returnO (c \<or> says tab ''compatible'' ''ucb,htif0'' (Prop_Item off bs), h)"
    by (auto simp: htif_prop_def)
  have IH: "run_events htif_cb m (snd (visit_items m strings (a + 12 + word_of_nat (length (pad4 bs)))
      (note_cells (strings + ucast off) (a + 12) m n) its)) (c, h) =
    returnO (c \<or> (\<exists>i \<in> set its. says tab ''compatible'' ''ucb,htif0'' i), h)" for c
    using 3 sp(2) by simp
  show ?case
    by (simp add: Let_def split_beta htif_cb_def call_prop_def e [simplified] IH [unfolded htif_cb_def])
qed

lemma htif_steps: "cb_open htif_cb = Some htif_open" "cb_done htif_cb = Some htif_done"
  by (simp_all add: htif_cb_def)

lemma htif_trees:
  "bytes_at m a (encode t) \<Longrightarrow> tree_named m strings tab t \<Longrightarrow>
     \<exists>c'. run_events htif_cb m (fst (visit_tree m strings p ac sc a t)) (c, h) = returnO (c', if has_htif tab t then 1 else h)"
  "bytes_at m a (concat (map encode ts)) \<Longrightarrow> \<forall>t \<in> set ts. tree_named m strings tab t \<Longrightarrow>
     \<exists>c'. run_events htif_cb m (visit_trees m strings p ac sc a ts) (c, h) =
       returnO (c', if \<exists>t \<in> set ts. has_htif tab t then 1 else h)"
proof (induction m strings p ac sc a t and m strings p ac sc a ts arbitrary: c h and c h rule: visit_tree_visit_trees.induct)
  case (1 m strings p ac sc a)
  then show ?case by simp
next
  case (2 m strings p ac sc a nm its ss)
  note sp = tree_split [OF 2(2)]
  let ?b = "a + word_of_nat (4 + length (pad_name nm))"
  obtain n' es where v: "visit_items m strings ?b (Fdt_Node p (a + 4) ac sc) its = (n', es)" by fastforce
  define k where "k \<longleftrightarrow> (\<exists>i \<in> set its. says tab ''compatible'' ''ucb,htif0'' i)"
  have items: "run_events htif_cb m es (False, h) = returnO (k, h)"
    using htif_items [OF sp(1), of strings tab "Fdt_Node p (a + 4) ac sc" False h] 2(3) v unfolding k_def by simp
  have found: "has_htif tab (Tree nm its ss) \<longleftrightarrow> k \<or> (\<exists>t \<in> set ss. has_htif tab t)" by (simp add: k_def)
  obtain c' where "run_events htif_cb m (visit_trees m strings (Some n') 2 1 (?b + word_of_nat (length (concat (map encode_item its)))) ss)
      (k, if k then 1 else h) =
    returnO (c', if \<exists>t \<in> set ss. has_htif tab t then 1 else (if k then 1 else h))"
    using 2(1) [OF refl refl v [symmetric] refl sp(2), of k "if k then 1 else h"] 2(3) by auto
  with items v show ?case unfolding found
    by (cases k) (auto simp: Let_def run_events_append call_open_def htif_steps htif_open_def call_done_def htif_done_def)
next
  case (3 m strings p ac sc a)
  then show ?case by simp
next
  case (4 m strings p ac sc a t ts)
  obtain es ac' sc' where v: "visit_tree m strings p ac sc a t = (es, ac', sc')" by (cases "visit_tree m strings p ac sc a t")
  obtain c1 where 1: "run_events htif_cb m es (c, h) = returnO (c1, if has_htif tab t then 1 else h)"
    using 4(1) [of c h] 4(3,4) v by auto
  have "\<exists>c2. run_events htif_cb m (visit_trees m strings p ac' sc' (a + word_of_nat (length (encode t))) ts) (c, h) =
    returnO (c2, if \<exists>t \<in> set ts. has_htif tab t then 1 else h)" for c h
    using 4(2) [OF v [symmetric] refl] 4(3,4) by (simp add: algebra_simps)
  from this [of c1 "if has_htif tab t then 1 else h"]
  obtain c2 where "run_events htif_cb m (visit_trees m strings p ac' sc' (a + word_of_nat (length (encode t))) ts)
      (c1, if has_htif tab t then 1 else h) =
    returnO (c2, if \<exists>t \<in> set ts. has_htif tab t then 1 else (if has_htif tab t then 1 else h))" by blast
  with 1 v show ?case by (auto simp: run_events_append)
qed

text \<open>\<^verbatim>\<open>query_htif\<close> sets \<^verbatim>\<open>htif\<close> to 1 exactly when some node of the device tree has a property
  \<^verbatim>\<open>compatible\<close> that says \<^verbatim>\<open>ucb,htif0\<close>, at any depth, and leaves it otherwise.\<close>

lemma query_htif_correct:
  assumes blob: "blob_at m fdt off_struct off_strings ts"
    and names: "\<forall>t \<in> set ts. tree_named m (fdt + ucast off_strings) tab t"
  shows "query_htif c0 fdt m h = returnO (if \<exists>t \<in> set ts. has_htif tab t then 1 else h)"
proof -
  have "bytes_at m (fdt + ucast off_struct) (concat (map encode ts))" using blob by (simp add: blob_at_def)
  from htif_trees(2) [OF this names, of None 2 1 c0 h] show ?thesis
    using fdt_scan_events [OF blob, of htif_cb "(c0, h)"]
    by (auto simp: query_htif_def htif_cb_def)
qed

end
