(* ===== verification/Pke_Fdt_Query.thy ===== *)
theory Pke_Fdt_Query
  imports Pke_Fdt_Thms
begin

text \<open>
  What the memory detection computes from a device tree, and a concrete device tree in memory.
\<close>

section \<open>Ranges of memory\<close>

definition be_word :: "uint8 \<Rightarrow> uint8 \<Rightarrow> uint8 \<Rightarrow> uint8 \<Rightarrow> uint32" where
  "be_word b0 b1 b2 b3 = push_bit 24 (ucast b0) OR push_bit 16 (ucast b1) OR push_bit 8 (ucast b2) OR ucast b3"

fun words_of :: "uint8 list \<Rightarrow> uint32 list" where
  "words_of (b0 # b1 # b2 # b3 # bs) = be_word b0 b1 b2 b3 # words_of bs"
| "words_of _ = []"

definition cells_num :: "uint64 \<Rightarrow> uint32 list \<Rightarrow> uint64" where
  "cells_num r ws = foldl (\<lambda>r w. push_bit 32 r + ucast w) r ws"

text \<open>The base and size pairs of a \<^verbatim>\<open>reg\<close> property, for \<open>a\<close> address and \<open>s\<close> size cells.\<close>

function ranges :: "nat \<Rightarrow> nat \<Rightarrow> uint32 list \<Rightarrow> (uint64 \<times> uint64) list" where
  "ranges a s ws =
     (if a + s = 0 \<or> ws = [] then []
      else (cells_num 0 (take a ws), cells_num 0 (take s (drop a ws))) # ranges a s (drop (a + s) ws))"
  by pat_completeness auto
termination
  by (relation "measure (\<lambda>(a, s, ws). length ws)") auto

declare ranges.simps [simp del]

definition pick :: "uint64 \<Rightarrow> uint64 \<Rightarrow> uint64 \<times> uint64 \<Rightarrow> uint64" where
  "pick self g = (\<lambda>(base, size). if base \<le> self \<and> self \<le> base + size then size else g)"

lemma be32_be_word: "be32 (be_word b0 b1 b2 b3) = [b0, b1, b2, b3]"
  by (auto simp: be32_def be_word_def bit_eq_iff bit_simps bit_high)

lemma word_at:
  assumes "bytes_at m a bs" "4 \<le> length bs"
  obtains b0 b1 b2 b3 rest where "bs = b0 # b1 # b2 # b3 # rest" "bswap (load32 a m) = be_word b0 b1 b2 b3"
    "bytes_at m (a + 4) rest"
proof -
  obtain b0 b1 b2 b3 rest where bs: "bs = b0 # b1 # b2 # b3 # rest"
    using assms(2) by (auto simp: numeral_eq_Suc Suc_le_length_iff)
  have "bytes_at m a (be32 (be_word b0 b1 b2 b3) @ rest)" using assms(1) unfolding be32_be_word bs by simp
  then have "bswap (load32 a m) = be_word b0 b1 b2 b3" "bytes_at m (a + 4) rest"
    by (simp_all add: bswap_load32)
  with bs show thesis by (rule that)
qed

lemma length_words_of: "length (words_of bs) = length bs div 4"
  by (induction bs rule: words_of.induct) simp_all

lemma cells_loop_ok:
  "bytes_at m v bs \<Longrightarrow> 4 * k \<le> length bs \<Longrightarrow>
     cells_loop k v r m = (v + word_of_nat (4 * k), cells_num r (take k (words_of bs)))"
proof (induction k arbitrary: v bs r)
  case 0
  then show ?case by (simp add: cells_num_def)
next
  case (Suc k)
  obtain b0 b1 b2 b3 rest where bs: "bs = b0 # b1 # b2 # b3 # rest" "bswap (load32 v m) = be_word b0 b1 b2 b3"
    "bytes_at m (v + 4) rest"
  proof (rule word_at [OF Suc.prems(1)])
    show "4 \<le> length bs" using Suc.prems(2) by simp
  qed
  have "cells_loop k (v + 4) (push_bit 32 r + ucast (be_word b0 b1 b2 b3)) m =
    (v + 4 + word_of_nat (4 * k), cells_num (push_bit 32 r + ucast (be_word b0 b1 b2 b3)) (take k (words_of rest)))"
    using Suc.prems(2) bs(1) by (intro Suc.IH [OF bs(3)]) simp
  then show ?case by (simp add: bs(1,2) cells_num_def add.assoc)
qed

lemma words_of_drop: "words_of (drop (4 * k) bs) = drop k (words_of bs)"
proof (induction k arbitrary: bs)
  case (Suc k)
  show ?case
  proof (cases "4 \<le> length bs")
    case True
    then obtain b0 b1 b2 b3 rest where bs: "bs = b0 # b1 # b2 # b3 # rest"
      by (auto simp: numeral_eq_Suc Suc_le_length_iff)
    then have "drop (4 * Suc k) bs = drop (4 * k) rest" by (simp add: numeral_eq_Suc)
    with Suc bs show ?thesis by simp
  next
    case False
    then have "drop (4 * Suc k) bs = []" "length (words_of bs) = 0" by (simp_all add: length_words_of)
    then show ?thesis by simp
  qed
qed simp

lemma bytes_at_drop: "bytes_at m a bs \<Longrightarrow> n \<le> length bs \<Longrightarrow> bytes_at m (a + word_of_nat n) (drop n bs)"
  using bytes_at_append [of m a "take n bs" "drop n bs"] by (simp add: min_absorb2)

lemma sint_end: "n < 2 ^ 63 \<Longrightarrow> sint (v + word_of_nat n - v :: uint64) = int n"
  by (simp add: signed_of_nat signed_take_bit_int_eq_self)

lemma reg_loop_step:
  assumes "0 < sint (end - v)" "cells_loop (nat (address_cells p)) v 0 m = (v1, base)"
    "cells_loop (nat (size_cells p)) v1 0 m = (v2, sz)"
  shows "reg_loop self (Some p) v end m g = reg_loop self (Some p) v2 end m (pick self g (base, sz))"
  by (subst reg_loop.simps) (simp add: assms fdt_get_address_def fdt_get_size_def pick_def)

lemma reg_loop_ok:
  assumes "bytes_at m v bs" "length bs < 2 ^ 31" "0 < nat (address_cells p) + nat (size_cells p)"
    "4 * (nat (address_cells p) + nat (size_cells p)) dvd length bs"
  shows "reg_loop self (Some p) v (v + word_of_nat (length bs)) m g =
    returnO (v + word_of_nat (length bs),
      foldl (pick self) g (ranges (nat (address_cells p)) (nat (size_cells p)) (words_of bs)))"
  using assms
proof (induction bs arbitrary: v g rule: length_induct)
  case (1 bs)
  let ?a = "nat (address_cells p)"
  let ?s = "nat (size_cells p)"
  have sint: "sint (v + word_of_nat (length bs) - v) = int (length bs)" using 1(3) by (intro sint_end) simp
  show ?case
  proof (cases "bs = []")
    case True
    then show ?thesis by (subst reg_loop.simps) (simp add: ranges.simps)
  next
    case False
    obtain k where k: "length bs = 4 * (?a + ?s) * k" using 1(5) by auto
    then have le: "4 * (?a + ?s) \<le> length bs" using False by (cases k) auto
    let ?b = "v + word_of_nat (4 * ?a)"
    let ?rest = "drop (4 * (?a + ?s)) bs"
    have c1: "cells_loop ?a v 0 m = (?b, cells_num 0 (take ?a (words_of bs)))"
      using le by (intro cells_loop_ok [OF 1(2)]) simp
    have "bytes_at m ?b (drop (4 * ?a) bs)" using le by (intro bytes_at_drop [OF 1(2)]) simp
    then have c2: "cells_loop ?s ?b 0 m = (?b + word_of_nat (4 * ?s), cells_num 0 (take ?s (drop ?a (words_of bs))))"
      using le cells_loop_ok [of m ?b "drop (4 * ?a) bs" ?s 0] by (simp add: words_of_drop)
    have v': "?b + word_of_nat (4 * ?s) = v + word_of_nat (4 * (?a + ?s))" by (simp add: algebra_simps)
    have e: "v + word_of_nat (length bs) = v + word_of_nat (4 * (?a + ?s)) + word_of_nat (length ?rest)"
    proof -
      have "word_of_nat (length bs) = (word_of_nat (4 * (?a + ?s) + length ?rest) :: uint64)" using le by simp
      then show ?thesis by (simp only: of_nat_add add.assoc)
    qed
    have ne: "words_of bs \<noteq> []"
      using le 1(4) length_words_of [of bs] by (cases "words_of bs") (auto simp: div_eq_0_iff)
    have "length ?rest < length bs" using 1(4) False by (simp add: length_greater_0_conv [symmetric] del: length_greater_0_conv)
    moreover have "bytes_at m (v + word_of_nat (4 * (?a + ?s))) ?rest" by (rule bytes_at_drop [OF 1(2) le])
    moreover have "4 * (?a + ?s) dvd length ?rest" using 1(5) by (simp add: dvd_diff_nat)
    ultimately have IH: "reg_loop self (Some p) (v + word_of_nat (4 * (?a + ?s)))
        (v + word_of_nat (4 * (?a + ?s)) + word_of_nat (length ?rest)) m g =
      returnO (v + word_of_nat (4 * (?a + ?s)) + word_of_nat (length ?rest),
        foldl (pick self) g (ranges ?a ?s (words_of ?rest)))" for g
      using 1(1) [rule_format, of ?rest "v + word_of_nat (4 * (?a + ?s))" g] 1(3,4) by simp
    have "ranges ?a ?s (words_of bs) = (cells_num 0 (take ?a (words_of bs)), cells_num 0 (take ?s (drop ?a (words_of bs))))
      # ranges ?a ?s (words_of ?rest)"
      using ne 1(4) unfolding words_of_drop by (subst ranges.simps) auto
    moreover have "0 < sint (v + word_of_nat (length bs) - v)" using False sint by simp
    ultimately show ?thesis
      by (simp only: reg_loop_step [OF _ c1 c2] v' IH [folded e] foldl_Cons)
  qed
qed

section \<open>The size of memory\<close>

text \<open>
  What the memory detection computes, on the tree: the ranges of every node whose \<^verbatim>\<open>device_type\<close>
  is \<^verbatim>\<open>memory\<close>, read with the cell counts of its parent, in the order of the tree. The value is
  \<open>None\<close> when such a node has no parent or no \<^verbatim>\<open>reg\<close>, or when its \<^verbatim>\<open>reg\<close> is not a list of pairs.
\<close>

definition note_item :: "string_table \<Rightarrow> int \<times> int \<Rightarrow> fdt_item \<Rightarrow> int \<times> int" where
  "note_item tab c i =
     (if named tab ''#address-cells'' i then sint (hd (words_of (content i))) else fst c,
      if named tab ''#size-cells'' i then sint (hd (words_of (content i))) else snd c)"

definition cells_ok :: "string_table \<Rightarrow> fdt_item \<Rightarrow> bool" where
  "cells_ok tab i \<longleftrightarrow> (named tab ''#address-cells'' i \<or> named tab ''#size-cells'' i \<longrightarrow> 4 \<le> length (content i))"

definition reg_item :: "string_table \<Rightarrow> uint8 list option \<Rightarrow> fdt_item \<Rightarrow> uint8 list option" where
  "reg_item tab r i = (if named tab ''reg'' i then Some (content i) else r)"

definition own_ranges :: "string_table \<Rightarrow> (int \<times> int) option \<Rightarrow> fdt_item list \<Rightarrow> (uint64 \<times> uint64) list option" where
  "own_ranges tab pc its =
     (if \<exists>i \<in> set its. says tab ''device_type'' ''memory'' i then
        (case (pc, foldl (reg_item tab) None its) of
           (Some (a, s), Some bs) \<Rightarrow>
             if 0 < nat a + nat s \<and> 4 * (nat a + nat s) dvd length bs then Some (ranges (nat a) (nat s) (words_of bs)) else None
         | _ \<Rightarrow> None)
      else Some [])"

fun mem_tree :: "string_table \<Rightarrow> (int \<times> int) option \<Rightarrow> int \<times> int \<Rightarrow> fdt_tree \<Rightarrow> ((uint64 \<times> uint64) list \<times> int \<times> int) option"
and mem_trees :: "string_table \<Rightarrow> (int \<times> int) option \<Rightarrow> int \<times> int \<Rightarrow> fdt_tree list \<Rightarrow> (uint64 \<times> uint64) list option" where
  "mem_tree tab pc c Nop_Tree = Some ([], c)"
| "mem_tree tab pc c (Tree nm its ss) =
     (let c' = foldl (note_item tab) c its in
      case (own_ranges tab pc its, mem_trees tab (Some c') (2, 1) ss) of
        (Some rs, Some rs') \<Rightarrow> if \<forall>i \<in> set its. cells_ok tab i then Some (rs @ rs', c') else None
      | _ \<Rightarrow> None)"
| "mem_trees tab pc c [] = Some []"
| "mem_trees tab pc c (t # ts) =
     (case mem_tree tab pc c t of None \<Rightarrow> None
      | Some (rs, c) \<Rightarrow> (case mem_trees tab pc c ts of None \<Rightarrow> None | Some rs' \<Rightarrow> Some (rs @ rs')))"

text \<open>The scan structure records the last \<^verbatim>\<open>reg\<close> property seen.\<close>

definition reg_seen :: "bytes \<Rightarrow> uint8 list option \<Rightarrow> mem_scan \<Rightarrow> bool" where
  "reg_seen m r scan \<longleftrightarrow>
     (case r of None \<Rightarrow> True
      | Some bs \<Rightarrow> ms_reg_value scan \<noteq> 0 \<and> ms_reg_len scan = int (length bs) \<and> length bs < 2 ^ 31 \<and>
          bytes_at m (ms_reg_value scan) bs)"

lemma note_cells_item:
  assumes names: "cstr m (strings + ucast off) (tab off)" and at: "bytes_at m v bs" and ok: "cells_ok tab (Prop_Item off bs)"
  shows "note_cells (strings + ucast off) v m (Fdt_Node p nm ac sc) =
    Fdt_Node p nm (fst (note_item tab (ac, sc) (Prop_Item off bs))) (snd (note_item tab (ac, sc) (Prop_Item off bs)))"
proof -
  have w: "bswap (load32 v m) = hd (words_of bs)" if "4 \<le> length bs"
    by (rule word_at [OF at that]) simp
  have "streq (strings + ucast off) ''#address-cells'' m \<longleftrightarrow> tab off = bytes_of ''#address-cells''"
    "streq (strings + ucast off) ''#size-cells'' m \<longleftrightarrow> tab off = bytes_of ''#size-cells''"
    by (intro streq_cstr [OF names]; simp add: bytes_of_def)+
  with w ok show ?thesis by (auto simp: note_item_def cells_ok_def)
qed

lemma mem_prop_item:
  assumes names: "cstr m (strings + ucast off) (tab off)" and at: "bytes_at m v (pad4 bs @ [0])"
    and len: "length bs < 2 ^ 31" and v: "v \<noteq> 0" and seen: "reg_seen m r scan"
  shows "\<exists>scan'. mem_prop \<lparr>prop_node = n, prop_name = strings + ucast off, prop_value = v, prop_len = int (length bs)\<rparr> m (scan, g) =
      returnO (scan', g) \<and>
    ms_memory scan' = (ms_memory scan \<or> says tab ''device_type'' ''memory'' (Prop_Item off bs)) \<and>
    reg_seen m (reg_item tab r (Prop_Item off bs)) scan'"
proof -
  have s: "streq (strings + ucast off) ''device_type'' m \<longleftrightarrow> tab off = bytes_of ''device_type''"
    "streq (strings + ucast off) ''reg'' m \<longleftrightarrow> tab off = bytes_of ''reg''"
    by (intro streq_cstr [OF names]; simp add: bytes_of_def)+
  have c: "streq v ''memory'' m \<longleftrightarrow> c_string bs = bytes_of ''memory''"
    by (intro streq_content [OF at]) (simp add: bytes_of_def)
  have ne: "bytes_of ''device_type'' \<noteq> bytes_of ''reg''" by (simp add: bytes_of_def)
  have "bytes_at m v bs" using at by (simp add: pad4_def)
  with s c ne len v seen show ?thesis
    by (auto simp: mem_prop_def reg_seen_def reg_item_def split: option.splits)
qed

lemma mem_items:
  assumes "bytes_at m a (concat (map encode_item its) @ [0])" "\<forall>i \<in> set its. item_named m strings tab i"
    "\<forall>i \<in> set its. item_ok i" "\<forall>i \<in> set its. cells_ok tab i"
    "unat a + length (concat (map encode_item its)) < 2 ^ 64" "reg_seen m r scan"
  shows "\<exists>scan' es. visit_items m strings a (Fdt_Node p nm ac sc) its =
      (Fdt_Node p nm (fst (foldl (note_item tab) (ac, sc) its)) (snd (foldl (note_item tab) (ac, sc) its)), es) \<and>
    run_events (mem_cb self) m es (scan, g) = returnO (scan', g) \<and>
    ms_memory scan' = (ms_memory scan \<or> (\<exists>i \<in> set its. says tab ''device_type'' ''memory'' i)) \<and>
    reg_seen m (foldl (reg_item tab) r its) scan'"
  using assms
proof (induction its arbitrary: a ac sc r scan)
  case Nil
  then show ?case by simp
next
  case (Cons i its)
  show ?case
  proof (cases i)
    case Nop_Item
    have "unat (a + 4) = unat a + 4" using Cons.prems(5) Nop_Item by (subst unat_add_noof) simp_all
    then show ?thesis using Cons.IH [of "a + 4" r scan ac sc] Cons.prems Nop_Item
      by (simp add: note_item_def reg_item_def add.assoc)
  next
    case (Prop_Item off bs)
    note sp = item_split [OF Cons.prems(1) [unfolded Prop_Item]]
    let ?b = "a + 12 + word_of_nat (length (pad4 bs))"
    let ?v = "a + 12"
    obtain ac' sc' where c: "note_item tab (ac, sc) i = (ac', sc')" by (cases "note_item tab (ac, sc) i")
    have name: "cstr m (strings + ucast off) (tab off)" using Cons.prems(2) Prop_Item by simp
    have bound: "unat a + 12 + length (pad4 bs) + length (concat (map encode_item its)) < 2 ^ 64"
      using Cons.prems(5) Prop_Item by simp
    have v12: "unat ?v = unat a + 12" using bound by (subst unat_add_noof) simp_all
    then have v0: "?v \<noteq> 0" by (metis add_is_0 unat_0 zero_neq_numeral)
    have "unat (word_of_nat (length (pad4 bs)) :: uint64) = length (pad4 bs)" using bound by (simp add: unat_of_nat)
    then have b: "unat ?b = unat a + 12 + length (pad4 bs)" using bound v12 by (subst unat_add_noof) simp_all
    have bs: "bytes_at m ?v bs" using sp(1) by (simp add: pad4_def)
    have n: "note_cells (strings + ucast off) ?v m (Fdt_Node p nm ac sc) = Fdt_Node p nm ac' sc'"
      using note_cells_item [where tab = tab and off = off, OF name bs, of p nm ac sc] Cons.prems(4) Prop_Item c
      by (simp del: note_cells.simps)
    obtain scan1 where s1: "mem_prop \<lparr>prop_node = Some (Fdt_Node p nm ac' sc'), prop_name = strings + ucast off, prop_value = ?v,
        prop_len = int (length bs)\<rparr> m (scan, g) = returnO (scan1, g)"
      "ms_memory scan1 = (ms_memory scan \<or> says tab ''device_type'' ''memory'' (Prop_Item off bs))"
      "reg_seen m (reg_item tab r (Prop_Item off bs)) scan1"
      using mem_prop_item [where tab = tab and off = off, OF name sp(1) _ v0 Cons.prems(6)] Cons.prems(3) Prop_Item by fastforce
    have cb: "cb_prop (mem_cb self) = Some mem_prop" by (simp add: mem_cb_def)
    obtain scan' es where IH: "visit_items m strings ?b (Fdt_Node p nm ac' sc') its =
        (Fdt_Node p nm (fst (foldl (note_item tab) (ac', sc') its)) (snd (foldl (note_item tab) (ac', sc') its)), es)"
      "run_events (mem_cb self) m es (scan1, g) = returnO (scan', g)"
      "ms_memory scan' = (ms_memory scan1 \<or> (\<exists>i \<in> set its. says tab ''device_type'' ''memory'' i))"
      "reg_seen m (foldl (reg_item tab) (reg_item tab r (Prop_Item off bs)) its) scan'"
      using Cons.IH [OF sp(2) _ _ _ _ s1(3), of ac' sc'] Cons.prems bound b by auto
    show ?thesis
      using IH s1 c n cb unfolding Prop_Item
      by (intro exI [of _ scan'] exI) (auto simp: Let_def call_prop_def)
  qed
qed

lemma mem_done_node:
  assumes seen: "reg_seen m (foldl (reg_item tab) None its) scan"
    and mem: "ms_memory scan = (\<exists>i \<in> set its. says tab ''device_type'' ''memory'' i)"
    and own: "own_ranges tab (map_option (\<lambda>n. (address_cells n, size_cells n)) p) its = Some rs"
  shows "mem_done self (Fdt_Node p nm ac sc) m (scan, g) = returnO (scan, foldl (pick self) g rs)"
proof (cases "ms_memory scan")
  case False
  then show ?thesis using own mem by (auto simp: mem_done_def own_ranges_def Let_def)
next
  case True
  then obtain q bs where q: "p = Some q" "foldl (reg_item tab) None its = Some bs"
    "0 < nat (address_cells q) + nat (size_cells q)" "4 * (nat (address_cells q) + nat (size_cells q)) dvd length bs"
    "rs = ranges (nat (address_cells q)) (nat (size_cells q)) (words_of bs)"
    using own mem by (auto simp: own_ranges_def split: option.splits if_splits)
  have s: "ms_reg_value scan \<noteq> 0" "ms_reg_len scan = int (length bs)" "length bs < 2 ^ 31" "bytes_at m (ms_reg_value scan) bs"
    using seen q(2) by (simp_all add: reg_seen_def)
  have "4 dvd length bs" using q(4) by (rule dvd_mult_left)
  then have d: "int (length bs) smod 4 = 0" "4 * word_of_int (int (length bs) sdiv 4) = (word_of_nat (length bs) :: uint64)"
    by (auto simp: signed_modulo_int_def signed_divide_int_def)
  show ?thesis
    using True s d q reg_loop_ok [OF s(4,3) q(3,4), of self g] by (simp add: mem_done_def Let_def)
qed

lemma mem_cb_steps: "cb_open (mem_cb self) = Some mem_open" "cb_done (mem_cb self) = Some (mem_done self)"
  by (simp_all add: mem_cb_def)

abbreviation cells_of :: "fdt_scan_node \<Rightarrow> int \<times> int" where
  "cells_of n \<equiv> (address_cells n, size_cells n)"

lemma mem_visit:
  "bytes_at m a (encode t) \<Longrightarrow> tree_named m strings tab t \<Longrightarrow> tree_ok t \<Longrightarrow> unat a + length (encode t) < 2 ^ 64 \<Longrightarrow>
     mem_tree tab (map_option cells_of p) (ac, sc) t = Some (rs, c) \<Longrightarrow>
     snd (visit_tree m strings p ac sc a t) = c \<and>
     (\<exists>scan'. run_events (mem_cb self) m (fst (visit_tree m strings p ac sc a t)) (scan, g) = returnO (scan', foldl (pick self) g rs))"
  "bytes_at m a (concat (map encode ts)) \<Longrightarrow> \<forall>t \<in> set ts. tree_named m strings tab t \<Longrightarrow> \<forall>t \<in> set ts. tree_ok t \<Longrightarrow>
     unat a + length (concat (map encode ts)) < 2 ^ 64 \<Longrightarrow>
     mem_trees tab (map_option cells_of p) (ac, sc) ts = Some rs' \<Longrightarrow>
     (\<exists>scan'. run_events (mem_cb self) m (visit_trees m strings p ac sc a ts) (scan, g) = returnO (scan', foldl (pick self) g rs'))"
proof (induction m strings p ac sc a t and m strings p ac sc a ts arbitrary: rs c scan g and rs' scan g
    rule: visit_tree_visit_trees.induct)
  case (1 m strings p ac sc a)
  then show ?case by simp
next
  case (2 m strings p ac sc a nm its ss)
  note sp = tree_split [OF 2(2)]
  let ?b = "a + word_of_nat (4 + length (pad_name nm))"
  let ?l = "length (concat (map encode_item its))"
  obtain ac' sc' where cells: "foldl (note_item tab) (ac, sc) its = (ac', sc')" by fastforce
  let ?n = "Fdt_Node p (a + 4) ac' sc'"
  obtain rs1 rs2 where rs: "own_ranges tab (map_option cells_of p) its = Some rs1"
    "mem_trees tab (map_option cells_of (Some ?n)) (2, 1) ss = Some rs2" "rs = rs1 @ rs2" "c = (ac', sc')"
    "\<forall>i \<in> set its. cells_ok tab i"
    using 2(6) by (auto simp: Let_def cells split: option.splits if_splits)
  have bound: "unat a + (4 + length (pad_name nm)) + ?l + length (concat (map encode ss)) < 2 ^ 64" using 2(5) by simp
  have "unat (word_of_nat (4 + length (pad_name nm)) :: uint64) = 4 + length (pad_name nm)"
    using bound by (simp add: unat_of_nat del: of_nat_add)
  then have b: "unat ?b = unat a + (4 + length (pad_name nm))" using bound by (subst unat_add_noof) simp_all
  have "unat (word_of_nat ?l :: uint64) = ?l" using bound by (simp add: unat_of_nat)
  then have d: "unat (?b + word_of_nat ?l) = unat ?b + ?l" using bound b by (subst unat_add_noof) simp_all
  obtain scan1 es where it: "visit_items m strings ?b (Fdt_Node p (a + 4) ac sc) its = (?n, es)"
    "run_events (mem_cb self) m es (\<lparr>ms_memory = False, ms_reg_value = 0, ms_reg_len = 0\<rparr>, g) = returnO (scan1, g)"
    "ms_memory scan1 = (\<exists>i \<in> set its. says tab ''device_type'' ''memory'' i)"
    "reg_seen m (foldl (reg_item tab) None its) scan1"
    using mem_items [OF sp(1) _ _ rs(5), of strings None "\<lparr>ms_memory = False, ms_reg_value = 0, ms_reg_len = 0\<rparr>" p "a + 4" ac sc self g]
      2(3,4) b bound cells by (auto simp: reg_seen_def)
  obtain scan2 where ss: "run_events (mem_cb self) m (visit_trees m strings (Some ?n) 2 1 (?b + word_of_nat ?l) ss)
      (scan1, foldl (pick self) g rs1) = returnO (scan2, foldl (pick self) (foldl (pick self) g rs1) rs2)"
    using 2(1) [OF refl refl it(1) [symmetric] refl sp(2) _ _ _ rs(2), of scan1 "foldl (pick self) g rs1"] 2(3,4) d b bound by auto
  have vt: "visit_tree m strings p ac sc a (Tree nm its ss) =
    (Ev_Open (Fdt_Node p (a + 4) ac sc) # es @ Ev_Done ?n # visit_trees m strings (Some ?n) 2 1 (?b + word_of_nat ?l) ss, ac', sc')"
    using it(1) by (simp add: Let_def)
  show ?case
    unfolding vt using it ss rs(3,4) mem_done_node [OF it(4,3) rs(1)]
    by (auto simp: run_events_append call_open_def mem_cb_steps mem_open_def call_done_def)
next
  case (3 m strings p ac sc a)
  then show ?case by simp
next
  case (4 m strings p ac sc a t ts)
  obtain rs1 ac' sc' rs2 where rs: "mem_tree tab (map_option cells_of p) (ac, sc) t = Some (rs1, ac', sc')"
    "mem_trees tab (map_option cells_of p) (ac', sc') ts = Some rs2" "rs' = rs1 @ rs2"
    using 4(7) by (auto split: option.splits)
  have bound: "unat a + length (encode t) + length (concat (map encode ts)) < 2 ^ 64" using 4(6) by simp
  have "unat (word_of_nat (length (encode t)) :: uint64) = length (encode t)" using bound by (simp add: unat_of_nat)
  then have b: "unat (a + word_of_nat (length (encode t))) = unat a + length (encode t)" using bound by (subst unat_add_noof) simp_all
  have at: "bytes_at m a (encode t)" "bytes_at m (a + word_of_nat (length (encode t))) (concat (map encode ts))" using 4(3) by simp_all
  obtain es where v: "visit_tree m strings p ac sc a t = (es, ac', sc')"
    using 4(1) [OF at(1) _ _ _ rs(1)] 4(4,5) bound by (cases "visit_tree m strings p ac sc a t") auto
  obtain scan1 where 1: "run_events (mem_cb self) m es (scan, g) = returnO (scan1, foldl (pick self) g rs1)"
    using 4(1) [OF at(1) _ _ _ rs(1), of scan g] 4(4,5) bound v by auto
  have "\<exists>scan'. run_events (mem_cb self) m (visit_trees m strings p ac' sc' (a + word_of_nat (length (encode t))) ts)
      (scan, g) = returnO (scan', foldl (pick self) g rs2)" for scan g
    using 4(2) [OF v [symmetric] refl refl at(2) _ _ _ rs(2)] 4(4,5) bound b by simp
  from this [of scan1 "foldl (pick self) g rs1"] 1 v rs(3) show ?case by (auto simp: run_events_append)
qed

lemma query_mem_tree:
  assumes blob: "blob_at m fdt off_struct off_strings ts"
    and names: "\<forall>t \<in> set ts. tree_named m (fdt + ucast off_strings) tab t"
    and fits: "unat (fdt + ucast off_struct) + length (concat (map encode ts)) < 2 ^ 64"
    and mem: "mem_trees tab None (2, 1) ts = Some rs"
  shows "query_mem self scan fdt m =
    (if foldl (pick self) 0 rs > 0 then returnO (foldl (pick self) 0 rs) else Some (Inl (AssertFail ''g_mem_size > 0'')))"
proof -
  have at: "bytes_at m (fdt + ucast off_struct) (concat (map encode ts))" "\<forall>t \<in> set ts. tree_ok t"
    using blob by (simp_all add: blob_at_def)
  from mem_visit(2) [OF at(1) names at(2) fits, of None 2 1 rs self scan 0] mem show ?thesis
    using fdt_scan_events [OF blob, of "mem_cb self" "(scan, 0)"]
    by (auto simp: query_mem_def mem_cb_def)
qed

text \<open>C11: \<^verbatim>\<open>query_mem\<close> computes the size of the last range, of all ranges of all memory nodes in the
  order of the tree, that contains the kernel code; its assertion fails exactly when there is none
  or that range is empty.\<close>

theorem query_mem_correct:
  assumes blob: "blob_at m fdt off_struct off_strings ts"
    and names: "\<forall>t \<in> set ts. tree_named m (fdt + ucast off_strings) tab t"
    and fits: "unat (fdt + ucast off_struct) + length (concat (map encode ts)) < 2 ^ 64"
    and mem: "mem_trees tab None (2, 1) ts = Some rs"
  shows "query_mem self scan fdt m =
    (if foldl (pick self) 0 rs > 0 then returnO (foldl (pick self) 0 rs) else Some (Inl (AssertFail ''g_mem_size > 0'')))"
  by (rule query_mem_tree [OF assms])

section \<open>A device tree in memory\<close>

text \<open>The device tree of a machine with 128 MB of memory at \<open>0x80000000\<close> and the host interface.\<close>

definition mem_of :: "uint64 \<Rightarrow> uint8 list \<Rightarrow> bytes" where
  "mem_of base bs = (\<lambda>a. if unat (a - base) < length bs then bs ! unat (a - base) else 0)"

lemma bytes_at_mem_of:
  assumes "length pre + length cs < 2 ^ 64"
  shows "bytes_at (mem_of base (pre @ cs @ post)) (base + word_of_nat (length pre)) cs"
  using assms
proof (induction cs arbitrary: pre)
  case (Cons c cs)
  have "unat (word_of_nat (length pre) :: uint64) = length pre" using Cons.prems by (simp add: unat_of_nat)
  then show ?case using Cons.IH [of "pre @ [c]"] Cons.prems by (simp add: mem_of_def nth_append algebra_simps)
qed simp

definition sample_strings :: "uint8 list" where
  "sample_strings = concat (map (\<lambda>s. bytes_of s @ [0]) [''#address-cells'', ''#size-cells'', ''device_type'', ''reg'', ''compatible''])"

definition sample_table :: string_table where
  "sample_table off = c_string (drop (unat off) sample_strings)"

definition sample_tree :: fdt_tree where
  "sample_tree =
     Tree [] [Prop_Item 0 [0, 0, 0, 2], Prop_Item 15 [0, 0, 0, 2]]
       [Tree (bytes_of ''memory@80000000'')
          [Prop_Item 27 (bytes_of ''memory'' @ [0]),
           Prop_Item 39 (be32 0 @ be32 0x80000000 @ be32 0 @ be32 0x8000000)] [],
        Nop_Tree,
        Tree (bytes_of ''htif'') [Prop_Item 43 (bytes_of ''ucb,htif0'' @ [0])] []]"

definition sample_blob :: "uint8 list" where
  "sample_blob =
     be32 FDT_MAGIC @ be32 0 @ be32 40 @ be32 (word_of_nat (44 + length (encode sample_tree))) @ be32 0 @ be32 17 @ be32 16 @
     be32 0 @ be32 0 @ be32 0 @ encode sample_tree @ be32 FDT_END @ sample_strings"

definition sample_memory :: bytes where
  "sample_memory = mem_of 0x1000 sample_blob"

lemma length_sample_tree: "length (encode sample_tree) = 160"
  by code_simp

lemma sample_at:
  assumes "sample_blob = pre @ cs @ post" "length pre = k" "k + length cs < 2 ^ 64"
  shows "bytes_at sample_memory (0x1000 + word_of_nat k) cs"
  using assms bytes_at_mem_of [of pre cs "0x1000" post] by (simp add: sample_memory_def)

lemma sample_blob_at: "blob_at sample_memory 0x1000 40 204 [sample_tree]"
  unfolding blob_at_def
proof (intro conjI exI [of _ 16])
  show "bytes_at sample_memory 0x1000 (be32 FDT_MAGIC)"
    using sample_at [of "[]" "be32 FDT_MAGIC"] by (simp add: sample_blob_def)
  show "bytes_at sample_memory (0x1000 + 8) (be32 40 @ be32 204)"
    using sample_at [of "be32 FDT_MAGIC @ be32 0" "be32 40 @ be32 204" _ 8]
    by (simp add: sample_blob_def length_sample_tree)
  show "bytes_at sample_memory (0x1000 + 24) (be32 16)"
    using sample_at [of "take 24 sample_blob" "be32 16" _ 24] by (simp add: sample_blob_def)
  show "(16 :: uint32) \<le> FDT_VERSION" by (simp add: FDT_VERSION_def)
  show "\<forall>t \<in> set [sample_tree]. tree_ok t" by (simp add: sample_tree_def bytes_of_def)
  show "bytes_at sample_memory (0x1000 + ucast (40 :: uint32)) (concat (map encode [sample_tree]) @ be32 FDT_END)"
    using sample_at [of "take 40 sample_blob" "encode sample_tree @ be32 FDT_END" _ 40]
    by (simp add: sample_blob_def length_sample_tree)
qed

lemma sample_name:
  assumes "sample_strings = take k sample_strings @ (bytes_of s @ [0]) @ drop n sample_strings" "length (take k sample_strings) = k"
    "k + length s < 1000" "0 \<notin> set (bytes_of s)"
  shows "cstr sample_memory (0x10CC + word_of_nat k) (bytes_of s)"
proof (rule cstr_bytes_at [OF _ assms(4)])
  have "sample_blob = (take 204 sample_blob @ take k sample_strings) @ (bytes_of s @ [0]) @ drop n sample_strings"
    using assms(1) by (simp add: sample_blob_def length_sample_tree)
  moreover have "length (take 204 sample_blob @ take k sample_strings) = 204 + k"
    using assms(2) by (simp add: sample_blob_def length_sample_tree)
  ultimately have "bytes_at sample_memory (0x1000 + word_of_nat (204 + k)) (bytes_of s @ [0])"
    by (rule sample_at) (use assms(3) in \<open>simp add: bytes_of_def\<close>)
  then show "bytes_at sample_memory (0x10CC + word_of_nat k) (bytes_of s @ 0 # [])" by (simp add: add.assoc)
qed

lemma sample_names: "tree_named sample_memory (0x1000 + ucast (204 :: uint32)) sample_table sample_tree"
proof -
  have "cstr sample_memory (0x10CC + word_of_nat 0) (bytes_of ''#address-cells'')"
    by (rule sample_name [where n = 15]) code_simp+
  moreover have "cstr sample_memory (0x10CC + word_of_nat 15) (bytes_of ''#size-cells'')"
    by (rule sample_name [where n = 27]) code_simp+
  moreover have "cstr sample_memory (0x10CC + word_of_nat 27) (bytes_of ''device_type'')"
    by (rule sample_name [where n = 39]) code_simp+
  moreover have "cstr sample_memory (0x10CC + word_of_nat 39) (bytes_of ''reg'')"
    by (rule sample_name [where n = 43]) code_simp+
  moreover have "cstr sample_memory (0x10CC + word_of_nat 43) (bytes_of ''compatible'')"
    by (rule sample_name [where n = 54]) code_simp+
  moreover have "sample_table 0 = bytes_of ''#address-cells''" "sample_table 15 = bytes_of ''#size-cells''"
    "sample_table 27 = bytes_of ''device_type''" "sample_table 39 = bytes_of ''reg''" "sample_table 43 = bytes_of ''compatible''"
    by code_simp+
  ultimately show ?thesis by (simp add: sample_tree_def)
qed

theorem query_mem_correct_witness:
  "query_mem 0x80001000 \<lparr>ms_memory = True, ms_reg_value = 8, ms_reg_len = 16\<rparr> 0x1000 sample_memory = returnO 0x8000000"
proof -
  have rs: "mem_trees sample_table None (2, 1) [sample_tree] = Some [(0x80000000, 0x8000000)]" by code_simp
  have "foldl (pick 0x80001000) 0 [(0x80000000, 0x8000000)] = 0x8000000" by (simp add: pick_def)
  with query_mem_correct [OF sample_blob_at _ _ rs] sample_names show ?thesis by (simp add: length_sample_tree)
qed

lemma query_htif_correct_witness: "query_htif True 0x1000 sample_memory 0 = returnO 1"
proof -
  have "has_htif sample_table sample_tree" by code_simp
  with query_htif_correct [OF sample_blob_at, of sample_table True 0] sample_names show ?thesis by simp
qed

theorem fdt_scan_visits_witness:
  "fdt_scan 0x1000 htif_cb sample_memory (False, 0) =
    bindO (run_events htif_cb sample_memory (visit_trees sample_memory (0x1000 + ucast (204 :: uint32)) None 2 1 (0x1000 + ucast (40 :: uint32)) [sample_tree]) (False, 0))
      (\<lambda>x. returnO (sample_memory, x))"
  by (rule fdt_scan_visits [OF sample_blob_at]) (simp add: htif_cb_def)

end
