(* ===== verification/Pke_Machine_Thms.thy ===== *)
theory Pke_Machine_Thms
  imports Pke_Machine Pke_Fdt_Query Pke_File_Thms Pke_Strap_Thms
begin

text \<open>
  What the start of the machine leaves behind and what machine-mode traps do, down to the
  supervisor trap that a timer tick causes.
\<close>

section \<open>Bits of the control registers\<close>

lemma bit_csr_put: "bit (csr_put wr v old) n \<longleftrightarrow> (if bit wr n then bit v n else bit old n)"
proof -
  have "bit old n \<Longrightarrow> n < 64" using bit_imp_le_length [of old n] by simp
  then show ?thesis by (auto simp: csr_put_def bit_and_iff bit_or_iff bit_not_iff)
qed

lemma bit_single: "bit (push_bit k 1 :: uint64) n \<longleftrightarrow> n = k \<and> k < 64"
  by (auto simp: bit_simps)

lemma bit_mpp_mask: "bit MSTATUS_MPP_MASK n \<longleftrightarrow> n = 11 \<or> n = 12"
proof -
  have m: "MSTATUS_MPP_MASK = push_bit 11 1 OR push_bit 12 1" by (simp add: MSTATUS_MPP_MASK_def)
  show ?thesis unfolding m by (simp only: bit_or_iff bit_single) simp
qed

lemma masked_eq:
  fixes w m v :: "'a::len word"
  assumes "\<And>n. bit v n \<Longrightarrow> bit m n"
  shows "w AND m = v \<longleftrightarrow> (\<forall>n. bit m n \<longrightarrow> bit w n = bit v n)"
  unfolding bit_eq_iff bit_and_iff using assms by (metis bit_imp_possible_bit)

lemma mpp_bits: "mpp st = (if bit st 11 then if bit st 12 then Machine else Supervisor else User)"
proof -
  have s: "bit MSTATUS_MPP_S n \<longleftrightarrow> n = 11" for n unfolding MSTATUS_MPP_S_def bit_single by simp
  have m: "bit MSTATUS_MPP_M n \<longleftrightarrow> n = 11 \<or> n = 12" for n
    unfolding MSTATUS_MPP_M_def MSTATUS_MPP_MASK_def [symmetric] by (rule bit_mpp_mask)
  have "st AND MSTATUS_MPP_MASK = MSTATUS_MPP_M \<longleftrightarrow> bit st 11 \<and> bit st 12"
    by (subst masked_eq) (auto simp: bit_mpp_mask m)
  moreover have "st AND MSTATUS_MPP_MASK = MSTATUS_MPP_S \<longleftrightarrow> bit st 11 \<and> \<not> bit st 12"
    by (subst masked_eq) (auto simp: bit_mpp_mask s)
  ultimately show ?thesis by (auto simp: mpp_def)
qed

section \<open>The start\<close>

text \<open>
  The harts that the start is written for: supervisor mode exists, the delegation registers have the
  bits that are asked for and no others are stuck at one, the fields of \<^verbatim>\<open>mstatus\<close> and \<^verbatim>\<open>mie\<close> that are
  set can be written, and \<^verbatim>\<open>mepc\<close> can hold the address of \<^verbatim>\<open>s_start\<close>.
\<close>

definition hart_ok :: "hart_impl \<Rightarrow> boot_image \<Rightarrow> csrs \<Rightarrow> bool" where
  "hart_ok H I c \<longleftrightarrow>
     bit (misa c) 18 \<and> bit (wr_mstatus H) 11 \<and> bit (wr_mstatus H) 12 \<and>
     (\<forall>n \<in> {1, 5, 9}. bit (wr_mideleg H) n \<and> bit (wr_mie H) n) \<and> bit (wr_mie H) 7 \<and>
     (\<forall>n \<in> {0, 3, 8, 12, 13, 15}. bit (wr_medeleg H) n) \<and>
     mideleg c AND NOT (wr_mideleg H) = 0 \<and> medeleg c AND NOT (wr_medeleg H) = 0 \<and>
     csr_put (wr_mepc H) (at_s_start I) (mepc c) = at_s_start I"

lemma supports_S: "supports_extension CHR ''S'' c \<longleftrightarrow> bit (misa c) 18"
proof -
  have "misa c AND push_bit 18 1 \<noteq> 0 \<longleftrightarrow> bit (misa c) 18"
    by (simp only: and_exp_eq_0_iff_not_bit push_bit_eq_mult mult_1 simp_thms)
  then show ?thesis by (simp add: supports_extension_def)
qed

lemma bit_interrupts: "bit (MIP_SSIP OR MIP_STIP OR MIP_SEIP) n \<longleftrightarrow> n \<in> {1, 5, 9}"
  by (simp only: machine_fields bit_or_iff bit_single) auto

definition m_exceptions :: uint64 where
  "m_exceptions = push_bit (unat CAUSE_MISALIGNED_FETCH) 1 OR push_bit (unat CAUSE_FETCH_PAGE_FAULT) 1 OR
     push_bit (unat CAUSE_BREAKPOINT) 1 OR push_bit (unat CAUSE_LOAD_PAGE_FAULT) 1 OR
     push_bit (unat CAUSE_STORE_PAGE_FAULT) 1 OR push_bit (unat CAUSE_USER_ECALL) 1"

lemma bit_exceptions: "bit m_exceptions n \<longleftrightarrow> n \<in> {0, 3, 8, 12, 13, 15}"
  unfolding m_exceptions_def bit_or_iff bit_single by (auto simp: cause_numbers)

lemma csr_put_exact:
  assumes "\<And>n. bit v n \<Longrightarrow> bit wr n" and "old AND NOT wr = 0"
  shows "csr_put wr v old = v"
proof (rule bit_eqI)
  fix n assume "possible_bit TYPE(uint64) n"
  then have "n < 64" by simp
  moreover have "\<not> bit (old AND NOT wr) n" using assms(2) by simp
  ultimately show "bit (csr_put wr v old) n = bit v n"
    using assms(1) by (auto simp: bit_csr_put bit_and_iff bit_not_iff)
qed

lemma delegation:
  assumes "hart_ok H I c"
  shows "delegate_traps H c = c\<lparr>mideleg := MIP_SSIP OR MIP_STIP OR MIP_SEIP, medeleg := m_exceptions\<rparr>"
proof -
  have "csr_put (wr_mideleg H) (MIP_SSIP OR MIP_STIP OR MIP_SEIP) (mideleg c) = MIP_SSIP OR MIP_STIP OR MIP_SEIP"
    "csr_put (wr_medeleg H) m_exceptions (medeleg c) = m_exceptions"
    using assms by (auto intro!: csr_put_exact simp: hart_ok_def bit_interrupts bit_exceptions)
  then show ?thesis using assms by (simp add: delegate_traps_def hart_ok_def supports_S m_exceptions_def)
qed

lemma hart_ok_transfer:
  "misa c' = misa c \<Longrightarrow> mideleg c' = mideleg c \<Longrightarrow> medeleg c' = medeleg c \<Longrightarrow>
   csr_put (wr_mepc H) (at_s_start I) (mepc c') = at_s_start I \<Longrightarrow> hart_ok H I c \<Longrightarrow> hart_ok H I c'"
  by (simp add: hart_ok_def)

lemma csr_put_twice: "csr_put wr v (csr_put wr u old) = csr_put wr v old"
  by (rule bit_eqI) (simp add: bit_csr_put)

text \<open>The control registers after the start, up to \<^verbatim>\<open>mret\<close>.\<close>

lemma start_csrs:
  assumes "hart_ok H I c"
  defines "d \<equiv> m_start_csrs H I c"
  shows "mepc d = at_s_start I" and "mscratch d = at_g_itrframe I"
    and "mtvec d = csr_put (wr_mtvec H) (at_mtrapvec I) (mtvec c)"
    and "bit (mideleg d) n \<longleftrightarrow> n \<in> {1, 5, 9}" and "bit (medeleg d) n \<longleftrightarrow> n \<in> {0, 3, 8, 12, 13, 15}"
    and "mpp (mstatus d) = Supervisor" and "n \<in> {1, 5, 9} \<Longrightarrow> bit (mie d) n"
    and "mip d = mip c" and "mcause d = mcause c"
proof -
  define st where "st = csr_put (wr_mstatus H) ((mstatus c AND NOT MSTATUS_MPP_MASK) OR MSTATUS_MPP_S) (mstatus c)"
  define c1 where "c1 = c\<lparr>mscratch := at_g_itrframe I, mepc := at_s_start I,
    mtvec := csr_put (wr_mtvec H) (at_mtrapvec I) (mtvec c), mstatus := csr_put (wr_mstatus H) (st OR MSTATUS_MIE) st\<rparr>"
  have p: "csr_put (wr_mepc H) (at_s_start I) (mepc c) = at_s_start I" using assms(1) by (simp add: hart_ok_def)
  have "csr_put (wr_mepc H) (at_s_start I) (at_s_start I) = at_s_start I"
    by (rule bit_eqI) (simp add: bit_csr_put)
  then have "hart_ok H I c1" using assms(1) by (intro hart_ok_transfer [OF _ _ _ _ assms(1)]) (simp_all add: c1_def)
  note dl = delegation [OF this]
  have d: "d = write_sie H (read_sie (delegate_traps H c1) OR SIE_SEIE OR SIE_STIE OR SIE_SSIE) (delegate_traps H c1)"
    unfolding d_def m_start_csrs_def c1_def st_def by (simp add: p Let_def)
  show "mepc d = at_s_start I" "mscratch d = at_g_itrframe I"
    "mtvec d = csr_put (wr_mtvec H) (at_mtrapvec I) (mtvec c)" "mip d = mip c" "mcause d = mcause c"
    unfolding d dl by (simp_all add: write_sie_def c1_def)
  have ms: "mstatus d = csr_put (wr_mstatus H) (st OR MSTATUS_MIE) st" unfolding d dl by (simp add: write_sie_def c1_def)
  have dg: "mideleg d = MIP_SSIP OR MIP_STIP OR MIP_SEIP" "medeleg d = m_exceptions"
    unfolding d dl by (simp_all add: write_sie_def)
  show "bit (mideleg d) n \<longleftrightarrow> n \<in> {1, 5, 9}" unfolding dg by (rule bit_interrupts)
  show "bit (medeleg d) n \<longleftrightarrow> n \<in> {0, 3, 8, 12, 13, 15}" unfolding dg by (rule bit_exceptions)
  have b: "bit MSTATUS_MPP_S k \<longleftrightarrow> k = 11" "bit MSTATUS_MIE k \<longleftrightarrow> k = 3" for k
    by (simp_all only: MSTATUS_MPP_S_def MSTATUS_MIE_def bit_single) simp_all
  show "mpp (mstatus d) = Supervisor"
    using assms(1) by (simp add: ms st_def mpp_bits bit_csr_put bit_or_iff bit_and_iff bit_not_iff bit_mpp_mask b hart_ok_def)
  show "bit (mie d) n" if "n \<in> {1, 5, 9}"
  proof -
    have "bit (SIE_SEIE OR SIE_STIE OR SIE_SSIE) n" using that by (simp only: machine_fields bit_or_iff bit_single) auto
    then have "bit (read_sie (delegate_traps H c1) OR SIE_SEIE OR SIE_STIE OR SIE_SSIE) n" by (simp add: bit_or_iff)
    moreover have "bit (wr_mie H) n" using that assms(1) by (auto simp: hart_ok_def)
    ultimately show ?thesis
      using that bit_interrupts [of n] by (simp add: d dl write_sie_def bit_csr_put bit_and_iff)
  qed
qed

lemma timerinit_csrs:
  "m_csrs (timerinit H h s) = (m_csrs s)\<lparr>mie := csr_put (wr_mie H) (mie (m_csrs s) OR MIE_MTIE) (mie (m_csrs s))\<rparr>"
  by (simp add: timerinit_def Let_def)

lemma timerinit_keeps [simp]:
  "m_priv (timerinit H h s) = m_priv s" "m_files (timerinit H h s) = m_files s"
  "m_htif (timerinit H h s) = m_htif s" "m_mem_size (timerinit H h s) = m_mem_size s"
  "m_clint (timerinit H h s) = (m_clint s)(CLINT_MTIMECMP h := m_clint s CLINT_MTIME + TIMER_INTERVAL)"
  by (simp_all add: timerinit_def Let_def)

lemma mret_simps [simp]:
  "m_priv (mret s) = mpp (mstatus (m_csrs s))" "m_pc (mret s) = mepc (m_csrs s)" "m_files (mret s) = m_files s"
  "m_htif (mret s) = m_htif s" "m_mem_size (mret s) = m_mem_size s" "m_clint (mret s) = m_clint s"
  "mie (m_csrs (mret s)) = mie (m_csrs s)" "mideleg (m_csrs (mret s)) = mideleg (m_csrs s)"
  "medeleg (m_csrs (mret s)) = medeleg (m_csrs s)" "mscratch (m_csrs (mret s)) = mscratch (m_csrs s)"
  "mip (m_csrs (mret s)) = mip (m_csrs s)" "mtvec (m_csrs (mret s)) = mtvec (m_csrs s)"
  by (simp_all add: mret_def Let_def)

text \<open>C14: On a machine with supervisor mode and a device tree whose memory node covers the kernel, \<^verbatim>\<open>m_start\<close>
  ends in supervisor mode at \<^verbatim>\<open>s_start\<close> with the standard streams open, the size of memory and the presence
  of the host interface found, page faults, breakpoints, misaligned fetches and system calls delegated (and no
  other exception), the three supervisor interrupts delegated and enabled, the machine timer enabled and its
  deadline \<^verbatim>\<open>TIMER_INTERVAL\<close> ahead.\<close>

theorem m_start_enters_supervisor:
  assumes at: "atomics_ok (he_at E)"
    and files: "spike_files (m_files s) = spike_files_init" "spike_fds (m_files s) = replicate MAX_FDS None"
    and hart: "hart_ok H I (m_csrs s)"
    and blob: "blob_at (hmem (ft_io (m_files s))) dtb off_struct off_strings ts"
    and names: "\<forall>t \<in> set ts. tree_named (hmem (ft_io (m_files s))) (dtb + ucast off_strings) tab t"
    and fits: "unat (dtb + ucast off_struct) + length (concat (map encode ts)) < 2 ^ 64"
    and mem: "mem_trees tab None (2, 1) ts = Some rs" "foldl (pick (at_mem_done I)) 0 rs > 0"
  shows "\<exists>s'. m_start E H I hartid dtb s = returnO s' \<and> m_priv s' = Supervisor \<and> m_pc s' = at_s_start I \<and>
    m_mem_size s' = foldl (pick (at_mem_done I)) 0 rs \<and>
    m_htif s' = (if \<exists>t \<in> set ts. has_htif tab t then 1 else m_htif s) \<and>
    spike_files (m_files s') = std_files 3 \<and> spike_fds (m_files s') = std_fds 3 \<and>
    (\<forall>n. bit (medeleg (m_csrs s')) n \<longleftrightarrow> n \<in> {0, 3, 8, 12, 13, 15}) \<and>
    (\<forall>n. bit (mideleg (m_csrs s')) n \<longleftrightarrow> n \<in> {1, 5, 9}) \<and> (\<forall>n \<in> {1, 5, 7, 9}. bit (mie (m_csrs s')) n) \<and>
    mscratch (m_csrs s') = at_g_itrframe I \<and>
    m_clint s' (CLINT_MTIMECMP hartid) = m_clint s CLINT_MTIME + TIMER_INTERVAL"
proof -
  define s1 where "s1 = s\<lparr>m_files := (m_files s)\<lparr>spike_files := std_files 3, spike_fds := std_fds 3\<rparr>,
    m_htif := (if \<exists>t \<in> set ts. has_htif tab t then 1 else m_htif s), m_mem_size := foldl (pick (at_mem_done I)) 0 rs\<rparr>"
  define s2 where "s2 = timerinit H hartid (s1\<lparr>m_csrs := m_start_csrs H I (m_csrs s)\<rparr>)"
  have "m_start E H I hartid dtb s = returnO (mret s2)"
    using spike_file_init_correct [OF at files] query_htif_correct [OF blob names, of "raw_compat I" "m_htif s"]
      query_mem_tree [OF blob names fits mem(1), of "at_mem_done I" "raw_scan I"] mem(2)
    by (simp add: m_start_def init_dtb_def s1_def s2_def Let_def)
  moreover note sc = start_csrs [OF hart]
  have "bit MIE_MTIE n \<longleftrightarrow> n = 7" for n by (simp only: MIE_MTIE_def bit_single) simp
  then have "bit (mie (m_csrs s2)) n" if "n \<in> {1, 5, 7, 9}" for n
    using that sc(7) [of n] hart by (auto simp: s2_def timerinit_csrs bit_csr_put bit_or_iff hart_ok_def)
  ultimately show ?thesis
    using sc(1-6) by (simp add: s2_def s1_def timerinit_csrs)
qed

section \<open>Traps\<close>

lemma bit_ssip: "bit MIP_SSIP n \<longleftrightarrow> n = 1" "bit SIP_SSIP n \<longleftrightarrow> n = 1"
  by (simp_all only: machine_fields bit_single) simp_all

lemma write_sip_ssip:
  "write_sip SIP_SSIP c = c\<lparr>mip := (if bit (mideleg c) 1 then mip c OR MIP_SSIP else mip c)\<rparr>"
proof -
  have "csr_put (MIP_SSIP AND mideleg c) SIP_SSIP (mip c) = (if bit (mideleg c) 1 then mip c OR MIP_SSIP else mip c)"
    by (rule bit_eqI) (auto simp: bit_csr_put bit_and_iff bit_or_iff bit_ssip)
  then show ?thesis by (simp add: write_sip_def)
qed


text \<open>\<^verbatim>\<open>handle_mtrap\<close> returns exactly for the machine timer interrupt, with the deadline of hart 0 moved on by
  \<^verbatim>\<open>TIMER_INTERVAL\<close> and, where it is delegated, the supervisor software interrupt posted; access faults, misaligned
  accesses, illegal instructions and every other cause panic, each with its message.\<close>

lemma handle_mtrap_returns_iff:
  "case handle_mtrap s of
     Inr s' \<Rightarrow> mcause (m_csrs s) = CAUSE_MTIMER \<and>
       m_clint s' = (m_clint s)(CLINT_MTIMECMP 0 := m_clint s (CLINT_MTIMECMP 0) + TIMER_INTERVAL) \<and>
       m_csrs s' = (m_csrs s)\<lparr>mip := (if bit (mideleg (m_csrs s)) 1 then mip (m_csrs s) OR MIP_SSIP else mip (m_csrs s))\<rparr>
   | Inl e \<Rightarrow> mcause (m_csrs s) \<noteq> CAUSE_MTIMER \<and>
       (\<exists>msg. e = Panic msg \<and>
         (mcause (m_csrs s) = CAUSE_FETCH_ACCESS \<longrightarrow> msg = ''Instruction access fault!'') \<and>
         (mcause (m_csrs s) = CAUSE_LOAD_ACCESS \<longrightarrow> msg = ''Load access fault!'') \<and>
         (mcause (m_csrs s) = CAUSE_STORE_ACCESS \<longrightarrow> msg = ''Store/AMO access fault!'') \<and>
         (mcause (m_csrs s) = CAUSE_MISALIGNED_LOAD \<longrightarrow> msg = ''Misaligned Load!'') \<and>
         (mcause (m_csrs s) = CAUSE_MISALIGNED_STORE \<longrightarrow> msg = ''Misaligned AMO!''))"
proof (cases "mcause (m_csrs s) = CAUSE_MTIMER")
  case True
  then show ?thesis by (simp add: handle_mtrap_def handle_timer_def write_sip_ssip Let_def)
next
  case False
  then show ?thesis
    by (simp add: handle_mtrap_def handle_instruction_access_fault_def handle_load_access_fault_def
        handle_store_access_fault_def handle_misaligned_load_def handle_misaligned_store_def cause_numbers Let_def)
qed

text \<open>
  The interrupt that a hart below machine mode takes in supervisor mode, by the priority of the architecture
  (external, software, timer), as the value of \<^verbatim>\<open>scause\<close>; the line of the machine timer is raised while the clock
  has reached the deadline.
\<close>

definition supervisor_irq :: "csrs \<Rightarrow> uint64 option" where
  "supervisor_irq c =
     (let p = read_sip c AND read_sie c in
      if bit p 9 then Some 0x8000000000000009
      else if bit p 1 then Some 0x8000000000000001
      else if bit p 5 then Some 0x8000000000000005 else None)"

definition timer_line :: "'d machine \<Rightarrow> bool" where
  "timer_line s \<longleftrightarrow> m_clint s (CLINT_MTIMECMP 0) \<le> m_clint s CLINT_MTIME"

lemma mtime_not_cmp: "CLINT_MTIME \<noteq> CLINT_MTIMECMP 0"
  by (simp add: CLINT_MTIME_def CLINT_MTIMECMP_def CLINT_def)

lemma tick_deadline:
  "m_clint ((handle_timer ^^ n) s) = (m_clint s)(CLINT_MTIMECMP 0 := m_clint s (CLINT_MTIMECMP 0) + of_nat n * TIMER_INTERVAL)"
  by (induction n) (auto simp: handle_timer_def Let_def algebra_simps)

text \<open>The timer does not drift: after \<open>n\<close> ticks the deadline is \<open>n\<close> intervals after the first one, however late
  each tick was served, and the clock is untouched. A tick served before the next deadline lowers the line; one
  served later leaves it raised, so that the missed tick follows at once.\<close>

lemma timer_does_not_drift:
  assumes "unat (m_clint s (CLINT_MTIMECMP 0)) + n * 1000000 < 2 ^ 64"
  shows "unat (m_clint ((handle_timer ^^ n) s) (CLINT_MTIMECMP 0)) = unat (m_clint s (CLINT_MTIMECMP 0)) + n * 1000000 \<and>
    m_clint ((handle_timer ^^ n) s) CLINT_MTIME = m_clint s CLINT_MTIME \<and>
    (timer_line ((handle_timer ^^ n) s) \<longleftrightarrow>
       unat (m_clint s (CLINT_MTIMECMP 0)) + n * 1000000 \<le> unat (m_clint s CLINT_MTIME))"
proof -
  have "unat (of_nat n * TIMER_INTERVAL) = n * 1000000"
    using assms by (simp add: TIMER_INTERVAL_def unat_word_ariths unat_of_nat)
  then have "unat (m_clint s (CLINT_MTIMECMP 0) + of_nat n * TIMER_INTERVAL) = unat (m_clint s (CLINT_MTIMECMP 0)) + n * 1000000"
    using assms by (simp add: unat_add_noof)
  then show ?thesis using mtime_not_cmp by (simp add: tick_deadline timer_line_def word_le_nat_alt)
qed

text \<open>C33: One tick stops the machine: on a hart as \<^verbatim>\<open>m_start\<close> leaves it, \<^verbatim>\<open>handle_mtrap\<close> of the machine timer posts
  the supervisor software interrupt, which the hart takes with the cause that \<^verbatim>\<open>smode_trap_handler\<close> knows as the
  timer trap, and that handler panics, whatever process was running.\<close>

theorem first_tick_panics:
  assumes "mcause (m_csrs s) = CAUSE_MTIMER" "bit (mideleg (m_csrs s)) 1" "bit (mie (m_csrs s)) 1" "\<not> bit (mip (m_csrs s)) 9"
  shows "\<exists>s' cause. handle_mtrap s = Inr s' \<and> supervisor_irq (m_csrs s') = Some cause \<and>
    (\<forall>k i x. user_trap cause i k \<longrightarrow> smode_trap_handler x k =
      Fails (Panic ''lab1_3: increase g_ticks by one, and clear SIP field in sip register.''))"
proof -
  have "supervisor_irq (m_csrs (handle_timer s)) = Some CAUSE_MTIMER_S_TRAP"
    using assms(2-4) by (simp add: supervisor_irq_def handle_timer_def write_sip_ssip read_sip_def read_sie_def Let_def
        bit_and_iff bit_or_iff bit_ssip CAUSE_MTIMER_S_TRAP_def)
  moreover have "smode_trap_handler x k = Fails (Panic ''lab1_3: increase g_ticks by one, and clear SIP field in sip register.'')"
    if "user_trap CAUSE_MTIMER_S_TRAP i k" for k i x
    using that by (simp add: user_trap_def smode_trap_handler_def cur_proc_ok tf_upd_ok Let_def cause_defs handle_mtimer_trap_def)
  ultimately show ?thesis using assms(1) by (auto simp: handle_mtrap_def)
qed

section \<open>A machine\<close>

definition spike_hart :: hart_impl where
  "spike_hart = \<lparr>wr_mideleg = 0x222, wr_medeleg = 0xB3FF, wr_mie = 0xAAA, wr_mstatus = 0x7E79AA, wr_mepc = NOT 1, wr_mtvec = NOT 2\<rparr>"

definition spike_image :: boot_image where
  "spike_image = \<lparr>at_s_start = 0x80002000, at_mtrapvec = 0x80003000, at_g_itrframe = 0x80008000, at_mem_done = 0x80001000,
     raw_compat = True, raw_scan = \<lparr>ms_memory = True, ms_reg_value = 8, ms_reg_len = 16\<rparr>\<rparr>"

definition reset_machine :: "nat machine" where
  "reset_machine = \<lparr>m_csrs = \<lparr>misa = 0x40000, mideleg = 0, medeleg = 0, mie = 0, mip = 0, mstatus = 0, mepc = 0, mtvec = 0, mscratch = 0, mcause = 0\<rparr>,
     m_clint = (\<lambda>a. if a = CLINT_MTIME then 500 else 0), m_priv = Machine, m_pc = 0x80000000,
     m_files = boot_table\<lparr>ft_io := idle_io\<lparr>hmem := sample_memory\<rparr>\<rparr>, m_htif = 0, m_mem_size = 0\<rparr>"

lemma reset_hart: "hart_ok spike_hart spike_image (m_csrs reset_machine)"
  by (simp add: hart_ok_def spike_hart_def spike_image_def reset_machine_def csr_put_def)

theorem m_start_enters_supervisor_witness:
  "\<exists>s'. m_start slow_env spike_hart spike_image 0 0x1000 reset_machine = returnO s' \<and> m_priv s' = Supervisor \<and>
     m_pc s' = 0x80002000 \<and> m_mem_size s' = 0x8000000 \<and> m_htif s' = 1 \<and> m_clint s' (CLINT_MTIMECMP 0) = 1000500"
proof -
  have rs: "mem_trees sample_table None (2, 1) [sample_tree] = Some [(0x80000000, 0x8000000)]" by code_simp
  have p: "foldl (pick (at_mem_done spike_image)) 0 [(0x80000000, 0x8000000)] = 0x8000000"
    by (simp add: pick_def spike_image_def)
  have h: "has_htif sample_table sample_tree" by code_simp
  have f: "hmem (ft_io (m_files reset_machine)) = sample_memory" "spike_files (m_files reset_machine) = spike_files_init"
    "spike_fds (m_files reset_machine) = replicate MAX_FDS None" "m_clint reset_machine CLINT_MTIME = 500"
    by (simp_all add: reset_machine_def boot_table_def)
  show ?thesis
    using m_start_enters_supervisor [OF slow_atomics f(2,3) reset_hart, of "0x1000" 40 204 "[sample_tree]" sample_table _ 0]
      sample_blob_at sample_names rs p h f(4)
    by (auto simp: f(1) length_sample_tree spike_image_def TIMER_INTERVAL_def)
qed

definition ticking_machine :: "nat machine" where
  "ticking_machine = reset_machine\<lparr>m_csrs := (m_csrs reset_machine)\<lparr>mcause := CAUSE_MTIMER, mideleg := 0x222, mie := 0x2A2\<rparr>\<rparr>"

lemma handle_mtrap_returns_iff_witness:
  "handle_mtrap (reset_machine\<lparr>m_csrs := (m_csrs reset_machine)\<lparr>mcause := CAUSE_LOAD_ACCESS\<rparr>\<rparr>) = Inl (Panic ''Load access fault!'')"
  using handle_mtrap_returns_iff [of "reset_machine\<lparr>m_csrs := (m_csrs reset_machine)\<lparr>mcause := CAUSE_LOAD_ACCESS\<rparr>\<rparr>"]
  by (auto simp: CAUSE_LOAD_ACCESS_def CAUSE_MTIMER_def split: sum.splits)

lemma timer_does_not_drift_witness:
  "unat (m_clint ((handle_timer ^^ 3) ticking_machine) (CLINT_MTIMECMP 0)) = 3000000 \<and> \<not> timer_line ((handle_timer ^^ 3) ticking_machine)"
  using timer_does_not_drift [of ticking_machine 3]
  by (simp add: ticking_machine_def reset_machine_def mtime_not_cmp [symmetric])

theorem first_tick_panics_witness:
  "\<exists>s' cause. handle_mtrap ticking_machine = Inr s' \<and> supervisor_irq (m_csrs s') = Some cause \<and>
    smode_trap_handler sample_externs (trapping cause 0 0 running_kernel) =
      Fails (Panic ''lab1_3: increase g_ticks by one, and clear SIP field in sip register.'')"
  using first_tick_panics [of ticking_machine] running_trap by (fastforce simp: ticking_machine_def reset_machine_def)

end
