(* ===== verification/Spec2Isabelle.thy ===== *)
theory Spec2Isabelle
  imports Pke_Apps Pke_Stat Pke_Vmspace Pke_Machine_Thms
begin

text \<open>
  \<^bold>\<open>PKE, a RISC-V proxy kernel: a verification development\<close>

  The program (\<^verbatim>\<open>src/work\<close>) is a small operating system kernel for one RISC-V hart that runs on the Spike
  emulator. Machine mode finds the memory and the host interface in the device tree, delegates traps and
  starts the timer; supervisor mode sets up the physical page allocator and the kernel page table, loads one
  ELF program through the host, and schedules processes, which enter the kernel through traps. User programs
  call the kernel through a small library.

  \<^bold>\<open>Theories and the code they model\<close>

  \<^item> \<^verbatim>\<open>Pke_Prelude\<close>: results with errors (\<^verbatim>\<open>res\<close>, \<^verbatim>\<open>bindE\<close>), word and list lemmas, named theorem collections.
    \<^verbatim>\<open>Pke_Outcome\<close>: results of code that may also never end (\<^verbatim>\<open>outcome\<close>, \<^verbatim>\<open>bindO\<close>).
  \<^item> \<^verbatim>\<open>Pke_Riscv\<close>: \<^verbatim>\<open>kernel/riscv.h\<close>, \<^verbatim>\<open>memlayout.h\<close>, \<^verbatim>\<open>config.h\<close>, \<^verbatim>\<open>util/functions.h\<close>.
    \<^verbatim>\<open>Pke_Sync\<close>: \<^verbatim>\<open>kernel/sync_utils.c\<close>, with the spinlock also as a step relation of several harts.
  \<^item> \<^verbatim>\<open>Pke_Ring\<close>, \<^verbatim>\<open>Pke_Buddy\<close>, \<^verbatim>\<open>Pke_Pmm\<close>: \<^verbatim>\<open>kernel/pmm.c\<close>. The list nodes inside the page descriptors are an
    explicit store; \<^verbatim>\<open>pmm\<close> is the record of the globals of the file; a \<^verbatim>\<open>page_t *\<close> is a frame number.
    Invariants and theorems: \<^verbatim>\<open>Pke_Buddy_Inv\<close>, \<^verbatim>\<open>Pke_Frames\<close>, \<^verbatim>\<open>Pke_Pmm_Thms\<close>.
  \<^item> \<^verbatim>\<open>Pke_Vmm\<close>: \<^verbatim>\<open>kernel/vmm.c\<close> on a memory of 64-bit cells; page tables live in that memory. Invariant
    \<^verbatim>\<open>vm_ok\<close> (a tree of distinct owned tables) and theorems: \<^verbatim>\<open>Pke_Vmm_Inv\<close>, \<^verbatim>\<open>Pke_Vmm_Thms\<close>.
  \<^item> \<^verbatim>\<open>Pke_Kstate\<close>, \<^verbatim>\<open>Pke_Sched\<close>, \<^verbatim>\<open>Pke_Process\<close>, \<^verbatim>\<open>Pke_Syscall\<close>, \<^verbatim>\<open>Pke_Strap\<close>: \<^verbatim>\<open>kernel/process.h\<close>, \<^verbatim>\<open>sched.c\<close>,
    \<^verbatim>\<open>process.c\<close>, \<^verbatim>\<open>syscall.c\<close>, \<^verbatim>\<open>strap.c\<close>. A handler returns, resumes a process in user mode or fails (\<^verbatim>\<open>flow\<close>).
    Theorems: \<^verbatim>\<open>Pke_Process_Thms\<close>, \<^verbatim>\<open>Pke_Fork\<close> and \<^verbatim>\<open>Pke_Fork_Thms\<close>, \<^verbatim>\<open>Pke_Syscall_Thms\<close>, \<^verbatim>\<open>Pke_Strap_Thms\<close>.
  \<^item> \<^verbatim>\<open>Pke_Strings\<close>, \<^verbatim>\<open>Pke_Snprintf\<close>: \<^verbatim>\<open>util/string.c\<close>, \<^verbatim>\<open>util/snprintf.c\<close> on a memory of bytes, with their theorems
    in \<^verbatim>\<open>Pke_Strings_Thms\<close>, \<^verbatim>\<open>Pke_Snprintf_Thms\<close>.
  \<^item> \<^verbatim>\<open>Pke_Fdt\<close>: \<^verbatim>\<open>spike_interface/dts_parse.c\<close>, \<^verbatim>\<open>spike_memory.c\<close> and the discovery half of \<^verbatim>\<open>spike_htif.c\<close>.
    \<^verbatim>\<open>Pke_Fdt_Thms\<close> and \<^verbatim>\<open>Pke_Fdt_Query\<close> relate the scan to a data type of device trees and its encoding.
  \<^item> \<^verbatim>\<open>Pke_Htif\<close>, \<^verbatim>\<open>Pke_File\<close>: \<^verbatim>\<open>spike_interface/atomic.h\<close>, the mailbox protocol of \<^verbatim>\<open>spike_htif.c\<close>, \<^verbatim>\<open>spike_utils.c\<close>,
    \<^verbatim>\<open>spike_file.c\<close>; theorems in \<^verbatim>\<open>Pke_File_Thms\<close>. \<^verbatim>\<open>Pke_Stat\<close>: the attributes of a file.
  \<^item> \<^verbatim>\<open>Pke_Elf\<close>: \<^verbatim>\<open>kernel/elf.c\<close>, \<^verbatim>\<open>elf.h\<close>; one segment in \<^verbatim>\<open>Pke_Elf_Thms\<close>, a whole program in \<^verbatim>\<open>Pke_Load\<close>.
  \<^item> \<^verbatim>\<open>Pke_Machine\<close>: \<^verbatim>\<open>kernel/machine/minit.c\<close>, \<^verbatim>\<open>mtrap.c\<close>; theorems in \<^verbatim>\<open>Pke_Machine_Thms\<close>.
  \<^item> \<^verbatim>\<open>Pke_Boot\<close>: \<^verbatim>\<open>kernel/kernel.c\<close>. \<^verbatim>\<open>Pke_User\<close>: \<^verbatim>\<open>user/user_lib.c\<close> and the trap vector. \<^verbatim>\<open>Pke_Vmspace\<close>: the debug
    output of \<^verbatim>\<open>vmm.c\<close>.
  \<^item> \<^verbatim>\<open>Pke_Reach\<close>: the kernel as a state machine under the traps and stores of user programs, with the invariant of the
    scheduler. \<^verbatim>\<open>Pke_Launch\<close>: the first program from the host file to user mode, and what holds ever after.
  \<^item> \<^verbatim>\<open>Pke_Apps\<close>: \<^verbatim>\<open>user/app_semaphore.c\<close>, \<^verbatim>\<open>app_semaphore2.c\<close> as trees of library calls, run on the kernel.

  \<^bold>\<open>What the theorems show\<close>

  \<^item> Memory: \<^verbatim>\<open>pmm_init\<close> establishes the allocator invariant; \<^verbatim>\<open>buddy_alloc\<close> and \<^verbatim>\<open>buddy_free\<close> succeed when they
    should, hand out disjoint blocks and give back exactly their frames; the page cache supplies its 32 pages and
    then deadlocks, and \<^verbatim>\<open>pfree\<close> hands out pages twice or writes beyond its array. \<^verbatim>\<open>map_pages\<close> refines the update
    of a function from addresses to entries; mapping and unmapping act on exactly the pages of the range.
  \<^item> Processes: \<^verbatim>\<open>alloc_process\<close> builds the address space it should; \<^verbatim>\<open>do_fork\<close> refines an abstract fork and
    shares pages copy-on-write; the ready queue is first in, first out; \<^verbatim>\<open>fork\<close> and \<^verbatim>\<open>exit\<close> are followed from the
    environment call back to user mode; faults copy pages, loop or stop the machine, each on its condition.
  \<^item> Strings: every function in closed form; \<^verbatim>\<open>vsnprintf\<close> refines parsing and rendering of a format.
  \<^item> Start: the scan of an encoded device tree is the depth-first walk of the tree, the memory query finds the range
    of the kernel, \<^verbatim>\<open>m_start\<close> enters supervisor mode with the delegation and the timer set; \<^verbatim>\<open>s_start\<close> hangs in
    \<^verbatim>\<open>kern_vm_init\<close>; a timer tick ends in a panic.
  \<^item> Host: a proxied call returns whenever the host answers; the file table stays well formed; opening works on every
    branch, closing does not close; a segment is refused or misplaced in the cases stated.
  \<^item> Running: \<^verbatim>\<open>launch\<close>, the end of \<^verbatim>\<open>s_start\<close>, resumes the first process at the entry point of the ELF file, each segment
    byte for byte in a frame of its own; in every state that user programs can reach from there the scheduler is in
    order, and leaving the processor resumes the next process or shuts down.
  \<^item> Library and applications: what a call returns to the program, of which only 32 bits are the result; and the order in
    which the applications print, which is not the one their semaphores are for.

  \<^bold>\<open>Interfaces\<close>

  The locales state what one component asks of another: \<^verbatim>\<open>free_list\<close> (the rings, for the buddy system),
  \<^verbatim>\<open>frame_allocator\<close> (page allocation), \<^verbatim>\<open>page_map\<close> (page tables as maps), \<^verbatim>\<open>run_queue\<close> (the ready queue), and
  \<^verbatim>\<open>invariant_system\<close> (an invariant of a step relation, interpreted by the spinlock, the kernel and the applications on it).

  \<^bold>\<open>Parameters, bounds and termination\<close>

  Code that is not in the repository is an argument: \<^verbatim>\<open>externs\<close> (linker symbols and the undefined \<^verbatim>\<open>get_page\<close>,
  \<^verbatim>\<open>get_page_ref\<close>), \<^verbatim>\<open>atomics\<close> (the undefined \<^verbatim>\<open>atomic_binop\<close>, \<^verbatim>\<open>atomic_read\<close>, \<^verbatim>\<open>atomic_set\<close>; \<^verbatim>\<open>atomics_ok\<close> states
  what their names promise), the host (a function on the shared state that acts before each poll; \<^verbatim>\<open>host_serves\<close>,
  \<^verbatim>\<open>serves_file\<close>), and the writable bits of the control registers (\<^verbatim>\<open>hart_impl\<close>, \<^verbatim>\<open>hart_ok\<close>). Addresses of stack
  variables and the contents of uninitialised ones are arguments too. Each hypothesis is met by a concrete
  instance in the witness of the theorem that has it.

  Machine integers keep their width. An access outside an array is the error \<^verbatim>\<open>OutOfBounds\<close>, a null pointer
  \<^verbatim>\<open>NullDeref\<close>, a failed assertion or panic is an error with its text. A lock that its own holder waits for is the
  error \<^verbatim>\<open>Spin\<close>. Loops over data that may be malformed (strings, formats, device tree blobs) and polls of the host
  are partial functions with value \<^verbatim>\<open>None\<close> when they do not end; the theorems on them state that they return.
  Bounded loops recurse on the number of rounds the code computes. Only \<^verbatim>\<open>run_queue_apps\<close>, the order in which programs
  print, has fuel, one unit for a process; 3 is enough for each application. The harts are \<^verbatim>\<open>NCPU = 1\<close>, as
  the code configures, except in the step relation of the spinlock.

  The kernel cells and the byte memory are two views of physical memory; \<^verbatim>\<open>sync_page\<close> copies a page that the host
  has written from one to the other. Trap frames and region tables are typed heaps indexed by their address.

  \<^bold>\<open>Not modelled\<close>

  The text that the kernel prints (\<^verbatim>\<open>sprint\<close> is modelled, its calls inside the kernel components are left out, since
  they change no kernel state); the assembly files, except for what the trap vector does to the trap frame; address
  translation caches; the machine code of user programs, of which the kernel sees traps and stores. Trap frames, region
  tables and the process table are not cells of the memory, so a store through a frame that \<^verbatim>\<open>pfree\<close> has handed out
  twice does not reach them; the theorems on \<^verbatim>\<open>pfree\<close> say when a frame is handed out twice.
\<close>

end
